(* ===== verification/BI_Prelude.thy ===== *)
theory BI_Prelude
  imports Main "HOL-Library.Word"
begin

text \<open>
  Shared vocabulary of the development: the types of the C program's machine values, the
  result type that carries a failed \<^verbatim>\<open>assert\<close>, the compile-time constants of
  \<^verbatim>\<open>include/constant.h\<close>, and the generic lemmas (result plumbing, ring-index
  arithmetic, paths through a \<^verbatim>\<open>next\<close> field) on which the component theories rest.
\<close>

section \<open>Machine values\<close>

text \<open>
  Addresses are natural numbers and \<^verbatim>\<open>NULL\<close> is 0; time stamps and the words that the code
  manipulates bitwise stay 64-bit (or 32-bit) words, because their arithmetic wraps.
\<close>

type_synonym addr = nat
type_synonym u8 = "8 word"
type_synonym u32 = "32 word"
type_synonym u64 = "64 word"
type_synonym node_id = nat
type_synonym core_id = nat

abbreviation (input) NULL :: addr where
  "NULL \<equiv> 0"

section \<open>Results of code that may abort\<close>

text \<open>
  A C function whose body contains \<^verbatim>\<open>assert\<close> is modelled as a function into
  \<open>c_error + 'a\<close>: \<open>Inl Assert_fail\<close> is the abort of a failed assertion,
  \<open>Inl Null_deref\<close> a read through a null pointer, \<open>Inl Spins\<close> an endless loop that the code
  enters on purpose, \<open>Inl Out_of_fuel\<close> marks a
  bounded unrolling that was not long enough (each such loop has a lemma that rules it out),
  and \<open>Inr\<close> is the normal return.
\<close>

datatype c_error = Assert_fail | Null_deref | Spins | Out_of_fuel

type_synonym 'a result = "c_error + 'a"

fun bindE :: "'a result \<Rightarrow> ('a \<Rightarrow> 'b result) \<Rightarrow> 'b result" where
  "bindE (Inl e) f = Inl e"
| "bindE (Inr x) f = f x"

definition assertE :: "bool \<Rightarrow> unit result" where
  "assertE b = (if b then Inr () else Inl Assert_fail)"

named_theorems result_simps \<open>inversion of result-valued computations\<close>
named_theorems chain_simps \<open>facts on linked structures\<close>

lemma bindE_eq_Inr [result_simps]: "bindE m f = Inr y \<longleftrightarrow> (\<exists>x. m = Inr x \<and> f x = Inr y)"
  by (cases m) auto

lemma bindE_eq_Inl: "bindE m f = Inl e \<longleftrightarrow> m = Inl e \<or> (\<exists>x. m = Inr x \<and> f x = Inl e)"
  by (cases m) auto

lemma assertE_eq_Inr [result_simps]: "assertE b = Inr u \<longleftrightarrow> b"
  by (simp add: assertE_def)

lemma assertE_True [simp]: "b \<Longrightarrow> assertE b = Inr ()"
  by (simp add: assertE_def)

lemma assertE_False [simp]: "\<not> b \<Longrightarrow> assertE b = Inl Assert_fail"
  by (simp add: assertE_def)

lemma bindE_cong [fundef_cong]:
  "m = m' \<Longrightarrow> (\<And>x. m' = Inr x \<Longrightarrow> f x = f' x) \<Longrightarrow> bindE m f = bindE m' f'"
  by (cases m') auto

text \<open>
  \<open>runs r P\<close>: the computation stops at a failed assertion or ends with a result that satisfies \<open>P\<close>;
  it neither runs out of fuel nor reads through a null pointer.
\<close>

definition runs :: "'a result \<Rightarrow> ('a \<Rightarrow> bool) \<Rightarrow> bool" where
  "runs r P \<longleftrightarrow> (case r of Inl e \<Rightarrow> e = Assert_fail | Inr x \<Rightarrow> P x)"

lemma runs_simps [simp]: "runs (Inr x) P \<longleftrightarrow> P x" "runs (Inl e) P \<longleftrightarrow> e = Assert_fail"
  by (simp_all add: runs_def)

lemma runs_bind: "runs r P \<Longrightarrow> (\<And>x. P x \<Longrightarrow> runs (f x) Q) \<Longrightarrow> runs (bindE r f) Q"
  by (cases r) auto

lemma runs_assert: "(b \<Longrightarrow> runs (f ()) Q) \<Longrightarrow> runs (bindE (assertE b) f) Q"
  by (cases b) auto

lemma runs_mono: "runs r P \<Longrightarrow> (\<And>x. P x \<Longrightarrow> Q x) \<Longrightarrow> runs r Q"
  by (cases r) auto

section \<open>Constants of include/constant.h\<close>

abbreviation CACHE_LINE :: nat where "CACHE_LINE \<equiv> 64"
abbreviation PAGE_SIZE :: nat where "PAGE_SIZE \<equiv> 4096"
abbreviation NUM_NODES :: nat where "NUM_NODES \<equiv> 4"
abbreviation NUM_CORE_PER_NODE :: nat where "NUM_CORE_PER_NODE \<equiv> 18"
abbreviation MAX_MSG_SIZE :: nat where "MAX_MSG_SIZE \<equiv> 256"
abbreviation MSG_NUM :: nat where "MSG_NUM \<equiv> 8"
abbreviation MEM_MGR_OBJ_SZ :: nat where "MEM_MGR_OBJ_SZ \<equiv> 1048576"
abbreviation MEM_MGR_OBJ_NUM :: nat where "MEM_MGR_OBJ_NUM \<equiv> 81920"
abbreviation MAX_QUI_RING_LEN :: nat where "MAX_QUI_RING_LEN \<equiv> 524288"
abbreviation LOCAL_CACHE_QUEUE_SZ :: nat where "LOCAL_CACHE_QUEUE_SZ \<equiv> 4096"
abbreviation GLOBAL_TSC_PERIOD :: nat where "GLOBAL_TSC_PERIOD \<equiv> 500000"
abbreviation QUISE_FLUSH_PERIOD :: nat where "QUISE_FLUSH_PERIOD \<equiv> 2000000"
abbreviation FLUSH_GRACE_PERIOD :: nat where "FLUSH_GRACE_PERIOD \<equiv> 10000000"

section \<open>Ring indices\<close>

text \<open>
  The distance from index \<open>h\<close> to index \<open>t\<close> around a ring of \<open>n\<close> slots, and the list of
  slots it passes.
\<close>

definition ring_dist :: "nat \<Rightarrow> nat \<Rightarrow> nat \<Rightarrow> nat" where
  "ring_dist n h t = (t + n - h) mod n"

definition ring_slots :: "nat \<Rightarrow> nat \<Rightarrow> nat \<Rightarrow> nat list" where
  "ring_slots n h k = map (\<lambda>i. (h + i) mod n) [0..<k]"

lemma ring_slots_0 [simp]: "ring_slots n h 0 = []"
  by (simp add: ring_slots_def)

lemma length_ring_slots [simp]: "length (ring_slots n h k) = k"
  by (simp add: ring_slots_def)

lemma ring_slots_snoc: "ring_slots n h (Suc k) = ring_slots n h k @ [(h + k) mod n]"
  by (simp add: ring_slots_def)

lemma ring_slots_Cons:
  "ring_slots n h (Suc k) = h mod n # ring_slots n ((h + 1) mod n) k"
proof -
  have "[0..<Suc k] = 0 # map Suc [0..<k]"
    by (simp add: map_Suc_upt upt_conv_Cons del: upt_Suc)
  then show ?thesis
    by (simp add: ring_slots_def o_def mod_add_left_eq del: upt_Suc)
qed

lemma ring_dist_less: "0 < n \<Longrightarrow> ring_dist n h t < n"
  by (simp add: ring_dist_def)

lemma ring_dist_self [simp]: "ring_dist n h h = 0"
  by (simp add: ring_dist_def)

lemma ring_dist_eq_0: "h < n \<Longrightarrow> t < n \<Longrightarrow> ring_dist n h t = 0 \<longleftrightarrow> h = t"
  by (cases "h \<le> t") (auto simp: ring_dist_def mod_if)

lemma ring_dist_add: "h < n \<Longrightarrow> k < n \<Longrightarrow> ring_dist n h ((h + k) mod n) = k"
  by (auto simp: ring_dist_def mod_if)

lemma ring_slot_inj:
  assumes "i < n" and "j < (n::nat)"
  shows "(r + i) mod n = (r + j) mod n \<longleftrightarrow> i = j"
proof -
  have "ring_dist n (r mod n) ((r + k) mod n) = k" if "k < n" for k
    using ring_dist_add[of "r mod n" n k] that by (simp add: mod_add_left_eq)
  then show ?thesis using assms by metis
qed

lemma ring_dist_end: "h < n \<Longrightarrow> t < n \<Longrightarrow> (h + ring_dist n h t) mod n = t"
  by (auto simp: ring_dist_def mod_if)

lemma ring_dist_Suc_tail:
  assumes "h < n" and "t < n" and "h \<noteq> (t + 1) mod n"
  shows "ring_dist n h ((t + 1) mod n) = Suc (ring_dist n h t)"
  using assms by (auto simp: ring_dist_def mod_if split: if_splits)

lemma ring_dist_Suc_head:
  assumes "h < n" and "t < n" and "h \<noteq> t"
  shows "Suc (ring_dist n ((h + 1) mod n) t) = ring_dist n h t"
  using assms by (auto simp: ring_dist_def mod_if split: if_splits)

lemma ring_full_iff: "h < n \<Longrightarrow> t < n \<Longrightarrow> h = (t + 1) mod n \<longleftrightarrow> ring_dist n h t = n - 1"
  by (auto simp: ring_dist_def mod_if split: if_splits)

lemma ring_slots_distinct: "k \<le> n \<Longrightarrow> distinct (ring_slots n h k)"
proof -
  assume k: "k \<le> n"
  have no: "(h + x) mod n \<noteq> (h + y) mod n" if "x < y" "y < n" for x y
  proof
    assume "(h + x) mod n = (h + y) mod n"
    then have "n dvd (h + y) - (h + x)"
      using that(1) by (subst (asm) eq_commute) (simp add: mod_eq_dvd_iff_nat)
    then have "n dvd y - x" by simp
    with that show False by (auto dest: dvd_imp_le)
  qed
  have "inj_on (\<lambda>i. (h + i) mod n) {..<k}"
  proof (rule inj_onI)
    fix x y assume "x \<in> {..<k}" "y \<in> {..<k}" "(h + x) mod n = (h + y) mod n"
    with k no[of x y] no[of y x] show "x = y"
      by (cases x y rule: linorder_cases) auto
  qed
  then show ?thesis
    by (simp add: ring_slots_def distinct_map atLeast_upt)
qed

lemma ring_tail_not_in_slots:
  assumes "h < n" and "k < n"
  shows "(h + k) mod n \<notin> set (ring_slots n h k)"
proof -
  have "distinct (ring_slots n h (Suc k))"
    using assms(2) by (intro ring_slots_distinct) simp
  then show ?thesis by (simp add: ring_slots_snoc)
qed

lemma ring_slots_less: "0 < n \<Longrightarrow> s \<in> set (ring_slots n h k) \<Longrightarrow> s < n"
  by (auto simp: ring_slots_def)

text \<open>Two-digit representations are unique.\<close>

lemma radix_inj:
  assumes "c < k" and "c' < (k::nat)"
  shows "n * k + c = n' * k + c' \<longleftrightarrow> n = n' \<and> c = c'"
proof -
  have d: "(n * k + c) div k = n" "(n' * k + c') div k = n'"
    and m: "(n * k + c) mod k = c" "(n' * k + c') mod k = c'" using assms by auto
  show ?thesis using d m by metis
qed

end
