(* ===== verification/Bi_Malloc.thy ===== *)
theory Bi_Malloc
  imports BI_Prelude
begin

text \<open>
  The \<^verbatim>\<open>malloc\<close>-style allocator of \<^verbatim>\<open>libs/mem/bi_malloc.c\<close>: per-lock, per-size-class
  free lists threaded through the block headers, refilled from a bump pointer.

  One call runs from start to end on the state below. The spin locks are kept as state: taking
  a lock that is held never returns in a single thread, which the model reports as
  \<open>Out_of_fuel\<close>, and the invariant shows that it never happens. For the same reason the
  compare-and-swap loops succeed in their first round. Sizes are \<^verbatim>\<open>size_t\<close>, with the
  wrap-around modulo $2^{64}$ written out.
\<close>

section \<open>State\<close>

abbreviation MEM_BLOCK_SIZE :: nat where "MEM_BLOCK_SIZE \<equiv> 65536"
abbreviation MIN_SMALL_SIZE :: nat where "MIN_SMALL_SIZE \<equiv> 64"
abbreviation MAX_SMALL_SIZE :: nat where "MAX_SMALL_SIZE \<equiv> 32768"
abbreviation NUM_FREE_LIST :: nat where "NUM_FREE_LIST \<equiv> 32"
abbreviation ALLOC_T_SZ :: nat where "ALLOC_T_SZ \<equiv> 24"

record alloc_t =
  a_next :: addr
  a_size :: nat
  a_lid :: nat

record malloc_st =
  bump_addr :: addr
  end_addr :: addr
  small_mem :: "nat \<Rightarrow> nat \<Rightarrow> addr"
  small_lock :: "nat \<Rightarrow> nat"
  blk :: "addr \<Rightarrow> alloc_t"

section \<open>Operations\<close>

definition ps_lock_take :: "nat \<Rightarrow> malloc_st \<Rightarrow> malloc_st result" where
  "ps_lock_take l st =
     (if small_lock st l = 0 then Inr (st\<lparr>small_lock := (small_lock st)(l := 1)\<rparr>)
      else Inl Out_of_fuel)"

definition ps_lock_release :: "nat \<Rightarrow> malloc_st \<Rightarrow> malloc_st" where
  "ps_lock_release l st = st\<lparr>small_lock := (small_lock st)(l := 0)\<rparr>"

definition get_lock_id :: "core_id \<Rightarrow> nat" where
  "get_lock_id c = c mod NUM_FREE_LIST"

text \<open>The loop of \<^verbatim>\<open>get_index\<close>: how often a value can be halved before it is 0.\<close>

fun index_loop :: "nat \<Rightarrow> nat" where
  "index_loop s = (if s = 0 then 0 else Suc (index_loop (s div 2)))"

declare index_loop.simps [simp del]

definition get_index :: "nat \<Rightarrow> nat" where
  "get_index sz = index_loop (((sz + (2 ^ 64 - 1)) mod 2 ^ 64 mod MEM_BLOCK_SIZE) div 64)"

definition GET_SIZE :: "nat \<Rightarrow> nat" where
  "GET_SIZE s = MIN_SMALL_SIZE * 2 ^ get_index s"

definition do_mmap :: "nat \<Rightarrow> malloc_st \<Rightarrow> (addr \<times> malloc_st) result" where
  "do_mmap sz st =
     (let old_b = bump_addr st; new_b = (old_b + sz) mod 2 ^ 64; st' = st\<lparr>bump_addr := new_b\<rparr>
      in bindE (assertE (new_b < end_addr st')) (\<lambda>_. Inr (old_b, st')))"

definition set_next :: "addr \<Rightarrow> addr \<Rightarrow> malloc_st \<Rightarrow> malloc_st" where
  "set_next b p st = st\<lparr>blk := (blk st)(b := (blk st b)\<lparr>a_next := p\<rparr>)\<rparr>"

definition set_fl :: "nat \<Rightarrow> nat \<Rightarrow> addr \<Rightarrow> malloc_st \<Rightarrow> malloc_st" where
  "set_fl l i p st = st\<lparr>small_mem := (small_mem st)(l := (small_mem st l)(i := p))\<rparr>"

definition small_free :: "addr \<Rightarrow> nat \<Rightarrow> nat \<Rightarrow> malloc_st \<Rightarrow> malloc_st result" where
  "small_free uptr sz lid st =
     (let ptr = uptr - ALLOC_T_SZ; idx = get_index sz
      in bindE (assertE (lid < NUM_FREE_LIST)) (\<lambda>_.
           let prev = small_mem st lid idx
           in Inr (set_fl lid idx ptr (set_next ptr prev st))))"

text \<open>The loop that threads a fresh block: \<open>n\<close> links remain; returns the last object.\<close>

fun carve :: "nat \<Rightarrow> addr \<Rightarrow> nat \<Rightarrow> malloc_st \<Rightarrow> addr \<times> malloc_st" where
  "carve 0 ptr sz st = (ptr, st)"
| "carve (Suc n) ptr sz st = carve n (ptr + sz) sz (set_next ptr (ptr + sz) st)"

definition small_malloc :: "nat \<Rightarrow> nat \<Rightarrow> malloc_st \<Rightarrow> (addr \<times> malloc_st) result" where
  "small_malloc sz lid st =
     bindE (assertE (lid < NUM_FREE_LIST)) (\<lambda>_.
       let idx = get_index sz; ptr = small_mem st lid idx
       in if ptr = NULL
          then bindE (do_mmap MEM_BLOCK_SIZE st) (\<lambda>(start, st1).
                 let (endp, st2) = carve (MEM_BLOCK_SIZE div sz - 1) start sz st1;
                     st3 = set_next endp NULL st2;
                     second = a_next (blk st3 start);
                     st4 = set_next start NULL st3;
                     st5 = set_next endp (small_mem st4 lid idx) st4
                 in Inr (start, set_fl lid idx second st5))
          else let nxt = a_next (blk st ptr)
               in Inr (ptr, set_next ptr NULL (set_fl lid idx nxt st)))"

definition bi_free :: "addr \<Rightarrow> malloc_st \<Rightarrow> malloc_st result" where
  "bi_free ptr st =
     (if ptr = NULL then Inr st
      else let h = blk st (ptr - ALLOC_T_SZ); sz = a_size h
           in bindE (assertE (sz \<noteq> 0)) (\<lambda>_.
                if sz \<le> MAX_SMALL_SIZE
                then let lid = a_lid h
                     in bindE (ps_lock_take lid st) (\<lambda>st1.
                        bindE (small_free ptr sz lid st1) (\<lambda>st2.
                        Inr (ps_lock_release lid st2)))
                else Inr st))"

definition bi_malloc :: "core_id \<Rightarrow> nat \<Rightarrow> malloc_st \<Rightarrow> (addr \<times> malloc_st) result" where
  "bi_malloc core usz st =
     (let sz = (usz + ALLOC_T_SZ) mod 2 ^ 64; lid = get_lock_id core;
          need = (if sz \<le> MAX_SMALL_SIZE then GET_SIZE sz else sz)
      in bindE (ps_lock_take lid st) (\<lambda>st1.
         bindE (if sz \<le> MAX_SMALL_SIZE then small_malloc need lid st1 else do_mmap need st1)
           (\<lambda>(ptr, st2).
         let st3 = ps_lock_release lid st2
         in bindE (assertE (sz \<le> need)) (\<lambda>_.
            bindE (assertE (ptr \<noteq> NULL)) (\<lambda>_.
            Inr (ptr + ALLOC_T_SZ,
                 st3\<lparr>blk := (blk st3)(ptr := (blk st3 ptr)\<lparr>a_size := need, a_lid := lid\<rparr>)\<rparr>))))))"

definition bi_malloc_init :: "addr \<Rightarrow> malloc_st \<Rightarrow> malloc_st" where
  "bi_malloc_init start st =
     st\<lparr>bump_addr := start, end_addr := start + MEM_MGR_OBJ_SZ * MEM_MGR_OBJ_NUM,
        small_mem := (\<lambda>_ _. NULL),
        small_lock := (\<lambda>l. if l < NUM_FREE_LIST then 0 else small_lock st l)\<rparr>"

section \<open>Size classes\<close>

lemma index_loop_0 [simp]: "index_loop 0 = 0"
  by (simp add: index_loop.simps)

lemma index_loop_1 [simp]: "index_loop (Suc 0) = 1"
  by (simp add: index_loop.simps[of "Suc 0"])

lemma index_loop_bounds: "n < 2 ^ index_loop n \<and> (0 < n \<longrightarrow> 2 ^ index_loop n \<le> 2 * n)"
proof (induction n rule: index_loop.induct)
  case (1 s)
  show ?case
  proof (cases "s = 0")
    case False
    with 1 have "s div 2 < 2 ^ index_loop (s div 2)"
        "0 < s div 2 \<longrightarrow> 2 ^ index_loop (s div 2) \<le> 2 * (s div 2)" by auto
    moreover have "s div 2 = 0 \<Longrightarrow> s = 1" using False by auto
    ultimately show ?thesis
      using False by (cases "s div 2 = 0") (auto simp: index_loop.simps[of s])
  qed (simp add: index_loop.simps)
qed

lemma index_loop_le: "n < 2 ^ k \<Longrightarrow> index_loop n \<le> k"
proof (induction n arbitrary: k rule: index_loop.induct)
  case (1 s)
  show ?case
  proof (cases "s = 0")
    case False
    then obtain k' where k: "k = Suc k'" using "1.prems" by (cases k) auto
    then have "s div 2 < 2 ^ k'" using "1.prems" by auto
    with 1 False k show ?thesis by (simp add: index_loop.simps[of s])
  qed simp
qed

lemma get_index_small:
  assumes "0 < s" and "s \<le> MAX_SMALL_SIZE"
  shows "get_index s = index_loop ((s - 1) div 64)"
proof -
  obtain t where s: "s = Suc t" using assms(1) by (cases s) auto
  then have "(s + (2 ^ 64 - 1)) = t + 2 ^ 64" by simp
  moreover have "t < MEM_BLOCK_SIZE" using assms(2) s by simp
  ultimately show ?thesis by (simp add: get_index_def s)
qed

text \<open>The size class of a small request: large enough, not wasteful, within the ten lists.\<close>

lemma size_class:
  assumes "0 < s" and "s \<le> MAX_SMALL_SIZE"
  shows "s \<le> GET_SIZE s" and "MIN_SMALL_SIZE < GET_SIZE s \<longrightarrow> GET_SIZE s < 2 * s"
    and "GET_SIZE s \<le> MAX_SMALL_SIZE" and "get_index s < 10"
proof -
  let ?q = "(s - 1) div 64" and ?i = "get_index s"
  have i: "?i = index_loop ?q" by (rule get_index_small[OF assms])
  have lo: "?q < 2 ^ ?i" and up: "0 < ?q \<longrightarrow> 2 ^ ?i \<le> 2 * ?q"
    using index_loop_bounds[of ?q] i by auto
  have "?q < 2 ^ 9" using assms by auto
  then have "?i \<le> 9" using index_loop_le i by simp
  moreover from this have "(2::nat) ^ ?i \<le> 2 ^ 9" by (rule power_increasing) simp
  moreover have "s \<le> 64 * 2 ^ ?i" using lo assms(1) by linarith
  moreover have "64 < 64 * (2::nat) ^ ?i \<longrightarrow> 64 * 2 ^ ?i < 2 * s"
  proof
    assume "64 < 64 * (2::nat) ^ ?i"
    then have "0 < ?q" using i by (cases "?q = 0") auto
    with up show "64 * 2 ^ ?i < 2 * s" by linarith
  qed
  ultimately show "s \<le> GET_SIZE s" and "MIN_SMALL_SIZE < GET_SIZE s \<longrightarrow> GET_SIZE s < 2 * s"
    and "GET_SIZE s \<le> MAX_SMALL_SIZE" and "get_index s < 10" by (auto simp: GET_SIZE_def)
qed

text \<open>The class of a class size is the class itself, so a freed block returns to its list.\<close>

lemma get_index_class:
  assumes "i < 10"
  shows "get_index (64 * 2 ^ i) = i"
proof -
  have "(2::nat) ^ i \<le> 2 ^ 9" using assms by (intro power_increasing) auto
  then have "get_index (64 * 2 ^ i) = index_loop ((64 * 2 ^ i - 1) div 64)"
    by (intro get_index_small) auto
  also have "(64 * 2 ^ i - 1) div 64 = (2::nat) ^ i - 1" by (simp add: div_nat_eqI)
  also have "index_loop (2 ^ i - 1) = i"
  proof (induction i)
    case (Suc i)
    have "((2::nat) ^ Suc i - 1) div 2 = 2 ^ i - 1" by (induction i) auto
    moreover have "Suc 0 < 2 * 2 ^ i" using zero_less_power[of "2::nat" i] by linarith
    ultimately show ?case using Suc by (subst index_loop.simps) (auto simp: not_le)
  qed simp
  finally show ?thesis .
qed

section \<open>Regions\<close>

type_synonym region = "addr \<times> nat"

definition overlap :: "region \<Rightarrow> region \<Rightarrow> bool" where
  "overlap x y \<longleftrightarrow> fst x < fst y + snd y \<and> fst y < fst x + snd x"

definition disjoint_regions :: "region set \<Rightarrow> bool" where
  "disjoint_regions B \<longleftrightarrow> (\<forall>x\<in>B. \<forall>y\<in>B. x \<noteq> y \<longrightarrow> \<not> overlap x y)"

lemma disjoint_regionsD:
  "disjoint_regions B \<Longrightarrow> x \<in> B \<Longrightarrow> y \<in> B \<Longrightarrow> x \<noteq> y \<Longrightarrow> \<not> overlap x y"
  by (simp add: disjoint_regions_def)

lemma overlap_sym: "overlap x y \<longleftrightarrow> overlap y x"
  by (auto simp: overlap_def)

lemma disjoint_regions_subset: "disjoint_regions B \<Longrightarrow> A \<subseteq> B \<Longrightarrow> disjoint_regions A"
  unfolding disjoint_regions_def by blast

lemma disjoint_regions_insert:
  "disjoint_regions B \<Longrightarrow> (\<And>y. y \<in> B \<Longrightarrow> \<not> overlap x y) \<Longrightarrow> disjoint_regions (insert x B)"
  unfolding disjoint_regions_def using overlap_sym by blast

lemma disjoint_regions_Un:
  "disjoint_regions A \<Longrightarrow> disjoint_regions B \<Longrightarrow> (\<And>x y. x \<in> A \<Longrightarrow> y \<in> B \<Longrightarrow> \<not> overlap x y) \<Longrightarrow>
   disjoint_regions (A \<union> B)"
  unfolding disjoint_regions_def using overlap_sym by blast

section \<open>Free lists as paths\<close>

fun npath :: "(addr \<Rightarrow> alloc_t) \<Rightarrow> addr \<Rightarrow> addr list \<Rightarrow> bool" where
  "npath h p [] \<longleftrightarrow> p = NULL"
| "npath h p (x # xs) \<longleftrightarrow> p = x \<and> x \<noteq> NULL \<and> npath h (a_next (h x)) xs"

lemma npath_upd [chain_simps]: "x \<notin> set xs \<Longrightarrow> npath (h(x := v)) p xs = npath h p xs"
  by (induction xs arbitrary: p) auto

lemma npath_cong: "(\<And>x. x \<in> set xs \<Longrightarrow> a_next (h' x) = a_next (h x)) \<Longrightarrow> npath h' p xs = npath h p xs"
  by (induction xs arbitrary: p) auto

lemma npath_NULL [simp]: "npath h 0 xs \<longleftrightarrow> xs = []"
  by (cases xs) auto

text \<open>
  \<open>L l i\<close> is the content of free list \<open>i\<close> of lock \<open>l\<close>; \<open>free_regions\<close> the memory they cover.
\<close>

definition free_regions :: "(nat \<Rightarrow> nat \<Rightarrow> addr list) \<Rightarrow> region set" where
  "free_regions L = {(b, MIN_SMALL_SIZE * 2 ^ i) | b l i. b \<in> set (L l i)}"

text \<open>
  The heap invariant, relative to the start \<open>lo\<close> of the memory, the contents \<open>L\<close> of the
  free lists and the regions \<open>live\<close> that callers hold: the lists are disjoint paths, all
  regions, free or live, are pairwise disjoint parts of the used memory, and the header of a
  live block still records its size and lock. \<open>malloc_inv\<close> adds that no lock is held.
\<close>

definition heap_inv ::
  "addr \<Rightarrow> (nat \<Rightarrow> nat \<Rightarrow> addr list) \<Rightarrow> region set \<Rightarrow> malloc_st \<Rightarrow> bool" where
  "heap_inv lo L live st \<longleftrightarrow>
     0 < lo \<and> lo \<le> bump_addr st \<and>
     (\<forall>l i. npath (blk st) (small_mem st l i) (L l i) \<and> distinct (L l i)) \<and>
     (\<forall>l i l' i'. (l, i) \<noteq> (l', i') \<longrightarrow> set (L l i) \<inter> set (L l' i') = {}) \<and>
     free_regions L \<inter> live = {} \<and>
     disjoint_regions (free_regions L \<union> live) \<and>
     (\<forall>x \<in> free_regions L \<union> live. lo \<le> fst x \<and> ALLOC_T_SZ \<le> snd x \<and> fst x + snd x \<le> bump_addr st) \<and>
     (\<forall>x \<in> live. a_size (blk st (fst x)) = snd x \<and> a_lid (blk st (fst x)) < NUM_FREE_LIST) \<and>
     (\<forall>x \<in> live. snd x \<le> MAX_SMALL_SIZE \<longrightarrow> (\<exists>i < 10. snd x = MIN_SMALL_SIZE * 2 ^ i))"

lemma heap_invD:
  assumes "heap_inv lo L live st"
  shows "0 < lo" and "lo \<le> bump_addr st"
    and "npath (blk st) (small_mem st l i) (L l i)" and "distinct (L l i)"
    and "(l, i) \<noteq> (l', i') \<Longrightarrow> set (L l i) \<inter> set (L l' i') = {}"
    and "free_regions L \<inter> live = {}"
    and "disjoint_regions (free_regions L \<union> live)"
    and "x \<in> free_regions L \<union> live \<Longrightarrow>
      lo \<le> fst x \<and> ALLOC_T_SZ \<le> snd x \<and> fst x + snd x \<le> bump_addr st"
    and "x \<in> live \<Longrightarrow> a_size (blk st (fst x)) = snd x \<and> a_lid (blk st (fst x)) < NUM_FREE_LIST"
    and "x \<in> live \<Longrightarrow> snd x \<le> MAX_SMALL_SIZE \<Longrightarrow> \<exists>i < 10. snd x = MIN_SMALL_SIZE * 2 ^ i"
  using assms unfolding heap_inv_def by blast+

lemma heap_invI:
  assumes "0 < lo" and "lo \<le> bump_addr st"
    and "\<And>l i. npath (blk st) (small_mem st l i) (L l i)" and "\<And>l i. distinct (L l i)"
    and "\<And>l i l' i'. (l, i) \<noteq> (l', i') \<Longrightarrow> set (L l i) \<inter> set (L l' i') = {}"
    and "free_regions L \<inter> live = {}"
    and "disjoint_regions (free_regions L \<union> live)"
    and "\<And>x. x \<in> free_regions L \<union> live \<Longrightarrow>
      lo \<le> fst x \<and> ALLOC_T_SZ \<le> snd x \<and> fst x + snd x \<le> bump_addr st"
    and "\<And>x. x \<in> live \<Longrightarrow> a_size (blk st (fst x)) = snd x \<and> a_lid (blk st (fst x)) < NUM_FREE_LIST"
    and "\<And>x. x \<in> live \<Longrightarrow> snd x \<le> MAX_SMALL_SIZE \<Longrightarrow> \<exists>i < 10. snd x = MIN_SMALL_SIZE * 2 ^ i"
  shows "heap_inv lo L live st"
  unfolding heap_inv_def using assms by blast

definition malloc_inv ::
  "addr \<Rightarrow> (nat \<Rightarrow> nat \<Rightarrow> addr list) \<Rightarrow> region set \<Rightarrow> malloc_st \<Rightarrow> bool" where
  "malloc_inv lo L live st \<longleftrightarrow>
     heap_inv lo L live st \<and> (\<forall>l < NUM_FREE_LIST. small_lock st l = 0)"

lemma in_free_regions: "b \<in> set (L l i) \<Longrightarrow> (b, 64 * 2 ^ i) \<in> free_regions L"
  by (auto simp: free_regions_def)

lemma in_free_regionsE:
  assumes "(b, n) \<in> free_regions L"
  obtains l i where "b \<in> set (L l i)" "n = 64 * 2 ^ i"
  using assms by (auto simp: free_regions_def)

lemma malloc_init_inv:
  "0 < start \<Longrightarrow> malloc_inv start (\<lambda>_ _. []) {} (bi_malloc_init start st)"
  by (auto simp: malloc_inv_def heap_inv_def bi_malloc_init_def free_regions_def
      disjoint_regions_def)

lemma heap_inv_lock [simp]: "heap_inv lo L live (st\<lparr>small_lock := k\<rparr>) = heap_inv lo L live st"
  by (simp add: heap_inv_def)

lemma heap_inv_shrink: "heap_inv lo L live st \<Longrightarrow> live' \<subseteq> live \<Longrightarrow> heap_inv lo L live' st"
  by (auto simp: heap_inv_def intro: disjoint_regions_subset)

text \<open>A region that no list and no caller covers, ready to be handed out.\<close>

definition unclaimed ::
  "addr \<Rightarrow> (nat \<Rightarrow> nat \<Rightarrow> addr list) \<Rightarrow> region set \<Rightarrow> malloc_st \<Rightarrow> region \<Rightarrow> bool" where
  "unclaimed lo L live st r \<longleftrightarrow>
     lo \<le> fst r \<and> ALLOC_T_SZ \<le> snd r \<and> fst r + snd r \<le> bump_addr st \<and>
     (\<forall>x \<in> free_regions L \<union> live. \<not> overlap r x)"

lemma unclaimedD: "unclaimed lo L live st r \<Longrightarrow> x \<in> free_regions L \<union> live \<Longrightarrow> \<not> overlap r x"
  by (simp add: unclaimed_def)

lemma unclaimed_sz: "unclaimed lo L live st (p, n) \<Longrightarrow> 0 < n"
  by (simp add: unclaimed_def)

lemma overlap_start: "0 < n \<Longrightarrow> 0 < m \<Longrightarrow> overlap (p, n) (p, m)"
  by (simp add: overlap_def)

lemma unclaimed_not_listed:
  assumes "unclaimed lo L live st (p, n)" and "heap_inv lo L live st"
  shows "p \<notin> set (L l i)"
proof
  assume "p \<in> set (L l i)"
  then have "(p, 64 * 2 ^ i) \<in> free_regions L" by (rule in_free_regions)
  with unclaimedD[OF assms(1), of "(p, 64 * 2 ^ i)"] show False
    using overlap_start[OF unclaimed_sz[OF assms(1)], of "64 * 2 ^ i" p] by simp
qed

lemma unclaimed_not_live:
  assumes "unclaimed lo L live st (p, n)" and "heap_inv lo L live st"
  shows "(p, m) \<notin> live"
proof
  assume m: "(p, m) \<in> live"
  then have "0 < m" using heap_invD(8)[OF assms(2), of "(p, m)"] by auto
  with m unclaimedD[OF assms(1), of "(p, m)"] show False
    using overlap_start[OF unclaimed_sz[OF assms(1)], of m p] by simp
qed

lemma claim:
  assumes h: "heap_inv lo L live st" and u: "unclaimed lo L live st (p, n)"
    and l: "lid < NUM_FREE_LIST" and c: "n \<le> MAX_SMALL_SIZE \<longrightarrow> (\<exists>i < 10. n = MIN_SMALL_SIZE * 2 ^ i)"
  shows "heap_inv lo L (insert (p, n) live)
      (st\<lparr>blk := (blk st)(p := (blk st p)\<lparr>a_size := n, a_lid := lid\<rparr>)\<rparr>)"
    (is "heap_inv lo L ?live ?st")
proof (rule heap_invI)
  show "npath (blk ?st) (small_mem ?st l i) (L l i)" for l i
    using heap_invD(3)[OF h, of l i] unclaimed_not_listed[OF u h, of l i] by (simp add: chain_simps)
  have "(p, n) \<notin> free_regions L"
    using unclaimedD[OF u, of "(p, n)"] overlap_start[of n n p] unclaimed_sz[OF u] by blast
  then show "free_regions L \<inter> ?live = {}" using heap_invD(6)[OF h] by blast
  show "disjoint_regions (free_regions L \<union> ?live)"
    using disjoint_regions_insert[OF heap_invD(7)[OF h] unclaimedD[OF u]] by simp
  show "lo \<le> fst x \<and> ALLOC_T_SZ \<le> snd x \<and> fst x + snd x \<le> bump_addr ?st"
    if "x \<in> free_regions L \<union> ?live" for x
    using heap_invD(8)[OF h, of x] u that by (auto simp: unclaimed_def)
  show "a_size (blk ?st (fst x)) = snd x \<and> a_lid (blk ?st (fst x)) < NUM_FREE_LIST"
    if "x \<in> ?live" for x
    using heap_invD(9)[OF h, of x] unclaimed_not_live[OF u h] l that by (cases x) auto
  show "\<exists>i < 10. snd x = MIN_SMALL_SIZE * 2 ^ i" if "x \<in> ?live" "snd x \<le> MAX_SMALL_SIZE" for x
    using heap_invD(10)[OF h, of x] c that by auto
qed (use heap_invD[OF h] in auto)

lemma mmap_unclaimed:
  assumes h: "heap_inv lo L live st" and m: "do_mmap n st = Inr (p, st')" and n: "24 \<le> n"
    and fits: "bump_addr st + n < 2 ^ 64"
  shows "heap_inv lo L live st' \<and> unclaimed lo L live st' (p, n) \<and> p = bump_addr st \<and>
    bump_addr st' = bump_addr st + n \<and> small_lock st' = small_lock st \<and> blk st' = blk st \<and>
    small_mem st' = small_mem st"
proof -
  have st': "st' = st\<lparr>bump_addr := bump_addr st + n\<rparr>" and p: "p = bump_addr st"
    using m fits by (auto simp: do_mmap_def Let_def result_simps)
  have "heap_inv lo L live st'"
  proof (rule heap_invI)
    show "lo \<le> fst x \<and> ALLOC_T_SZ \<le> snd x \<and> fst x + snd x \<le> bump_addr st'"
      if "x \<in> free_regions L \<union> live" for x using heap_invD(8)[OF h that] by (simp add: st')
  qed (use heap_invD[OF h] in \<open>auto simp: st'\<close>)
  moreover have "\<not> overlap (bump_addr st, n) x" if "x \<in> free_regions L \<union> live" for x
    using heap_invD(8)[OF h that] by (simp add: overlap_def)
  then have "unclaimed lo L live st' (p, n)"
    using heap_invD(1,2)[OF h] n by (simp add: unclaimed_def st' p)
  ultimately show ?thesis by (simp add: st' p)
qed

section \<open>Popping a free list and carving a new block\<close>

lemma free_regions_mono: "(\<And>l i. set (M l i) \<subseteq> set (L l i)) \<Longrightarrow> free_regions M \<subseteq> free_regions L"
  unfolding free_regions_def by blast

lemma pop_unclaimed:
  assumes h: "heap_inv lo L live st" and ptr: "small_mem st l i = p" "p \<noteq> NULL"
    and st': "st' = set_next p NULL (set_fl l i (a_next (blk st p)) st)"
  shows "\<exists>L'. heap_inv lo L' live st' \<and> unclaimed lo L' live st' (p, MIN_SMALL_SIZE * 2 ^ i)"
proof -
  obtain xs where xs: "L l i = p # xs" and path: "npath (blk st) (a_next (blk st p)) xs"
    and pxs: "p \<notin> set xs"
  proof -
    have "npath (blk st) p (L l i)" "distinct (L l i)" using heap_invD(3,4)[OF h, of l i] ptr by auto
    with ptr(2) show ?thesis by (cases "L l i") (auto intro: that)
  qed
  define M where "M = L(l := (L l)(i := xs))"
  have M: "M l' i' = (if l' = l \<and> i' = i then xs else L l' i')" for l' i' by (simp add: M_def)
  have lists: "set (M l' i') \<subseteq> set (L l' i')" for l' i' using xs by (auto simp: M)
  have sub: "free_regions M \<subseteq> free_regions L" by (rule free_regions_mono) (rule lists)
  have other: "p \<notin> set (M l' i')" for l' i'
    using heap_invD(5)[OF h, of l i l' i'] xs pxs by (auto simp: M)
  have pr: "(p, 64 * 2 ^ i) \<in> free_regions L" using in_free_regions[of p L l i] xs by simp
  have sm: "small_mem st' l' i' = (if l' = l \<and> i' = i then a_next (blk st p) else small_mem st l' i')" for l' i'
    by (simp add: st' set_next_def set_fl_def)
  have paths: "npath (blk st') (small_mem st' l' i') (M l' i')" for l' i'
  proof -
    have "npath (blk st) (small_mem st' l' i') (M l' i')"
      using heap_invD(3)[OF h, of l' i'] path by (simp add: M sm)
    then show ?thesis
      using other[of l' i'] by (simp add: st' set_next_def set_fl_def chain_simps)
  qed
  have dist: "distinct (M l' i')" for l' i'
    using heap_invD(4)[OF h, of l' i'] xs by (auto simp: M)
  have cross: "set (M l1 i1) \<inter> set (M l2 i2) = {}" if "(l1, i1) \<noteq> (l2, i2)" for l1 i1 l2 i2
    using heap_invD(5)[OF h that] lists[of l1 i1] lists[of l2 i2] by blast
  have np: "(p, 64 * 2 ^ i) \<notin> live" using heap_invD(6)[OF h] pr by blast
  have nf: "(p, 64 * 2 ^ i) \<notin> free_regions M" using other by (metis in_free_regionsE)
  have nov: "\<not> overlap (p, 64 * 2 ^ i) x" if x: "x \<in> free_regions M \<union> live" for x
  proof -
    have "x \<noteq> (p, 64 * 2 ^ i)" using x np nf by blast
    moreover have "x \<in> free_regions L \<union> live" using x sub by blast
    ultimately show ?thesis
      using disjoint_regionsD[OF heap_invD(7)[OF h], of "(p, 64 * 2 ^ i)" x] pr by auto
  qed
  have hdr: "a_size (blk st' b) = a_size (blk st b) \<and> a_lid (blk st' b) = a_lid (blk st b)" for b
    by (simp add: st' set_next_def set_fl_def)
  have bump: "bump_addr st' = bump_addr st" by (simp add: st' set_next_def set_fl_def)
  have "heap_inv lo M live st'"
  proof (rule heap_invI)
    show "free_regions M \<inter> live = {}" using heap_invD(6)[OF h] sub by blast
    show "disjoint_regions (free_regions M \<union> live)"
      using disjoint_regions_subset[OF heap_invD(7)[OF h], of "free_regions M \<union> live"] sub by blast
    show "lo \<le> fst x \<and> ALLOC_T_SZ \<le> snd x \<and> fst x + snd x \<le> bump_addr st'"
      if "x \<in> free_regions M \<union> live" for x using heap_invD(8)[OF h, of x] sub that bump by fastforce
    show "a_size (blk st' (fst x)) = snd x \<and> a_lid (blk st' (fst x)) < NUM_FREE_LIST"
      if "x \<in> live" for x using heap_invD(9)[OF h that] hdr by simp
    show "0 < lo" and "lo \<le> bump_addr st'" using heap_invD(1,2)[OF h] bump by auto
  qed (fact paths dist cross heap_invD(10)[OF h])+
  moreover have "unclaimed lo M live st' (p, 64 * 2 ^ i)"
    using heap_invD(8)[OF h, of "(p, 64 * 2 ^ i)"] pr nov bump by (simp add: unclaimed_def)
  ultimately show ?thesis by blast
qed

lemma carve_end: "fst (carve n ptr sz st) = ptr + n * sz"
  by (induction n arbitrary: ptr st) auto

lemma carve_frame:
  "bump_addr (snd (carve n ptr sz st)) = bump_addr st \<and>
   end_addr (snd (carve n ptr sz st)) = end_addr st \<and>
   small_mem (snd (carve n ptr sz st)) = small_mem st \<and>
   small_lock (snd (carve n ptr sz st)) = small_lock st"
  by (induction n arbitrary: ptr st) (auto simp: set_next_def)

lemma carve_outside:
  "0 < sz \<Longrightarrow> b < ptr \<or> ptr + n * sz \<le> b \<Longrightarrow> blk (snd (carve n ptr sz st)) b = blk st b"
  by (induction n arbitrary: ptr st) (auto simp: set_next_def)

lemma carve_next:
  "0 < sz \<Longrightarrow> k < n \<Longrightarrow> a_next (blk (snd (carve n ptr sz st)) (ptr + k * sz)) = ptr + Suc k * sz"
proof (induction n arbitrary: ptr st k)
  case (Suc n)
  show ?case
  proof (cases k)
    case 0
    then show ?thesis
      using carve_outside[of sz ptr "ptr + sz" n "set_next ptr (ptr + sz) st"] Suc.prems
      by (simp add: set_next_def)
  next
    case (Suc j)
    then show ?thesis
      using Suc.IH[of j "ptr + sz" "set_next ptr (ptr + sz) st"] Suc.prems by (simp add: add.assoc)
  qed
qed simp

text \<open>A sequence of cells, each linked to the next, is a path.\<close>

lemma npath_seq:
  assumes "a \<le> m" and "\<And>k. a \<le> k \<Longrightarrow> k < m \<Longrightarrow> a_next (h (f k)) = f (Suc k)"
    and "a_next (h (f m)) = NULL" and "\<And>k. f k \<noteq> NULL"
  shows "npath h (f a) (map f [a..<Suc m])"
  using assms
proof (induction "m - a" arbitrary: a)
  case 0
  then have "a = m" by simp
  with 0 show ?case by simp
next
  case (Suc d)
  then have lt: "a < m" by simp
  then have "npath h (f (Suc a)) (map f [Suc a..<Suc m])"
    using Suc by (intro Suc.hyps(1)) auto
  then have "npath h (f a) (f a # map f [Suc a..<Suc m])"
    using Suc.prems(2)[of a] Suc.prems(4) lt by simp
  moreover have "[a..<Suc m] = a # [Suc a..<Suc m]" using lt by (intro upt_conv_Cons) simp
  ultimately show ?case by (simp del: upt_Suc)
qed

text \<open>
  The branch of \<^verbatim>\<open>__small_malloc\<close> that refills an empty list from a fresh block at \<open>start\<close>.
\<close>

definition refill :: "nat \<Rightarrow> nat \<Rightarrow> nat \<Rightarrow> addr \<Rightarrow> malloc_st \<Rightarrow> malloc_st" where
  "refill l i sz start st1 =
     (let (endp, st2) = carve (MEM_BLOCK_SIZE div sz - 1) start sz st1;
          st3 = set_next endp NULL st2;
          second = a_next (blk st3 start);
          st4 = set_next start NULL st3;
          st5 = set_next endp (small_mem st4 l i) st4
      in set_fl l i second st5)"

lemma refill_spec:
  assumes i: "i < 10" and sz: "sz = 64 * 2 ^ i" and n: "n = MEM_BLOCK_SIZE div sz - 1"
    and empty: "small_mem st1 l i = NULL"
  shows "Suc n * sz = MEM_BLOCK_SIZE"
    and "small_mem (refill l i sz start st1) l' i' =
      (if l' = l \<and> i' = i then start + sz else small_mem st1 l' i')"
    and "bump_addr (refill l i sz start st1) = bump_addr st1"
    and "small_lock (refill l i sz start st1) = small_lock st1"
    and "1 \<le> k \<Longrightarrow> k < n \<Longrightarrow>
      a_next (blk (refill l i sz start st1) (start + k * sz)) = start + Suc k * sz"
    and "a_next (blk (refill l i sz start st1) (start + n * sz)) = NULL"
    and "b < start \<Longrightarrow> blk (refill l i sz start st1) b = blk st1 b"
proof -
  define d where "d = 9 - i"
  then have d: "i + d = 9" using i by simp
  have "(64 * 2 ^ i) * 2 ^ Suc d = 128 * (2::nat) ^ (i + d)" by (simp add: power_add)
  then have sz2: "sz * 2 ^ Suc d = MEM_BLOCK_SIZE" by (simp only: sz d) simp
  have pos: "0 < sz" by (simp add: sz)
  have div: "MEM_BLOCK_SIZE div sz = 2 ^ Suc d" using sz2 pos by (metis nonzero_mult_div_cancel_left less_irrefl)
  then have n1: "Suc n = 2 ^ Suc d" using n zero_less_power[of "2::nat" d] by auto
  moreover have "2 \<le> (2::nat) ^ Suc d" by simp
  ultimately have n0: "1 \<le> n" by linarith
  show "Suc n * sz = MEM_BLOCK_SIZE" using n1 sz2 by (simp add: mult.commute)
  have ne: "start + n * sz \<noteq> start" using pos n0 by simp
  have r: "refill l i sz start st1 = set_fl l i (start + sz)
      (set_next (start + n * sz) NULL (set_next start NULL (set_next (start + n * sz) NULL
        (snd (carve n start sz st1)))))"
    using carve_end[of n start sz st1] carve_next[OF pos, of 0 n start st1] carve_frame[of n start sz st1]
      ne n0 empty
    unfolding refill_def n[symmetric] by (simp add: Let_def case_prod_beta set_next_def)
  show "small_mem (refill l i sz start st1) l' i' =
      (if l' = l \<and> i' = i then start + sz else small_mem st1 l' i')"
    and "bump_addr (refill l i sz start st1) = bump_addr st1"
    and "small_lock (refill l i sz start st1) = small_lock st1"
    using carve_frame[of n start sz st1] by (auto simp: r set_fl_def set_next_def)
  show "a_next (blk (refill l i sz start st1) (start + k * sz)) = start + Suc k * sz" if "1 \<le> k" "k < n"
    using carve_next[OF pos that(2), of start st1] that pos by (simp add: r set_fl_def set_next_def)
  show "a_next (blk (refill l i sz start st1) (start + n * sz)) = NULL"
    using ne by (simp add: r set_fl_def set_next_def)
  show "blk (refill l i sz start st1) b = blk st1 b" if "b < start"
    using carve_outside[OF pos, of b start n st1] that by (simp add: r set_fl_def set_next_def)
qed

text \<open>Blocks put in front of a list extend the free memory by their regions.\<close>

definition push_list ::
  "nat \<Rightarrow> nat \<Rightarrow> addr list \<Rightarrow> (nat \<Rightarrow> nat \<Rightarrow> addr list) \<Rightarrow> (nat \<Rightarrow> nat \<Rightarrow> addr list)" where
  "push_list l i xs L = (\<lambda>l' i'. if l' = l \<and> i' = i then xs @ L l i else L l' i')"

lemma free_regions_push:
  "free_regions (push_list l i xs L) = free_regions L \<union> (\<lambda>b. (b, MIN_SMALL_SIZE * 2 ^ i)) ` set xs"
  (is "?l = ?r")
proof
  show "?l \<subseteq> ?r" by (auto simp: free_regions_def push_list_def split: if_splits)
  have "free_regions L \<subseteq> ?l" by (rule free_regions_mono) (auto simp: push_list_def)
  moreover have "(b, 64 * 2 ^ i) \<in> ?l" if "b \<in> set xs" for b
    using in_free_regions[of b "push_list l i xs L" l i] that by (simp add: push_list_def)
  ultimately show "?r \<subseteq> ?l" by blast
qed

text \<open>The cells of a carved block do not overlap.\<close>

lemma cells_apart:
  assumes "j \<noteq> k"
  shows "\<not> overlap (s + j * sz, sz) (s + k * sz, sz)"
proof -
  have "s + j * sz + sz \<le> s + k * sz" if "j < k" for j k
    using mult_le_mono1[of "Suc j" k sz] that by simp
  from this[of j k] this[of k j] show ?thesis
    using assms by (cases j k rule: linorder_cases) (auto simp: overlap_def)
qed

lemma disjoint_cells: "disjoint_regions ((\<lambda>k. (s + k * sz, sz)) ` K)"
proof -
  have "\<not> overlap (s + j * sz, sz) (s + k * sz, sz)"
    if "(s + j * sz, sz) \<noteq> (s + k * sz, sz)" for j k
    using that by (intro cells_apart) auto
  then show ?thesis unfolding disjoint_regions_def by blast
qed

lemma refill_heap:
  assumes h: "heap_inv lo L live st0" and l: "lid < NUM_FREE_LIST" and i: "i < 10"
    and sz: "sz = 64 * 2 ^ i" and empty: "small_mem st0 l i = NULL"
    and m: "do_mmap MEM_BLOCK_SIZE st0 = Inr (start, st1)"
    and fits: "bump_addr st0 + MEM_BLOCK_SIZE < 2 ^ 64"
  shows "\<exists>M. heap_inv lo M live (refill l i sz start st1) \<and>
    unclaimed lo M live (refill l i sz start st1) (start, sz)"
proof -
  define n where "n = MEM_BLOCK_SIZE div sz - 1"
  define st where "st = refill l i sz start st1"
  have h1: "heap_inv lo L live st1" and bump: "bump_addr st1 = start + MEM_BLOCK_SIZE"
    and e1: "small_mem st1 l i = NULL" and start: "start = bump_addr st0"
    and sm1: "small_mem st1 = small_mem st0" and blk1: "blk st1 = blk st0"
    using mmap_unclaimed[OF h m _ fits] empty by auto
  note blk_len = refill_spec(1)[OF i sz n_def e1]
  note spec = refill_spec(2-7)[OF i sz n_def e1, where start = start, folded st_def]
  have "Suc n * sz \<noteq> sz"
  proof -
    have "(2::nat) ^ i \<le> 2 ^ 9" using i by (intro power_increasing) auto
    then show ?thesis using blk_len sz by simp
  qed
  then have n1: "1 \<le> n" by (cases n) auto
  have pos: "0 < start" using heap_invD(1,2)[OF h] start by linarith
  have sz0: "24 \<le> sz" using sz one_le_power[of "2::nat" i] by linarith
  define f where "f = (\<lambda>k. start + k * sz)"
  define M where "M = push_list l i (map f [1..<Suc n]) L"
  have Li: "L l i = []" using heap_invD(3)[OF h, of l i] empty by simp
  then have M: "M l' i' = (if l' = l \<and> i' = i then map f [1..<Suc n] else L l' i')" for l' i'
    by (simp add: M_def push_list_def)
  have below: "fst x + snd x \<le> start \<and> lo \<le> fst x \<and> 24 \<le> snd x" if "x \<in> free_regions L \<union> live" for x
    using heap_invD(8)[OF h that] start by blast
  have Lbelow: "b < start" if "b \<in> set (L l' i')" for b l' i'
    using below[of "(b, 64 * 2 ^ i')"] in_free_regions[of b L l' i'] that by auto
  define new where "new = (\<lambda>k. (f k, sz)) ` {1..<Suc n}"
  have free: "free_regions M = free_regions L \<union> new"
    unfolding M_def free_regions_push new_def sz by (simp add: image_image del: upt_Suc)
  have fin: "f k + sz \<le> bump_addr st1" if "k < Suc n" for k
  proof -
    have "Suc k * sz \<le> MEM_BLOCK_SIZE" unfolding blk_len[symmetric] using that by (intro mult_le_mono1) simp
    moreover have "f k + sz = start + Suc k * sz" by (simp add: f_def)
    ultimately show ?thesis using bump by linarith
  qed
  have fge: "start \<le> f k" for k by (simp add: f_def)
  have inj: "inj f" using sz0 by (auto simp: f_def inj_on_def)
  have nov: "\<not> overlap (f k, sz) x" if "x \<in> free_regions L \<union> live" for x k
    using below[OF that] fge[of k] by (simp add: overlap_def)
  have paths: "npath (blk st) (small_mem st l' i') (M l' i')" for l' i'
  proof (cases "l' = l \<and> i' = i")
    case True
    have "f k \<noteq> NULL" for k using pos fge[of k] by linarith
    then have "npath (blk st) (f 1) (map f [1..<Suc n])"
      using npath_seq[of 1 n "blk st" f] spec(4,5) n1 by (simp add: f_def)
    then show ?thesis using True by (simp add: M spec(1) f_def)
  next
    case False
    have "npath (blk st) (small_mem st1 l' i') (L l' i')"
      using npath_cong[of "L l' i'" "blk st" "blk st1"] heap_invD(3)[OF h1, of l' i'] spec(6)[OF Lbelow] by simp
    moreover have "small_mem st l' i' = small_mem st1 l' i'" "M l' i' = L l' i'"
      using False by (auto simp: M spec(1))
    ultimately show ?thesis by simp
  qed
  have "heap_inv lo M live st"
  proof (rule heap_invI)
    show "0 < lo" "lo \<le> bump_addr st" using heap_invD(1,2)[OF h1] spec(2) by auto
    show "distinct (M l' i')" for l' i'
      using heap_invD(4)[OF h, of l' i'] inj by (auto simp: M distinct_map inj_on_subset)
    show "set (M l1 i1) \<inter> set (M l2 i2) = {}" if "(l1, i1) \<noteq> (l2, i2)" for l1 i1 l2 i2
    proof -
      have "set (map f [1..<Suc n]) \<inter> set (L l' i') = {}" for l' i'
        using Lbelow[of _ l' i'] fge by (auto simp: not_less[symmetric])
      then show ?thesis using heap_invD(5)[OF h that] that by (cases "(l1, i1) = (l, i)"; cases "(l2, i2) = (l, i)") (auto simp: M simp del: upt_Suc)
    qed
    have "x \<notin> live" if x: "x \<in> new" for x
    proof -
      obtain k where "fst x = f k" using x by (auto simp: new_def)
      then show ?thesis using below[of x] fge[of k] by auto
    qed
    then show "free_regions M \<inter> live = {}" using heap_invD(6)[OF h] unfolding free by blast
    have "disjoint_regions new"
      unfolding new_def f_def by (rule disjoint_cells)
    then have "disjoint_regions ((free_regions L \<union> live) \<union> new)"
      using nov overlap_sym by (intro disjoint_regions_Un[OF heap_invD(7)[OF h]]) (auto simp: new_def)
    then show "disjoint_regions (free_regions M \<union> live)" by (simp add: free Un_ac)
    show "lo \<le> fst x \<and> ALLOC_T_SZ \<le> snd x \<and> fst x + snd x \<le> bump_addr st"
      if x: "x \<in> free_regions M \<union> live" for x
    proof (cases "x \<in> new")
      case True
      then obtain k where "x = (f k, sz)" "k < Suc n" by (auto simp: new_def)
      then show ?thesis using fin[of k] fge[of k] heap_invD(2)[OF h] start sz0 spec(2) by simp
    next
      case False
      then show ?thesis using x heap_invD(8)[OF h1, of x] spec(2) unfolding free by simp
    qed
    show "a_size (blk st (fst x)) = snd x \<and> a_lid (blk st (fst x)) < NUM_FREE_LIST" if "x \<in> live" for x
    proof -
      have "fst x < start" using below[of x] that by auto
      then show ?thesis using heap_invD(9)[OF h that] spec(6)[of "fst x"] blk1 by simp
    qed
  qed (fact paths heap_invD(10)[OF h])+
  moreover have "\<not> overlap (f 0, sz) x" if "x \<in> free_regions M \<union> live" for x
    using nov[of x 0] cells_apart[of 0 _ start sz] that unfolding free by (auto simp: new_def f_def)
  then have "unclaimed lo M live st (start, sz)"
    using fin[of 0] sz0 heap_invD(2)[OF h] start spec(2) by (simp add: unclaimed_def f_def)
  ultimately show ?thesis unfolding st_def by blast
qed

section \<open>Allocation and release\<close>

lemma small_malloc_empty:
  assumes "i < 10" and "lid < NUM_FREE_LIST" and "small_mem st lid i = NULL"
  shows "small_malloc (MIN_SMALL_SIZE * 2 ^ i) lid st = bindE (do_mmap MEM_BLOCK_SIZE st)
    (\<lambda>(start, st1). Inr (start, refill lid i (MIN_SMALL_SIZE * 2 ^ i) start st1))"
  using assms by (simp add: small_malloc_def get_index_class refill_def Let_def case_prod_beta)

lemma small_malloc_spec:
  assumes h: "heap_inv lo L live st" and l: "lid < NUM_FREE_LIST" and i: "i < 10"
    and fits: "bump_addr st + MEM_BLOCK_SIZE < 2 ^ 64"
    and m: "small_malloc (MIN_SMALL_SIZE * 2 ^ i) lid st = Inr (p, st')"
  shows "\<exists>M. heap_inv lo M live st' \<and> unclaimed lo M live st' (p, MIN_SMALL_SIZE * 2 ^ i) \<and>
    small_lock st' = small_lock st"
proof (cases "small_mem st lid i = NULL")
  case True
  with m l obtain st1 where mm: "do_mmap MEM_BLOCK_SIZE st = Inr (p, st1)"
    and r: "st' = refill lid i (64 * 2 ^ i) p st1"
    using small_malloc_empty[OF i l True] by (auto simp: result_simps)
  have "small_lock st1 = small_lock st" "small_mem st1 lid i = NULL"
    using mmap_unclaimed[OF h mm _ fits] True by auto
  then have "small_lock st' = small_lock st" using refill_spec(4)[OF i refl refl] r by simp
  with refill_heap[OF h l i refl True mm fits] show ?thesis unfolding r by blast
next
  case False
  with m l have p: "p = small_mem st lid i"
    and st': "st' = set_next p NULL (set_fl lid i (a_next (blk st p)) st)"
    by (auto simp: small_malloc_def get_index_class[OF i] Let_def result_simps)
  have "small_lock st' = small_lock st" by (simp add: st' set_next_def set_fl_def)
  with pop_unclaimed[OF h p[symmetric] _ st'] False p show ?thesis by blast
qed

lemma small_malloc_total:
  assumes "lid < NUM_FREE_LIST" and "bump_addr st + MEM_BLOCK_SIZE < 2 ^ 64"
    and "bump_addr st + MEM_BLOCK_SIZE < end_addr st"
  shows "\<exists>p st'. small_malloc sz lid st = Inr (p, st')"
  using assms by (simp add: small_malloc_def do_mmap_def Let_def split: prod.splits)

lemma do_mmap_total:
  "bump_addr st + n < 2 ^ 64 \<Longrightarrow> bump_addr st + n < end_addr st \<Longrightarrow> \<exists>p st'. do_mmap n st = Inr (p, st')"
  by (simp add: do_mmap_def Let_def)

text \<open>The block handed to the caller, before its header is written.\<close>

definition take_block :: "nat \<Rightarrow> nat \<Rightarrow> malloc_st \<Rightarrow> (addr \<times> malloc_st) result" where
  "take_block sz lid st =
     (if sz \<le> MAX_SMALL_SIZE then small_malloc (GET_SIZE sz) lid st else do_mmap sz st)"

lemma take_block_spec:
  assumes h: "heap_inv lo L live st" and l: "lid < NUM_FREE_LIST" and sz: "24 \<le> sz"
    and fits: "bump_addr st + sz + MEM_BLOCK_SIZE < 2 ^ 64"
    and room: "bump_addr st + sz + MEM_BLOCK_SIZE < end_addr st"
    and need: "need = (if sz \<le> MAX_SMALL_SIZE then GET_SIZE sz else sz)"
  shows "\<exists>p st' M. take_block sz lid st = Inr (p, st') \<and> heap_inv lo M live st' \<and>
    unclaimed lo M live st' (p, need) \<and> small_lock st' = small_lock st \<and> sz \<le> need \<and>
    (need \<le> MAX_SMALL_SIZE \<longrightarrow> (\<exists>i < 10. need = MIN_SMALL_SIZE * 2 ^ i))"
proof (cases "sz \<le> MAX_SMALL_SIZE")
  case True
  have i: "get_index sz < 10" and le: "sz \<le> GET_SIZE sz" using size_class[of sz] True sz by auto
  obtain p st' where m: "small_malloc (GET_SIZE sz) lid st = Inr (p, st')"
    using small_malloc_total[OF l, of st] fits room by fastforce
  have "bump_addr st + MEM_BLOCK_SIZE < 2 ^ 64" using fits by simp
  from small_malloc_spec[OF h l i this m[unfolded GET_SIZE_def]] show ?thesis
    using m True le i need by (auto simp: take_block_def GET_SIZE_def)
next
  case False
  obtain p st' where m: "do_mmap sz st = Inr (p, st')"
    using do_mmap_total[of st sz] fits room by fastforce
  have "bump_addr st + sz < 2 ^ 64" using fits by simp
  from mmap_unclaimed[OF h m sz this] show ?thesis
    using m False need by (auto simp: take_block_def)
qed

lemma bi_malloc_take_block:
  assumes "sz = usz + ALLOC_T_SZ" and "sz < 2 ^ 64" and "lid = get_lock_id core"
    and "need = (if sz \<le> MAX_SMALL_SIZE then GET_SIZE sz else sz)"
    and "small_lock st lid = 0"
    and "take_block sz lid (st\<lparr>small_lock := (small_lock st)(lid := 1)\<rparr>) = Inr (p, st2)"
    and "p \<noteq> NULL" and "sz \<le> need" and "st3 = ps_lock_release lid st2"
  shows "bi_malloc core usz st = Inr (p + ALLOC_T_SZ,
    st3\<lparr>blk := (blk st3)(p := (blk st3 p)\<lparr>a_size := need, a_lid := lid\<rparr>)\<rparr>)"
proof (cases "sz \<le> MAX_SMALL_SIZE")
  case True
  with assms show ?thesis
    by (simp add: bi_malloc_def ps_lock_take_def Let_def take_block_def)
next
  case False
  with assms show ?thesis
    by (simp add: bi_malloc_def ps_lock_take_def Let_def take_block_def)
qed

text \<open>C29: as long as the node's memory lasts, \<^verbatim>\<open>bi_malloc\<close> returns a block that has room for the
  request, overlaps no block that any caller still holds, and the heap invariant is kept with
  the block added to the ones in use.\<close>

theorem bi_malloc_fresh:
  assumes inv: "malloc_inv lo L live st"
    and fits: "bump_addr st + usz + 24 + MEM_BLOCK_SIZE < 2 ^ 64"
    and room: "bump_addr st + usz + 24 + MEM_BLOCK_SIZE < end_addr st"
  shows "\<exists>p st' M n. bi_malloc core usz st = Inr (p, st') \<and> usz + ALLOC_T_SZ \<le> n \<and> lo + ALLOC_T_SZ \<le> p \<and>
    (\<forall>x \<in> live. \<not> overlap (p - ALLOC_T_SZ, n) x) \<and>
    malloc_inv lo M (insert (p - ALLOC_T_SZ, n) live) st'"
proof -
  define lid where "lid = get_lock_id core"
  define sz where "sz = usz + 24"
  define need where "need = (if sz \<le> MAX_SMALL_SIZE then GET_SIZE sz else sz)"
  have l: "lid < NUM_FREE_LIST" by (simp add: lid_def get_lock_id_def)
  have h: "heap_inv lo L live st" and free: "small_lock st k = 0" if "k < NUM_FREE_LIST" for k
    using inv that by (auto simp: malloc_inv_def)
  define st1 where "st1 = st\<lparr>small_lock := (small_lock st)(lid := 1)\<rparr>"
  have h1: "heap_inv lo L live st1" using h[of 0] by (simp add: st1_def)
  obtain p st2 M where blk: "take_block sz lid st1 = Inr (p, st2)" "heap_inv lo M live st2"
      "unclaimed lo M live st2 (p, need)" "small_lock st2 = small_lock st1" "sz \<le> need"
      "need \<le> MAX_SMALL_SIZE \<longrightarrow> (\<exists>i < 10. need = MIN_SMALL_SIZE * 2 ^ i)"
    using take_block_spec[OF h1 l _ _ _ need_def] fits room by (auto simp: st1_def sz_def)
  define st3 where "st3 = ps_lock_release lid st2"
  define st4 where "st4 = st3\<lparr>blk := (blk st3)(p := (blk st3 p)\<lparr>a_size := need, a_lid := lid\<rparr>)\<rparr>"
  have "heap_inv lo M live st3" "unclaimed lo M live st3 (p, need)"
    using blk(2,3) by (auto simp: st3_def ps_lock_release_def unclaimed_def)
  from claim[OF this l blk(6)] have "heap_inv lo M (insert (p, need) live) st4" by (simp add: st4_def)
  moreover have "small_lock st4 k = 0" if "k < NUM_FREE_LIST" for k
    using free[OF that] blk(4) by (simp add: st4_def st3_def ps_lock_release_def st1_def)
  ultimately have inv': "malloc_inv lo M (insert (p, need) live) st4" by (simp add: malloc_inv_def)
  have p: "lo \<le> p" and nov: "\<forall>x \<in> live. \<not> overlap (p, need) x"
    using blk(3) by (auto simp: unclaimed_def)
  have "p \<noteq> NULL" using p heap_invD(1)[OF h1] by simp
  then have "bi_malloc core usz st = Inr (p + 24, st4)"
    unfolding st4_def using fits
    by (intro bi_malloc_take_block[OF sz_def _ lid_def need_def free[OF l] blk(1)[unfolded st1_def] _ blk(5) st3_def])
      (simp_all add: sz_def)
  then show ?thesis using inv' p nov blk(5) by (intro exI[of _ "p + 24"] exI conjI) (auto simp: sz_def)
qed

lemma push_heap:
  assumes h: "heap_inv lo L live st" and x: "(b, MIN_SMALL_SIZE * 2 ^ i) \<in> live"
    and st': "st' = set_fl l i b (set_next b (small_mem st l i) st)"
  shows "heap_inv lo (push_list l i [b] L) (live - {(b, MIN_SMALL_SIZE * 2 ^ i)}) st'"
    (is "heap_inv lo ?M ?live st'")
proof (rule heap_invI)
  have out: "b \<notin> set (L l' i')" for l' i'
  proof
    assume "b \<in> set (L l' i')"
    then have f: "(b, 64 * 2 ^ i') \<in> free_regions L" by (rule in_free_regions)
    then have "(b, 64 * 2 ^ i') \<noteq> (b, 64 * (2::nat) ^ i)" using heap_invD(6)[OF h] x by auto
    with f x disjoint_regionsD[OF heap_invD(7)[OF h], of "(b, 64 * 2 ^ i')" "(b, 64 * 2 ^ i)"]
    show False using overlap_start[of "64 * 2 ^ i'" "64 * 2 ^ i" b] by simp
  qed
  have b0: "b \<noteq> NULL" using heap_invD(8)[OF h, of "(b, 64 * 2 ^ i)"] heap_invD(1)[OF h] x by auto
  have reg: "free_regions ?M \<union> ?live = free_regions L \<union> live" using x by (auto simp: free_regions_push)
  have bump: "bump_addr st' = bump_addr st" by (simp add: st' set_next_def set_fl_def)
  have hdr: "a_size (blk st' c) = a_size (blk st c)" "a_lid (blk st' c) = a_lid (blk st c)" for c
    by (simp_all add: st' set_next_def set_fl_def)
  show "npath (blk st') (small_mem st' l' i') (?M l' i')" for l' i'
    using heap_invD(3)[OF h, of l' i'] out[of l' i'] b0
    by (auto simp: st' set_next_def set_fl_def push_list_def chain_simps)
  show "distinct (?M l' i')" for l' i'
    using heap_invD(4)[OF h, of l' i'] out[of l' i'] by (auto simp: push_list_def)
  show "set (?M l1 i1) \<inter> set (?M l2 i2) = {}" if "(l1, i1) \<noteq> (l2, i2)" for l1 i1 l2 i2
    using heap_invD(5)[OF h that] out[of l1 i1] out[of l2 i2] that by (auto simp: push_list_def)
  show "free_regions ?M \<inter> ?live = {}" using heap_invD(6)[OF h] by (auto simp: free_regions_push)
  show "disjoint_regions (free_regions ?M \<union> ?live)" unfolding reg by (rule heap_invD(7)[OF h])
  show "lo \<le> fst y \<and> ALLOC_T_SZ \<le> snd y \<and> fst y + snd y \<le> bump_addr st'"
    if "y \<in> free_regions ?M \<union> ?live" for y
    using heap_invD(8)[OF h] that unfolding reg bump by blast
  show "a_size (blk st' (fst y)) = snd y \<and> a_lid (blk st' (fst y)) < NUM_FREE_LIST"
    if "y \<in> ?live" for y using heap_invD(9)[OF h, of y] that by (simp add: hdr)
  show "\<exists>j < 10. snd y = MIN_SMALL_SIZE * 2 ^ j" if "y \<in> ?live" "snd y \<le> MAX_SMALL_SIZE" for y
    using heap_invD(10)[OF h, of y] that by blast
  show "0 < lo" "lo \<le> bump_addr st'" using heap_invD(1,2)[OF h] bump by auto
qed

lemma free_live:
  assumes inv: "malloc_inv lo L live st" and x: "(b, n) \<in> live"
  shows "\<exists>st' M. bi_free (b + ALLOC_T_SZ) st = Inr st' \<and> malloc_inv lo M (live - {(b, n)}) st' \<and>
    (n \<le> MAX_SMALL_SIZE \<longrightarrow> small_mem st' (a_lid (blk st b)) (get_index n) = b \<and>
       M = push_list (a_lid (blk st b)) (get_index n) [b] L)"
proof -
  have h: "heap_inv lo L live st" using inv by (simp add: malloc_inv_def)
  define l where "l = a_lid (blk st b)"
  have hd: "a_size (blk st b) = n" "l < NUM_FREE_LIST" using heap_invD(9)[OF h x] by (auto simp: l_def)
  have n: "0 < n" using heap_invD(8)[OF h, of "(b, n)"] x by auto
  have free: "small_lock st k = 0" if "k < NUM_FREE_LIST" for k using inv that by (simp add: malloc_inv_def)
  show ?thesis
  proof (cases "n \<le> MAX_SMALL_SIZE")
    case True
    then obtain i where i: "i < 10" "n = 64 * 2 ^ i" using heap_invD(10)[OF h x] by auto
    define st1 where "st1 = st\<lparr>small_lock := (small_lock st)(l := 1)\<rparr>"
    define st2 where "st2 = set_fl l i b (set_next b (small_mem st1 l i) st1)"
    have h1: "heap_inv lo L live st1" using h by (simp add: st1_def)
    have "heap_inv lo (push_list l i [b] L) (live - {(b, n)}) st2"
      using push_heap[OF h1 _ st2_def] x i by simp
    moreover have "small_lock (ps_lock_release l st2) k = 0" if "k < NUM_FREE_LIST" for k
      using free[OF that] by (simp add: ps_lock_release_def st2_def st1_def set_fl_def set_next_def)
    ultimately have "malloc_inv lo (push_list l i [b] L) (live - {(b, n)}) (ps_lock_release l st2)"
      by (simp add: malloc_inv_def ps_lock_release_def)
    moreover have "bi_free (b + 24) st = Inr (ps_lock_release l st2)"
      using hd True n free[OF hd(2)] get_index_class[OF i(1)] i(2)
      by (simp add: bi_free_def ps_lock_take_def small_free_def Let_def l_def st1_def st2_def)
    moreover have "small_mem (ps_lock_release l st2) l i = b"
      by (simp add: ps_lock_release_def st2_def set_fl_def)
    ultimately show ?thesis using get_index_class[OF i(1)] i(2) by (auto simp: l_def)
  next
    case False
    then have "bi_free (b + 24) st = Inr st" using hd n by (simp add: bi_free_def Let_def)
    moreover have "malloc_inv lo L (live - {(b, n)}) st"
      using heap_inv_shrink[OF h, of "live - {(b, n)}"] free by (simp add: malloc_inv_def)
    ultimately show ?thesis using False by auto
  qed
qed

text \<open>The size class of a small request is large enough, wastes less than half of the
  block unless the block is the smallest one, and indexes one of the ten free lists.\<close>

theorem size_class_bounds:
  assumes "0 < s" and "s \<le> MAX_SMALL_SIZE"
  shows "s \<le> GET_SIZE s \<and> (MIN_SMALL_SIZE < GET_SIZE s \<longrightarrow> GET_SIZE s < 2 * s) \<and>
    GET_SIZE s \<le> MAX_SMALL_SIZE \<and> get_index s < 10"
  using size_class[OF assms] by blast

theorem size_class_bounds_witness:
  "GET_SIZE 100 = 128 \<and> get_index 100 < 10 \<and> (100::nat) \<le> GET_SIZE 100"
proof -
  have "get_index 100 = 1" by (simp add: get_index_def index_loop.simps[of 1])
  then show ?thesis using size_class_bounds[of 100] by (simp add: GET_SIZE_def)
qed

text \<open>A small heap with one block in use, for the concrete instances below.\<close>

definition heap_example :: malloc_st where
  "heap_example = \<lparr>bump_addr = 8192, end_addr = 1000000, small_mem = (\<lambda>_ _. 0), small_lock = (\<lambda>_. 0),
     blk = (\<lambda>_. \<lparr>a_next = 0, a_size = 64, a_lid = 3\<rparr>)\<rparr>"

lemma heap_example_inv: "malloc_inv 4096 (\<lambda>_ _. []) {(4096, 64)} heap_example"
  by (auto simp: malloc_inv_def heap_inv_def heap_example_def free_regions_def disjoint_regions_def)

theorem bi_malloc_fresh_witness:
  "\<exists>p st' M n. bi_malloc 3 100 heap_example = Inr (p, st') \<and> 124 \<le> n \<and>
    \<not> overlap (p - 24, n) (4096, 64) \<and> malloc_inv 4096 M (insert (p - 24, n) {(4096, 64)}) st'"
  using bi_malloc_fresh[OF heap_example_inv, of 100 3] by (auto simp: heap_example_def)

text \<open>C30: releasing a block that is in use never aborts and keeps the heap invariant with the
  block no longer in use; a small block becomes the head of the free list of its own class and
  of the lock it was allocated under.\<close>

theorem bi_free_live:
  assumes "malloc_inv lo L live st" and "(b, n) \<in> live"
  shows "\<exists>st' M. bi_free (b + ALLOC_T_SZ) st = Inr st' \<and> malloc_inv lo M (live - {(b, n)}) st' \<and>
    (n \<le> MAX_SMALL_SIZE \<longrightarrow> small_mem st' (a_lid (blk st b)) (get_index n) = b)"
  using free_live[OF assms] by blast

theorem bi_free_live_witness:
  "\<exists>st' M. bi_free 4120 heap_example = Inr st' \<and> malloc_inv 4096 M {} st' \<and>
    small_mem st' 3 (get_index 64) = 4096"
  using bi_free_live[OF heap_example_inv, of 4096 64] by (auto simp: heap_example_def)

text \<open>A released small block is the one handed out by the next request of its size class on
  a core that uses the same lock.\<close>

theorem free_then_malloc_reuses:
  assumes inv: "malloc_inv lo L live st" and x: "(b, n) \<in> live" and small: "n \<le> MAX_SMALL_SIZE"
    and cls: "usz + ALLOC_T_SZ \<le> MAX_SMALL_SIZE" "GET_SIZE (usz + ALLOC_T_SZ) = n"
    and core: "get_lock_id core = a_lid (blk st b)"
    and free: "bi_free (b + ALLOC_T_SZ) st = Inr st'"
  shows "\<exists>st''. bi_malloc core usz st' = Inr (b + ALLOC_T_SZ, st'')"
proof -
  define l where "l = get_lock_id core"
  obtain M where inv': "malloc_inv lo M (live - {(b, n)}) st'"
    and head: "small_mem st' l (get_index n) = b"
    using free_live[OF inv x] free small core by (auto simp: l_def)
  have l: "l < NUM_FREE_LIST" by (simp add: l_def get_lock_id_def)
  have b: "b \<noteq> NULL"
    using heap_invD(1,8)[of lo L live st] inv x by (fastforce simp: malloc_inv_def)
  define i where "i = get_index (usz + 24)"
  have i: "i < 10" and le: "usz + 24 \<le> GET_SIZE (usz + 24)"
    using size_class[of "usz + 24"] cls(1) by (auto simp: i_def)
  have n: "n = 64 * 2 ^ i" using cls(2) by (simp add: GET_SIZE_def i_def)
  have head': "small_mem st' l i = b" using head n get_index_class[OF i] by simp
  have lock: "small_lock st' l = 0" using inv' l by (simp add: malloc_inv_def)
  obtain st2 where "take_block (usz + 24) l (st'\<lparr>small_lock := (small_lock st')(l := 1)\<rparr>) = Inr (b, st2)"
    using cls l b head' n get_index_class[OF i] by (simp add: take_block_def small_malloc_def Let_def)
  from bi_malloc_take_block[OF refl _ l_def refl lock this b _ refl] show ?thesis
    using le cls(1) by auto
qed

theorem free_then_malloc_reuses_witness:
  "\<exists>st' st''. bi_free 4120 heap_example = Inr st' \<and> bi_malloc 35 20 st' = Inr (4120, st'')"
proof -
  have "get_index 44 = 0" by (simp add: get_index_def)
  then have c: "GET_SIZE (20 + ALLOC_T_SZ) = 64" by (simp add: GET_SIZE_def)
  obtain st' where f: "bi_free (4096 + ALLOC_T_SZ) heap_example = Inr st'"
    using free_live[OF heap_example_inv, of 4096 64] by auto
  have "\<exists>st''. bi_malloc 35 20 st' = Inr (4096 + ALLOC_T_SZ, st'')"
    by (rule free_then_malloc_reuses[OF heap_example_inv _ _ _ c _ f])
      (simp_all add: heap_example_def get_lock_id_def)
  with f show ?thesis by auto
qed

end
