(* ===== verification/Fifo.thy ===== *)
theory Fifo
  imports BI_Prelude
begin

text \<open>
  The interface that every queue of the program promises: bounded first-in first-out storage.
  The quiescence rings of \<^verbatim>\<open>libs/bi/bi_smr.c\<close>, the page list of
  \<^verbatim>\<open>libs/mem/mem_mgr.c\<close> and the message rings are instances; what their clients
  need (no element is lost, duplicated or reordered by any interleaving of insertions and
  removals) is proved here once.
\<close>

section \<open>Histories of a queue\<close>

datatype 'a fifo_op = Enq 'a | Deq

text \<open>
  Run a sequence of operations; the result is the list of accepted insertions, the list of
  removed elements and the final queue. An insertion into a full queue and a removal from an
  empty one are refused and change nothing.
\<close>

fun fifo_run ::
  "('q \<Rightarrow> 'a \<Rightarrow> 'q option) \<Rightarrow> ('q \<Rightarrow> ('a \<times> 'q) option) \<Rightarrow> 'a fifo_op list \<Rightarrow> 'q \<Rightarrow>
   'a list \<times> 'a list \<times> 'q" where
  "fifo_run enq deq [] q = ([], [], q)"
| "fifo_run enq deq (Enq x # ops) q =
     (case enq q x of
        None \<Rightarrow> fifo_run enq deq ops q
      | Some q' \<Rightarrow> (let (ins, outs, r) = fifo_run enq deq ops q' in (x # ins, outs, r)))"
| "fifo_run enq deq (Deq # ops) q =
     (case deq q of
        None \<Rightarrow> fifo_run enq deq ops q
      | Some (y, q') \<Rightarrow> (let (ins, outs, r) = fifo_run enq deq ops q' in (ins, y # outs, r)))"

section \<open>The contract\<close>

locale bounded_fifo =
  fixes inv :: "'q \<Rightarrow> bool"
    and items :: "'q \<Rightarrow> 'a list"
    and cap :: nat
    and enq :: "'q \<Rightarrow> 'a \<Rightarrow> 'q option"
    and deq :: "'q \<Rightarrow> ('a \<times> 'q) option"
  assumes items_le_cap: "inv q \<Longrightarrow> length (items q) \<le> cap"
    and enq_room: "inv q \<Longrightarrow> length (items q) < cap \<Longrightarrow>
      \<exists>q'. enq q x = Some q' \<and> inv q' \<and> items q' = items q @ [x]"
    and enq_full: "inv q \<Longrightarrow> length (items q) = cap \<Longrightarrow> enq q x = None"
    and deq_empty: "inv q \<Longrightarrow> items q = [] \<Longrightarrow> deq q = None"
    and deq_front: "inv q \<Longrightarrow> items q = y # ys \<Longrightarrow>
      \<exists>q'. deq q = Some (y, q') \<and> inv q' \<and> items q' = ys"
begin

lemma enqD: "inv q \<Longrightarrow> enq q x = Some q' \<Longrightarrow>
    length (items q) < cap \<and> inv q' \<and> items q' = items q @ [x]"
  using items_le_cap[of q] enq_room[of q x] enq_full[of q x]
  by (cases "length (items q) < cap") auto

lemma deqD: "inv q \<Longrightarrow> deq q = Some (y, q') \<Longrightarrow> inv q' \<and> items q = y # items q'"
  using deq_empty[of q] deq_front[of q] by (cases "items q") auto

lemma run_history:
  "inv q \<Longrightarrow> fifo_run enq deq ops q = (ins, outs, r) \<Longrightarrow>
   inv r \<and> outs @ items r = items q @ ins"
proof (induction ops arbitrary: q ins outs)
  case (Cons op ops)
  show ?case
  proof (cases op)
    case (Enq x)
    show ?thesis
    proof (cases "enq q x")
      case None
      with Cons Enq show ?thesis by simp
    next
      case (Some q')
      obtain ins' where i: "ins = x # ins'" and run: "fifo_run enq deq ops q' = (ins', outs, r)"
        using Cons.prems(2) Enq Some by (auto split: prod.splits)
      show ?thesis
        using Cons.IH[OF _ run] enqD[OF Cons.prems(1) Some] i by simp
    qed
  next
    case Deq
    show ?thesis
    proof (cases "deq q")
      case None
      with Cons Deq show ?thesis by simp
    next
      case (Some yq)
      then obtain y q' where yq: "deq q = Some (y, q')" by (cases yq) auto
      obtain outs' where o: "outs = y # outs'" and run: "fifo_run enq deq ops q' = (ins, outs', r)"
        using Cons.prems(2) Deq yq by (auto split: prod.splits)
      show ?thesis
        using Cons.IH[OF _ run] deqD[OF Cons.prems(1) yq] o by simp
    qed
  qed
qed simp

lemma run_from_empty:
  assumes "inv q" and "items q = []" and "fifo_run enq deq ops q = (ins, outs, r)"
  shows "ins = outs @ items r" and "length ins \<le> length outs + cap"
  using run_history[OF assms(1,3)] items_le_cap[of r] assms(2) by auto

end

section \<open>Channels without a full check\<close>

text \<open>
  A sender that never looks at the receiver's side relies on the protocol above it not to have
  more than \<open>cap\<close> messages in flight. \<open>paced\<close> says that a history keeps to this, counting
  from \<open>n\<close> messages in flight; \<open>chan_run\<close> returns what was received and the final channel.
\<close>

fun paced :: "nat \<Rightarrow> nat \<Rightarrow> 'a fifo_op list \<Rightarrow> bool" where
  "paced cap n [] \<longleftrightarrow> True"
| "paced cap n (Enq x # ops) \<longleftrightarrow> n < cap \<and> paced cap (Suc n) ops"
| "paced cap n (Deq # ops) \<longleftrightarrow> paced cap (n - 1) ops"

fun sent :: "'a fifo_op list \<Rightarrow> 'a list" where
  "sent [] = []"
| "sent (Enq x # ops) = x # sent ops"
| "sent (Deq # ops) = sent ops"

fun chan_run ::
  "('q \<Rightarrow> 'a \<Rightarrow> 'q) \<Rightarrow> ('q \<Rightarrow> ('a \<times> 'q) option) \<Rightarrow> 'a fifo_op list \<Rightarrow> 'q \<Rightarrow> 'a list \<times> 'q" where
  "chan_run snd_op rcv_op [] q = ([], q)"
| "chan_run snd_op rcv_op (Enq x # ops) q = chan_run snd_op rcv_op ops (snd_op q x)"
| "chan_run snd_op rcv_op (Deq # ops) q =
     (case rcv_op q of
        None \<Rightarrow> chan_run snd_op rcv_op ops q
      | Some (y, q') \<Rightarrow> (let (ys, r) = chan_run snd_op rcv_op ops q' in (y # ys, r)))"

locale fifo_channel =
  fixes inv :: "'q \<Rightarrow> bool"
    and items :: "'q \<Rightarrow> 'a list"
    and cap :: nat
    and ok :: "'a \<Rightarrow> bool"
    and snd_op :: "'q \<Rightarrow> 'a \<Rightarrow> 'q"
    and rcv_op :: "'q \<Rightarrow> ('a \<times> 'q) option"
  assumes snd_room: "inv q \<Longrightarrow> ok x \<Longrightarrow> length (items q) < cap \<Longrightarrow>
      inv (snd_op q x) \<and> items (snd_op q x) = items q @ [x]"
    and rcv_empty: "inv q \<Longrightarrow> items q = [] \<Longrightarrow> rcv_op q = None"
    and rcv_front: "inv q \<Longrightarrow> items q = y # ys \<Longrightarrow>
      \<exists>q'. rcv_op q = Some (y, q') \<and> inv q' \<and> items q' = ys"
begin

lemma chan_history:
  "inv q \<Longrightarrow> list_all ok (sent ops) \<Longrightarrow> paced cap (length (items q)) ops \<Longrightarrow>
   chan_run snd_op rcv_op ops q = (outs, r) \<Longrightarrow> inv r \<and> outs @ items r = items q @ sent ops"
proof (induction ops arbitrary: q outs)
  case (Cons op ops)
  show ?case
  proof (cases op)
    case (Enq x)
    have "inv (snd_op q x) \<and> items (snd_op q x) = items q @ [x]"
      using Cons.prems Enq by (intro snd_room) auto
    with Cons.IH[of "snd_op q x" outs] Cons.prems Enq show ?thesis by simp
  next
    case Deq
    show ?thesis
    proof (cases "items q")
      case Nil
      with rcv_empty Cons Deq show ?thesis by simp
    next
      case (Cons y ys)
      obtain q' where q': "rcv_op q = Some (y, q')" "inv q'" "items q' = ys"
        using rcv_front[OF Cons.prems(1) Cons] by blast
      obtain outs' where "outs = y # outs'" "chan_run snd_op rcv_op ops q' = (outs', r)"
        using Cons.prems(4) Deq q'(1) by (auto split: prod.splits)
      with Cons.IH[of q' outs'] Cons.prems q' Deq Cons show ?thesis by simp
    qed
  qed
qed simp

end

text \<open>A queue with a full check is such a channel, whatever is sent.\<close>

sublocale bounded_fifo < chan: fifo_channel inv items cap "\<lambda>_. True"
  "\<lambda>q x. case enq q x of None \<Rightarrow> q | Some q' \<Rightarrow> q'" deq
proof unfold_locales
  fix q x
  assume "inv q" "length (items q) < cap"
  from enq_room[OF this, of x] show "inv (case enq q x of None \<Rightarrow> q | Some q' \<Rightarrow> q') \<and>
      items (case enq q x of None \<Rightarrow> q | Some q' \<Rightarrow> q') = items q @ [x]" by auto
qed (simp_all add: deq_empty deq_front)

end
