(* ===== verification/Qsc_Ring.thy ===== *)
theory Qsc_Ring
  imports Fifo
begin

text \<open>
  The quiescence ring of \<^verbatim>\<open>include/bi_smr.h\<close> and
  \<^verbatim>\<open>libs/bi/bi_smr.c\<close> (lines 8 to 124): the single-writer ring of freed or modified
  objects, stamped with the time at which they entered it, and the writer's local cache in front
  of it that is pushed into the ring in batches.

  The ring array is a function from slot numbers; only slots below
  \<^const>\<open>MAX_QUI_RING_LEN\<close> are ever written (\<open>ring_wf\<close> is kept by every operation).
  The parameter \<open>clk\<close> is the sequence of values that the successive calls of
  \<^verbatim>\<open>bi_global_rtdsc()\<close> return inside one operation.
\<close>

section \<open>Data\<close>

record parsec =
  time_in :: u64
  time_out :: u64

record quies_item =
  mh :: addr
  qsz :: nat
  tsc_free :: u64

record bi_qsc_ring =
  q_head :: nat
  q_tail :: nat
  q_ring :: "nat \<Rightarrow> quies_item"

record qsc_local_cache =
  lc_m :: "nat \<Rightarrow> addr"
  lc_sz :: "nat \<Rightarrow> nat"
  lc_cnt :: nat

section \<open>Operations\<close>

definition parsec_struct_init :: "parsec \<Rightarrow> parsec" where
  "parsec_struct_init p = p\<lparr>time_in := 0, time_out := 1\<rparr>"

definition qsc_ring_struct_init :: "bi_qsc_ring \<Rightarrow> bi_qsc_ring" where
  "qsc_ring_struct_init p = p\<lparr>q_head := 0, q_tail := 0\<rparr>"

definition qsc_ring_len :: "bi_qsc_ring \<Rightarrow> nat" where
  "qsc_ring_len ql = (q_tail ql + MAX_QUI_RING_LEN - q_head ql) mod MAX_QUI_RING_LEN"

definition qsc_ring_peek :: "bi_qsc_ring \<Rightarrow> quies_item option" where
  "qsc_ring_peek ql = (if q_head ql = q_tail ql then None else Some (q_ring ql (q_head ql)))"

definition qsc_ring_dequeue :: "bi_qsc_ring \<Rightarrow> (quies_item \<times> bi_qsc_ring) option" where
  "qsc_ring_dequeue ql =
     (if q_head ql = q_tail ql then None
      else Some (q_ring ql (q_head ql),
                 ql\<lparr>q_head := (q_head ql + 1) mod MAX_QUI_RING_LEN\<rparr>))"

text \<open>
  The loop of \<^verbatim>\<open>qsc_ring_enqueue_batch\<close>: \<open>k\<close> iterations remain, \<open>i\<close> is the
  index into the batch and \<open>j\<close> the slot. The tail of the ring moves only after the whole batch.
\<close>

fun qsc_enqueue_loop ::
  "bi_qsc_ring \<Rightarrow> (nat \<Rightarrow> addr) \<Rightarrow> (nat \<Rightarrow> nat) \<Rightarrow> (nat \<Rightarrow> u64) \<Rightarrow> nat \<Rightarrow> nat \<Rightarrow> nat \<Rightarrow>
   (bi_qsc_ring \<times> nat) result" where
  "qsc_enqueue_loop ql m s clk 0 i j = Inr (ql, j)"
| "qsc_enqueue_loop ql m s clk (Suc k) i j =
     (if q_head ql = (j + 1) mod MAX_QUI_RING_LEN then Inl Assert_fail
      else qsc_enqueue_loop
             (ql\<lparr>q_ring := (q_ring ql)(j := \<lparr>mh = m i, qsz = s i, tsc_free = clk i\<rparr>)\<rparr>)
             m s clk k (Suc i) ((j + 1) mod MAX_QUI_RING_LEN))"

definition qsc_ring_enqueue_batch ::
  "bi_qsc_ring \<Rightarrow> (nat \<Rightarrow> addr) \<Rightarrow> (nat \<Rightarrow> nat) \<Rightarrow> (nat \<Rightarrow> u64) \<Rightarrow> nat \<Rightarrow> bi_qsc_ring result" where
  "qsc_ring_enqueue_batch ql m s clk batch =
     bindE (qsc_enqueue_loop ql m s clk batch 0 (q_tail ql)) (\<lambda>(ql', j). Inr (ql'\<lparr>q_tail := j\<rparr>))"

definition qsc_local_cache_init :: "qsc_local_cache \<Rightarrow> qsc_local_cache" where
  "qsc_local_cache_init lc = lc\<lparr>lc_cnt := 0\<rparr>"

definition qsc_local_cache_flush ::
  "qsc_local_cache \<Rightarrow> bi_qsc_ring \<Rightarrow> (nat \<Rightarrow> u64) \<Rightarrow> (nat \<times> qsc_local_cache \<times> bi_qsc_ring) result" where
  "qsc_local_cache_flush lc ql clk =
     bindE (qsc_ring_enqueue_batch ql (lc_m lc) (lc_sz lc) clk (lc_cnt lc))
       (\<lambda>ql'. Inr (lc_cnt lc, qsc_local_cache_init lc, ql'))"

definition qsc_local_cache_put ::
  "qsc_local_cache \<Rightarrow> bi_qsc_ring \<Rightarrow> (nat \<Rightarrow> u64) \<Rightarrow> addr \<Rightarrow> nat \<Rightarrow>
   (qsc_local_cache \<times> bi_qsc_ring) result" where
  "qsc_local_cache_put lc ql clk buf s =
     bindE (assertE (lc_cnt lc < LOCAL_CACHE_QUEUE_SZ)) (\<lambda>_.
       let c = lc_cnt lc;
           lc' = lc\<lparr>lc_m := (lc_m lc)(c := buf), lc_sz := (lc_sz lc)(c := s), lc_cnt := c + 1\<rparr>
       in if lc_cnt lc' = LOCAL_CACHE_QUEUE_SZ
          then bindE (qsc_local_cache_flush lc' ql clk) (\<lambda>(_, lc'', ql'). Inr (lc'', ql'))
          else Inr (lc', ql))"

text \<open>
  \<^verbatim>\<open>qsc_ring_flush\<close> walks the ring and flushes every object it names; the model returns
  the list of (address, size) ranges handed to \<^verbatim>\<open>clflush_range_opt\<close>. The loop runs at most once
  per slot, so \<^const>\<open>MAX_QUI_RING_LEN\<close> iterations are enough.
\<close>

fun qsc_flush_loop :: "nat \<Rightarrow> bi_qsc_ring \<Rightarrow> nat \<Rightarrow> (addr \<times> nat) list result" where
  "qsc_flush_loop 0 ql i = (if i = q_tail ql then Inr [] else Inl Out_of_fuel)"
| "qsc_flush_loop (Suc n) ql i =
     (if i = q_tail ql then Inr []
      else bindE (qsc_flush_loop n ql ((i + 1) mod MAX_QUI_RING_LEN))
             (\<lambda>rest. Inr ((mh (q_ring ql i), qsz (q_ring ql i)) # rest)))"

definition qsc_ring_flush :: "bi_qsc_ring \<Rightarrow> (addr \<times> nat) list result" where
  "qsc_ring_flush ql = qsc_flush_loop MAX_QUI_RING_LEN ql (q_head ql)"

section \<open>Well-formedness and the queue a ring stands for\<close>

definition ring_wf :: "bi_qsc_ring \<Rightarrow> bool" where
  "ring_wf ql \<longleftrightarrow> q_head ql < MAX_QUI_RING_LEN \<and> q_tail ql < MAX_QUI_RING_LEN"

definition ring_items :: "bi_qsc_ring \<Rightarrow> quies_item list" where
  "ring_items ql = map (q_ring ql) (ring_slots MAX_QUI_RING_LEN (q_head ql) (qsc_ring_len ql))"

definition lc_pending :: "qsc_local_cache \<Rightarrow> (addr \<times> nat) list" where
  "lc_pending lc = map (\<lambda>i. (lc_m lc i, lc_sz lc i)) [0..<lc_cnt lc]"

definition lc_wf :: "qsc_local_cache \<Rightarrow> bool" where
  "lc_wf lc \<longleftrightarrow> lc_cnt lc < LOCAL_CACHE_QUEUE_SZ"

lemma qsc_ring_len_dist: "qsc_ring_len ql = ring_dist MAX_QUI_RING_LEN (q_head ql) (q_tail ql)"
  by (simp add: qsc_ring_len_def ring_dist_def)

lemma length_ring_items [simp]: "length (ring_items ql) = qsc_ring_len ql"
  by (simp add: ring_items_def)

lemma qsc_ring_len_less: "qsc_ring_len ql < MAX_QUI_RING_LEN"
  by (simp add: qsc_ring_len_def)

lemma ring_items_init [simp]: "ring_items (qsc_ring_struct_init ql) = []"
  by (simp add: ring_items_def qsc_ring_len_def qsc_ring_struct_init_def)

lemma ring_wf_init [simp]: "ring_wf (qsc_ring_struct_init ql)"
  by (simp add: ring_wf_def qsc_ring_struct_init_def)

lemma lc_pending_init [simp]: "lc_pending (qsc_local_cache_init lc) = []"
  by (simp add: lc_pending_def qsc_local_cache_init_def)

lemma lc_cnt_init [simp]: "lc_cnt (qsc_local_cache_init lc) = 0"
  by (simp add: qsc_local_cache_init_def)

lemma lc_wf_init [simp]: "lc_wf (qsc_local_cache_init lc)"
  by (simp add: lc_wf_def qsc_local_cache_init_def)

section \<open>Lemmas on the batch loop\<close>

abbreviation batch_item :: "(nat \<Rightarrow> addr) \<Rightarrow> (nat \<Rightarrow> nat) \<Rightarrow> (nat \<Rightarrow> u64) \<Rightarrow> nat \<Rightarrow> quies_item" where
  "batch_item m s clk i \<equiv> \<lparr>mh = m i, qsz = s i, tsc_free = clk i\<rparr>"

text \<open>Writing the slot behind the last item appends that item and touches no other.\<close>

lemma ring_write_tail:
  assumes "h < N" and "j < N" and "d = ring_dist N h j"
  shows "map (f(j := x)) (ring_slots N h (Suc d)) = map f (ring_slots N h d) @ [x]"
proof -
  have j: "(h + d) mod N = j" and d: "d < N"
    using assms ring_dist_end[of h N j] ring_dist_less[of N h j] by auto
  then have "j \<notin> set (ring_slots N h d)"
    using ring_tail_not_in_slots[of h N d] assms(1) by simp
  then show ?thesis
    by (auto simp: ring_slots_snoc j)
qed

lemma qsc_enqueue_loop_room:
  assumes "q_head ql < MAX_QUI_RING_LEN" and "j < MAX_QUI_RING_LEN"
    and "ring_dist MAX_QUI_RING_LEN (q_head ql) j + k < MAX_QUI_RING_LEN"
  shows "\<exists>ql'. qsc_enqueue_loop ql m s clk k i j = Inr (ql', (j + k) mod MAX_QUI_RING_LEN) \<and>
      q_head ql' = q_head ql \<and> q_tail ql' = q_tail ql \<and>
      map (q_ring ql') (ring_slots MAX_QUI_RING_LEN (q_head ql)
          (ring_dist MAX_QUI_RING_LEN (q_head ql) j + k)) =
      map (q_ring ql) (ring_slots MAX_QUI_RING_LEN (q_head ql)
          (ring_dist MAX_QUI_RING_LEN (q_head ql) j)) @ map (batch_item m s clk) [i..<i + k]"
  using assms
proof (induction k arbitrary: ql i j)
  case 0
  then show ?case by simp
next
  case (Suc k)
  let ?N = "MAX_QUI_RING_LEN" and ?h = "q_head ql"
  let ?d = "ring_dist ?N ?h j" and ?j = "(j + 1) mod ?N"
  let ?ql = "ql\<lparr>q_ring := (q_ring ql)(j := batch_item m s clk i)\<rparr>"
  have not_full: "?h \<noteq> ?j"
    using Suc.prems ring_full_iff[of ?h ?N j] by auto
  have d': "ring_dist ?N ?h ?j = Suc ?d"
    using ring_dist_Suc_tail[OF Suc.prems(1,2) not_full] .
  have w: "map (q_ring ?ql) (ring_slots ?N ?h (Suc ?d)) =
      map (q_ring ql) (ring_slots ?N ?h ?d) @ [batch_item m s clk i]"
    using ring_write_tail[OF Suc.prems(1,2) refl, of "q_ring ql"] by simp
  obtain ql' where IH: "qsc_enqueue_loop ?ql m s clk k (Suc i) ?j = Inr (ql', (?j + k) mod ?N)"
      "q_head ql' = ?h" "q_tail ql' = q_tail ql"
      "map (q_ring ql') (ring_slots ?N ?h (Suc ?d + k)) =
       map (q_ring ?ql) (ring_slots ?N ?h (Suc ?d)) @ map (batch_item m s clk) [Suc i..<Suc i + k]"
    using Suc.IH[of ?ql ?j "Suc i"] Suc.prems d' by auto
  have step: "qsc_enqueue_loop ql m s clk (Suc k) i j = Inr (ql', (j + Suc k) mod ?N)"
    using not_full IH(1) by (simp add: mod_add_left_eq)
  have range: "[i..<Suc (i + k)] = i # [Suc i..<Suc (i + k)]"
    by (rule upt_conv_Cons) simp
  show ?case
    using step IH(2,3,4) w by (intro exI[of _ ql']) (simp add: range del: upt_Suc)
qed

lemma qsc_enqueue_loop_full:
  assumes "q_head ql < MAX_QUI_RING_LEN" and "j < MAX_QUI_RING_LEN"
    and "MAX_QUI_RING_LEN \<le> ring_dist MAX_QUI_RING_LEN (q_head ql) j + k"
  shows "qsc_enqueue_loop ql m s clk k i j = Inl Assert_fail"
  using assms
proof (induction k arbitrary: ql i j)
  case 0
  then show ?case
    using ring_dist_less[of MAX_QUI_RING_LEN "q_head ql" j] by simp
next
  case (Suc k)
  let ?N = "MAX_QUI_RING_LEN" and ?h = "q_head ql" and ?j = "(j + 1) mod MAX_QUI_RING_LEN"
  show ?case
  proof (cases "?h = ?j")
    case False
    have "ring_dist ?N ?h ?j = Suc (ring_dist ?N ?h j)"
      using ring_dist_Suc_tail[OF Suc.prems(1,2) False] .
    with Suc False show ?thesis by simp
  qed simp
qed

section \<open>The operations as queue operations\<close>

lemma enqueue_batch_room:
  assumes wf: "ring_wf ql" and room: "qsc_ring_len ql + batch < MAX_QUI_RING_LEN"
  shows "\<exists>ql'. qsc_ring_enqueue_batch ql m s clk batch = Inr ql' \<and> ring_wf ql' \<and>
      q_head ql' = q_head ql \<and>
      ring_items ql' = ring_items ql @ map (batch_item m s clk) [0..<batch]"
proof -
  let ?N = "MAX_QUI_RING_LEN" and ?h = "q_head ql"
  have h: "?h < ?N" and t: "q_tail ql < ?N" using wf by (auto simp: ring_wf_def)
  obtain ql' where l: "qsc_enqueue_loop ql m s clk batch 0 (q_tail ql) =
      Inr (ql', (q_tail ql + batch) mod ?N)" "q_head ql' = ?h"
      "map (q_ring ql') (ring_slots ?N ?h (qsc_ring_len ql + batch)) =
       ring_items ql @ map (batch_item m s clk) [0..<batch]"
    using qsc_enqueue_loop_room[OF h t, of batch m s clk 0] room
    by (auto simp: qsc_ring_len_dist ring_items_def)
  have "(?h + (qsc_ring_len ql + batch)) mod ?N = (q_tail ql + batch) mod ?N"
    using ring_dist_end[OF h t] by (metis add.assoc mod_add_left_eq qsc_ring_len_dist)
  then have "ring_dist ?N ?h ((q_tail ql + batch) mod ?N) = qsc_ring_len ql + batch"
    using ring_dist_add[OF h room] by simp
  then show ?thesis
    using l h by (simp add: qsc_ring_enqueue_batch_def ring_wf_def ring_items_def qsc_ring_len_dist)
qed

lemma enqueue_batch_full:
  assumes "ring_wf ql" and "MAX_QUI_RING_LEN \<le> qsc_ring_len ql + batch"
  shows "qsc_ring_enqueue_batch ql m s clk batch = Inl Assert_fail"
  using qsc_enqueue_loop_full[of ql "q_tail ql" batch m s clk 0] assms
  by (simp add: qsc_ring_enqueue_batch_def ring_wf_def qsc_ring_len_dist)

lemma enqueue_batch_ok_iff:
  "ring_wf ql \<Longrightarrow> (\<exists>ql'. qsc_ring_enqueue_batch ql m s clk batch = Inr ql') \<longleftrightarrow>
    qsc_ring_len ql + batch < MAX_QUI_RING_LEN"
  using enqueue_batch_room[of ql batch m s clk] enqueue_batch_full[of ql batch m s clk]
  by (cases "qsc_ring_len ql + batch < MAX_QUI_RING_LEN") auto

lemma ring_items_empty_iff: "ring_wf ql \<Longrightarrow> ring_items ql = [] \<longleftrightarrow> q_head ql = q_tail ql"
  using ring_dist_eq_0[of "q_head ql" MAX_QUI_RING_LEN "q_tail ql"]
  by (metis length_0_conv length_ring_items qsc_ring_len_dist ring_wf_def)

lemma ring_items_Cons:
  assumes wf: "ring_wf ql" and ne: "q_head ql \<noteq> q_tail ql"
  shows "ring_items ql = q_ring ql (q_head ql) #
      ring_items (ql\<lparr>q_head := (q_head ql + 1) mod MAX_QUI_RING_LEN\<rparr>)"
proof -
  let ?N = "MAX_QUI_RING_LEN"
  have "qsc_ring_len ql = Suc (ring_dist ?N ((q_head ql + 1) mod ?N) (q_tail ql))"
    using ring_dist_Suc_head[of "q_head ql" ?N "q_tail ql"] wf ne
    by (simp add: ring_wf_def qsc_ring_len_dist)
  then show ?thesis
    using wf by (simp add: ring_items_def ring_slots_Cons qsc_ring_len_dist ring_wf_def)
qed

lemma peek_spec: "ring_wf ql \<Longrightarrow>
    qsc_ring_peek ql = (case ring_items ql of [] \<Rightarrow> None | x # _ \<Rightarrow> Some x)"
  using ring_items_empty_iff[of ql] ring_items_Cons[of ql]
  by (auto simp: qsc_ring_peek_def split: list.splits)

lemma dequeue_empty: "ring_wf ql \<Longrightarrow> ring_items ql = [] \<Longrightarrow> qsc_ring_dequeue ql = None"
  by (simp add: qsc_ring_dequeue_def ring_items_empty_iff)

lemma dequeue_front:
  assumes wf: "ring_wf ql" and it: "ring_items ql = x # xs"
  shows "\<exists>ql'. qsc_ring_dequeue ql = Some (x, ql') \<and> ring_wf ql' \<and> ring_items ql' = xs \<and>
      q_tail ql' = q_tail ql"
proof -
  have ne: "q_head ql \<noteq> q_tail ql" using ring_items_empty_iff[OF wf] it by auto
  show ?thesis
    using ring_items_Cons[OF wf ne] it wf ne
    by (simp add: qsc_ring_dequeue_def ring_wf_def)
qed

text \<open>
  Flushing visits exactly the ranges of the queued items, in order, and never runs out of the
  loop bound on a well-formed ring.
\<close>

lemma qsc_flush_loop_spec:
  assumes "i < MAX_QUI_RING_LEN" and "q_tail ql < MAX_QUI_RING_LEN"
    and "ring_dist MAX_QUI_RING_LEN i (q_tail ql) \<le> n"
  shows "qsc_flush_loop n ql i = Inr (map (\<lambda>k. (mh (q_ring ql k), qsz (q_ring ql k)))
      (ring_slots MAX_QUI_RING_LEN i (ring_dist MAX_QUI_RING_LEN i (q_tail ql))))"
  using assms
proof (induction n ql i rule: qsc_flush_loop.induct)
  case (1 ql i)
  then show ?case by (simp add: ring_dist_eq_0)
next
  case (2 n ql i)
  show ?case
  proof (cases "i = q_tail ql")
    case False
    have d: "ring_dist MAX_QUI_RING_LEN i (q_tail ql) =
        Suc (ring_dist MAX_QUI_RING_LEN ((i + 1) mod MAX_QUI_RING_LEN) (q_tail ql))"
      using ring_dist_Suc_head[OF "2.prems"(1,2) False] by simp
    then show ?thesis
      using "2.IH"[OF False] "2.prems" False by (simp add: d ring_slots_Cons)
  qed simp
qed

lemma qsc_ring_flush_ranges:
  assumes "ring_wf ql"
  shows "qsc_ring_flush ql = Inr (map (\<lambda>x. (mh x, qsz x)) (ring_items ql))"
  using qsc_flush_loop_spec[of "q_head ql" ql MAX_QUI_RING_LEN] assms
    ring_dist_less[of MAX_QUI_RING_LEN "q_head ql" "q_tail ql"]
  by (simp add: qsc_ring_flush_def ring_wf_def ring_items_def qsc_ring_len_dist o_def)

section \<open>The ring implements the queue contract\<close>

definition ring_enq :: "bi_qsc_ring \<Rightarrow> quies_item \<Rightarrow> bi_qsc_ring option" where
  "ring_enq ql x = (case qsc_ring_enqueue_batch ql (\<lambda>_. mh x) (\<lambda>_. qsz x) (\<lambda>_. tsc_free x) 1 of
     Inl _ \<Rightarrow> None | Inr ql' \<Rightarrow> Some ql')"

interpretation qring: bounded_fifo ring_wf ring_items "MAX_QUI_RING_LEN - 1" ring_enq qsc_ring_dequeue
proof unfold_locales
  fix q :: bi_qsc_ring and x :: quies_item
  assume wf: "ring_wf q"
  show "length (ring_items q) \<le> MAX_QUI_RING_LEN - 1"
    using qsc_ring_len_less[of q] by simp
  show "length (ring_items q) < MAX_QUI_RING_LEN - 1 \<Longrightarrow>
      \<exists>q'. ring_enq q x = Some q' \<and> ring_wf q' \<and> ring_items q' = ring_items q @ [x]"
    using enqueue_batch_room[OF wf, of 1 "\<lambda>_. mh x" "\<lambda>_. qsz x" "\<lambda>_. tsc_free x"]
    by (auto simp: ring_enq_def)
  show "length (ring_items q) = MAX_QUI_RING_LEN - 1 \<Longrightarrow> ring_enq q x = None"
    using enqueue_batch_full[OF wf, of 1 "\<lambda>_. mh x" "\<lambda>_. qsz x" "\<lambda>_. tsc_free x"]
    by (auto simp: ring_enq_def)
next
  fix q :: bi_qsc_ring and y ys
  assume "ring_wf q" "ring_items q = y # ys"
  then show "\<exists>q'. qsc_ring_dequeue q = Some (y, q') \<and> ring_wf q' \<and> ring_items q' = ys"
    using dequeue_front by blast
qed (rule dequeue_empty)

section \<open>The local cache in front of the ring\<close>

definition ranges :: "bi_qsc_ring \<Rightarrow> (addr \<times> nat) list" where
  "ranges ql = map (\<lambda>x. (mh x, qsz x)) (ring_items ql)"

lemma cache_flush_spec:
  assumes "ring_wf ql" and "qsc_ring_len ql + lc_cnt lc < MAX_QUI_RING_LEN"
  shows "\<exists>ql'. qsc_local_cache_flush lc ql clk = Inr (lc_cnt lc, qsc_local_cache_init lc, ql') \<and>
      ring_wf ql' \<and> q_head ql' = q_head ql \<and>
      ring_items ql' = ring_items ql @ map (batch_item (lc_m lc) (lc_sz lc) clk) [0..<lc_cnt lc]"
  using enqueue_batch_room[OF assms, of "lc_m lc" "lc_sz lc" clk]
  by (auto simp: qsc_local_cache_flush_def)

lemma ranges_flush:
  assumes "ring_wf ql" and "qsc_local_cache_flush lc ql clk = Inr (r, lc', ql')"
  shows "r = lc_cnt lc \<and> ring_wf ql' \<and> lc_wf lc' \<and> lc_pending lc' = [] \<and>
      ranges ql' = ranges ql @ lc_pending lc"
proof -
  have "qsc_ring_len ql + lc_cnt lc < MAX_QUI_RING_LEN"
    using assms(2) enqueue_batch_ok_iff[OF assms(1), of "lc_m lc" "lc_sz lc" clk "lc_cnt lc"]
    by (auto simp: qsc_local_cache_flush_def result_simps)
  from cache_flush_spec[OF assms(1) this, of clk] assms(2) show ?thesis
    by (auto simp: ranges_def lc_pending_def o_def)
qed

lemma lc_pending_put:
  "lc_pending (lc\<lparr>lc_m := (lc_m lc)(lc_cnt lc := b), lc_sz := (lc_sz lc)(lc_cnt lc := s),
      lc_cnt := Suc (lc_cnt lc)\<rparr>) = lc_pending lc @ [(b, s)]"
  by (auto simp: lc_pending_def)

text \<open>Every object handed to the cache ends up, exactly once and in order, in the
  cache or behind the objects already in the ring; the cache keeps room for the next call.\<close>

theorem local_cache_put_conserves:
  assumes "ring_wf ql" and "lc_wf lc"
    and "qsc_local_cache_put lc ql clk buf s = Inr (lc', ql')"
  shows "ring_wf ql' \<and> lc_wf lc' \<and>
    ranges ql' @ lc_pending lc' = ranges ql @ lc_pending lc @ [(buf, s)]"
proof -
  let ?lc = "lc\<lparr>lc_m := (lc_m lc)(lc_cnt lc := buf), lc_sz := (lc_sz lc)(lc_cnt lc := s),
      lc_cnt := lc_cnt lc + 1\<rparr>"
  show ?thesis
  proof (cases "lc_cnt lc + 1 = LOCAL_CACHE_QUEUE_SZ")
    case True
    with assms(3) obtain r where "qsc_local_cache_flush ?lc ql clk = Inr (r, lc', ql')"
      by (auto simp: qsc_local_cache_put_def result_simps)
    from ranges_flush[OF assms(1) this] show ?thesis
      by (simp add: lc_pending_put)
  next
    case False
    with assms show ?thesis
      by (auto simp: qsc_local_cache_put_def result_simps lc_wf_def lc_pending_put Let_def)
  qed
qed

text \<open>An empty ring and an empty cache, for concrete instances.\<close>

definition ring_example :: bi_qsc_ring where
  "ring_example = \<lparr>q_head = 0, q_tail = 0, q_ring = (\<lambda>_. \<lparr>mh = 0, qsz = 0, tsc_free = 0\<rparr>)\<rparr>"

definition cache_example :: qsc_local_cache where
  "cache_example = \<lparr>lc_m = (\<lambda>_. 0), lc_sz = (\<lambda>_. 0), lc_cnt = 0\<rparr>"

theorem local_cache_put_conserves_witness:
  "\<exists>lc' ql'. qsc_local_cache_put cache_example ring_example (\<lambda>_. 7) 4096 64 = Inr (lc', ql') \<and>
    ranges ql' @ lc_pending lc' = [(4096, 64)]"
proof -
  have p: "qsc_local_cache_put cache_example ring_example (\<lambda>_. 7) 4096 64 =
      Inr (\<lparr>lc_m = (\<lambda>_. 0)(0 := 4096), lc_sz = (\<lambda>_. 0)(0 := 64), lc_cnt = 1\<rparr>, ring_example)"
    by (simp add: qsc_local_cache_put_def cache_example_def Let_def)
  have "ring_wf ring_example" "lc_wf cache_example" "ranges ring_example = []" "lc_pending cache_example = []"
    by (simp_all add: ring_wf_def lc_wf_def ranges_def ring_items_def qsc_ring_len_def lc_pending_def
        ring_example_def cache_example_def)
  with local_cache_put_conserves[OF _ _ p] p show ?thesis by auto
qed

end
