(* ===== verification/Rpc.thy ===== *)
theory Rpc
  imports Fifo
begin

text \<open>
  The message rings of \<^verbatim>\<open>include/rpc.h\<close> and \<^verbatim>\<open>libs/rpc/rpc.c\<close>: for each client core and each
  server node one ring of \<^const>\<open>MSG_NUM\<close> slots for requests and one for replies. The sender
  writes the next slot without looking at it, the receiver polls the slot at its own position.

  Rings are modelled at the granularity of slots, so the write-backs and invalidations of the
  code (\<^verbatim>\<open>clwb_range\<close>, \<^verbatim>\<open>clflush_range\<close>) have no effect here; the theory on
  non-coherent memory treats them. The buffer passed to a send is a function from offsets to
  bytes; a receive returns the list of the bytes it copies.
\<close>

section \<open>Data\<close>

record msg_node =
  mn_size :: nat
  mn_use :: nat
  mn_data :: "nat \<Rightarrow> u8"

type_synonym msg_queue = "nat \<Rightarrow> msg_node"

text \<open>The positions of one process: \<^verbatim>\<open>head\<close> and \<^verbatim>\<open>tail\<close> per node and core.\<close>

record local_pos =
  lhead :: "node_id \<Rightarrow> core_id \<Rightarrow> nat"
  ltail :: "node_id \<Rightarrow> core_id \<Rightarrow> nat"

text \<open>The static variables of \<^verbatim>\<open>rpc.c\<close> in one process (one process per node).\<close>

record rpc_proc =
  snt_pos :: local_pos
  rcv_pos :: local_pos
  svr_node :: node_id
  svr_core :: core_id

text \<open>
  The whole system: the shared rings, \<open>send_rings s n c\<close> from client core \<open>c\<close> of node \<open>n\<close> to the
  server on node \<open>s\<close> and \<open>recv_rings s n c\<close> back, and the process of every node.
\<close>

record rpc_sys =
  send_rings :: "node_id \<Rightarrow> node_id \<Rightarrow> core_id \<Rightarrow> msg_queue"
  recv_rings :: "node_id \<Rightarrow> node_id \<Rightarrow> core_id \<Rightarrow> msg_queue"
  procs :: "node_id \<Rightarrow> rpc_proc"

section \<open>Operations on one ring\<close>

fun msg_queue_init_loop :: "nat \<Rightarrow> msg_queue \<Rightarrow> msg_queue" where
  "msg_queue_init_loop 0 q = q"
| "msg_queue_init_loop (Suc i) q =
     (let q' = msg_queue_init_loop i q in q'(i := (q' i)\<lparr>mn_use := 0\<rparr>))"

definition msg_queue_struct_init :: "msg_queue \<Rightarrow> msg_queue" where
  "msg_queue_struct_init q = msg_queue_init_loop MSG_NUM q"

definition copy_bytes :: "(nat \<Rightarrow> u8) \<Rightarrow> (nat \<Rightarrow> u8) \<Rightarrow> nat \<Rightarrow> (nat \<Rightarrow> u8)" where
  "copy_bytes dst src n = (\<lambda>i. if i < n then src i else dst i)"

definition rpc_send_ext ::
  "msg_queue \<Rightarrow> nat \<Rightarrow> (nat \<Rightarrow> u8) \<Rightarrow> nat \<Rightarrow> msg_queue \<times> nat" where
  "rpc_send_ext q pos data sz =
     (let cur = pos mod MSG_NUM; mn = q cur;
          mn1 = mn\<lparr>mn_data := copy_bytes (mn_data mn) data sz\<rparr>;
          mn2 = mn1\<lparr>mn_size := sz, mn_use := 1\<rparr>
      in (q(cur := mn2), cur + 1))"

text \<open>
  The polling loop of \<^verbatim>\<open>rpc_recv_ext\<close>. Before the poll number \<open>k\<close> the sender may have
  changed the ring, by \<open>arrive k\<close>. The slot \<open>cur\<close> is computed once, before the loop; a consumed
  message of size 0 advances the position but the loop goes on polling the same slot.
\<close>

fun rpc_recv_loop ::
  "nat \<Rightarrow> (nat \<Rightarrow> msg_queue \<Rightarrow> msg_queue) \<Rightarrow> nat \<Rightarrow> bool \<Rightarrow> nat \<Rightarrow> msg_queue \<Rightarrow> nat \<Rightarrow>
   (u8 list \<times> msg_queue \<times> nat) result" where
  "rpc_recv_loop 0 arrive k spin cur q pos = Inl Out_of_fuel"
| "rpc_recv_loop (Suc fuel) arrive k spin cur q pos =
     (let q1 = arrive k q; mn = q1 cur
      in if mn_use mn = 0
         then (if spin then rpc_recv_loop fuel arrive (Suc k) spin cur q1 pos else Inr ([], q1, pos))
         else let out = map (mn_data mn) [0..<mn_size mn];
                  q2 = q1(cur := mn\<lparr>mn_size := 0, mn_use := 0\<rparr>)
              in if out = [] \<and> spin
                 then rpc_recv_loop fuel arrive (Suc k) spin cur q2 (cur + 1)
                 else Inr (out, q2, cur + 1))"

definition rpc_recv_ext ::
  "nat \<Rightarrow> (nat \<Rightarrow> msg_queue \<Rightarrow> msg_queue) \<Rightarrow> msg_queue \<Rightarrow> nat \<Rightarrow> bool \<Rightarrow>
   (u8 list \<times> msg_queue \<times> nat) result" where
  "rpc_recv_ext fuel arrive q pos spin =
     bindE (rpc_recv_loop fuel arrive 0 spin (pos mod MSG_NUM) q pos) (\<lambda>(out, q', pos').
     bindE (assertE (length out < MAX_MSG_SIZE)) (\<lambda>_. Inr (out, q', pos')))"

section \<open>Operations of clients and servers\<close>

definition upd3 :: "('a \<Rightarrow> 'b \<Rightarrow> 'c \<Rightarrow> 'd) \<Rightarrow> 'a \<Rightarrow> 'b \<Rightarrow> 'c \<Rightarrow> 'd \<Rightarrow> ('a \<Rightarrow> 'b \<Rightarrow> 'c \<Rightarrow> 'd)" where
  "upd3 f a b c v = f(a := (f a)(b := (f a b)(c := v)))"

definition upd2 :: "('a \<Rightarrow> 'b \<Rightarrow> 'd) \<Rightarrow> 'a \<Rightarrow> 'b \<Rightarrow> 'd \<Rightarrow> ('a \<Rightarrow> 'b \<Rightarrow> 'd)" where
  "upd2 f a b v = f(a := (f a)(b := v))"

lemma upd3_apply [simp]: "upd3 f a b c v x y z = (if x = a \<and> y = b \<and> z = c then v else f x y z)"
  by (simp add: upd3_def)

lemma upd2_apply [simp]: "upd2 f a b v x y = (if x = a \<and> y = b then v else f x y)"
  by (simp add: upd2_def)

definition rpc_send ::
  "node_id \<Rightarrow> core_id \<Rightarrow> node_id \<Rightarrow> (nat \<Rightarrow> u8) \<Rightarrow> nat \<Rightarrow> rpc_sys \<Rightarrow> rpc_sys result" where
  "rpc_send me core node data sz st =
     bindE (assertE (sz < MAX_MSG_SIZE)) (\<lambda>_.
     let p = procs st me;
         (q', pos') = rpc_send_ext (send_rings st node me core) (lhead (snt_pos p) node core) data sz;
         p' = p\<lparr>snt_pos := (snt_pos p)\<lparr>lhead := upd2 (lhead (snt_pos p)) node core pos'\<rparr>\<rparr>
     in Inr (st\<lparr>send_rings := upd3 (send_rings st) node me core q', procs := (procs st)(me := p')\<rparr>))"

definition rpc_recv ::
  "nat \<Rightarrow> (nat \<Rightarrow> msg_queue \<Rightarrow> msg_queue) \<Rightarrow> node_id \<Rightarrow> core_id \<Rightarrow> node_id \<Rightarrow> bool \<Rightarrow> rpc_sys \<Rightarrow>
   (u8 list \<times> rpc_sys) result" where
  "rpc_recv fuel arrive me core node spin st =
     (let p = procs st me
      in bindE (rpc_recv_ext fuel arrive (recv_rings st node me core) (ltail (rcv_pos p) node core) spin)
           (\<lambda>(out, q', pos').
         let p' = p\<lparr>rcv_pos := (rcv_pos p)\<lparr>ltail := upd2 (ltail (rcv_pos p)) node core pos'\<rparr>\<rparr>
         in Inr (out, st\<lparr>recv_rings := upd3 (recv_rings st) node me core q',
                        procs := (procs st)(me := p')\<rparr>)))"

definition rpc_send_server ::
  "node_id \<Rightarrow> node_id \<Rightarrow> core_id \<Rightarrow> (nat \<Rightarrow> u8) \<Rightarrow> nat \<Rightarrow> rpc_sys \<Rightarrow> rpc_sys result" where
  "rpc_send_server me nid cid data sz st =
     bindE (assertE (sz < MAX_MSG_SIZE)) (\<lambda>_.
     let p = procs st me;
         (q', pos') = rpc_send_ext (recv_rings st me nid cid) (lhead (rcv_pos p) nid cid) data sz;
         p' = p\<lparr>rcv_pos := (rcv_pos p)\<lparr>lhead := upd2 (lhead (rcv_pos p)) nid cid pos'\<rparr>\<rparr>
     in Inr (st\<lparr>recv_rings := upd3 (recv_rings st) me nid cid q', procs := (procs st)(me := p')\<rparr>))"

definition advance_recv_id :: "nat \<Rightarrow> nat \<Rightarrow> rpc_proc \<Rightarrow> rpc_proc" where
  "advance_recv_id nn nc p =
     (let c = svr_core p + 1
      in if c mod nc = 0 then p\<lparr>svr_core := 0, svr_node := (svr_node p + 1) mod nn\<rparr>
         else p\<lparr>svr_core := c\<rparr>)"

definition rpc_recv_server ::
  "nat \<Rightarrow> nat \<Rightarrow> node_id \<Rightarrow> rpc_sys \<Rightarrow> (u8 list \<times> node_id \<times> core_id \<times> rpc_sys) result" where
  "rpc_recv_server nn nc me st =
     (let p = procs st me; n = svr_node p; c = svr_core p
      in bindE (rpc_recv_ext 1 (\<lambda>_ q. q) (send_rings st me n c) (ltail (snt_pos p) n c) False)
           (\<lambda>(out, q', pos').
         let p' = p\<lparr>snt_pos := (snt_pos p)\<lparr>ltail := upd2 (ltail (snt_pos p)) n c pos'\<rparr>\<rparr>
         in bindE (assertE (nn \<noteq> 0)) (\<lambda>_. bindE (assertE (nc \<noteq> 0)) (\<lambda>_.
            Inr (out, n, c, st\<lparr>send_rings := upd3 (send_rings st) me n c q',
                              procs := (procs st)(me := advance_recv_id nn nc p')\<rparr>)))))"

definition zero_pos :: local_pos where
  "zero_pos = \<lparr>lhead = (\<lambda>_ _. 0), ltail = (\<lambda>_ _. 0)\<rparr>"

definition rpc_init_global :: "rpc_proc \<Rightarrow> rpc_proc" where
  "rpc_init_global p = \<lparr>snt_pos = zero_pos, rcv_pos = zero_pos, svr_node = 0, svr_core = 0\<rparr>"

section \<open>One ring as a channel\<close>

text \<open>
  \<open>chan_inv\<close>: the messages in flight, oldest first, sit in consecutive slots from the receiver's
  position to the sender's, and all other slots are unused. A message is its list of bytes.
\<close>

definition slot_holds :: "msg_node \<Rightarrow> u8 list \<Rightarrow> bool" where
  "slot_holds mn m \<longleftrightarrow> mn_use mn \<noteq> 0 \<and> map (mn_data mn) [0..<mn_size mn] = m"

definition chan_inv :: "msg_queue \<Rightarrow> nat \<Rightarrow> nat \<Rightarrow> u8 list list \<Rightarrow> bool" where
  "chan_inv q rpos spos ms \<longleftrightarrow>
     length ms \<le> MSG_NUM \<and> (rpos + length ms) mod MSG_NUM = spos mod MSG_NUM \<and>
     (\<forall>i < length ms. slot_holds (q ((rpos + i) mod MSG_NUM)) (ms ! i)) \<and>
     (\<forall>i. length ms \<le> i \<and> i < MSG_NUM \<longrightarrow> mn_use (q ((rpos + i) mod MSG_NUM)) = 0)"

definition msg_ok :: "u8 list \<Rightarrow> bool" where
  "msg_ok m \<longleftrightarrow> m \<noteq> [] \<and> length m < MAX_MSG_SIZE"

lemma send_chan:
  assumes inv: "chan_inv q rpos spos ms" and room: "length ms < MSG_NUM"
    and m: "m = map data [0..<sz]" and s: "rpc_send_ext q spos data sz = (q', spos')"
  shows "chan_inv q' rpos spos' (ms @ [m])"
proof -
  let ?n = "length ms"
  define cur where "cur = spos mod MSG_NUM"
  have cur: "cur = (rpos + ?n) mod MSG_NUM" using inv by (simp add: chan_inv_def cur_def)
  have q': "q' = q(cur := (q cur)\<lparr>mn_data := copy_bytes (mn_data (q cur)) data sz,
      mn_size := sz, mn_use := 1\<rparr>)" and sp: "spos' = cur + 1"
    using s by (auto simp: rpc_send_ext_def Let_def cur_def)
  have other: "q' ((rpos + i) mod MSG_NUM) = q ((rpos + i) mod MSG_NUM)" if "i < MSG_NUM" "i \<noteq> ?n" for i
    using ring_slot_inj[of i MSG_NUM ?n rpos] that room by (simp add: q' cur)
  have "slot_holds (q' cur) m" by (simp add: q' slot_holds_def copy_bytes_def m)
  then have "slot_holds (q' ((rpos + i) mod MSG_NUM)) ((ms @ [m]) ! i)" if "i < length (ms @ [m])" for i
    using that inv room other[of i] cur by (cases "i = ?n") (auto simp: chan_inv_def nth_append)
  moreover have "(rpos + length (ms @ [m])) mod MSG_NUM = spos' mod MSG_NUM"
    by (simp add: sp cur mod_simps)
  moreover have "mn_use (q' ((rpos + i) mod MSG_NUM)) = 0" if "length (ms @ [m]) \<le> i" "i < MSG_NUM" for i
    using that inv other[of i] by (auto simp: chan_inv_def)
  ultimately show ?thesis using room by (simp add: chan_inv_def)
qed

lemma recv_chan_empty:
  assumes "chan_inv q rpos spos []"
  shows "rpc_recv_ext 1 (\<lambda>_ q. q) q rpos False = Inr ([], q, rpos)"
proof -
  have "mn_use (q ((rpos + 0) mod MSG_NUM)) = 0" using assms unfolding chan_inv_def by fastforce
  then show ?thesis by (simp add: rpc_recv_ext_def)
qed

lemma chan_tail:
  assumes inv: "chan_inv q rpos spos (m # ms)" and cur: "cur = rpos mod MSG_NUM"
  shows "chan_inv (q(cur := (q cur)\<lparr>mn_size := 0, mn_use := 0\<rparr>)) (cur + 1) spos ms"
    (is "chan_inv ?q _ _ _")
proof -
  have slot: "(cur + 1 + i) mod MSG_NUM = (rpos + Suc i) mod MSG_NUM" for i
    using mod_add_left_eq[of rpos MSG_NUM "Suc i"] by (simp add: cur)
  have other: "?q ((rpos + i) mod MSG_NUM) = q ((rpos + i) mod MSG_NUM)" if "0 < i" "i < MSG_NUM" for i
    using ring_slot_inj[of i MSG_NUM 0 rpos] that by (simp add: cur)
  have len: "length ms < MSG_NUM" using inv by (auto simp: chan_inv_def)
  have "slot_holds (?q ((cur + 1 + i) mod MSG_NUM)) (ms ! i)" if "i < length ms" for i
    unfolding slot using that len inv other[of "Suc i"] by (auto simp: chan_inv_def)
  moreover have "mn_use (?q ((cur + 1 + i) mod MSG_NUM)) = 0" if "length ms \<le> i" "i < MSG_NUM" for i
  proof (cases "i = 7")
    case True
    then have "(cur + 1 + i) mod MSG_NUM = cur" by (simp add: cur)
    then show ?thesis by simp
  next
    case False
    then show ?thesis unfolding slot using that inv other[of "Suc i"] by (auto simp: chan_inv_def)
  qed
  moreover have "(cur + 1 + length ms) mod MSG_NUM = spos mod MSG_NUM"
    using inv slot[of "length ms"] by (simp add: chan_inv_def)
  ultimately show ?thesis using len by (simp add: chan_inv_def)
qed

lemma recv_chan:
  assumes inv: "chan_inv q rpos spos (m # ms)" and m: "msg_ok m"
  shows "\<exists>q'. rpc_recv_ext 1 (\<lambda>_ q. q) q rpos False = Inr (m, q', rpos mod MSG_NUM + 1) \<and>
    chan_inv q' (rpos mod MSG_NUM + 1) spos ms"
proof -
  have "slot_holds (q ((rpos + 0) mod MSG_NUM)) ((m # ms) ! 0)" using inv unfolding chan_inv_def by fastforce
  then have "slot_holds (q (rpos mod MSG_NUM)) m" by simp
  then show ?thesis
    using chan_tail[OF inv refl] m
    by (auto simp: rpc_recv_ext_def slot_holds_def Let_def msg_ok_def)
qed

text \<open>
  A ring with the positions of its two ends, and the two operations on it as channel operations.
\<close>

record chan =
  ch_q :: msg_queue
  ch_r :: nat
  ch_s :: nat

definition chan_items :: "chan \<Rightarrow> u8 list list" where
  "chan_items c = map (\<lambda>i. let mn = ch_q c ((ch_r c + i) mod MSG_NUM) in map (mn_data mn) [0..<mn_size mn])
     (filter (\<lambda>i. mn_use (ch_q c ((ch_r c + i) mod MSG_NUM)) \<noteq> 0) [0..<MSG_NUM])"

definition chan_ok :: "chan \<Rightarrow> bool" where
  "chan_ok c \<longleftrightarrow> (\<exists>ms. chan_inv (ch_q c) (ch_r c) (ch_s c) ms \<and> list_all msg_ok ms)"

definition chan_send :: "chan \<Rightarrow> u8 list \<Rightarrow> chan" where
  "chan_send c m = (let (q, p) = rpc_send_ext (ch_q c) (ch_s c) (\<lambda>i. m ! i) (length m)
     in c\<lparr>ch_q := q, ch_s := p\<rparr>)"

definition chan_recv :: "chan \<Rightarrow> (u8 list \<times> chan) option" where
  "chan_recv c = (case rpc_recv_ext 1 (\<lambda>_ q. q) (ch_q c) (ch_r c) False of
     Inr (m, q, p) \<Rightarrow> if m = [] then None else Some (m, c\<lparr>ch_q := q, ch_r := p\<rparr>)
   | Inl _ \<Rightarrow> None)"

lemma chan_items_inv:
  assumes "chan_inv (ch_q c) (ch_r c) (ch_s c) ms"
  shows "chan_items c = ms"
proof -
  define P where "P = (\<lambda>i. mn_use (ch_q c ((ch_r c + i) mod MSG_NUM)) \<noteq> 0)"
  have len: "length ms \<le> MSG_NUM" using assms by (simp add: chan_inv_def)
  have "[0..<MSG_NUM] = [0..<length ms] @ [length ms..<MSG_NUM]"
    using upt_add_eq_append[of 0 "length ms" "MSG_NUM - length ms"] len by simp
  moreover have "filter P [0..<length ms] = [0..<length ms]"
    using assms by (intro filter_True) (auto simp: P_def chan_inv_def slot_holds_def)
  moreover have "filter P [length ms..<MSG_NUM] = []"
    using assms by (auto simp: P_def chan_inv_def)
  ultimately have "filter P [0..<MSG_NUM] = [0..<length ms]" by simp
  then have "chan_items c = map (\<lambda>i. map (mn_data (ch_q c ((ch_r c + i) mod MSG_NUM)))
      [0..<mn_size (ch_q c ((ch_r c + i) mod MSG_NUM))]) [0..<length ms]"
    by (simp add: chan_items_def P_def Let_def)
  also have "\<dots> = map (\<lambda>i. ms ! i) [0..<length ms]"
    using assms by (intro map_cong) (auto simp: chan_inv_def slot_holds_def)
  finally show ?thesis by (simp add: map_nth)
qed

interpretation rpc_chan: fifo_channel chan_ok chan_items MSG_NUM msg_ok chan_send chan_recv
proof unfold_locales
  fix c :: chan and m
  assume ok: "chan_ok c" and m: "msg_ok m" and room: "length (chan_items c) < MSG_NUM"
  then obtain ms where inv: "chan_inv (ch_q c) (ch_r c) (ch_s c) ms" and oks: "list_all msg_ok ms"
    by (auto simp: chan_ok_def)
  obtain q p where s: "rpc_send_ext (ch_q c) (ch_s c) (\<lambda>i. m ! i) (length m) = (q, p)" by force
  have "chan_inv q (ch_r c) p (ms @ [m])"
    using send_chan[OF inv _ _ s, of m] room chan_items_inv[OF inv] by (simp add: map_nth)
  then have "chan_inv (ch_q (chan_send c m)) (ch_r (chan_send c m)) (ch_s (chan_send c m)) (ms @ [m])"
    by (simp add: chan_send_def s)
  from this chan_items_inv[OF this] chan_items_inv[OF inv] oks m
  show "chan_ok (chan_send c m) \<and> chan_items (chan_send c m) = chan_items c @ [m]"
    by (auto simp: chan_ok_def)
next
  fix c :: chan
  assume "chan_ok c" "chan_items c = []"
  then have "chan_inv (ch_q c) (ch_r c) (ch_s c) []" using chan_items_inv by (auto simp: chan_ok_def)
  from recv_chan_empty[OF this] show "chan_recv c = None" by (simp add: chan_recv_def)
next
  fix c :: chan and m ms
  assume "chan_ok c" "chan_items c = m # ms"
  then have inv: "chan_inv (ch_q c) (ch_r c) (ch_s c) (m # ms)" and oks: "msg_ok m" "list_all msg_ok ms"
    using chan_items_inv by (auto simp: chan_ok_def)
  obtain q where r: "rpc_recv_ext 1 (\<lambda>_ q. q) (ch_q c) (ch_r c) False = Inr (m, q, ch_r c mod MSG_NUM + 1)"
    and inv': "chan_inv q (ch_r c mod MSG_NUM + 1) (ch_s c) ms" using recv_chan[OF inv oks(1)] by blast
  define c' where "c' = c\<lparr>ch_q := q, ch_r := ch_r c mod MSG_NUM + 1\<rparr>"
  have "chan_recv c = Some (m, c')" using oks(1) unfolding chan_recv_def r c'_def msg_ok_def by simp
  moreover have "chan_inv (ch_q c') (ch_r c') (ch_s c') ms" using inv' by (simp add: c'_def)
  ultimately show "\<exists>c'. chan_recv c = Some (m, c') \<and> chan_ok c' \<and> chan_items c' = ms"
    using oks(2) chan_items_inv[of c' ms] by (auto simp: chan_ok_def)
qed

section \<open>The whole system\<close>

text \<open>
  \<open>req s n c\<close> are the requests in flight from core \<open>c\<close> of node \<open>n\<close> to the server on node \<open>s\<close>,
  \<open>rep s n c\<close> the replies in flight on the way back.
\<close>

type_synonym flights = "node_id \<Rightarrow> node_id \<Rightarrow> core_id \<Rightarrow> u8 list list"

definition req_inv :: "rpc_sys \<Rightarrow> flights \<Rightarrow> bool" where
  "req_inv st req \<longleftrightarrow> (\<forall>s n c. list_all msg_ok (req s n c) \<and>
     chan_inv (send_rings st s n c) (ltail (snt_pos (procs st s)) n c) (lhead (snt_pos (procs st n)) s c)
       (req s n c))"

definition rep_inv :: "rpc_sys \<Rightarrow> flights \<Rightarrow> bool" where
  "rep_inv st rep \<longleftrightarrow> (\<forall>s n c. list_all msg_ok (rep s n c) \<and>
     chan_inv (recv_rings st s n c) (ltail (rcv_pos (procs st n)) s c) (lhead (rcv_pos (procs st s)) n c)
       (rep s n c))"

lemma req_invD: "req_inv st req \<Longrightarrow> chan_inv (send_rings st s n c) (ltail (snt_pos (procs st s)) n c)
    (lhead (snt_pos (procs st n)) s c) (req s n c)"
  and req_ok: "req_inv st req \<Longrightarrow> list_all msg_ok (req s n c)"
  by (auto simp: req_inv_def)

lemma rep_invD: "rep_inv st rep \<Longrightarrow> chan_inv (recv_rings st s n c) (ltail (rcv_pos (procs st n)) s c)
    (lhead (rcv_pos (procs st s)) n c) (rep s n c)"
  and rep_ok: "rep_inv st rep \<Longrightarrow> list_all msg_ok (rep s n c)"
  by (auto simp: rep_inv_def)

lemma msg_ok_map: "0 < sz \<Longrightarrow> sz < MAX_MSG_SIZE \<Longrightarrow> msg_ok (map data [0..<sz])"
  by (simp add: msg_ok_def)

lemma rpc_send_server_inv:
  assumes req: "req_inv st req" and rep: "rep_inv st rep" and room: "length (rep me nid cid) < MSG_NUM"
    and sz: "0 < sz" "sz < MAX_MSG_SIZE"
  shows "\<exists>st'. rpc_send_server me nid cid data sz st = Inr st' \<and> req_inv st' req \<and>
    rep_inv st' (upd3 rep me nid cid (rep me nid cid @ [map data [0..<sz]]))"
proof -
  obtain q' pos' where s: "rpc_send_ext (recv_rings st me nid cid) (lhead (rcv_pos (procs st me)) nid cid)
      data sz = (q', pos')" by force
  have c: "chan_inv q' (ltail (rcv_pos (procs st nid)) me cid) pos'
      (rep me nid cid @ [map data [0..<sz]])" by (rule send_chan[OF rep_invD[OF rep] room refl s])
  show ?thesis
    using sz c rep_invD[OF rep] rep_ok[OF rep] req msg_ok_map[OF sz]
    by (simp add: rpc_send_server_def s req_inv_def rep_inv_def Let_def) auto
qed

text \<open>What one non-spinning receive does, whatever is in flight.\<close>

definition front :: "u8 list list \<Rightarrow> u8 list" where
  "front ms = (case ms of [] \<Rightarrow> [] | m # _ \<Rightarrow> m)"

lemma recv_once:
  assumes "chan_inv q rpos spos ms" and "list_all msg_ok ms"
  shows "\<exists>q' rpos'. rpc_recv_ext 1 (\<lambda>_ q. q) q rpos False = Inr (front ms, q', rpos') \<and>
    chan_inv q' rpos' spos (tl ms)"
proof (cases ms)
  case Nil
  then show ?thesis using recv_chan_empty[of q rpos spos] assms(1) by (auto simp: front_def)
next
  case (Cons m ms')
  then show ?thesis using recv_chan[of q rpos spos m ms'] assms by (auto simp: front_def)
qed

lemma advance_snt_pos [simp]: "snt_pos (advance_recv_id nn nc p) = snt_pos p"
  and advance_rcv_pos [simp]: "rcv_pos (advance_recv_id nn nc p) = rcv_pos p"
  by (simp_all add: advance_recv_id_def Let_def)

lemma list_all_tl: "list_all P xs \<Longrightarrow> list_all P (tl xs)"
  by (cases xs) auto

text \<open>A poll of the server, whatever is in flight.\<close>

lemma rpc_recv_server_oldest:
  assumes req: "req_inv st req" and rep: "rep_inv st rep" and act: "0 < nn" "0 < nc"
    and id: "n = svr_node (procs st me)" "c = svr_core (procs st me)"
  shows "\<exists>st'. rpc_recv_server nn nc me st = Inr (front (req me n c), n, c, st') \<and> rep_inv st' rep \<and>
    req_inv st' (upd3 req me n c (tl (req me n c))) \<and>
    (svr_node (procs st' me), svr_core (procs st' me)) =
      (if (c + 1) mod nc = 0 then ((n + 1) mod nn, 0) else (n, c + 1))"
proof -
  obtain q' pos' where r: "rpc_recv_ext 1 (\<lambda>_ q. q) (send_rings st me n c)
      (ltail (snt_pos (procs st me)) n c) False = Inr (front (req me n c), q', pos')"
    and i: "chan_inv q' pos' (lhead (snt_pos (procs st n)) me c) (tl (req me n c))"
    using recv_once[OF req_invD[OF req] req_ok[OF req]] by blast
  show ?thesis
    using act i req_invD[OF req] req_ok[OF req] rep list_all_tl[OF req_ok[OF req]]
    unfolding rpc_recv_server_def id[symmetric] Let_def r
    by (simp add: req_inv_def rep_inv_def) (auto simp: advance_recv_id_def Let_def id)
qed

text \<open>A client that finds a reply at its position takes it at once.\<close>

lemma rpc_recv_pending:
  assumes req: "req_inv st req" and rep: "rep_inv st rep" and m: "rep node me core = m # ms"
  shows "\<exists>st'. rpc_recv (Suc f) (\<lambda>_ q. q) me core node True st = Inr (m, st') \<and> req_inv st' req \<and> rep_inv st' (upd3 rep node me core ms)"
proof -
  let ?q = "recv_rings st node me core" and ?p = "ltail (rcv_pos (procs st me)) node core"
  note inv = rep_invD[OF rep, of node me core]
  have ok: "m \<noteq> []" "list_all msg_ok ms" using rep_ok[OF rep, of node me core] m by (auto simp: msg_ok_def)
  obtain q' pos' where r: "rpc_recv_ext 1 (\<lambda>_ q. q) ?q ?p False = Inr (m, q', pos')" "chan_inv q' pos' (lhead (rcv_pos (procs st node)) me core) ms"
    using recv_once[OF inv rep_ok[OF rep]] m by (auto simp: front_def)
  then have "rpc_recv_ext (Suc f) (\<lambda>_ q. q) ?q ?p True = Inr (m, q', pos')"
    using ok(1) by (auto simp: rpc_recv_ext_def Let_def assertE_def split: if_splits)
  then show ?thesis
    using r(2) ok(2) inv rep_ok[OF rep] req rep_invD[OF rep] by (simp add: rpc_recv_def req_inv_def rep_inv_def Let_def) auto
qed

text \<open>
  A spinning receive. As long as nothing arrives in the polled slot the loop keeps the ring;
  when a message has arrived there, it is returned.
\<close>

lemma recv_spin_wait:
  assumes "\<And>i q. i < d \<Longrightarrow> arrive (k + i) q = q" and "mn_use (q cur) = 0"
  shows "rpc_recv_loop (d + fuel) arrive k True cur q pos = rpc_recv_loop fuel arrive (k + d) True cur q pos"
  using assms
proof (induction d arbitrary: k)
  case (Suc d)
  have "arrive k q = q" using Suc.prems(1)[of 0 q] by simp
  moreover have "arrive (Suc k + i) q = q" if "i < d" for i q using Suc.prems(1)[of "Suc i" q] that by simp
  ultimately show ?case using Suc.IH[of "Suc k"] Suc.prems(2) by (simp add: Let_def)
qed simp

section \<open>Properties\<close>

text \<open>C31: on a ring that starts empty, whatever the interleaving of sends and receives, as long as
  the sender never has more than eight messages in flight, the messages received are the ones
  sent, in order, with none lost, altered or duplicated.\<close>

theorem rpc_ring_fifo:
  assumes "chan_ok c" and "chan_items c = []" and "list_all msg_ok (sent ops)" and "paced MSG_NUM 0 ops"
    and "chan_run chan_send chan_recv ops c = (outs, r)"
  shows "sent ops = outs @ chan_items r"
  using rpc_chan.chan_history[of c ops outs r] assms by simp

definition ring0 :: chan where
  "ring0 = \<lparr>ch_q = msg_queue_struct_init (\<lambda>_. \<lparr>mn_size = 5, mn_use = 1, mn_data = (\<lambda>_. 7)\<rparr>), ch_r = 0, ch_s = 0\<rparr>"

lemma msg_queue_init_use:
  "mn_use (msg_queue_init_loop n q i) = (if i < n then 0 else mn_use (q i))"
  by (induction n) (auto simp: Let_def)

lemma init_chan_inv: "chan_inv (msg_queue_struct_init q) 0 0 []"
  by (simp add: chan_inv_def msg_queue_struct_init_def msg_queue_init_use)

lemma ring0_ok: "chan_ok ring0" "chan_items ring0 = []"
  using init_chan_inv chan_items_inv[of ring0 "[]"]
  by (auto simp: chan_ok_def ring0_def intro!: exI[of _ "[]"])

theorem rpc_ring_fifo_witness:
  "\<exists>r. chan_run chan_send chan_recv [Enq [1, 2], Enq [3], Deq] ring0 = ([[1, 2]], r) \<and>
    chan_items r = [[3]]"
proof -
  let ?ops = "[Enq [1, 2], Enq [3], Deq] :: u8 list fifo_op list"
  obtain outs r where run: "chan_run chan_send chan_recv ?ops ring0 = (outs, r)" by force
  have "sent ?ops = outs @ chan_items r"
    using rpc_ring_fifo[OF ring0_ok _ _ run] by (simp add: msg_ok_def)
  moreover have "length outs = 1"
    using run rpc_chan.snd_room[OF ring0_ok(1), of "[1, 2]"]
      rpc_chan.snd_room[of "chan_send ring0 [1, 2]" "[3]"] ring0_ok(2)
      rpc_chan.rcv_front[of "chan_send (chan_send ring0 [1, 2]) [3]" "[1, 2]" "[[3]]"]
    by (auto simp: msg_ok_def)
  ultimately have "outs = [[1, 2]] \<and> chan_items r = [[3]]" by (cases outs) auto
  with run show ?thesis by blast
qed

text \<open>A request that a client core sends, with fewer than eight outstanding to that server, is
  accepted and queued behind the core's earlier requests; no other ring changes its content.\<close>

theorem rpc_send_queues:
  assumes req: "req_inv st req" and rep: "rep_inv st rep" and room: "length (req node me core) < MSG_NUM"
    and sz: "0 < sz" "sz < MAX_MSG_SIZE"
  shows "\<exists>st'. rpc_send me core node data sz st = Inr st' \<and> rep_inv st' rep \<and>
    req_inv st' (upd3 req node me core (req node me core @ [map data [0..<sz]]))"
proof -
  obtain q' pos' where s: "rpc_send_ext (send_rings st node me core) (lhead (snt_pos (procs st me)) node core)
      data sz = (q', pos')" by force
  have c: "chan_inv q' (ltail (snt_pos (procs st node)) me core) pos'
      (req node me core @ [map data [0..<sz]])" by (rule send_chan[OF req_invD[OF req] room refl s])
  show ?thesis
    using sz c req_invD[OF req] req_ok[OF req] rep msg_ok_map[OF sz]
    by (simp add: rpc_send_def s req_inv_def rep_inv_def Let_def) auto
qed

definition sys0 :: rpc_sys where
  "sys0 = \<lparr>send_rings = (\<lambda>_ _ _. ch_q ring0), recv_rings = (\<lambda>_ _ _. ch_q ring0),
     procs = (\<lambda>_. rpc_init_global \<lparr>snt_pos = zero_pos, rcv_pos = zero_pos, svr_node = 9, svr_core = 9\<rparr>)\<rparr>"

lemma sys0_inv: "req_inv sys0 (\<lambda>_ _ _. [])" "rep_inv sys0 (\<lambda>_ _ _. [])"
  using init_chan_inv
  by (simp_all add: req_inv_def rep_inv_def sys0_def ring0_def rpc_init_global_def zero_pos_def)

section \<open>Calls\<close>

text \<open>A request of one client to an idle server, and the reply to it.\<close>

abbreviation none_in_flight :: "rpc_sys \<Rightarrow> bool" where
  "none_in_flight sys \<equiv> req_inv sys (\<lambda>_ _ _. []) \<and> rep_inv sys (\<lambda>_ _ _. [])"

lemma upd3_same: "upd3 (upd3 f a b c x) a b c y = upd3 f a b c y"
  by (auto simp: fun_eq_iff)

lemma upd3_id: "f a b c = x \<Longrightarrow> upd3 f a b c x = f"
  by (auto simp: fun_eq_iff)

lemma request_delivered:
  assumes sys: "none_in_flight sys" and act: "0 < nn" "0 < nc" and id: "svr_node (procs sys nd) = me" "svr_core (procs sys nd) = core"
    and sz: "0 < sz" "sz < MAX_MSG_SIZE"
  shows "\<exists>sys1 sys2. rpc_send me core nd data sz sys = Inr sys1 \<and>
    rpc_recv_server nn nc nd sys1 = Inr (map data [0..<sz], me, core, sys2) \<and> none_in_flight sys2"
proof -
  let ?req = "upd3 (\<lambda>_ _ _. []) nd me core [map data [0..<sz]]"
  obtain sys1 where s: "rpc_send me core nd data sz sys = Inr sys1" "rep_inv sys1 (\<lambda>_ _ _. [])" "req_inv sys1 ?req"
    using rpc_send_queues[of sys "\<lambda>_ _ _. []" "\<lambda>_ _ _. []" nd me core sz data] sys sz by auto
  have "svr_node (procs sys1 nd) = me" "svr_core (procs sys1 nd) = core"
    using s(1) id by (auto simp: rpc_send_def assertE_def Let_def split: prod.splits if_splits)
  then obtain sys2 where r: "rpc_recv_server nn nc nd sys1 = Inr (front (?req nd me core), me, core, sys2)" "rep_inv sys2 (\<lambda>_ _ _. [])"
      "req_inv sys2 (upd3 ?req nd me core (tl (?req nd me core)))"
    using rpc_recv_server_oldest[OF s(3,2) act, of me nd core] by auto
  have "upd3 ?req nd me core [] = (\<lambda>_ _ _. [])" unfolding upd3_same by (rule upd3_id) simp
  with s(1) r show ?thesis by (auto simp: front_def)
qed

lemma reply_delivered:
  assumes "none_in_flight sys" and sz: "0 < sz" "sz < MAX_MSG_SIZE"
  shows "\<exists>sys1 sys2. rpc_send_server nd me core data sz sys = Inr sys1 \<and>
    rpc_recv (Suc f) (\<lambda>_ q. q) me core nd True sys1 = Inr (map data [0..<sz], sys2) \<and> none_in_flight sys2"
proof -
  let ?rep = "upd3 (\<lambda>_ _ _. []) nd me core [map data [0..<sz]]"
  obtain sys1 where s: "rpc_send_server nd me core data sz sys = Inr sys1" "req_inv sys1 (\<lambda>_ _ _. [])" "rep_inv sys1 ?rep"
    using rpc_send_server_inv[of sys "\<lambda>_ _ _. []" "\<lambda>_ _ _. []" nd me core sz data] assms by auto
  obtain sys2 where r: "rpc_recv (Suc f) (\<lambda>_ q. q) me core nd True sys1 = Inr (map data [0..<sz], sys2)" "req_inv sys2 (\<lambda>_ _ _. [])"
      "rep_inv sys2 (upd3 ?rep nd me core [])"
    using rpc_recv_pending[OF s(2,3), of nd me core "map data [0..<sz]" "[]" f] by auto
  have "upd3 ?rep nd me core [] = (\<lambda>_ _ _. [])" unfolding upd3_same by (rule upd3_id) simp
  with s(1) r show ?thesis by auto
qed

theorem rpc_send_queues_witness:
  "\<exists>st'. rpc_send 1 2 0 (\<lambda>i. of_nat i) 3 sys0 = Inr st' \<and>
    req_inv st' (upd3 (\<lambda>_ _ _. []) 0 1 2 [[0, 1, 2]])"
proof -
  have "map (\<lambda>i. of_nat i) [0..<3] = [0, 1, 2 :: u8]" by (simp add: eval_nat_numeral)
  with rpc_send_queues[OF sys0_inv, where node = 0 and me = 1 and core = 2 and sz = 3 and data = "\<lambda>i. of_nat i"]
  show ?thesis by auto
qed

lemma advance_rotation:
  assumes "0 < nc" and "svr_node p = 0" and "svr_core p = 0"
  shows "svr_node ((advance_recv_id nn nc ^^ k) p) = (k div nc) mod nn \<and>
    svr_core ((advance_recv_id nn nc ^^ k) p) = k mod nc"
proof (induction k)
  case (Suc k)
  define r where "r = (advance_recv_id nn nc ^^ k) p"
  have r: "svr_node r = (k div nc) mod nn" "svr_core r = k mod nc" using Suc by (auto simp: r_def)
  have s: "(advance_recv_id nn nc ^^ Suc k) p = advance_recv_id nn nc r" by (simp add: r_def)
  show ?case
  proof (cases "Suc (k mod nc) = nc")
    case True
    then have "Suc k div nc = Suc (k div nc)" "Suc k mod nc = 0" by (auto simp: div_Suc mod_Suc)
    then show ?thesis unfolding s using True r by (simp add: advance_recv_id_def Let_def mod_simps mod_Suc_eq)
  next
    case False
    then have "Suc k div nc = k div nc" "Suc k mod nc = Suc (k mod nc)" by (auto simp: div_Suc mod_Suc)
    moreover have "Suc (k mod nc) mod nc \<noteq> 0"
      using False mod_less_divisor[OF assms(1), of k] by (simp add: Suc_lessI)
    ultimately show ?thesis unfolding s using r by (simp add: advance_recv_id_def Let_def)
  qed
qed (use assms in simp)

text \<open>The server's polling order is fair: started at core 0 of node 0, it polls every active core
  of every active node within one round of \<open>nn * nc\<close> polls.\<close>

theorem polling_visits_every_core:
  assumes "0 < nc" and "svr_node p = 0" and "svr_core p = 0" and "n < nn" and "c < nc"
  shows "\<exists>k < nn * nc. svr_node ((advance_recv_id nn nc ^^ k) p) = n \<and>
    svr_core ((advance_recv_id nn nc ^^ k) p) = c"
proof -
  have "n * nc + c < Suc n * nc" using assms(5) by simp
  also have "\<dots> \<le> nn * nc" using assms(4) by (intro mult_le_mono1) simp
  finally have "n * nc + c < nn * nc" .
  moreover have "(n * nc + c) div nc = n" "(n * nc + c) mod nc = c" using assms(5) by auto
  ultimately show ?thesis using advance_rotation[OF assms(1-3), where nn = nn and k = "n * nc + c"] assms(4) by auto
qed

theorem polling_visits_every_core_witness:
  "\<exists>k < 12. svr_node ((advance_recv_id 4 3 ^^ k) (procs sys0 0)) = 2 \<and>
    svr_core ((advance_recv_id 4 3 ^^ k) (procs sys0 0)) = 1"
  using polling_visits_every_core[of 3 "procs sys0 0" 2 4 1] by (simp add: sys0_def rpc_init_global_def)

text \<open>A client that spins for the reply gets the bytes the server sent, however many polls
  pass before the reply arrives.\<close>

theorem rpc_recv_spin_returns:
  assumes rep: "rep_inv st rep" and none: "rep node me core = []"
    and quiet: "\<And>i q. i < d \<Longrightarrow> arrive i q = q"
    and sent: "\<And>q. arrive d q = fst (rpc_send_ext q (lhead (rcv_pos (procs st node)) me core) data sz)"
    and sz: "0 < sz" "sz < MAX_MSG_SIZE"
  shows "\<exists>st'. rpc_recv (Suc d) arrive me core node True st = Inr (map data [0..<sz], st')"
proof -
  define r where "r = ltail (rcv_pos (procs st me)) node core"
  define w where "w = lhead (rcv_pos (procs st node)) me core"
  define q where "q = recv_rings st node me core"
  have inv: "chan_inv q r w []" using rep_invD[OF rep, of node me core] none by (simp add: q_def r_def w_def)
  have pos: "r mod MSG_NUM = w mod MSG_NUM" using inv by (simp add: chan_inv_def)
  have "mn_use (q ((r + 0) mod MSG_NUM)) = 0" using inv unfolding chan_inv_def by fastforce
  then have wait: "rpc_recv_loop (Suc d) arrive 0 True (r mod MSG_NUM) q r =
      rpc_recv_loop 1 arrive d True (r mod MSG_NUM) q r"
    using recv_spin_wait[of d arrive 0 q "r mod MSG_NUM" 1 r] quiet by simp
  define mn where "mn = fst (rpc_send_ext q w data sz) (r mod MSG_NUM)"
  have mn: "mn_use mn = 1" "map (mn_data mn) [0..<mn_size mn] = map data [0..<sz]"
    using pos by (auto simp: mn_def rpc_send_ext_def Let_def copy_bytes_def)
  have "\<exists>q' p'. rpc_recv_ext (Suc d) arrive q r True = Inr (map data [0..<sz], q', p')"
    using sz mn sent[of q] unfolding rpc_recv_ext_def wait
    by (simp add: Let_def flip: w_def mn_def)
  then show ?thesis by (auto simp: rpc_recv_def Let_def simp flip: q_def r_def)
qed

theorem rpc_recv_spin_returns_witness:
  "\<exists>st'. rpc_recv 5 (\<lambda>i q. if i = 4 then fst (rpc_send_ext q 0 (\<lambda>_. 9) 2) else q) 1 0 2 True sys0 =
    Inr ([9, 9], st')"
proof -
  have "map (\<lambda>_. 9) [0..<2] = [9, 9 :: u8]" by (simp add: eval_nat_numeral)
  with rpc_recv_spin_returns[OF sys0_inv(2), where node = 2 and me = 1 and core = 0 and d = 4 and
      arrive = "\<lambda>i q. if i = 4 then fst (rpc_send_ext q 0 (\<lambda>_. 9) 2) else q" and data = "\<lambda>_. 9" and sz = 2]
  show ?thesis by (simp add: sys0_def rpc_init_global_def zero_pos_def)
qed

text \<open>C38: the sender has no full check: with eight messages in flight a ninth send overwrites the
  oldest one, and the next receive returns the ninth message instead.\<close>

theorem rpc_overrun_loses_oldest:
  assumes inv: "chan_inv q rpos spos ms" and full: "length ms = MSG_NUM" and sz: "0 < sz" "sz < MAX_MSG_SIZE"
    and s: "rpc_send_ext q spos data sz = (q', spos')"
  shows "\<exists>q'' rpos'. rpc_recv_ext 1 (\<lambda>_ q. q) q' rpos False = Inr (map data [0..<sz], q'', rpos')"
proof -
  have cur: "spos mod MSG_NUM = rpos mod MSG_NUM" using inv full by (simp add: chan_inv_def)
  have "slot_holds (q' (rpos mod MSG_NUM)) (map data [0..<sz])"
    using s cur by (auto simp: rpc_send_ext_def Let_def slot_holds_def copy_bytes_def)
  then show ?thesis using sz by (auto simp: rpc_recv_ext_def slot_holds_def Let_def)
qed

theorem rpc_overrun_loses_oldest_witness:
  "chan_inv (\<lambda>_. \<lparr>mn_size = 1, mn_use = 1, mn_data = (\<lambda>_. 4)\<rparr>) 0 8 (replicate 8 [4]) \<and>
   (\<exists>q'' rpos'. rpc_recv_ext 1 (\<lambda>_ q. q)
     (fst (rpc_send_ext (\<lambda>_. \<lparr>mn_size = 1, mn_use = 1, mn_data = (\<lambda>_. 4)\<rparr>) 8 (\<lambda>_. 5) 1)) 0 False =
     Inr ([5], q'', rpos'))"
proof -
  let ?q = "\<lambda>_. \<lparr>mn_size = 1, mn_use = 1, mn_data = (\<lambda>_. 4)\<rparr>"
  have inv: "chan_inv ?q 0 8 (replicate 8 [4])" by (simp add: chan_inv_def slot_holds_def)
  obtain q' p' where s: "rpc_send_ext ?q 8 (\<lambda>_. 5) 1 = (q', p')" by force
  from rpc_overrun_loses_oldest[OF inv _ _ _ s] inv s show ?thesis by simp
qed

end
