(* ===== verification/Ps_List.thy ===== *)
theory Ps_List
  imports BI_Prelude
begin

text \<open>
  The intrusive circular doubly linked list of \<^verbatim>\<open>include/ps_list.h\<close>. A
  \<^verbatim>\<open>struct ps_list\<close> is embedded in the object it links; \<^verbatim>\<open>ps_container\<close> and
  \<^verbatim>\<open>ps_list_obj_get\<close> convert between the two by a constant offset, so a list node is
  named here by the address of the object that contains it. The two pointer fields of all nodes
  are the functions \<open>ln\<close> (field \<^verbatim>\<open>n\<close>) and \<open>lp\<close> (field \<^verbatim>\<open>p\<close>).
\<close>

section \<open>Operations\<close>

record ps_lists =
  ln :: "addr \<Rightarrow> addr"
  lp :: "addr \<Rightarrow> addr"

definition ps_list_ll_init :: "ps_lists \<Rightarrow> addr \<Rightarrow> ps_lists" where
  "ps_list_ll_init h l = h\<lparr>ln := (ln h)(l := l), lp := (lp h)(l := l)\<rparr>"

definition ps_list_ll_empty :: "ps_lists \<Rightarrow> addr \<Rightarrow> bool" where
  "ps_list_ll_empty h l \<longleftrightarrow> ln h l = l"

text \<open>The assignments of the source, one after the other, on the updated heap.\<close>

definition ps_list_ll_add :: "ps_lists \<Rightarrow> addr \<Rightarrow> addr \<Rightarrow> ps_lists" where
  "ps_list_ll_add h l n =
     (let h1 = h\<lparr>ln := (ln h)(n := ln h l)\<rparr>;
          h2 = h1\<lparr>lp := (lp h1)(n := l)\<rparr>;
          h3 = h2\<lparr>ln := (ln h2)(l := n)\<rparr>
      in h3\<lparr>lp := (lp h3)(ln h3 n := n)\<rparr>)"

definition ps_list_ll_rem :: "ps_lists \<Rightarrow> addr \<Rightarrow> ps_lists" where
  "ps_list_ll_rem h l =
     (let h1 = h\<lparr>lp := (lp h)(ln h l := lp h l)\<rparr>;
          h2 = h1\<lparr>ln := (ln h1)(lp h1 l := ln h1 l)\<rparr>
      in h2\<lparr>ln := (ln h2)(l := l), lp := (lp h2)(l := l)\<rparr>)"

definition ps_list_singleton :: "ps_lists \<Rightarrow> addr \<Rightarrow> bool" where
  "ps_list_singleton h s = ps_list_ll_empty h s"

definition ps_list_next :: "ps_lists \<Rightarrow> addr \<Rightarrow> addr" where
  "ps_list_next h s = ln h s"

definition ps_list_head_first :: "ps_lists \<Rightarrow> addr \<Rightarrow> addr" where
  "ps_list_head_first h lh = ln h lh"

definition ps_list_head_append :: "ps_lists \<Rightarrow> addr \<Rightarrow> addr \<Rightarrow> ps_lists" where
  "ps_list_head_append h lh s = ps_list_ll_add h (lp h lh) s"

section \<open>Rings\<close>

text \<open>
  \<open>dseg n p a xs b\<close>: following \<open>n\<close> from \<open>a\<close> passes the nodes \<open>xs\<close> and arrives at
  \<open>b\<close>, and \<open>p\<close> leads back. A ring \<open>x # xs\<close> is a segment from \<open>x\<close> to itself.
\<close>

fun dseg :: "(addr \<Rightarrow> addr) \<Rightarrow> (addr \<Rightarrow> addr) \<Rightarrow> addr \<Rightarrow> addr list \<Rightarrow> addr \<Rightarrow> bool" where
  "dseg n p a [] b \<longleftrightarrow> n a = b \<and> p b = a"
| "dseg n p a (x # xs) b \<longleftrightarrow> n a = x \<and> p x = a \<and> dseg n p x xs b"

fun cyc :: "ps_lists \<Rightarrow> addr list \<Rightarrow> bool" where
  "cyc h [] \<longleftrightarrow> True"
| "cyc h (x # xs) \<longleftrightarrow> distinct (x # xs) \<and> dseg (ln h) (lp h) x xs x"

lemma dseg_append [chain_simps]:
  "dseg n p a (xs @ y # ys) b \<longleftrightarrow> dseg n p a xs y \<and> dseg n p y ys b"
  by (induction xs arbitrary: a) auto

lemma dseg_cong:
  "(\<And>u. u \<in> insert a (set xs) \<Longrightarrow> n' u = n u) \<Longrightarrow> (\<And>u. u \<in> insert b (set xs) \<Longrightarrow> p' u = p u) \<Longrightarrow>
   dseg n' p' a xs b = dseg n p a xs b"
  by (induction xs arbitrary: a) auto

lemma dseg_upd_n [chain_simps]:
  "u \<noteq> a \<Longrightarrow> u \<notin> set xs \<Longrightarrow> dseg (n(u := v)) p a xs b = dseg n p a xs b"
  by (rule dseg_cong) auto

lemma dseg_upd_p [chain_simps]:
  "u \<noteq> b \<Longrightarrow> u \<notin> set xs \<Longrightarrow> dseg n (p(u := v)) a xs b = dseg n p a xs b"
  by (rule dseg_cong) auto

lemma cyc_cong:
  "(\<And>u. u \<in> set xs \<Longrightarrow> ln h' u = ln h u \<and> lp h' u = lp h u) \<Longrightarrow> cyc h' xs = cyc h xs"
  using dseg_cong[of "hd xs" "tl xs" "ln h'" "ln h" "hd xs" "lp h'" "lp h"]
  by (cases xs) auto

lemma cyc_distinct: "cyc h xs \<Longrightarrow> distinct xs"
  by (cases xs) auto

lemma cyc_rotate: "cyc h (x # xs) \<Longrightarrow> cyc h (xs @ [x])"
  by (cases xs) (auto simp: chain_simps)

lemma cyc_rotate_back: "cyc h (xs @ [x]) \<Longrightarrow> cyc h (x # xs)"
  by (cases xs) (auto simp: chain_simps)

lemma cyc_rotate_to: "cyc h (xs @ y # ys) \<Longrightarrow> cyc h (y # ys @ xs)"
proof (induction xs arbitrary: ys)
  case (Cons a xs)
  then have "cyc h (xs @ y # ys @ [a])" using cyc_rotate[of h a "xs @ y # ys"] by simp
  from Cons.IH[OF this] show ?case by simp
qed simp

lemma cyc_next: "cyc h (x # y # ys) \<Longrightarrow> ln h x = y"
  by simp

lemma cyc_prev: "cyc h (x # ys) \<Longrightarrow> lp h x = (if ys = [] then x else last ys)"
  by (cases ys rule: rev_cases) (auto simp: chain_simps)

lemma cyc_singleton_iff: "cyc h (x # xs) \<Longrightarrow> ps_list_singleton h x \<longleftrightarrow> xs = []"
  by (cases xs) (auto simp: ps_list_singleton_def ps_list_ll_empty_def)

section \<open>What the operations do to rings\<close>

lemma ll_init_cyc: "cyc (ps_list_ll_init h l) [l]"
  by (simp add: ps_list_ll_init_def)

lemma ll_init_frame:
  "u \<noteq> l \<Longrightarrow> ln (ps_list_ll_init h l) u = ln h u \<and> lp (ps_list_ll_init h l) u = lp h u"
  by (simp add: ps_list_ll_init_def)

lemma ll_add_fields:
  assumes "n \<noteq> l"
  shows "ln (ps_list_ll_add h l n) = (ln h)(n := ln h l, l := n)"
    and "lp (ps_list_ll_add h l n) = (lp h)(n := l, ln h l := n)"
  using assms by (auto simp: ps_list_ll_add_def Let_def fun_eq_iff)

lemma ll_add_cyc:
  assumes c: "cyc h (x # xs)" and new: "n \<notin> set (x # xs)"
  shows "cyc (ps_list_ll_add h x n) (x # n # xs)"
proof (cases xs)
  case Nil
  with c new show ?thesis by (auto simp: ll_add_fields)
next
  case (Cons y ys)
  with c have "dseg (ln h) (lp h) y ys x" "ln h x = y" "x \<noteq> y" "y \<notin> set ys" "x \<notin> set ys" "distinct ys"
    by auto
  with new Cons show ?thesis by (auto simp: ll_add_fields chain_simps)
qed

lemma ll_add_frame:
  assumes "cyc h (x # xs)" and "u \<notin> set (x # n # xs)" and "n \<noteq> x"
  shows "ln (ps_list_ll_add h x n) u = ln h u \<and> lp (ps_list_ll_add h x n) u = lp h u"
  using assms by (cases xs) (auto simp: ll_add_fields)

lemma ll_rem_fields:
  assumes "cyc h (x # y # ys)" and "z = last (y # ys)"
  shows "ln (ps_list_ll_rem h x) = (ln h)(z := y, x := x)"
    and "lp (ps_list_ll_rem h x) = (lp h)(y := z, x := x)"
  using assms cyc_prev[OF assms(1)] by (auto simp: ps_list_ll_rem_def Let_def fun_eq_iff)

lemma ll_rem_alone:
  assumes "cyc h [x]"
  shows "ps_list_ll_rem h x = h"
  using assms by (simp add: ps_list_ll_rem_def Let_def fun_upd_idem)

lemma ll_rem_cyc:
  assumes c: "cyc h (x # xs)"
  shows "cyc (ps_list_ll_rem h x) xs" and "cyc (ps_list_ll_rem h x) [x]"
proof -
  have "cyc (ps_list_ll_rem h x) xs \<and> cyc (ps_list_ll_rem h x) [x]"
  proof (cases xs)
    case Nil
    with c ll_rem_alone[of h x] show ?thesis by simp
  next
    case (Cons y ys)
    define z where "z = last (y # ys)"
    note f = ll_rem_fields[OF c[unfolded Cons] z_def]
    have d: "dseg (ln h) (lp h) y ys x" "x \<noteq> y" "x \<notin> set ys" "y \<notin> set ys" "distinct ys"
      using c Cons by auto
    show ?thesis
    proof (cases ys rule: rev_cases)
      case Nil
      with f d Cons z_def show ?thesis by auto
    next
      case (snoc us w)
      then have "w = z" by (simp add: z_def)
      with snoc f d Cons show ?thesis by (auto simp: chain_simps)
    qed
  qed
  then show "cyc (ps_list_ll_rem h x) xs" and "cyc (ps_list_ll_rem h x) [x]" by auto
qed

lemma ll_rem_frame:
  assumes "cyc h (x # xs)" and "u \<notin> set (x # xs)"
  shows "ln (ps_list_ll_rem h x) u = ln h u \<and> lp (ps_list_ll_rem h x) u = lp h u"
proof (cases xs)
  case Nil
  with assms ll_rem_alone[of h x] show ?thesis by simp
next
  case (Cons y ys)
  with assms ll_rem_fields[of h x y ys] show ?thesis by (auto split: if_splits)
qed

lemma ll_add_other: "cyc h (x # xs) \<Longrightarrow> n \<noteq> x \<Longrightarrow> set zs \<inter> set (x # n # xs) = {} \<Longrightarrow>
    cyc (ps_list_ll_add h x n) zs = cyc h zs"
  by (rule cyc_cong, rule ll_add_frame) auto

lemma ll_rem_other: "cyc h (x # xs) \<Longrightarrow> set zs \<inter> set (x # xs) = {} \<Longrightarrow>
    cyc (ps_list_ll_rem h x) zs = cyc h zs"
  by (rule cyc_cong, rule ll_rem_frame) auto

lemma ll_init_other: "l \<notin> set zs \<Longrightarrow> cyc (ps_list_ll_init h l) zs = cyc h zs"
  by (rule cyc_cong, rule ll_init_frame) auto

lemma head_append_cyc:
  assumes c: "cyc h (lh # xs)" and new: "n \<notin> set (lh # xs)"
  shows "cyc (ps_list_head_append h lh n) (lh # xs @ [n])"
proof (cases xs rule: rev_cases)
  case Nil
  with c new ll_add_cyc[of h lh "[]" n] show ?thesis
    by (simp add: ps_list_head_append_def)
next
  case (snoc us z)
  have r: "cyc h (z # lh # us)"
    using cyc_rotate_to[of h "lh # us" z "[]"] c snoc by simp
  have lpz: "lp h lh = z" using cyc_prev[OF c] snoc by simp
  have "cyc (ps_list_ll_add h z n) (z # n # lh # us)"
    using ll_add_cyc[OF r] new snoc by auto
  from cyc_rotate_to[of _ "[z, n]" lh us, simplified, OF this[simplified]] show ?thesis
    using lpz snoc by (simp add: ps_list_head_append_def)
qed

lemma head_append_other:
  assumes "cyc h (lh # xs)" and "n \<notin> set (lh # xs)" and "set zs \<inter> set (lh # n # xs) = {}"
  shows "cyc (ps_list_head_append h lh n) zs = cyc h zs"
proof (cases xs rule: rev_cases)
  case Nil
  with assms ll_add_other[of h lh "[]" n zs] show ?thesis by (simp add: ps_list_head_append_def)
next
  case (snoc us z)
  have r: "cyc h (z # lh # us)"
    using cyc_rotate_to[of h "lh # us" z "[]"] assms(1) snoc by simp
  have "lp h lh = z" using cyc_prev[OF assms(1)] snoc by simp
  with ll_add_other[OF r, of n zs] assms snoc show ?thesis
    by (auto simp: ps_list_head_append_def)
qed

end
