(* ===== verification/Hw_Util.thy ===== *)
theory Hw_Util
  imports BI_Prelude
begin

text \<open>
  The hardware layer of \<^verbatim>\<open>include/hw_util.h\<close> and \<^verbatim>\<open>libs/util/hw_util.c\<close>: rounding
  macros, the identity of the running process and thread, the global time stamp, the mapping of
  logical to physical cores and the decoding of a trace. The rounding macros work bitwise on
  64-bit words, as the C macros do. Files, threads and the debug log are not modelled.
\<close>

unbundle bit_operations_syntax

section \<open>Rounding\<close>

definition round_to_pow2 :: "u64 \<Rightarrow> u64 \<Rightarrow> u64" where
  "round_to_pow2 x p = x AND NOT (p - 1)"

definition round_up_to_pow2 :: "u64 \<Rightarrow> u64 \<Rightarrow> u64" where
  "round_up_to_pow2 x p = round_to_pow2 (x + p - 1) p"

definition round_to_cacheline :: "addr \<Rightarrow> addr" where
  "round_to_cacheline a = unat (round_to_pow2 (of_nat a) 64)"

definition round_up_to_page :: "addr \<Rightarrow> addr" where
  "round_up_to_page a = unat (round_up_to_pow2 (of_nat a) 4096)"

lemma unat_and_not_mask:
  fixes x :: u64
  shows "unat (x AND NOT (mask n)) = unat x div 2 ^ n * 2 ^ n"
proof -
  have "x AND NOT (mask n) = push_bit n (drop_bit n x)"
    by (rule bit_word_eqI) (auto simp: bit_simps)
  then have a: "x AND NOT (mask n) = x - take_bit n x"
    using bits_ident[of n x] by (simp add: eq_diff_eq)
  have m: "unat (take_bit n x) = unat x mod 2 ^ n"
    unfolding unsigned_take_bit_eq by (simp add: take_bit_eq_mod)
  then have l: "take_bit n x \<le> x" by (simp add: word_le_nat_alt)
  show ?thesis unfolding a unat_sub[OF l] m by (simp add: minus_mod_eq_div_mult)
qed

lemma round_to_pow2_nat:
  assumes "a < 2 ^ 64" and "p = 2 ^ n"
  shows "unat (round_to_pow2 (of_nat a) p) = a div 2 ^ n * 2 ^ n"
proof -
  have "p - 1 = mask n" using assms(2) by (simp add: mask_eq_decr_exp)
  then show ?thesis
    using unat_and_not_mask[of "of_nat a" n] assms(1)
    by (simp add: round_to_pow2_def unat_of_nat)
qed

lemma round_to_cacheline_nat: "a < 2 ^ 64 \<Longrightarrow> round_to_cacheline a = a div CACHE_LINE * CACHE_LINE"
  using round_to_pow2_nat[of a 64 6] by (simp add: round_to_cacheline_def)

lemma round_up_to_page_nat:
  assumes "a + 4095 < 2 ^ 64"
  shows "round_up_to_page a = (a + 4095) div PAGE_SIZE * PAGE_SIZE"
proof -
  have "(of_nat a :: u64) + 4096 - 1 = of_nat (a + 4095)" by simp
  then show ?thesis
    using round_to_pow2_nat[of "a + 4095" 4096 12] assms
    by (simp only: round_up_to_page_def round_up_to_pow2_def) simp
qed

lemma round_up_to_page_bounds:
  assumes "a + 4095 < 2 ^ 64"
  shows "a \<le> round_up_to_page a" and "round_up_to_page a < a + PAGE_SIZE"
    and "PAGE_SIZE dvd round_up_to_page a"
  unfolding round_up_to_page_nat[OF assms] by (auto intro: dvd_triv_right)

section \<open>Identity of process and thread\<close>

text \<open>
  The globals of one process as seen by one thread, and the shared time stamp. The identifiers
  are C integers; a thread that has not called \<^verbatim>\<open>setup_core_id\<close> has core \<open>-1\<close>.
\<close>

record hw_st =
  local_node_id :: int
  num_node_in_use :: int
  num_core_in_use :: int
  local_core_id :: int
  tsc :: u64

definition setup_node_id :: "int \<Rightarrow> hw_st \<Rightarrow> hw_st" where
  "setup_node_id nid st = st\<lparr>local_node_id := nid\<rparr>"

definition setup_node_num :: "int \<Rightarrow> hw_st \<Rightarrow> hw_st result" where
  "setup_node_num num st =
     bindE (assertE (num \<le> int NUM_NODES)) (\<lambda>_. Inr (st\<lparr>num_node_in_use := num\<rparr>))"

definition setup_core_id :: "int \<Rightarrow> hw_st \<Rightarrow> hw_st" where
  "setup_core_id cid st = st\<lparr>local_core_id := cid\<rparr>"

text \<open>The assertion of the source is on the constant, not on the argument.\<close>

definition setup_core_num :: "int \<Rightarrow> hw_st \<Rightarrow> hw_st result" where
  "setup_core_num num st =
     bindE (assertE (int NUM_CORE_PER_NODE \<noteq> 0)) (\<lambda>_. Inr (st\<lparr>num_core_in_use := num\<rparr>))"

definition get_active_node_num :: "hw_st \<Rightarrow> int result" where
  "get_active_node_num st = bindE (assertE (num_node_in_use st \<noteq> 0)) (\<lambda>_. Inr (num_node_in_use st))"

definition get_active_core_num :: "hw_st \<Rightarrow> int result" where
  "get_active_core_num st = bindE (assertE (num_core_in_use st \<noteq> 0)) (\<lambda>_. Inr (num_core_in_use st))"

text \<open>\<open>now\<close> is the value of the local time stamp counter.\<close>

definition bi_global_rtdsc :: "u64 \<Rightarrow> hw_st \<Rightarrow> u64 \<times> hw_st" where
  "bi_global_rtdsc now st =
     (let st' = (if local_node_id st = 0 \<and> local_core_id st = 0 then st\<lparr>tsc := now\<rparr> else st)
      in (tsc st', st'))"

text \<open>The active core count is not checked against the eighteen slots per node that the shared
  structures have, while the node count is: any core count is accepted.\<close>

theorem core_num_unchecked:
  "setup_core_num num st = Inr (st\<lparr>num_core_in_use := num\<rparr>) \<and>
   (setup_node_num num st = Inr (st\<lparr>num_node_in_use := num\<rparr>) \<longleftrightarrow> num \<le> int NUM_NODES)"
  by (simp add: setup_core_num_def setup_node_num_def assertE_def)

section \<open>Core map\<close>

definition core_map :: "int list list" where
  "core_map = [[0, 1, 2, 3, 4, 5, 6, 7, 8, 9, 10, 11, 12, 13, 14, 15, 16, 17, 18, 19, 20, 21, 22, 23, 24, 25, 26, 27],
     [28, 29, 30, 31, 32, 33, 34, 35, 36, 37, 38, 39, 40, 41, 42, 43, 44, 45, 46, 47, 48, 49, 50, 51, 52, 53, 54, 55],
     [56, 57, 58, 59, 60, 61, 62, 63, 64, 65, 66, 67, 68, 69, 70, 71, 72, 73, 74, 75, 76, 77, 78, 79, 80, 81, 82, 83],
     [84, 85, 86, 87, 88, 89, 90, 91, 92, 93, 94, 95, 96, 97, 98, 99, 100, 101, 102, 103, 104, 105, 106, 107, 108, 109, 110, 111]]"

definition convert_to_core_id :: "nat \<Rightarrow> nat \<Rightarrow> int result" where
  "convert_to_core_id nid cid =
     bindE (assertE (cid < 28)) (\<lambda>_. Inr (core_map ! (nid mod 4) ! cid))"

lemma core_map_rows: "length core_map = 4" "s < 4 \<Longrightarrow> length (core_map ! s) = 28"
proof -
  show "length core_map = 4" by (simp add: core_map_def)
  show "s < 4 \<Longrightarrow> length (core_map ! s) = 28"
    by (auto simp: core_map_def less_Suc_eq numeral_eq_Suc nth_Cons')
qed

lemma core_map_row: "s < 4 \<Longrightarrow> core_map ! s = map (\<lambda>c. int (28 * s + c)) [0..<28]"
  by (auto simp: core_map_def less_Suc_eq numeral_eq_Suc nth_Cons' upt_rec)

lemma convert_to_core_id_eq: "cid < 28 \<Longrightarrow> convert_to_core_id nid cid = Inr (int (28 * (nid mod 4) + cid))"
  by (simp add: convert_to_core_id_def core_map_row)

section \<open>Traces\<close>

text \<open>
  The decoding loop of \<^verbatim>\<open>load_trace\<close>: each operation character becomes 0 (read) or 1 (update),
  anything else fails the assertion; the two counters are returned.
\<close>

fun load_trace_loop :: "char list \<Rightarrow> nat \<Rightarrow> nat \<Rightarrow> (nat list \<times> nat \<times> nat) result" where
  "load_trace_loop [] n_read n_update = Inr ([], n_read, n_update)"
| "load_trace_loop (c # ops) n_read n_update =
     (if c = CHR ''R'' then bindE (load_trace_loop ops (n_read + 1) n_update) (\<lambda>(r, a, b). Inr (0 # r, a, b))
      else if c = CHR ''U'' then bindE (load_trace_loop ops n_read (n_update + 1)) (\<lambda>(r, a, b). Inr (1 # r, a, b))
      else Inl Assert_fail)"

definition load_trace :: "char list \<Rightarrow> nat list result" where
  "load_trace ops =
     bindE (load_trace_loop ops 0 0) (\<lambda>(r, n_read, n_update).
     bindE (assertE (n_read + n_update = length ops)) (\<lambda>_. Inr r))"

lemma load_trace_loop_ok:
  "set ops \<subseteq> {CHR ''R'', CHR ''U''} \<Longrightarrow>
   load_trace_loop ops a b = Inr (map (\<lambda>c. if c = CHR ''U'' then 1 else 0) ops,
     a + length (filter ((=) (CHR ''R'')) ops), b + length (filter ((=) (CHR ''U'')) ops))"
  by (induction ops arbitrary: a b) auto

lemma load_trace_loop_bad:
  "\<not> set ops \<subseteq> {CHR ''R'', CHR ''U''} \<Longrightarrow> load_trace_loop ops a b = Inl Assert_fail"
proof (induction ops arbitrary: a b)
  case (Cons c ops)
  then show ?case by (cases "set ops \<subseteq> {CHR ''R'', CHR ''U''}") (simp_all, blast?)
qed simp

text \<open>A trace loads exactly if it consists of reads and updates only, and then it is decoded
  character by character.\<close>

theorem load_trace_decodes:
  "load_trace ops =
     (if set ops \<subseteq> {CHR ''R'', CHR ''U''} then Inr (map (\<lambda>c. if c = CHR ''U'' then 1 else 0) ops)
      else Inl Assert_fail)"
proof (cases "set ops \<subseteq> {CHR ''R'', CHR ''U''}")
  case True
  then have "length (filter ((=) (CHR ''R'')) ops) + length (filter ((=) (CHR ''U'')) ops) = length ops"
    by (induction ops) auto
  with True show ?thesis by (simp add: load_trace_def load_trace_loop_ok)
qed (simp add: load_trace_def load_trace_loop_bad)

end
