(* ===== verification/Mem_Mgr.thy ===== *)
theory Mem_Mgr
  imports Qsc_Ring Rpc Ps_List Bi_Malloc Hw_Util
begin

text \<open>
  The memory manager of \<^verbatim>\<open>include/mem_mgr.h\<close> and \<^verbatim>\<open>libs/mem/mem_mgr.c\<close>: the layout of the
  shared memory that the master node writes once, and the list of free pages of each node.

  Structure sizes are the ones the compiler gives for x86-64; the sizes of the two structures
  that contain third-party types (\<^verbatim>\<open>struct Mem_layout\<close> with its \<^verbatim>\<open>ck\<close> locks and
  \<^verbatim>\<open>struct RCU_block\<close>) are parameters. The typed contents of the shared memory are one map
  from addresses per structure type.
\<close>

section \<open>The layout of the shared memory\<close>

abbreviation MSG_QUEUE_SZ :: nat where "MSG_QUEUE_SZ \<equiv> 3072"
abbreviation PARSEC_SZ :: nat where "PARSEC_SZ \<equiv> 64"
abbreviation QSC_RING_SZ :: nat where "QSC_RING_SZ \<equiv> 12582976"
abbreviation TEST_OBJ_SZ :: nat where "TEST_OBJ_SZ \<equiv> 64"
abbreviation FREE_MEM_ITEM_SZ :: nat where "FREE_MEM_ITEM_SZ \<equiv> 24"
abbreviation FREE_MEM_LIST_SZ :: nat where "FREE_MEM_LIST_SZ \<equiv> 1966080"
abbreviation MAX_TEST_OBJ_NUM :: nat where "MAX_TEST_OBJ_NUM \<equiv> 1024"
abbreviation MAGIC_SZ :: nat where "MAGIC_SZ \<equiv> 64"

type_synonym per_core_info = "node_id \<Rightarrow> core_id \<Rightarrow> addr"
type_synonym per_node_info = "node_id \<Rightarrow> addr"

record Mem_layout =
  magic :: string
  rpc_area :: addr
  parsec_area :: addr
  quies_area :: addr
  wlog_area :: addr
  mem_list_area :: addr
  rcu_area :: addr
  test_obj_area :: addr
  data_area :: addr
  send_ring_at :: "node_id \<Rightarrow> per_core_info"
  recv_ring_at :: "node_id \<Rightarrow> per_core_info"
  parsec_times :: per_core_info
  quies_rings :: per_node_info
  wlog_rings :: per_core_info
  mem_free_lists :: per_node_info
  mem_start_addr :: per_node_info
  malloc_start_addr :: per_node_info
  g_bar :: int
  bars :: "node_id \<Rightarrow> int"

text \<open>\<^verbatim>\<open>memset\<close> of the layout structure.\<close>

definition zero_layout :: Mem_layout where
  "zero_layout = \<lparr>magic = [], rpc_area = 0, parsec_area = 0, quies_area = 0, wlog_area = 0,
     mem_list_area = 0, rcu_area = 0, test_obj_area = 0, data_area = 0, send_ring_at = (\<lambda>_ _ _. 0),
     recv_ring_at = (\<lambda>_ _ _. 0), parsec_times = (\<lambda>_ _. 0), quies_rings = (\<lambda>_. 0), wlog_rings = (\<lambda>_ _. 0),
     mem_free_lists = (\<lambda>_. 0), mem_start_addr = (\<lambda>_. 0), malloc_start_addr = (\<lambda>_. 0), g_bar = 0,
     bars = (\<lambda>_. 0)\<rparr>"

record gmem =
  global_layout :: Mem_layout
  queues :: "addr \<Rightarrow> msg_queue"
  parsecs :: "addr \<Rightarrow> parsec"
  rings :: "addr \<Rightarrow> bi_qsc_ring"

subsection \<open>Loops over nodes and cores\<close>

text \<open>
  The common shape of the \<^verbatim>\<open>__init_*\<close> functions: hand out consecutive addresses, \<open>sz\<close> apart,
  and initialise the structure at each of them.
\<close>

definition core_loop ::
  "('a \<Rightarrow> 'a) \<Rightarrow> nat \<Rightarrow> node_id \<Rightarrow> per_core_info \<times> (addr \<Rightarrow> 'a) \<times> addr \<Rightarrow>
   per_core_info \<times> (addr \<Rightarrow> 'a) \<times> addr" where
  "core_loop ini sz i = fold (\<lambda>j (info, h, addr). (upd2 info i j addr, h(addr := ini (h addr)), addr + sz))
     [0..<NUM_CORE_PER_NODE]"

definition per_core_loop ::
  "('a \<Rightarrow> 'a) \<Rightarrow> nat \<Rightarrow> per_core_info \<times> (addr \<Rightarrow> 'a) \<times> addr \<Rightarrow> per_core_info \<times> (addr \<Rightarrow> 'a) \<times> addr" where
  "per_core_loop ini sz = fold (core_loop ini sz) [0..<NUM_NODES]"

definition per_node_loop ::
  "('a \<Rightarrow> 'a) \<Rightarrow> nat \<Rightarrow> per_node_info \<times> (addr \<Rightarrow> 'a) \<times> addr \<Rightarrow> per_node_info \<times> (addr \<Rightarrow> 'a) \<times> addr" where
  "per_node_loop ini sz = fold (\<lambda>i (info, h, addr). (info(i := addr), h(addr := ini (h addr)), addr + sz))
     [0..<NUM_NODES]"

definition init_magic_str :: "string \<Rightarrow> Mem_layout \<Rightarrow> Mem_layout result" where
  "init_magic_str s g = bindE (assertE (length s < MAGIC_SZ)) (\<lambda>_. Inr (g\<lparr>magic := s\<rparr>))"

definition init_rpc_rings ::
  "per_core_info \<times> (addr \<Rightarrow> msg_queue) \<times> addr \<Rightarrow> per_core_info \<times> (addr \<Rightarrow> msg_queue) \<times> addr" where
  "init_rpc_rings = per_core_loop msg_queue_struct_init MSG_QUEUE_SZ"

definition init_parsec_times ::
  "per_core_info \<times> (addr \<Rightarrow> parsec) \<times> addr \<Rightarrow> per_core_info \<times> (addr \<Rightarrow> parsec) \<times> addr" where
  "init_parsec_times = per_core_loop parsec_struct_init PARSEC_SZ"

definition init_quies_rings ::
  "per_node_info \<times> (addr \<Rightarrow> bi_qsc_ring) \<times> addr \<Rightarrow> per_node_info \<times> (addr \<Rightarrow> bi_qsc_ring) \<times> addr" where
  "init_quies_rings = per_node_loop qsc_ring_struct_init QSC_RING_SZ"

definition init_wlogs_rings ::
  "per_core_info \<times> (addr \<Rightarrow> bi_qsc_ring) \<times> addr \<Rightarrow> per_core_info \<times> (addr \<Rightarrow> bi_qsc_ring) \<times> addr" where
  "init_wlogs_rings = per_core_loop qsc_ring_struct_init QSC_RING_SZ"

definition init_mem_free_lists :: "per_node_info \<times> addr \<Rightarrow> per_node_info \<times> addr" where
  "init_mem_free_lists = fold (\<lambda>i (info, addr). (info(i := addr), addr + FREE_MEM_LIST_SZ)) [0..<NUM_NODES]"

definition init_mem_start_addr :: "per_node_info \<times> addr \<Rightarrow> per_node_info \<times> addr" where
  "init_mem_start_addr =
     fold (\<lambda>i (info, addr). (info(i := addr), addr + MEM_MGR_OBJ_SZ * MEM_MGR_OBJ_NUM)) [0..<NUM_NODES]"

text \<open>The loop that initialises the rings of every server node, one after the other.\<close>

definition rpc_rings_loop ::
  "(node_id \<Rightarrow> per_core_info) \<times> (addr \<Rightarrow> msg_queue) \<times> addr \<Rightarrow>
   (node_id \<Rightarrow> per_core_info) \<times> (addr \<Rightarrow> msg_queue) \<times> addr" where
  "rpc_rings_loop = fold (\<lambda>i (infos, h, addr).
     let (info, h', addr') = init_rpc_rings (infos i, h, addr) in (infos(i := info), h', addr'))
     [0..<NUM_NODES]"

text \<open>
  \<^verbatim>\<open>init_global_memory\<close>: \<open>lsz\<close> and \<open>rsz\<close> are the sizes of the layout structure and of the RCU
  block, \<open>marea\<close> the start of the \<^verbatim>\<open>malloc\<close> area. The result is the end of the laid out memory.
\<close>

definition init_global_memory ::
  "nat \<Rightarrow> nat \<Rightarrow> addr \<Rightarrow> addr \<Rightarrow> string option \<Rightarrow> gmem \<Rightarrow> (addr \<times> gmem) result" where
  "init_global_memory lsz rsz marea global_memory s g =
     bindE (case s of None \<Rightarrow> Inr zero_layout | Some str \<Rightarrow> init_magic_str str zero_layout) (\<lambda>l0.
     let a1 = round_up_to_page (global_memory + lsz);
         (snd_rs, q1, a2) = rpc_rings_loop (send_ring_at l0, queues g, a1);
         (rcv_rs, q2, a3) = rpc_rings_loop (recv_ring_at l0, q1, a2);
         a4 = round_up_to_page a3;
         (pts, ps, a5) = init_parsec_times (parsec_times l0, parsecs g, a4);
         a6 = round_up_to_page a5;
         (qrs, r1, a7) = init_quies_rings (quies_rings l0, rings g, a6);
         a8 = round_up_to_page a7;
         (wrs, r2, a9) = init_wlogs_rings (wlog_rings l0, r1, a8);
         a10 = round_up_to_page a9;
         a11 = a10 + MAX_TEST_OBJ_NUM * TEST_OBJ_SZ;
         a12 = round_up_to_page a11;
         (fls, a13) = init_mem_free_lists (mem_free_lists l0, a12);
         a14 = round_up_to_page a13;
         a15 = a14 + rsz;
         a16 = round_up_to_page a15;
         (msa, a17) = init_mem_start_addr (mem_start_addr l0, a16);
         (mas, _) = init_mem_start_addr (malloc_start_addr l0, marea);
         l = l0\<lparr>rpc_area := a1, parsec_area := a4, quies_area := a6, wlog_area := a8, test_obj_area := a10,
               mem_list_area := a12, rcu_area := a14, data_area := a16, send_ring_at := snd_rs,
               recv_ring_at := rcv_rs, parsec_times := pts, quies_rings := qrs, wlog_rings := wrs,
               mem_free_lists := fls, mem_start_addr := msa, malloc_start_addr := mas, g_bar := 0,
               bars := (\<lambda>i. if i < NUM_NODES then 0 else bars l0 i)\<rparr>
     in Inr (a17, g\<lparr>global_layout := l, queues := q2, parsecs := ps, rings := r2\<rparr>))"

subsection \<open>What the loops compute\<close>

lemma core_loop_fold:
  assumes "0 < sz"
  shows "fold (\<lambda>j (info, h, addr). (upd2 info i j addr, h(addr := ini (h addr)), addr + sz)) [0..<n] (info, h, a) =
    ((\<lambda>i' j. if i' = i \<and> j < n then a + j * sz else info i' j),
     (\<lambda>b. if \<exists>k < n. b = a + k * sz then ini (h b) else h b), a + n * sz)"
proof (induction n)
  case (Suc n)
  have "a + n * sz \<noteq> a + k * sz" if "k < n" for k using that assms by simp
  with Suc show ?case by (auto simp: fun_eq_iff less_Suc_eq)
qed simp

lemma per_node_loop_spec:
  assumes "0 < sz"
  shows "per_node_loop ini sz (info, h, a) =
    ((\<lambda>i. if i < NUM_NODES then a + i * sz else info i),
     (\<lambda>b. if \<exists>k < NUM_NODES. b = a + k * sz then ini (h b) else h b), a + NUM_NODES * sz)"
proof -
  have "fold (\<lambda>i (info, h, addr). (info(i := addr), h(addr := ini (h addr)), addr + sz)) [0..<n] (info, h, a) =
    ((\<lambda>i. if i < n then a + i * sz else info i),
     (\<lambda>b. if \<exists>k < n. b = a + k * sz then ini (h b) else h b), a + n * sz)" for n
  proof (induction n)
    case (Suc n)
    have "a + n * sz \<noteq> a + k * sz" if "k < n" for k using that assms by simp
    with Suc show ?case by (auto simp: fun_eq_iff less_Suc_eq)
  qed simp
  from this[of NUM_NODES] show ?thesis unfolding per_node_loop_def .
qed

lemma addr_loop_spec:
  "fold (\<lambda>i (info, addr). (info(i := addr), addr + sz)) [0..<n] (info, a) =
    ((\<lambda>i. if i < n then a + i * sz else info i), a + n * (sz :: nat))"
  by (induction n) (auto simp: fun_eq_iff less_Suc_eq)

text \<open>
  A heap in which the structures at \<open>a\<close>, \<open>a + sz\<close>, \<open>\<dots>\<close> (\<open>n\<close> of them) have been initialised.
\<close>

definition init_seq :: "('a \<Rightarrow> 'a) \<Rightarrow> addr \<Rightarrow> nat \<Rightarrow> nat \<Rightarrow> (addr \<Rightarrow> 'a) \<Rightarrow> (addr \<Rightarrow> 'a)" where
  "init_seq ini a sz n h = (\<lambda>b. if \<exists>k < n. b = a + k * sz then ini (h b) else h b)"

lemma init_seq_add:
  assumes "0 < sz"
  shows "init_seq ini (a + m * sz) sz n (init_seq ini a sz m h) = init_seq ini a sz (m + n) h"
proof
  fix b
  have "(\<exists>k < m + n. b = a + k * sz) \<longleftrightarrow> (\<exists>k < m. b = a + k * sz) \<or> (\<exists>k < n. b = a + m * sz + k * sz)"
    (is "?l \<longleftrightarrow> ?r")
  proof
    assume ?l
    then obtain k where k: "k < m + n" "b = a + k * sz" by blast
    show ?r
    proof (cases "k < m")
      case False
      then have "b = a + m * sz + (k - m) * sz" using k by (simp add: diff_mult_distrib)
      moreover have "k - m < n" using False k by linarith
      ultimately show ?thesis by blast
    qed (use k in blast)
  next
    assume ?r
    then show ?l
    proof
      assume "\<exists>k < n. b = a + m * sz + k * sz"
      then obtain k where "k < n" "b = a + (m + k) * sz" by (auto simp: add_mult_distrib)
      then show ?l by (intro exI[of _ "m + k"]) simp
    qed (use trans_less_add1 in blast)
  qed
  moreover have "\<not> ((\<exists>k < m. b = a + k * sz) \<and> (\<exists>k < n. b = a + m * sz + k * sz))"
  proof
    assume "(\<exists>k < m. b = a + k * sz) \<and> (\<exists>k < n. b = a + m * sz + k * sz)"
    then obtain j k where "j < m" "a + j * sz = a + m * sz + k * sz" by blast
    then have "j * sz = (m + k) * sz" by (simp add: add_mult_distrib)
    with assms \<open>j < m\<close> show False by simp
  qed
  ultimately show "init_seq ini (a + m * sz) sz n (init_seq ini a sz m h) b = init_seq ini a sz (m + n) h b"
    by (auto simp: init_seq_def)
qed

lemma core_loop_spec:
  "0 < sz \<Longrightarrow> core_loop ini sz i (info, h, a) =
    ((\<lambda>i' j. if i' = i \<and> j < NUM_CORE_PER_NODE then a + j * sz else info i' j),
     init_seq ini a sz NUM_CORE_PER_NODE h, a + NUM_CORE_PER_NODE * sz)"
  unfolding core_loop_def init_seq_def by (rule core_loop_fold)

lemma core_loops:
  assumes "0 < sz"
  shows "fold (core_loop ini sz) [0..<n] (info, h, a) =
    ((\<lambda>i j. if i < n \<and> j < NUM_CORE_PER_NODE then a + (i * NUM_CORE_PER_NODE + j) * sz else info i j),
     init_seq ini a sz (n * NUM_CORE_PER_NODE) h, a + n * NUM_CORE_PER_NODE * sz)"
proof (induction n)
  case (Suc n)
  have "init_seq ini (a + n * 18 * sz) sz 18 (init_seq ini a sz (n * 18) h) = init_seq ini a sz (n * 18 + 18) h"
    by (rule init_seq_add[OF assms])
  then show ?case
    using Suc by (simp add: core_loop_spec[OF assms] fun_eq_iff less_Suc_eq) (auto simp: algebra_simps)
qed (simp add: init_seq_def)

lemma per_core_loop_spec:
  "0 < sz \<Longrightarrow> per_core_loop ini sz (info, h, a) =
    ((\<lambda>i j. if i < NUM_NODES \<and> j < NUM_CORE_PER_NODE then a + (i * NUM_CORE_PER_NODE + j) * sz else info i j),
     init_seq ini a sz (NUM_NODES * NUM_CORE_PER_NODE) h, a + NUM_NODES * NUM_CORE_PER_NODE * sz)"
  unfolding per_core_loop_def by (rule core_loops)

lemma rpc_rings_fold:
  "fold (\<lambda>i (infos, h, addr).
     let (info, h', addr') = init_rpc_rings (infos i, h, addr) in (infos(i := info), h', addr'))
     [0..<n] (infos, h, a) =
   ((\<lambda>s i j. if s < n \<and> i < NUM_NODES \<and> j < NUM_CORE_PER_NODE
       then a + (s * 72 + (i * NUM_CORE_PER_NODE + j)) * MSG_QUEUE_SZ else infos s i j),
    init_seq msg_queue_struct_init a MSG_QUEUE_SZ (n * 72) h, a + n * 72 * MSG_QUEUE_SZ)"
proof (induction n)
  case (Suc n)
  have "init_seq msg_queue_struct_init (a + n * 72 * MSG_QUEUE_SZ) MSG_QUEUE_SZ 72
      (init_seq msg_queue_struct_init a MSG_QUEUE_SZ (n * 72) h) =
      init_seq msg_queue_struct_init a MSG_QUEUE_SZ (n * 72 + 72) h" by (rule init_seq_add) simp
  then show ?case
    using Suc by (simp add: init_rpc_rings_def per_core_loop_spec fun_eq_iff less_Suc_eq)
      (auto simp: algebra_simps)
qed (simp add: init_seq_def)

lemma rpc_rings_spec:
  "rpc_rings_loop (infos, h, a) =
   ((\<lambda>s i j. if s < NUM_NODES \<and> i < NUM_NODES \<and> j < NUM_CORE_PER_NODE
       then a + (s * 72 + (i * NUM_CORE_PER_NODE + j)) * MSG_QUEUE_SZ else infos s i j),
    init_seq msg_queue_struct_init a MSG_QUEUE_SZ 288 h, a + 288 * MSG_QUEUE_SZ)"
  using rpc_rings_fold[of NUM_NODES infos h a] unfolding rpc_rings_loop_def by simp

lemma init_seq_at: "k < n \<Longrightarrow> init_seq ini a sz n h (a + k * sz) = ini (h (a + k * sz))"
  by (auto simp: init_seq_def)

lemma init_seq_or: "init_seq ini a sz n h b = ini (h b) \<or> init_seq ini a sz n h b = h b"
  by (auto simp: init_seq_def)

subsection \<open>The areas of the layout\<close>

datatype area =
    Send_ring node_id node_id core_id
  | Recv_ring node_id node_id core_id
  | Parsec_time node_id core_id
  | Quies_ring node_id
  | Wlog_ring node_id core_id
  | Test_objs
  | Free_list node_id
  | Rcu_block
  | Pages node_id

fun valid_area :: "area \<Rightarrow> bool" where
  "valid_area (Send_ring s n c) \<longleftrightarrow> s < NUM_NODES \<and> n < NUM_NODES \<and> c < NUM_CORE_PER_NODE"
| "valid_area (Recv_ring s n c) \<longleftrightarrow> s < NUM_NODES \<and> n < NUM_NODES \<and> c < NUM_CORE_PER_NODE"
| "valid_area (Parsec_time n c) \<longleftrightarrow> n < NUM_NODES \<and> c < NUM_CORE_PER_NODE"
| "valid_area (Quies_ring n) \<longleftrightarrow> n < NUM_NODES"
| "valid_area (Wlog_ring n c) \<longleftrightarrow> n < NUM_NODES \<and> c < NUM_CORE_PER_NODE"
| "valid_area Test_objs \<longleftrightarrow> True"
| "valid_area (Free_list n) \<longleftrightarrow> n < NUM_NODES"
| "valid_area Rcu_block \<longleftrightarrow> True"
| "valid_area (Pages n) \<longleftrightarrow> n < NUM_NODES"

fun area_start :: "Mem_layout \<Rightarrow> area \<Rightarrow> addr" where
  "area_start l (Send_ring s n c) = send_ring_at l s n c"
| "area_start l (Recv_ring s n c) = recv_ring_at l s n c"
| "area_start l (Parsec_time n c) = parsec_times l n c"
| "area_start l (Quies_ring n) = quies_rings l n"
| "area_start l (Wlog_ring n c) = wlog_rings l n c"
| "area_start l Test_objs = test_obj_area l"
| "area_start l (Free_list n) = mem_free_lists l n"
| "area_start l Rcu_block = rcu_area l"
| "area_start l (Pages n) = mem_start_addr l n"

text \<open>The block an area belongs to, its index there, and the size and number of a block's areas.\<close>

fun area_block :: "area \<Rightarrow> nat" where
  "area_block (Send_ring _ _ _) = 0"
| "area_block (Recv_ring _ _ _) = 1"
| "area_block (Parsec_time _ _) = 2"
| "area_block (Quies_ring _) = 3"
| "area_block (Wlog_ring _ _) = 4"
| "area_block Test_objs = 5"
| "area_block (Free_list _) = 6"
| "area_block Rcu_block = 7"
| "area_block (Pages _) = 8"

fun area_index :: "area \<Rightarrow> nat" where
  "area_index (Send_ring s n c) = s * 72 + (n * NUM_CORE_PER_NODE + c)"
| "area_index (Recv_ring s n c) = s * 72 + (n * NUM_CORE_PER_NODE + c)"
| "area_index (Parsec_time n c) = n * NUM_CORE_PER_NODE + c"
| "area_index (Quies_ring n) = n"
| "area_index (Wlog_ring n c) = n * NUM_CORE_PER_NODE + c"
| "area_index Test_objs = 0"
| "area_index (Free_list n) = n"
| "area_index Rcu_block = 0"
| "area_index (Pages n) = n"

definition block_sz :: "nat \<Rightarrow> nat \<Rightarrow> nat" where
  "block_sz rsz b = [MSG_QUEUE_SZ, MSG_QUEUE_SZ, PARSEC_SZ, QSC_RING_SZ, QSC_RING_SZ,
     MAX_TEST_OBJ_NUM * TEST_OBJ_SZ, FREE_MEM_LIST_SZ, rsz, MEM_MGR_OBJ_SZ * MEM_MGR_OBJ_NUM] ! b"

definition block_cnt :: "nat \<Rightarrow> nat" where
  "block_cnt b = [288, 288, 72, 4, 72, 1, 4, 1, 4] ! b"

lemma snc_inj:
  assumes "n < 4" "n' < 4" "c < 18" "c' < 18"
  shows "s * 72 + (n * 18 + c) = s' * 72 + (n' * 18 + c') \<longleftrightarrow> s = s' \<and> n = n' \<and> c = (c' :: nat)"
proof -
  have "n * 18 + c < 72" "n' * 18 + c' < 72" using assms by linarith+
  then show ?thesis using radix_inj[of "n * 18 + c" 72 "n' * 18 + c'" s s'] radix_inj[of c 18 c' n n'] assms by blast
qed

lemma area_index_inj:
  assumes "valid_area x" and "valid_area y" and "area_block x = area_block y" and "area_index x = area_index y"
  shows "x = y"
  using assms by (cases x; cases y) (simp_all add: radix_inj snc_inj)

lemma area_index_less: "valid_area x \<Longrightarrow> area_index x < block_cnt (area_block x)"
  by (cases x) (auto simp: block_cnt_def)

text \<open>Where the blocks start: each on the next page boundary, except the reply rings, which follow
  the request rings directly.\<close>

definition block_base :: "nat \<Rightarrow> nat \<Rightarrow> addr \<Rightarrow> nat \<Rightarrow> addr" where
  "block_base lsz rsz start b =
     (let b0 = round_up_to_page (start + lsz);
          b1 = b0 + 288 * MSG_QUEUE_SZ;
          b2 = round_up_to_page (b1 + 288 * MSG_QUEUE_SZ);
          b3 = round_up_to_page (b2 + 72 * PARSEC_SZ);
          b4 = round_up_to_page (b3 + 4 * QSC_RING_SZ);
          b5 = round_up_to_page (b4 + 72 * QSC_RING_SZ);
          b6 = round_up_to_page (b5 + MAX_TEST_OBJ_NUM * TEST_OBJ_SZ);
          b7 = round_up_to_page (b6 + 4 * FREE_MEM_LIST_SZ);
          b8 = round_up_to_page (b7 + rsz)
      in [b0, b1, b2, b3, b4, b5, b6, b7, b8] ! b)"

lemmas layout_specs = rpc_rings_spec init_parsec_times_def init_quies_rings_def init_wlogs_rings_def
  init_mem_free_lists_def init_mem_start_addr_def per_core_loop_spec per_node_loop_spec addr_loop_spec

lemma init_layout:
  assumes "init_global_memory lsz rsz marea start s g = Inr (e, g')" and "valid_area x"
  shows "area_start (global_layout g') x =
      block_base lsz rsz start (area_block x) + area_index x * block_sz rsz (area_block x)"
    and "e = block_base lsz rsz start 8 + block_cnt 8 * block_sz rsz 8"
proof -
  show "area_start (global_layout g') x =
      block_base lsz rsz start (area_block x) + area_index x * block_sz rsz (area_block x)"
    using assms
    by (cases x) (auto simp: init_global_memory_def Let_def layout_specs result_simps block_base_def block_sz_def
        split: option.splits)
  show "e = block_base lsz rsz start 8 + block_cnt 8 * block_sz rsz 8"
    using assms(1)
    by (auto simp: init_global_memory_def Let_def layout_specs result_simps block_base_def block_sz_def block_cnt_def
        split: option.splits)
qed

lemma round_up_step:
  "a + 4096 \<le> 2 ^ 64 \<Longrightarrow> a \<le> round_up_to_page a \<and> round_up_to_page a < a + 4096"
  using round_up_to_page_bounds[of a] by auto

lemma block_order:
  assumes "start + lsz + rsz < 2 ^ 63" and "b < 8"
  shows "start + lsz \<le> block_base lsz rsz start 0"
    and "block_base lsz rsz start b + block_cnt b * block_sz rsz b \<le> block_base lsz rsz start (Suc b)"
proof -
  define b0 where "b0 = round_up_to_page (start + lsz)"
  define b2 where "b2 = round_up_to_page (1769472 + b0)"
  define b3 where "b3 = round_up_to_page (b2 + 4608)"
  define b4 where "b4 = round_up_to_page (b3 + 50331904)"
  define b5 where "b5 = round_up_to_page (b4 + 905974272)"
  define b6 where "b6 = round_up_to_page (b5 + 65536)"
  define b7 where "b7 = round_up_to_page (b6 + 7864320)"
  define b8 where "b8 = round_up_to_page (b7 + rsz)"
  have s0: "start + lsz \<le> b0 \<and> b0 < start + lsz + 4096"
    unfolding b0_def using assms(1) by (intro round_up_step) simp
  have s2: "1769472 + b0 \<le> b2 \<and> b2 < 1769472 + b0 + 4096"
    unfolding b2_def using assms(1) s0 by (intro round_up_step) simp
  have s3: "b2 + 4608 \<le> b3 \<and> b3 < b2 + 4608 + 4096"
    unfolding b3_def using assms(1) s0 s2 by (intro round_up_step) simp
  have s4: "b3 + 50331904 \<le> b4 \<and> b4 < b3 + 50331904 + 4096"
    unfolding b4_def using assms(1) s0 s2 s3 by (intro round_up_step) simp
  have s5: "b4 + 905974272 \<le> b5 \<and> b5 < b4 + 905974272 + 4096"
    unfolding b5_def using assms(1) s0 s2 s3 s4 by (intro round_up_step) simp
  have s6: "b5 + 65536 \<le> b6 \<and> b6 < b5 + 65536 + 4096"
    unfolding b6_def using assms(1) s0 s2 s3 s4 s5 by (intro round_up_step) simp
  have s7: "b6 + 7864320 \<le> b7 \<and> b7 < b6 + 7864320 + 4096"
    unfolding b7_def using assms(1) s0 s2 s3 s4 s5 s6 by (intro round_up_step) simp
  have s8: "b7 + rsz \<le> b8 \<and> b8 < b7 + rsz + 4096"
    unfolding b8_def using assms(1) s0 s2 s3 s4 s5 s6 s7 by (intro round_up_step) simp
  have base: "block_base lsz rsz start b = [b0, b0 + 884736, b2, b3, b4, b5, b6, b7, b8] ! b" for b
    by (simp add: block_base_def Let_def b0_def b2_def b3_def b4_def b5_def b6_def b7_def b8_def)
  show "start + lsz \<le> block_base lsz rsz start 0" using s0 by (simp add: base)
  have "b \<in> {0, 1, 2, 3, 4, 5, 6, 7}" using assms(2) by auto
  then show "block_base lsz rsz start b + block_cnt b * block_sz rsz b \<le> block_base lsz rsz start (Suc b)"
    using s2 s3 s4 s5 s6 s7 s8 by (auto simp: base block_cnt_def block_sz_def)
qed

lemma block_order_less:
  assumes "start + lsz + rsz < 2 ^ 63" and "b < c" and "c \<le> 8"
  shows "block_base lsz rsz start b + block_cnt b * block_sz rsz b \<le> block_base lsz rsz start c"
  using assms(2,3)
proof (induction c)
  case (Suc c)
  show ?case
  proof (cases "b = c")
    case True
    then show ?thesis using block_order(2)[OF assms(1), of b] Suc.prems by simp
  next
    case False
    then have "block_base lsz rsz start b + block_cnt b * block_sz rsz b \<le> block_base lsz rsz start c"
      using Suc by simp
    then show ?thesis using block_order(2)[OF assms(1), of c] Suc.prems by simp
  qed
qed simp

lemma area_block_le: "area_block x \<le> 8"
  by (cases x) auto

lemma cell_in_block: "k < (n::nat) \<Longrightarrow> a + k * sz + sz \<le> a + n * sz"
  using mult_le_mono1[of "Suc k" n sz] by simp

text \<open>C34: the memory layout gives every message ring, reader time slot, quiescence ring, write log,
  page list and page area its own memory: no two of them overlap, and all lie between the layout
  structure and the end of the laid out memory.\<close>

theorem layout_areas_disjoint:
  assumes ok: "init_global_memory lsz rsz marea start s g = Inr (e, g')"
    and fits: "start + lsz + rsz < 2 ^ 63" and x: "valid_area x" and y: "valid_area y" and ne: "x \<noteq> y"
  shows "\<not> overlap (area_start (global_layout g') x, block_sz rsz (area_block x))
      (area_start (global_layout g') y, block_sz rsz (area_block y)) \<and>
    start + lsz \<le> area_start (global_layout g') x \<and>
    area_start (global_layout g') x + block_sz rsz (area_block x) \<le> e"
proof -
  define base where "base = block_base lsz rsz start"
  define sz where "sz = block_sz rsz"
  have at: "area_start (global_layout g') z = base (area_block z) + area_index z * sz (area_block z)"
    if "valid_area z" for z using init_layout(1)[OF ok that] by (simp add: base_def sz_def)
  have e: "e = base 8 + block_cnt 8 * sz 8" using init_layout(2)[OF ok x] by (simp add: base_def sz_def)
  have cell: "base (area_block z) + area_index z * sz (area_block z) + sz (area_block z) \<le>
      base (area_block z) + block_cnt (area_block z) * sz (area_block z)" if "valid_area z" for z
    using area_index_less[OF that] by (rule cell_in_block)
  have ord: "base b + block_cnt b * sz b \<le> base c" if "b < c" "c \<le> 8" for b c
    using block_order_less[OF fits that] by (simp add: base_def sz_def)
  have le: "base b + block_cnt b * sz b \<le> e" "base 0 \<le> base b" if "b \<le> 8" for b
    using ord[of b 8] ord[of 0 b] that e by (cases "b = 8"; cases "b = 0"; auto)+
  have "\<not> overlap (base (area_block x) + area_index x * sz (area_block x), sz (area_block x))
      (base (area_block y) + area_index y * sz (area_block y), sz (area_block y))"
  proof (cases "area_block x = area_block y")
    case True
    then have "area_index x \<noteq> area_index y" using area_index_inj[OF x y] ne by blast
    from cells_apart[OF this] True show ?thesis by simp
  next
    case False
    then show ?thesis
      using cell[OF x] cell[OF y] ord[of "area_block x" "area_block y"] ord[of "area_block y" "area_block x"]
        area_block_le[of x] area_block_le[of y]
      by (cases "area_block x" "area_block y" rule: linorder_cases) (auto simp: overlap_def)
  qed
  moreover have "start + lsz \<le> base 0" using block_order(1)[OF fits, of 0] by (simp add: base_def)
  ultimately show ?thesis
    using at[OF x] at[OF y] cell[OF x] le[OF area_block_le[of x]] unfolding sz_def[symmetric] by auto
qed

text \<open>A memory whose contents are arbitrary, to be laid out.\<close>

definition gmem_example :: gmem where
  "gmem_example = \<lparr>global_layout = zero_layout, queues = (\<lambda>_. ch_q ring0),
     parsecs = (\<lambda>_. \<lparr>time_in = 5, time_out = 2\<rparr>), rings = (\<lambda>_. ring_example\<lparr>q_tail := 3\<rparr>)\<rparr>"

lemma init_succeeds: "\<exists>e g'. init_global_memory lsz rsz marea start None g = Inr (e, g')"
  by (simp add: init_global_memory_def Let_def case_prod_beta)

theorem layout_areas_disjoint_witness:
  "\<exists>e g'. init_global_memory 8192 4096 0 65536 None gmem_example = Inr (e, g') \<and>
    \<not> overlap (send_ring_at (global_layout g') 0 1 2, MSG_QUEUE_SZ)
      (quies_rings (global_layout g') 3, QSC_RING_SZ)"
proof -
  obtain e g' where ok: "init_global_memory 8192 4096 0 65536 None gmem_example = Inr (e, g')"
    using init_succeeds by blast
  from layout_areas_disjoint[OF ok, of "Send_ring 0 1 2" "Quies_ring 3"] ok show ?thesis
    by (simp add: block_sz_def)
qed

lemma init_contents:
  assumes "init_global_memory lsz rsz marea start s g = Inr (e, g')"
  shows "queues g' = init_seq msg_queue_struct_init (block_base lsz rsz start 1) MSG_QUEUE_SZ 288
      (init_seq msg_queue_struct_init (block_base lsz rsz start 0) MSG_QUEUE_SZ 288 (queues g))"
    and "parsecs g' = init_seq parsec_struct_init (block_base lsz rsz start 2) PARSEC_SZ 72 (parsecs g)"
    and "rings g' = init_seq qsc_ring_struct_init (block_base lsz rsz start 4) QSC_RING_SZ 72
      (init_seq qsc_ring_struct_init (block_base lsz rsz start 3) QSC_RING_SZ 4 (rings g))"
  using assms
  by (auto simp: init_global_memory_def Let_def layout_specs init_seq_def[symmetric] result_simps block_base_def
      split: option.splits)

lemma init_seq_cell:
  assumes "k < n"
  shows "\<exists>v. init_seq ini a sz n h (a + k * sz) = ini v"
  using init_seq_at[OF assms] by blast

lemma init_seq_keep: "\<exists>v. h b = ini v \<Longrightarrow> \<exists>v. init_seq ini a sz n h b = ini v"
  using init_seq_or[of ini a sz n h b] by auto

text \<open>After the initialisation every message ring is empty, every quiescence ring and write log
  is an empty well-formed ring, and no core is inside the library.\<close>

theorem layout_initialised:
  assumes ok: "init_global_memory lsz rsz marea start s g = Inr (e, g')"
    and n: "n < NUM_NODES" and c: "c < NUM_CORE_PER_NODE" and sv: "sv < NUM_NODES"
  shows "chan_inv (queues g' (send_ring_at (global_layout g') sv n c)) 0 0 [] \<and>
    chan_inv (queues g' (recv_ring_at (global_layout g') sv n c)) 0 0 [] \<and>
    ring_wf (rings g' (quies_rings (global_layout g') n)) \<and>
    ring_items (rings g' (quies_rings (global_layout g') n)) = [] \<and>
    ring_wf (rings g' (wlog_rings (global_layout g') n c)) \<and>
    ring_items (rings g' (wlog_rings (global_layout g') n c)) = [] \<and>
    time_in (parsecs g' (parsec_times (global_layout g') n c)) <
      time_out (parsecs g' (parsec_times (global_layout g') n c))"
proof -
  note at = init_layout(1)[OF ok] and con = init_contents[OF ok]
  have k: "sv * 72 + (n * 18 + c) < 288" "n * 18 + c < 72" using n c sv by auto
  have loc: "send_ring_at (global_layout g') sv n c =
        block_base lsz rsz start 0 + (sv * 72 + (n * 18 + c)) * MSG_QUEUE_SZ"
      "recv_ring_at (global_layout g') sv n c =
        block_base lsz rsz start 1 + (sv * 72 + (n * 18 + c)) * MSG_QUEUE_SZ"
      "quies_rings (global_layout g') n = block_base lsz rsz start 3 + n * QSC_RING_SZ"
      "wlog_rings (global_layout g') n c = block_base lsz rsz start 4 + (n * 18 + c) * QSC_RING_SZ"
      "parsec_times (global_layout g') n c = block_base lsz rsz start 2 + (n * 18 + c) * PARSEC_SZ"
    using at[of "Send_ring sv n c"] at[of "Recv_ring sv n c"] at[of "Quies_ring n"] at[of "Wlog_ring n c"]
      at[of "Parsec_time n c"] n c sv by (simp_all add: block_sz_def)
  have "\<exists>v. queues g' (send_ring_at (global_layout g') sv n c) = msg_queue_struct_init v"
    unfolding con(1) loc by (rule init_seq_keep) (rule init_seq_cell[OF k(1)])
  moreover have "\<exists>v. queues g' (recv_ring_at (global_layout g') sv n c) = msg_queue_struct_init v"
    unfolding con(1) loc by (rule init_seq_cell[OF k(1)])
  moreover have "\<exists>v. rings g' (quies_rings (global_layout g') n) = qsc_ring_struct_init v"
    unfolding con(3) loc by (rule init_seq_keep) (rule init_seq_cell[OF n])
  moreover have "\<exists>v. rings g' (wlog_rings (global_layout g') n c) = qsc_ring_struct_init v"
    unfolding con(3) loc by (rule init_seq_cell[OF k(2)])
  moreover have "\<exists>v. parsecs g' (parsec_times (global_layout g') n c) = parsec_struct_init v"
    unfolding con(2) loc by (rule init_seq_cell[OF k(2)])
  ultimately show ?thesis using init_chan_inv by (auto simp: parsec_struct_init_def)
qed

theorem layout_initialised_witness:
  "\<exists>e g'. init_global_memory 8192 4096 0 65536 None gmem_example = Inr (e, g') \<and>
    ring_items (rings g' (wlog_rings (global_layout g') 3 17)) = []"
proof -
  obtain e g' where ok: "init_global_memory 8192 4096 0 65536 None gmem_example = Inr (e, g')"
    using init_succeeds by blast
  from layout_initialised[OF ok, of 3 17 0] ok show ?thesis by simp
qed

section \<open>The free pages of a node\<close>

text \<open>
  The list of free pages runs through the \<^verbatim>\<open>struct Free_mem_item\<close> array at \<open>lh\<close>; \<open>item_addr\<close> is
  the field \<^verbatim>\<open>addr\<close> of the items and \<open>head\<close> the address of the static list head.
\<close>

record page_st =
  fm_lists :: ps_lists
  item_addr :: "addr \<Rightarrow> addr"

fun mem_mgr_init_loop :: "nat \<Rightarrow> addr \<Rightarrow> addr \<Rightarrow> nat \<Rightarrow> addr \<Rightarrow> page_st \<Rightarrow> page_st" where
  "mem_mgr_init_loop 0 head lh i addr st = st"
| "mem_mgr_init_loop (Suc k) head lh i addr st =
     (let it = lh + FREE_MEM_ITEM_SZ * i;
          st1 = st\<lparr>item_addr := (item_addr st)(it := addr)\<rparr>;
          st2 = st1\<lparr>fm_lists := ps_list_ll_init (fm_lists st1) it\<rparr>;
          st3 = st2\<lparr>fm_lists := ps_list_head_append (fm_lists st2) head it\<rparr>
      in mem_mgr_init_loop k head lh (Suc i) (addr + MEM_MGR_OBJ_SZ) st3)"

definition mem_mgr_init ::
  "addr \<Rightarrow> node_id \<Rightarrow> Mem_layout \<Rightarrow> page_st \<Rightarrow> malloc_st \<Rightarrow> (page_st \<times> malloc_st) result" where
  "mem_mgr_init head me l st ms =
     (let lh = mem_free_lists l me; addr = mem_start_addr l me
      in bindE (assertE (addr \<noteq> NULL)) (\<lambda>_.
         let st1 = st\<lparr>fm_lists := ps_list_ll_init (fm_lists st) head\<rparr>
         in Inr (mem_mgr_init_loop MEM_MGR_OBJ_NUM head lh 0 addr st1,
                 bi_malloc_init (malloc_start_addr l me) ms)))"

definition mem_mgr_alloc :: "addr \<Rightarrow> nat \<Rightarrow> page_st \<Rightarrow> (addr \<times> page_st) result" where
  "mem_mgr_alloc head sz st =
     bindE (assertE (sz = MEM_MGR_OBJ_SZ)) (\<lambda>_.
     bindE (assertE (\<not> ps_list_ll_empty (fm_lists st) head)) (\<lambda>_.
     let ret = ps_list_head_first (fm_lists st) head
     in bindE (assertE (ret \<noteq> NULL)) (\<lambda>_.
        Inr (ret, st\<lparr>fm_lists := ps_list_ll_rem (fm_lists st) ret\<rparr>))))"

definition mem_mgr_free :: "addr \<Rightarrow> addr \<Rightarrow> page_st \<Rightarrow> page_st" where
  "mem_mgr_free head buf st = st\<lparr>fm_lists := ps_list_head_append (fm_lists st) head buf\<rparr>"

text \<open>The free list of a state.\<close>

definition pages_inv :: "addr \<Rightarrow> page_st \<Rightarrow> addr list \<Rightarrow> bool" where
  "pages_inv head st xs \<longleftrightarrow> cyc (fm_lists st) (head # xs) \<and> NULL \<notin> set xs"

lemma pages_inv_distinct: "pages_inv head st xs \<Longrightarrow> distinct (head # xs)"
  using cyc_distinct by (auto simp: pages_inv_def)

lemma page_alloc_first:
  assumes "pages_inv head st (x # xs)"
  shows "\<exists>st'. mem_mgr_alloc head MEM_MGR_OBJ_SZ st = Inr (x, st') \<and> pages_inv head st' xs \<and>
    item_addr st' = item_addr st"
proof -
  have c: "cyc (fm_lists st) (head # x # xs)" and x: "x \<noteq> NULL" "NULL \<notin> set xs"
    using assms by (auto simp: pages_inv_def)
  have "cyc (fm_lists st) (x # xs @ [head])" using cyc_rotate[OF c] by simp
  then have "cyc (ps_list_ll_rem (fm_lists st) x) (xs @ [head])" by (rule ll_rem_cyc(1))
  then have "cyc (ps_list_ll_rem (fm_lists st) x) (head # xs)" by (rule cyc_rotate_back)
  moreover have "ln (fm_lists st) head = x" "x \<noteq> head" using c by auto
  ultimately show ?thesis
    using x by (simp add: mem_mgr_alloc_def ps_list_ll_empty_def ps_list_head_first_def pages_inv_def)
qed

lemma page_alloc_empty: "pages_inv head st [] \<Longrightarrow> mem_mgr_alloc head sz st = Inl Assert_fail"
  by (auto simp: mem_mgr_alloc_def ps_list_ll_empty_def pages_inv_def assertE_def)

lemma page_free_last:
  assumes "pages_inv head st xs" and "buf \<notin> set (head # xs)" and "buf \<noteq> NULL"
  shows "pages_inv head (mem_mgr_free head buf st) (xs @ [buf])"
  using assms head_append_cyc[of "fm_lists st" head xs buf]
  by (auto simp: pages_inv_def mem_mgr_free_def)

abbreviation item_at :: "addr \<Rightarrow> nat \<Rightarrow> addr" where
  "item_at lh i \<equiv> lh + FREE_MEM_ITEM_SZ * i"

lemma init_loop_pages:
  assumes "pages_inv head st (map (item_at lh) [0..<i])" and "0 < lh"
    and "\<And>j. j < i + k \<Longrightarrow> head \<noteq> item_at lh j"
    and "\<And>j. j < i \<Longrightarrow> item_addr st (item_at lh j) = addr + MEM_MGR_OBJ_SZ * j"
    and "a = addr + MEM_MGR_OBJ_SZ * i"
  shows "pages_inv head (mem_mgr_init_loop k head lh i a st) (map (item_at lh) [0..<i + k]) \<and>
    (\<forall>j < i + k. item_addr (mem_mgr_init_loop k head lh i a st) (item_at lh j) = addr + MEM_MGR_OBJ_SZ * j)"
  using assms
proof (induction k arbitrary: i a st)
  case (Suc k)
  define it where "it = item_at lh i"
  define st1 where "st1 = st\<lparr>item_addr := (item_addr st)(it := a),
      fm_lists := ps_list_ll_init (fm_lists st) it\<rparr>"
  define st3 where "st3 = st1\<lparr>fm_lists := ps_list_head_append (fm_lists st1) head it\<rparr>"
  have it: "it \<notin> set (head # map (item_at lh) [0..<i])" "it \<noteq> NULL"
    using Suc.prems(2) Suc.prems(3)[of i] by (auto simp: it_def)
  have "cyc (fm_lists st1) (head # map (item_at lh) [0..<i])"
    using Suc.prems(1) it ll_init_other[of it "head # map (item_at lh) [0..<i]"]
    by (simp add: pages_inv_def st1_def)
  then have "pages_inv head st1 (map (item_at lh) [0..<i])"
    using Suc.prems(1) by (simp add: pages_inv_def)
  from page_free_last[OF this it] have p: "pages_inv head st3 (map (item_at lh) [0..<Suc i])"
    by (simp add: mem_mgr_free_def st3_def it_def)
  have ia: "item_addr st3 (item_at lh j) = addr + MEM_MGR_OBJ_SZ * j" if "j < Suc i" for j
    using that Suc.prems(4)[of j] Suc.prems(5) by (auto simp: st3_def st1_def it_def less_Suc_eq)
  have step: "mem_mgr_init_loop (Suc k) head lh i a st = mem_mgr_init_loop k head lh (Suc i) (a + MEM_MGR_OBJ_SZ) st3"
    by (simp add: Let_def st3_def st1_def it_def)
  have nh: "head \<noteq> item_at lh j" if "j < Suc i + k" for j using Suc.prems(3)[of j] that by simp
  have a: "a + MEM_MGR_OBJ_SZ = addr + MEM_MGR_OBJ_SZ * Suc i" using Suc.prems(5) by simp
  have "pages_inv head (mem_mgr_init_loop k head lh (Suc i) (a + MEM_MGR_OBJ_SZ) st3)
        (map (item_at lh) [0..<Suc i + k]) \<and>
      (\<forall>j < Suc i + k. item_addr (mem_mgr_init_loop k head lh (Suc i) (a + MEM_MGR_OBJ_SZ) st3) (item_at lh j) =
        addr + MEM_MGR_OBJ_SZ * j)"
    by (rule Suc.IH[OF p Suc.prems(2)]) (fact nh ia a)+
  then show ?case unfolding step add_Suc_right add_Suc by blast
qed simp

text \<open>The initialisation of a node's pages builds a list of all its pages, in address order, one
  megabyte apart, and an empty block allocator.\<close>

theorem mem_mgr_init_pages:
  assumes "lh = mem_free_lists l me" and "0 < lh" and "addr = mem_start_addr l me" and "0 < addr"
    and "0 < malloc_start_addr l me" and "\<And>j. j < MEM_MGR_OBJ_NUM \<Longrightarrow> head \<noteq> item_at lh j"
  shows "\<exists>st' ms'. mem_mgr_init head me l st ms = Inr (st', ms') \<and>
    pages_inv head st' (map (item_at lh) [0..<MEM_MGR_OBJ_NUM]) \<and>
    (\<forall>j < MEM_MGR_OBJ_NUM. item_addr st' (item_at lh j) = addr + MEM_MGR_OBJ_SZ * j) \<and>
    malloc_inv (malloc_start_addr l me) (\<lambda>_ _. []) {} ms'"
proof -
  define st1 where "st1 = st\<lparr>fm_lists := ps_list_ll_init (fm_lists st) head\<rparr>"
  have "pages_inv head st1 (map (item_at lh) [0..<0])"
    by (simp add: pages_inv_def st1_def ps_list_ll_init_def)
  from init_loop_pages[OF this assms(2), of MEM_MGR_OBJ_NUM addr addr] assms(6)
  show ?thesis
    using assms(1,3,4) malloc_init_inv[OF assms(5), of ms] by (simp add: mem_mgr_init_def Let_def st1_def)
qed

text \<open>The layout of the example memory and a page state for concrete instances.\<close>

definition layout_example :: Mem_layout where
  "layout_example = zero_layout\<lparr>mem_free_lists := (\<lambda>n. 4096 + n * FREE_MEM_LIST_SZ),
     mem_start_addr := (\<lambda>n. 16777216), malloc_start_addr := (\<lambda>n. 33554432)\<rparr>"

definition page_example :: page_st where
  "page_example = \<lparr>fm_lists = \<lparr>ln = (\<lambda>_. 0), lp = (\<lambda>_. 0)\<rparr>, item_addr = (\<lambda>_. 0)\<rparr>"

theorem mem_mgr_init_pages_witness:
  "\<exists>st' ms'. mem_mgr_init 64 0 layout_example page_example heap_example = Inr (st', ms') \<and>
    item_addr st' (item_at 4096 7) = 16777216 + MEM_MGR_OBJ_SZ * 7"
proof -
  have "\<exists>st' ms'. mem_mgr_init 64 0 layout_example page_example heap_example = Inr (st', ms') \<and>
      pages_inv 64 st' (map (item_at 4096) [0..<MEM_MGR_OBJ_NUM]) \<and>
      (\<forall>j < MEM_MGR_OBJ_NUM. item_addr st' (item_at 4096 j) = 16777216 + MEM_MGR_OBJ_SZ * j) \<and>
      malloc_inv (malloc_start_addr layout_example 0) (\<lambda>_ _. []) {} ms'"
    by (rule mem_mgr_init_pages) (simp_all add: layout_example_def)
  moreover have "(7::nat) < MEM_MGR_OBJ_NUM" by simp
  ultimately show ?thesis by blast
qed

text \<open>Callers allocate pages and give back pages they hold; \<open>out\<close> are the pages handed out.\<close>

inductive page_step :: "addr \<Rightarrow> page_st \<times> addr set \<Rightarrow> page_st \<times> addr set \<Rightarrow> bool" for head where
  step_alloc: "mem_mgr_alloc head MEM_MGR_OBJ_SZ st = Inr (x, st') \<Longrightarrow>
     page_step head (st, out) (st', insert x out)"
| step_free: "x \<in> out \<Longrightarrow> page_step head (st, out) (mem_mgr_free head x st, out - {x})"

definition pages_conserved :: "addr \<Rightarrow> addr set \<Rightarrow> page_st \<times> addr set \<Rightarrow> bool" where
  "pages_conserved head all = (\<lambda>(st, out). NULL \<notin> all \<and> head \<notin> all \<and>
     (\<exists>xs. pages_inv head st xs \<and> set xs \<inter> out = {} \<and> set xs \<union> out = all))"

lemma pages_conserved_step:
  assumes "page_step head s s'" and "pages_conserved head all s"
  shows "pages_conserved head all s'"
  using assms
proof cases
  case (step_alloc st x st' out)
  then obtain xs where xs: "pages_inv head st xs" "set xs \<inter> out = {}" "set xs \<union> out = all"
    and out: "NULL \<notin> all" "head \<notin> all" using assms(2) by (auto simp: pages_conserved_def)
  show ?thesis
  proof (cases xs)
    case Nil
    then show ?thesis using page_alloc_empty xs(1) step_alloc by fastforce
  next
    case (Cons y ys)
    then have "y = x" "pages_inv head st' ys" "y \<notin> set ys"
      using page_alloc_first[of head st y ys] pages_inv_distinct[OF xs(1)] xs(1) step_alloc by auto
    with Cons xs out step_alloc show ?thesis by (auto simp: pages_conserved_def)
  qed
next
  case (step_free x out st)
  then obtain xs where xs: "pages_inv head st xs" "set xs \<inter> out = {}" "set xs \<union> out = all"
    and out: "NULL \<notin> all" "head \<notin> all" using assms(2) by (auto simp: pages_conserved_def)
  then have "x \<notin> set (head # xs)" "x \<noteq> NULL" using step_free(3) by auto
  from page_free_last[OF xs(1) this] have "pages_inv head (mem_mgr_free head x st) (xs @ [x])" .
  moreover have "set (xs @ [x]) \<inter> (out - {x}) = {}" "set (xs @ [x]) \<union> (out - {x}) = all"
    using xs step_free(3) by auto
  ultimately show ?thesis using out step_free(2) unfolding pages_conserved_def by blast
qed

lemma pages_conserved_steps:
  "(page_step head)\<^sup>*\<^sup>* s s' \<Longrightarrow> pages_conserved head all s \<Longrightarrow> pages_conserved head all s'"
  by (induction rule: rtranclp_induct) (auto intro: pages_conserved_step)

text \<open>However callers interleave page allocations and releases, each page is at all times
  either free or handed out to one caller: an allocation never returns a page that is in use,
  and it fails only when every page is in use.\<close>

theorem page_alloc_exclusive:
  assumes start: "pages_conserved head all (st0, {})" and run: "(page_step head)\<^sup>*\<^sup>* (st0, {}) (st, out)"
  shows "(\<forall>x st'. mem_mgr_alloc head MEM_MGR_OBJ_SZ st = Inr (x, st') \<longrightarrow> x \<in> all - out) \<and>
    ((\<exists>x st'. mem_mgr_alloc head MEM_MGR_OBJ_SZ st = Inr (x, st')) \<longleftrightarrow> out \<noteq> all)"
proof -
  obtain xs where xs: "pages_inv head st xs" "set xs \<inter> out = {}" "set xs \<union> out = all"
    using pages_conserved_steps[OF run start] by (auto simp: pages_conserved_def)
  show ?thesis
  proof (cases xs)
    case Nil
    then show ?thesis using page_alloc_empty xs by fastforce
  next
    case (Cons y ys)
    then show ?thesis using page_alloc_first[of head st y ys] xs by auto
  qed
qed

definition one_page :: page_st where
  "one_page = mem_mgr_init_loop 1 64 4096 0 16777216
     (page_example\<lparr>fm_lists := ps_list_ll_init (fm_lists page_example) 64\<rparr>)"

lemma one_page_inv: "pages_inv 64 one_page [4096] \<and> item_addr one_page 4096 = 16777216"
proof -
  have "pages_inv 64 (page_example\<lparr>fm_lists := ps_list_ll_init (fm_lists page_example) 64\<rparr>)
      (map (item_at 4096) [0..<0])" by (simp add: pages_inv_def ps_list_ll_init_def)
  from init_loop_pages[OF this, of 1 16777216 16777216] show ?thesis by (simp add: one_page_def)
qed

theorem page_alloc_exclusive_witness:
  "\<exists>x st'. mem_mgr_alloc 64 MEM_MGR_OBJ_SZ one_page = Inr (x, st') \<and> x \<in> {4096} - {}"
proof -
  have "pages_conserved 64 {4096} (one_page, {})"
    using one_page_inv by (auto simp: pages_conserved_def intro!: exI[of _ "[4096]"])
  from page_alloc_exclusive[OF this rtranclp.rtrancl_refl] show ?thesis by blast
qed

end
