(* ===== verification/Slab.thy ===== *)
theory Slab
  imports Mem_Mgr
begin

text \<open>
  The slab allocator of \<^verbatim>\<open>include/bi_slab.h\<close> and \<^verbatim>\<open>libs/bi/bi_slab.c\<close>. A slab is a page of one
  megabyte: a header of 128 bytes, then objects of one size, each behind an object header of 24
  bytes. A slab with free objects is on the ring \<open>fl\<close> of its slab info, a slab without on \<open>el\<close>,
  and a slab whose objects are all free is returned to the page list.

  Typed memory is one map from addresses per structure; the list node of a slab is named by the
  address of the slab. \<open>nfree\<close> and the sizes are \<^verbatim>\<open>size_t\<close>, with the wrap-around written out.
\<close>

section \<open>Data\<close>

abbreviation SLAB_HDR_SZ :: nat where "SLAB_HDR_SZ \<equiv> 128"
abbreviation MHEADER_SZ :: nat where "MHEADER_SZ \<equiv> 24"
abbreviation SLAB_IN_USE :: u64 where "SLAB_IN_USE \<equiv> 0"
abbreviation SLAB_FREE :: u64 where "SLAB_FREE \<equiv> 1"

record ps_slab =
  s_memory :: addr
  s_memsz :: nat
  s_mem_item :: addr
  s_si :: addr
  s_freelist :: addr
  s_nfree :: nat

record ps_mheader =
  h_type :: u64
  h_slab :: addr
  h_next :: addr

record ps_slab_info =
  i_fl :: addr
  i_el :: addr
  i_nodeid :: int
  i_obj_sz :: nat
  i_nslabs :: nat

record slab_st =
  slabs :: "addr \<Rightarrow> ps_slab"
  hdrs :: "addr \<Rightarrow> ps_mheader"
  infos :: "addr \<Rightarrow> ps_slab_info"
  slists :: ps_lists
  pgs :: page_st

section \<open>Headers and sizes\<close>

definition PS_RNDUP :: "u64 \<Rightarrow> u64 \<Rightarrow> u64" where
  "PS_RNDUP v a = - ((- v) AND (- a))"

definition ps_mhead_get :: "addr \<Rightarrow> addr" where
  "ps_mhead_get m = m - MHEADER_SZ"

definition ps_mhead_mem :: "addr \<Rightarrow> addr" where
  "ps_mhead_mem h = h + MHEADER_SZ"

definition ps_mhead_isfree :: "addr \<Rightarrow> slab_st \<Rightarrow> bool" where
  "ps_mhead_isfree h st \<longleftrightarrow> h_type (hdrs st h) = SLAB_FREE"

definition upd_hdr :: "addr \<Rightarrow> (ps_mheader \<Rightarrow> ps_mheader) \<Rightarrow> slab_st \<Rightarrow> slab_st" where
  "upd_hdr h f st = st\<lparr>hdrs := (hdrs st)(h := f (hdrs st h))\<rparr>"

definition upd_slab :: "addr \<Rightarrow> (ps_slab \<Rightarrow> ps_slab) \<Rightarrow> slab_st \<Rightarrow> slab_st" where
  "upd_slab s f st = st\<lparr>slabs := (slabs st)(s := f (slabs st s))\<rparr>"

definition upd_info :: "addr \<Rightarrow> (ps_slab_info \<Rightarrow> ps_slab_info) \<Rightarrow> slab_st \<Rightarrow> slab_st" where
  "upd_info si f st = st\<lparr>infos := (infos st)(si := f (infos st si))\<rparr>"

definition ps_mhead_setfree :: "addr \<Rightarrow> slab_st \<Rightarrow> slab_st" where
  "ps_mhead_setfree h = upd_hdr h (h_type_update (\<lambda>_. SLAB_FREE))"

text \<open>\<open>now\<close> is the global time stamp.\<close>

definition ps_mhead_reset :: "u64 \<Rightarrow> addr \<Rightarrow> slab_st \<Rightarrow> slab_st" where
  "ps_mhead_reset now h = upd_hdr h (\<lambda>x. x\<lparr>h_next := NULL, h_type := now\<rparr>)"

definition ps_mhead_init :: "addr \<Rightarrow> addr \<Rightarrow> slab_st \<Rightarrow> slab_st" where
  "ps_mhead_init h s = upd_hdr h (\<lambda>x. x\<lparr>h_slab := s, h_type := SLAB_IN_USE\<rparr>)"

definition ps_slab_objmemsz :: "nat \<Rightarrow> nat" where
  "ps_slab_objmemsz obj_sz = unat (PS_RNDUP (of_nat (obj_sz + MHEADER_SZ)) 64)"

definition ps_slab_max_nobjs :: "nat \<Rightarrow> nat \<Rightarrow> nat \<Rightarrow> nat" where
  "ps_slab_max_nobjs obj_sz allocsz headoff = (allocsz - headoff) div ps_slab_objmemsz obj_sz"

definition ps_slab_objsoff :: "addr \<Rightarrow> addr \<Rightarrow> nat \<Rightarrow> nat \<Rightarrow> slab_st \<Rightarrow> nat" where
  "ps_slab_objsoff s h obj_sz headoff st = (h - (s_memory (slabs st s) + headoff)) div ps_slab_objmemsz obj_sz"

definition bi_slab_isempty :: "addr \<Rightarrow> slab_st \<Rightarrow> nat" where
  "bi_slab_isempty si st = i_nslabs (infos st si)"

definition bi_slab_objmem :: "addr \<Rightarrow> slab_st \<Rightarrow> nat" where
  "bi_slab_objmem si st = ps_slab_objmemsz (i_obj_sz (infos st si))"

definition bi_slab_nobjs :: "addr \<Rightarrow> slab_st \<Rightarrow> nat" where
  "bi_slab_nobjs si st = ps_slab_max_nobjs (i_obj_sz (infos st si)) MEM_MGR_OBJ_SZ SLAB_HDR_SZ"

definition bi_slab_objoff :: "addr \<Rightarrow> addr \<Rightarrow> slab_st \<Rightarrow> nat" where
  "bi_slab_objoff si obj st =
     (let h = ps_mhead_get obj
      in ps_slab_objsoff (h_slab (hdrs st h)) h (i_obj_sz (infos st si)) SLAB_HDR_SZ st)"

section \<open>Rings of slabs\<close>

text \<open>Both functions take the head pointer of the ring and return its new value.\<close>

definition slab_freelist_rem :: "addr \<Rightarrow> addr \<Rightarrow> ps_lists \<Rightarrow> (addr \<times> ps_lists) result" where
  "slab_freelist_rem p s h =
     bindE (assertE (s \<noteq> NULL)) (\<lambda>_.
     let p' = (if p = s then (if ps_list_singleton h s then NULL else ps_list_next h s) else p)
     in Inr (p', ps_list_ll_rem h s))"

definition slab_freelist_add :: "addr \<Rightarrow> addr \<Rightarrow> ps_lists \<Rightarrow> (addr \<times> ps_lists) result" where
  "slab_freelist_add p s h =
     bindE (assertE (s \<noteq> NULL)) (\<lambda>_.
     bindE (assertE (ps_list_singleton h s)) (\<lambda>_.
     bindE (assertE (s \<noteq> p)) (\<lambda>_.
     Inr (s, if p \<noteq> NULL then ps_list_ll_add h p s else h))))"

definition fl_rem :: "addr \<Rightarrow> addr \<Rightarrow> slab_st \<Rightarrow> slab_st result" where
  "fl_rem si s st = bindE (slab_freelist_rem (i_fl (infos st si)) s (slists st))
     (\<lambda>(p, h). Inr (upd_info si (i_fl_update (\<lambda>_. p)) (st\<lparr>slists := h\<rparr>)))"

definition el_rem :: "addr \<Rightarrow> addr \<Rightarrow> slab_st \<Rightarrow> slab_st result" where
  "el_rem si s st = bindE (slab_freelist_rem (i_el (infos st si)) s (slists st))
     (\<lambda>(p, h). Inr (upd_info si (i_el_update (\<lambda>_. p)) (st\<lparr>slists := h\<rparr>)))"

definition fl_add :: "addr \<Rightarrow> addr \<Rightarrow> slab_st \<Rightarrow> slab_st result" where
  "fl_add si s st = bindE (slab_freelist_add (i_fl (infos st si)) s (slists st))
     (\<lambda>(p, h). Inr (upd_info si (i_fl_update (\<lambda>_. p)) (st\<lparr>slists := h\<rparr>)))"

definition el_add :: "addr \<Rightarrow> addr \<Rightarrow> slab_st \<Rightarrow> slab_st result" where
  "el_add si s st = bindE (slab_freelist_add (i_el (infos st si)) s (slists st))
     (\<lambda>(p, h). Inr (upd_info si (i_el_update (\<lambda>_. p)) (st\<lparr>slists := h\<rparr>)))"

section \<open>Slabs\<close>

text \<open>The loop that links the objects of a new slab: \<open>k\<close> remain.\<close>

fun slab_init_loop :: "nat \<Rightarrow> addr \<Rightarrow> addr \<Rightarrow> addr \<Rightarrow> nat \<Rightarrow> slab_st \<Rightarrow> addr \<times> slab_st" where
  "slab_init_loop 0 s alloc prev objmemsz st = (alloc, st)"
| "slab_init_loop (Suc k) s alloc prev objmemsz st =
     slab_init_loop k s (alloc + objmemsz) alloc objmemsz
       (upd_hdr prev (h_next_update (\<lambda>_. alloc)) (ps_mhead_init alloc s st))"

definition ps_slab_init :: "addr \<Rightarrow> addr \<Rightarrow> nat \<Rightarrow> nat \<Rightarrow> slab_st \<Rightarrow> slab_st result" where
  "ps_slab_init si s allocsz headoff st =
     (let objmemsz = ps_slab_objmemsz (i_obj_sz (infos st si));
          nfree = (allocsz - headoff) div objmemsz;
          alloc = s_memory (slabs st s) + headoff;
          st1 = upd_slab s (\<lambda>x. x\<lparr>s_nfree := nfree, s_memsz := allocsz, s_si := si, s_freelist := alloc\<rparr>) st;
          (alloc', st2) = slab_init_loop nfree s alloc alloc objmemsz st1
      in bindE (assertE (alloc' \<le> s_memory (slabs st2 s) + allocsz)) (\<lambda>_.
         fl_add si s (st2\<lparr>slists := ps_list_ll_init (slists st2) s\<rparr>)))"

definition ps_slab_defalloc :: "addr \<Rightarrow> nat \<Rightarrow> slab_st \<Rightarrow> (addr \<times> slab_st) result" where
  "ps_slab_defalloc head sz st =
     bindE (mem_mgr_alloc head sz (pgs st)) (\<lambda>(mem_item, pg).
     let s = item_addr pg mem_item
     in bindE (assertE (s \<noteq> NULL)) (\<lambda>_.
        Inr (s, upd_slab s (\<lambda>x. x\<lparr>s_memory := s, s_mem_item := mem_item\<rparr>) (st\<lparr>pgs := pg\<rparr>))))"

definition ps_slab_deffree :: "addr \<Rightarrow> addr \<Rightarrow> slab_st \<Rightarrow> slab_st" where
  "ps_slab_deffree head s st = st\<lparr>pgs := mem_mgr_free head (s_mem_item (slabs st s)) (pgs st)\<rparr>"

definition ps_slab_mem_free :: "addr \<Rightarrow> int \<Rightarrow> addr \<Rightarrow> nat \<Rightarrow> nat \<Rightarrow> slab_st \<Rightarrow> slab_st result" where
  "ps_slab_mem_free head me buf allocsz headoff st =
     (let h = ps_mhead_get buf; s = h_slab (hdrs st h)
      in bindE (assertE (s \<noteq> NULL)) (\<lambda>_.
         let si = s_si (slabs st s)
         in bindE (assertE (si \<noteq> NULL)) (\<lambda>_.
            bindE (assertE ((ps_slab_objmemsz (i_obj_sz (infos st si)) + headoff) mod 2 ^ 64 \<le> allocsz)) (\<lambda>_.
            bindE (assertE (i_nodeid (infos st si) = me)) (\<lambda>_.
            let max_nobjs = ps_slab_max_nobjs (i_obj_sz (infos st si)) allocsz headoff mod 2 ^ 32;
                nxt = s_freelist (slabs st s);
                st1 = upd_slab s (s_freelist_update (\<lambda>_. h)) st;
                st2 = upd_hdr h (h_next_update (\<lambda>_. nxt)) st1;
                st3 = upd_slab s (\<lambda>x. x\<lparr>s_nfree := (s_nfree x + 1) mod 2 ^ 64\<rparr>) st2
            in if s_nfree (slabs st3 s) = max_nobjs
               then bindE (fl_rem si s st3) (\<lambda>st4.
                    let st5 = upd_info si (\<lambda>x. x\<lparr>i_nslabs := (i_nslabs x + (2 ^ 64 - 1)) mod 2 ^ 64\<rparr>) st4
                    in Inr (ps_slab_deffree head s st5))
               else if s_nfree (slabs st3 s) = 1
               then bindE (el_rem si s st3) (\<lambda>st4.
                    bindE (assertE (ps_list_singleton (slists st4) s)) (\<lambda>_.
                    bindE (assertE (s_memory (slabs st4 s) \<noteq> NULL \<and> s_freelist (slabs st4 s) \<noteq> NULL)) (\<lambda>_.
                    fl_add si s st4)))
               else Inr st3)))))"

text \<open>The slab that the next object is taken from: the first one with free objects, or a new one.\<close>

definition slab_for_alloc :: "addr \<Rightarrow> addr \<Rightarrow> nat \<Rightarrow> nat \<Rightarrow> slab_st \<Rightarrow> (addr \<times> slab_st) result" where
  "slab_for_alloc head si allocsz headoff st =
     (if i_fl (infos st si) \<noteq> NULL then Inr (i_fl (infos st si), st)
      else bindE (ps_slab_defalloc head allocsz st) (\<lambda>(s, st1).
           bindE (ps_slab_init si s allocsz headoff st1) (\<lambda>st2.
           let st3 = upd_info si (\<lambda>x. x\<lparr>i_nslabs := (i_nslabs x + 1) mod 2 ^ 64\<rparr>) st2
           in bindE (assertE (s_memory (slabs st3 s) \<noteq> NULL \<and> s_freelist (slabs st3 s) \<noteq> NULL)) (\<lambda>_.
              Inr (s, st3)))))"

definition ps_slab_mem_alloc ::
  "addr \<Rightarrow> u64 \<Rightarrow> addr \<Rightarrow> nat \<Rightarrow> nat \<Rightarrow> slab_st \<Rightarrow> (addr \<times> slab_st) result" where
  "ps_slab_mem_alloc head now si allocsz headoff st =
     bindE (assertE ((i_obj_sz (infos st si) + headoff) mod 2 ^ 64 \<le> allocsz)) (\<lambda>_.
     bindE (slab_for_alloc head si allocsz headoff st) (\<lambda>(s, st1).
     bindE (assertE (s \<noteq> NULL \<and> s_freelist (slabs st1 s) \<noteq> NULL)) (\<lambda>_.
     let h = s_freelist (slabs st1 s);
         st2 = upd_slab s (s_freelist_update (\<lambda>_. h_next (hdrs st1 h))) st1;
         st3 = upd_slab s (\<lambda>x. x\<lparr>s_nfree := (s_nfree x + (2 ^ 64 - 1)) mod 2 ^ 64\<rparr>) st2;
         st4 = ps_mhead_reset now h st3
     in if s_nfree (slabs st4 s) = 0
        then bindE (fl_rem si s st4) (\<lambda>st5.
             bindE (assertE (ps_list_singleton (slists st5) s)) (\<lambda>_.
             bindE (el_add si s st5) (\<lambda>st6. Inr (ps_mhead_mem h, st6))))
        else Inr (ps_mhead_mem h, st4))))"

definition bi_slab_init :: "int \<Rightarrow> nat \<Rightarrow> ps_slab_info" where
  "bi_slab_init me obj_sz = \<lparr>i_fl = NULL, i_el = NULL, i_nodeid = me, i_obj_sz = obj_sz, i_nslabs = 0\<rparr>"

text \<open>\<open>si\<close> is the address that \<^verbatim>\<open>malloc\<close> returns for the new structure.\<close>

definition bi_slab_create :: "int \<Rightarrow> addr \<Rightarrow> nat \<Rightarrow> slab_st \<Rightarrow> slab_st result" where
  "bi_slab_create me si obj_sz st =
     bindE (assertE (ps_slab_objmemsz obj_sz < MEM_MGR_OBJ_SZ)) (\<lambda>_.
     Inr (upd_info si (\<lambda>_. bi_slab_init me obj_sz) st))"

definition bi_slab_alloc :: "addr \<Rightarrow> int \<Rightarrow> u64 \<Rightarrow> addr \<Rightarrow> slab_st \<Rightarrow> (addr \<times> slab_st) result" where
  "bi_slab_alloc head me now si st =
     bindE (assertE (i_nodeid (infos st si) = me)) (\<lambda>_.
     ps_slab_mem_alloc head now si MEM_MGR_OBJ_SZ SLAB_HDR_SZ st)"

definition bi_slab_free :: "addr \<Rightarrow> int \<Rightarrow> addr \<Rightarrow> slab_st \<Rightarrow> slab_st result" where
  "bi_slab_free head me buf st =
     bindE (assertE (buf \<noteq> NULL)) (\<lambda>_. ps_slab_mem_free head me buf MEM_MGR_OBJ_SZ SLAB_HDR_SZ st)"

section \<open>Object sizes\<close>

lemma unat_neg: "unat (- (w :: u64)) = (if w = 0 then 0 else 2 ^ 64 - unat w)"
  using unat_sub_if'[of 0 w] by (auto simp: unat_eq_zero)

lemma rndup_pow:
  assumes "0 < v" and "v + 2 ^ k - 1 < 2 ^ 64" and k: "k < 64"
  shows "unat (PS_RNDUP (of_nat v) (2 ^ k)) = (v + 2 ^ k - 1) div 2 ^ k * 2 ^ k"
proof -
  define B :: nat where "B = 2 ^ k"
  define N :: nat where "N = 2 ^ (64 - k)"
  have N: "(2::nat) ^ 64 = B * N" using k by (simp add: N_def B_def flip: power_add)
  have B: "0 < B" by (simp add: B_def)
  define c where "c = (v + B - 1) div B"
  have "v + B - 1 < B * N" using assms(2) N by (simp add: B_def)
  then have "c < N" using B by (simp add: c_def less_mult_imp_div_less mult.commute)
  have m: "B * c + (v + B - 1) mod B = v + B - 1" by (simp add: c_def)
  have "(v + B - 1) mod B < B" using B by simp
  then have c: "v \<le> B * c" "B * c < v + B" using m assms(1) B by linarith+
  have "v < 2 ^ 64" using assms(2) B unfolding B_def by linarith
  then have v: "unat (of_nat v :: u64) = v" by (simp add: unat_of_nat)
  have "(of_nat v :: u64) \<noteq> 0" using v assms(1) by (metis unat_0 less_irrefl)
  then have x: "unat (- of_nat v :: u64) = B * N - v" using unat_neg[of "of_nat v"] v N by simp
  have "B * (N - c) \<le> B * N - v" "B * N - v < B * (N - c) + B"
  proof -
    have "B * c + B \<le> B * N" using \<open>c < N\<close> mult_le_mono2[of "Suc c" N B] by simp
    then show "B * (N - c) \<le> B * N - v" "B * N - v < B * (N - c) + B"
      using c(1,2) assms(1) by (simp_all add: diff_mult_distrib2)
  qed
  then have "(B * N - v) div B = N - c" by (intro div_nat_eqI) (simp_all add: mult.commute)
  moreover have "(- (2 ^ k) :: u64) = NOT (mask k)" by (simp add: mask_eq_decr_exp flip: minus_eq_not_minus_1)
  ultimately have y: "unat ((- of_nat v :: u64) AND (- (2 ^ k))) = (N - c) * B"
    using unat_and_not_mask[of "- of_nat v" k] x by (simp add: B_def)
  have "0 < (N - c) * B" using \<open>c < N\<close> B by simp
  then have "(- of_nat v :: u64) AND (- (2 ^ k)) \<noteq> 0" using y by (metis unat_0 less_irrefl)
  then have "unat (PS_RNDUP (of_nat v) (2 ^ k)) = B * N - (N - c) * B"
    unfolding PS_RNDUP_def using unat_neg y N by simp
  also have "\<dots> = c * B" using \<open>c < N\<close> by (simp add: mult.commute flip: diff_mult_distrib2)
  finally show ?thesis by (simp add: c_def B_def)
qed

lemma rndup_nat: "0 < v \<Longrightarrow> v + 63 < 2 ^ 64 \<Longrightarrow> unat (PS_RNDUP (of_nat v) 64) = (v + 63) div 64 * 64"
  using rndup_pow[of v 6] by simp

text \<open>An object with its header occupies the next multiple of a cache line.\<close>

theorem objmemsz_rounds_up:
  assumes "obj_sz + MHEADER_SZ + 63 < 2 ^ 64"
  shows "ps_slab_objmemsz obj_sz = (obj_sz + MHEADER_SZ + 63) div CACHE_LINE * CACHE_LINE"
  using rndup_nat[of "obj_sz + MHEADER_SZ"] assms by (simp add: ps_slab_objmemsz_def)

theorem objmemsz_rounds_up_witness: "ps_slab_objmemsz 100 = 128"
  using objmemsz_rounds_up[of 100] by simp

section \<open>Rings as lists\<close>

definition slist :: "ps_lists \<Rightarrow> addr \<Rightarrow> addr list \<Rightarrow> bool" where
  "slist h p xs \<longleftrightarrow> cyc h xs \<and> NULL \<notin> set xs \<and> p = (case xs of [] \<Rightarrow> NULL | x # _ \<Rightarrow> x)"

lemma slist_cyc: "slist h p xs \<Longrightarrow> cyc h xs"
  by (simp add: slist_def)

lemma slist_distinct: "slist h p xs \<Longrightarrow> distinct xs"
  using cyc_distinct by (auto simp: slist_def)

lemma slist_empty: "slist h p xs \<Longrightarrow> p = NULL \<longleftrightarrow> xs = []"
  by (cases xs) (auto simp: slist_def)

lemma slist_other: "slist h p xs \<Longrightarrow> cyc h' xs = cyc h xs \<Longrightarrow> slist h' p xs"
  by (simp add: slist_def)

definition ring_insert :: "addr \<Rightarrow> addr list \<Rightarrow> addr list" where
  "ring_insert s xs = s # (case xs of [] \<Rightarrow> [] | x # ys \<Rightarrow> ys @ [x])"

lemma set_ring_insert [simp]: "set (ring_insert s xs) = insert s (set xs)"
  by (cases xs) (auto simp: ring_insert_def)

lemma length_ring_insert [simp]: "length (ring_insert s xs) = Suc (length xs)"
  by (cases xs) (auto simp: ring_insert_def)

lemma freelist_add_slist:
  assumes l: "slist h p xs" and s: "cyc h [s]" "s \<notin> set xs" "s \<noteq> NULL"
  shows "\<exists>h'. slab_freelist_add p s h = Inr (s, h') \<and> slist h' s (ring_insert s xs) \<and>
    (\<forall>zs. set zs \<inter> insert s (set xs) = {} \<longrightarrow> cyc h' zs = cyc h zs)"
proof (cases xs)
  case Nil
  then show ?thesis using l s cyc_singleton_iff[OF s(1)]
    by (auto simp: slab_freelist_add_def slist_def ring_insert_def)
next
  case (Cons x ys)
  have p: "p = x" "x \<noteq> NULL" and c: "cyc h (x # ys)" using l Cons by (auto simp: slist_def)
  have sx: "s \<noteq> x" "s \<notin> set (x # ys)" using s(2) Cons by auto
  have "cyc (ps_list_ll_add h x s) (x # s # ys)" by (rule ll_add_cyc[OF c sx(2)])
  then have "cyc (ps_list_ll_add h x s) (s # ys @ [x])" using cyc_rotate[of _ x "s # ys"] by simp
  moreover have "cyc (ps_list_ll_add h x s) zs = cyc h zs" if "set zs \<inter> insert s (set xs) = {}" for zs
    using that sx Cons by (intro ll_add_other[OF c]) auto
  ultimately show ?thesis using s(1,3) l Cons p sx cyc_singleton_iff[OF s(1)]
    by (auto simp: slab_freelist_add_def slist_def ring_insert_def)
qed

lemma freelist_rem_slist:
  assumes l: "slist h p xs" and s: "s \<in> set xs"
  shows "\<exists>p' h'. slab_freelist_rem p s h = Inr (p', h') \<and> slist h' p' (remove1 s xs) \<and> cyc h' [s] \<and>
    (\<forall>zs. set zs \<inter> set xs = {} \<longrightarrow> cyc h' zs = cyc h zs)"
proof -
  obtain us vs where xs: "xs = us @ s # vs" "s \<notin> set us" using split_list_first[OF s] by auto
  have c: "cyc h (s # vs @ us)" using cyc_rotate_to[of h us s vs] l xs by (simp add: slist_def)
  define h' where "h' = ps_list_ll_rem h s"
  have c': "cyc h' (vs @ us)" "cyc h' [s]" using ll_rem_cyc[OF c] by (auto simp: h'_def)
  have r: "remove1 s xs = us @ vs" using xs by (simp add: remove1_append)
  have "cyc h' (us @ vs)"
    using c'(1) cyc_rotate_to[of h' vs "hd us" "tl us"] by (cases us) auto
  moreover have "cyc h' zs = cyc h zs" if "set zs \<inter> set xs = {}" for zs
    unfolding h'_def using that xs by (intro ll_rem_other[OF c]) auto
  moreover have "slab_freelist_rem p s h =
      Inr (case us @ vs of [] \<Rightarrow> NULL | x # _ \<Rightarrow> x, h')"
  proof (cases us)
    case Nil
    then have "p = s" using l xs by (simp add: slist_def)
    then show ?thesis using l xs Nil c
      by (cases vs) (auto simp: slab_freelist_rem_def slist_def h'_def ps_list_singleton_def
          ps_list_ll_empty_def ps_list_next_def)
  next
    case (Cons u ws)
    then have "p = u" "u \<noteq> s" using l xs by (auto simp: slist_def)
    then show ?thesis using l xs Cons by (auto simp: slab_freelist_rem_def slist_def h'_def)
  qed
  ultimately show ?thesis using l c'(2) unfolding r by (auto simp: slist_def xs)
qed

section \<open>Objects of a slab\<close>

text \<open>The addresses of the object headers of a slab at \<open>s\<close>, as a list and as a set.\<close>

definition cell_list :: "nat \<Rightarrow> nat \<Rightarrow> addr \<Rightarrow> addr list" where
  "cell_list n sz s = map (\<lambda>k. s + SLAB_HDR_SZ + k * sz) [0..<n]"

definition cells :: "nat \<Rightarrow> nat \<Rightarrow> addr \<Rightarrow> addr set" where
  "cells n sz s = set (cell_list n sz s)"

text \<open>The first objects of a free list, as many as the counter says. The list is not terminated:
  the code never sets the link of the last object of a new slab.\<close>

fun fchain :: "(addr \<Rightarrow> ps_mheader) \<Rightarrow> addr \<Rightarrow> addr list \<Rightarrow> bool" where
  "fchain h p [] \<longleftrightarrow> True"
| "fchain h p (x # xs) \<longleftrightarrow> p = x \<and> fchain h (h_next (h x)) xs"

lemma fchain_cong: "(\<And>x. x \<in> set xs \<Longrightarrow> h_next (h' x) = h_next (h x)) \<Longrightarrow> fchain h' p xs = fchain h p xs"
  by (induction xs arbitrary: p) auto

definition slab_ok :: "slab_st \<Rightarrow> addr \<Rightarrow> nat \<Rightarrow> nat \<Rightarrow> addr \<Rightarrow> addr list \<Rightarrow> addr set \<Rightarrow> bool" where
  "slab_ok st si n sz s c a \<longleftrightarrow>
     s_memory (slabs st s) = s \<and> s_si (slabs st s) = si \<and> item_addr (pgs st) (s_mem_item (slabs st s)) = s \<and>
     s_nfree (slabs st s) = length c \<and> fchain (hdrs st) (s_freelist (slabs st s)) c \<and> distinct c \<and>
     set c \<union> a = cells n sz s \<and> set c \<inter> a = {} \<and> (\<forall>h \<in> cells n sz s. h_slab (hdrs st h) = s)"

definition apart :: "addr set \<Rightarrow> bool" where
  "apart B \<longleftrightarrow> (\<forall>b \<in> B. \<forall>b' \<in> B. b \<noteq> b' \<longrightarrow> b + MEM_MGR_OBJ_SZ \<le> b' \<or> b' + MEM_MGR_OBJ_SZ \<le> b)"

definition objs_ok ::
  "slab_st \<Rightarrow> addr \<Rightarrow> nat \<Rightarrow> nat \<Rightarrow> addr set \<Rightarrow> (addr \<Rightarrow> addr list) \<Rightarrow> addr set \<Rightarrow> bool" where
  "objs_ok st si n sz S C A \<longleftrightarrow>
     (\<forall>s \<in> S. slab_ok st si n sz s (C s) (A \<inter> cells n sz s)) \<and> A \<subseteq> (\<Union>s \<in> S. cells n sz s)"

lemma objs_okD: "objs_ok st si n sz S C A \<Longrightarrow> s \<in> S \<Longrightarrow> slab_ok st si n sz s (C s) (A \<inter> cells n sz s)"
  by (simp add: objs_ok_def)

lemma cells_range:
  assumes "SLAB_HDR_SZ + n * sz \<le> MEM_MGR_OBJ_SZ" and "h \<in> cells n sz s"
  shows "s + SLAB_HDR_SZ \<le> h" and "h + sz \<le> s + MEM_MGR_OBJ_SZ"
proof -
  obtain k where k: "k < n" "h = s + SLAB_HDR_SZ + k * sz" using assms(2) by (auto simp: cells_def cell_list_def)
  then show "s + SLAB_HDR_SZ \<le> h" by simp
  have "Suc k * sz \<le> n * sz" using k by (intro mult_le_mono1) simp
  then show "h + sz \<le> s + MEM_MGR_OBJ_SZ" using k assms(1) by simp
qed

lemma cells_disjoint:
  assumes "SLAB_HDR_SZ + n * sz \<le> MEM_MGR_OBJ_SZ" and "0 < sz" and "apart S"
    and "s \<in> S" and "t \<in> S" and "h \<in> cells n sz s" and "h \<in> cells n sz t"
  shows "s = t"
proof (rule ccontr)
  assume "s \<noteq> t"
  then have "s + MEM_MGR_OBJ_SZ \<le> t \<or> t + MEM_MGR_OBJ_SZ \<le> s" using assms(3-5) by (simp add: apart_def)
  with cells_range[OF assms(1,6)] cells_range[OF assms(1,7)] assms(2) show False by linarith
qed

lemma slab_ok_frame:
  assumes "slab_ok st si n sz s c a" and "slabs st' s = slabs st s" and "item_addr (pgs st') = item_addr (pgs st)"
    and same: "\<And>h. h \<in> cells n sz s \<Longrightarrow> hdrs st' h = hdrs st h"
  shows "slab_ok st' si n sz s c a"
proof -
  have "set c \<subseteq> cells n sz s" using assms(1) by (auto simp: slab_ok_def)
  then have "fchain (hdrs st') p c = fchain (hdrs st) p c" for p using same by (intro fchain_cong) auto
  then show ?thesis using assms by (simp add: slab_ok_def)
qed

text \<open>One step on the objects of slab \<open>s\<close> leaves the objects of the other slabs alone.\<close>

lemma objs_step:
  assumes o: "objs_ok st si n sz S C A" and geo: "SLAB_HDR_SZ + n * sz \<le> MEM_MGR_OBJ_SZ" "0 < sz" "apart S"
    and s: "s \<in> S" and h: "h \<in> cells n sz s"
    and st: "slabs st' = (slabs st)(s := x)" "hdrs st' = (hdrs st)(h := y)"
      "item_addr (pgs st') = item_addr (pgs st)"
    and mine: "slab_ok st' si n sz s c (A' \<inter> cells n sz s)"
    and A': "A' - {h} = A - {h}"
  shows "objs_ok st' si n sz S (C(s := c)) A'"
proof -
  have "slab_ok st' si n sz t ((C(s := c)) t) (A' \<inter> cells n sz t)" if t: "t \<in> S" for t
  proof (cases "t = s")
    case True
    then show ?thesis using mine by simp
  next
    case False
    then have "h \<notin> cells n sz t" using cells_disjoint[OF geo s t h] by blast
    then have "A' \<inter> cells n sz t = A \<inter> cells n sz t" using A' by blast
    moreover have "slab_ok st' si n sz t (C t) (A \<inter> cells n sz t)"
      using \<open>h \<notin> cells n sz t\<close> False st by (intro slab_ok_frame[OF objs_okD[OF o t]]) auto
    ultimately show ?thesis using False by simp
  qed
  moreover have "A' \<subseteq> (\<Union>s \<in> S. cells n sz s)" using A' o s h unfolding objs_ok_def by blast
  ultimately show ?thesis by (simp add: objs_ok_def)
qed

lemma objs_take:
  assumes o: "objs_ok st si n sz S C A" and geo: "SLAB_HDR_SZ + n * sz \<le> MEM_MGR_OBJ_SZ" "0 < sz" "apart S"
    and s: "s \<in> S" "C s = h # c"
    and st: "slabs st' = (slabs st)(s := (slabs st s)\<lparr>s_freelist := h_next (hdrs st h), s_nfree := length c\<rparr>)"
      "hdrs st' = (hdrs st)(h := (hdrs st h)\<lparr>h_next := NULL, h_type := now\<rparr>)"
      "item_addr (pgs st') = item_addr (pgs st)"
  shows "objs_ok st' si n sz S (C(s := c)) (insert h A)" and "h \<in> cells n sz s" and "h \<notin> A"
proof -
  have ok: "slab_ok st si n sz s (h # c) (A \<inter> cells n sz s)" using objs_okD[OF o s(1)] s(2) by simp
  then show h: "h \<in> cells n sz s" by (auto simp: slab_ok_def)
  then show "h \<notin> A" using ok by (auto simp: slab_ok_def)
  have hc: "h \<notin> set c" using ok by (simp add: slab_ok_def)
  have "fchain (hdrs st') p c = fchain (hdrs st) p c" for p using hc st(2) by (intro fchain_cong) auto
  then have "slab_ok st' si n sz s c (insert h A \<inter> cells n sz s)"
    using ok h hc st by (auto simp: slab_ok_def)
  from objs_step[OF o geo s(1) h st this] show "objs_ok st' si n sz S (C(s := c)) (insert h A)" by blast
qed

lemma objs_put:
  assumes o: "objs_ok st si n sz S C A" and geo: "SLAB_HDR_SZ + n * sz \<le> MEM_MGR_OBJ_SZ" "0 < sz" "apart S"
    and s: "s \<in> S" and h: "h \<in> cells n sz s" "h \<in> A"
    and st: "slabs st' = (slabs st)(s := (slabs st s)\<lparr>s_freelist := h, s_nfree := Suc (length (C s))\<rparr>)"
      "hdrs st' = (hdrs st)(h := (hdrs st h)\<lparr>h_next := s_freelist (slabs st s)\<rparr>)"
      "item_addr (pgs st') = item_addr (pgs st)"
  shows "objs_ok st' si n sz S (C(s := h # C s)) (A - {h})"
proof -
  have ok: "slab_ok st si n sz s (C s) (A \<inter> cells n sz s)" using objs_okD[OF o s(1)] .
  then have hc: "h \<notin> set (C s)" using h by (auto simp: slab_ok_def)
  have "fchain (hdrs st') p (C s) = fchain (hdrs st) p (C s)" for p using hc st(2) by (intro fchain_cong) auto
  then have "slab_ok st' si n sz s (h # C s) ((A - {h}) \<inter> cells n sz s)"
    using ok h hc st by (auto simp: slab_ok_def)
  from objs_step[OF o geo s h(1) st this] show ?thesis by blast
qed

lemma objs_drop:
  assumes "objs_ok st si n sz S C A" and "A \<inter> cells n sz s = {}"
  shows "objs_ok st si n sz (S - {s}) C A"
  using assms unfolding objs_ok_def by blast

section \<open>A new slab\<close>

lemma init_loop_end: "fst (slab_init_loop k s a p sz st) = a + k * sz"
  by (induction k arbitrary: a p st) auto

lemma init_loop_frame:
  "slabs (snd (slab_init_loop k s a p sz st)) = slabs st \<and> infos (snd (slab_init_loop k s a p sz st)) = infos st \<and>
   slists (snd (slab_init_loop k s a p sz st)) = slists st \<and> pgs (snd (slab_init_loop k s a p sz st)) = pgs st"
  by (induction k arbitrary: a p st) (auto simp: upd_hdr_def ps_mhead_init_def)

lemma init_loop_outside:
  "b \<noteq> p \<Longrightarrow> b \<notin> (\<lambda>j. a + j * sz) ` {..<k} \<Longrightarrow> hdrs (snd (slab_init_loop k s a p sz st)) b = hdrs st b"
proof (induction k arbitrary: a p st)
  case (Suc k)
  have "(\<lambda>j. a + j * sz) ` {..<Suc k} = insert a ((\<lambda>j. a + sz + j * sz) ` {..<k})"
    unfolding lessThan_Suc_eq_insert_0 by (auto simp: image_image)
  with Suc show ?case by (simp add: upd_hdr_def ps_mhead_init_def)
qed simp

lemma init_loop_next:
  assumes "0 < sz" and "p < a" and "0 < k"
  shows "h_next (hdrs (snd (slab_init_loop k s a p sz st)) p) = a"
proof -
  obtain k' where "k = Suc k'" using assms(3) by (cases k) auto
  moreover have "p \<notin> (\<lambda>j. a + sz + j * sz) ` {..<k'}" using assms(2) by auto
  ultimately show ?thesis using init_loop_outside[of p a "a + sz" sz k'] assms(2)
    by (simp add: upd_hdr_def ps_mhead_init_def)
qed

lemma init_loop_chain:
  assumes "0 < sz"
  shows "fchain (hdrs (snd (slab_init_loop k s a p sz st))) a (map (\<lambda>j. a + j * sz) [0..<k])"
proof (induction k arbitrary: a p st)
  case (Suc k)
  define st1 where "st1 = upd_hdr p (h_next_update (\<lambda>_. a)) (ps_mhead_init a s st)"
  have l: "map (\<lambda>j. a + j * sz) [0..<Suc k] = a # map (\<lambda>j. a + sz + j * sz) [0..<k]"
    by (simp add: upt_conv_Cons map_Suc_upt[symmetric] o_def add.assoc del: upt_Suc)
  have "fchain (hdrs (snd (slab_init_loop k s (a + sz) a sz st1)))
      (h_next (hdrs (snd (slab_init_loop k s (a + sz) a sz st1)) a)) (map (\<lambda>j. a + sz + j * sz) [0..<k])"
    using Suc[of "a + sz" a st1] init_loop_next[OF assms, of a "a + sz" k s st1] assms by (cases k) auto
  then show ?case unfolding l by (simp add: st1_def)
qed simp

lemma init_loop_slab:
  "0 < sz \<Longrightarrow> p = a \<or> p < a \<Longrightarrow> j < k \<Longrightarrow> h_slab (hdrs (snd (slab_init_loop k s a p sz st)) (a + j * sz)) = s"
proof (induction k arbitrary: a p j st)
  case (Suc k)
  note outer = Suc
  define st1 where "st1 = upd_hdr p (h_next_update (\<lambda>_. a)) (ps_mhead_init a s st)"
  have a1: "h_slab (hdrs st1 a) = s" by (simp add: st1_def upd_hdr_def ps_mhead_init_def)
  have keep: "h_slab (hdrs (snd (slab_init_loop k s (a + sz) a sz st1)) a) = s"
  proof (cases k)
    case 0
    then show ?thesis using a1 by simp
  next
    case (Suc k')
    have "a \<notin> (\<lambda>j. a + sz + sz + j * sz) ` {..<k'}" using \<open>0 < sz\<close> by auto
    then show ?thesis
      using Suc init_loop_outside[of a "a + sz" "a + sz + sz" sz k'] a1 \<open>0 < sz\<close>
      by (simp add: upd_hdr_def ps_mhead_init_def)
  qed
  show ?case
  proof (cases j)
    case 0
    then show ?thesis using keep by (simp add: st1_def)
  next
    case (Suc j')
    then show ?thesis using outer(1)[where a = "a + sz" and p = a and j = j' and st = st1] outer(2-4) by (simp add: st1_def add.assoc)
  qed
qed simp

section \<open>The invariant\<close>

text \<open>
  For one slab info \<open>si\<close>: \<open>n\<close> objects of \<open>sz\<close> bytes per slab, \<open>F\<close> and \<open>E\<close> the rings of slabs with
  and without free objects, \<open>C s\<close> the free objects of slab \<open>s\<close>, \<open>A\<close> the headers of the objects in
  use, and \<open>xs\<close> the free pages. The object size must leave room for at least two objects per slab.
\<close>

definition info_ok :: "int \<Rightarrow> addr \<Rightarrow> nat \<Rightarrow> nat \<Rightarrow> slab_st \<Rightarrow> bool" where
  "info_ok me si n sz st \<longleftrightarrow>
     si \<noteq> NULL \<and> i_nodeid (infos st si) = me \<and> i_obj_sz (infos st si) + SLAB_HDR_SZ \<le> MEM_MGR_OBJ_SZ \<and>
     ps_slab_objmemsz (i_obj_sz (infos st si)) = sz \<and> 0 < sz \<and> n = (MEM_MGR_OBJ_SZ - SLAB_HDR_SZ) div sz \<and> 2 \<le> n"

definition rings_ok :: "addr \<Rightarrow> slab_st \<Rightarrow> addr list \<Rightarrow> addr list \<Rightarrow> bool" where
  "rings_ok si st F E \<longleftrightarrow>
     slist (slists st) (i_fl (infos st si)) F \<and> slist (slists st) (i_el (infos st si)) E \<and>
     set F \<inter> set E = {} \<and> i_nslabs (infos st si) = length F + length E"

definition pages_ok :: "addr \<Rightarrow> slab_st \<Rightarrow> addr set \<Rightarrow> addr list \<Rightarrow> bool" where
  "pages_ok head st S xs \<longleftrightarrow>
     pages_inv head (pgs st) xs \<and> apart (S \<union> item_addr (pgs st) ` set xs) \<and> NULL \<notin> item_addr (pgs st) ` set xs \<and>
     inj_on (item_addr (pgs st)) (set xs) \<and> item_addr (pgs st) ` set xs \<inter> S = {} \<and>
     (\<forall>s \<in> S. s_mem_item (slabs st s) \<notin> {NULL, head})"

definition slab_inv0 :: "addr \<Rightarrow> int \<Rightarrow> addr \<Rightarrow> nat \<Rightarrow> nat \<Rightarrow> slab_st \<Rightarrow> addr list \<Rightarrow> addr list \<Rightarrow>
    (addr \<Rightarrow> addr list) \<Rightarrow> addr set \<Rightarrow> addr list \<Rightarrow> bool" where
  "slab_inv0 head me si n sz st F E C A xs \<longleftrightarrow>
     info_ok me si n sz st \<and> rings_ok si st F E \<and> objs_ok st si n sz (set F \<union> set E) C A \<and>
     pages_ok head st (set F \<union> set E) xs \<and> (\<forall>s \<in> set F. C s \<noteq> []) \<and> (\<forall>s \<in> set E. C s = []) \<and>
     length F + length E + length xs < 2 ^ 64"

definition slab_inv :: "addr \<Rightarrow> int \<Rightarrow> addr \<Rightarrow> nat \<Rightarrow> nat \<Rightarrow> slab_st \<Rightarrow> addr list \<Rightarrow> addr list \<Rightarrow>
    (addr \<Rightarrow> addr list) \<Rightarrow> addr set \<Rightarrow> addr list \<Rightarrow> bool" where
  "slab_inv head me si n sz st F E C A xs \<longleftrightarrow>
     slab_inv0 head me si n sz st F E C A xs \<and> (\<forall>s \<in> set F. length (C s) < n)"

lemma slab_inv0D:
  assumes "slab_inv0 head me si n sz st F E C A xs"
  shows "info_ok me si n sz st" and "rings_ok si st F E" and "objs_ok st si n sz (set F \<union> set E) C A"
    and "pages_ok head st (set F \<union> set E) xs" and "\<And>s. s \<in> set F \<Longrightarrow> C s \<noteq> []" and "\<And>s. s \<in> set E \<Longrightarrow> C s = []"
    and "length F + length E + length xs < 2 ^ 64"
  using assms by (auto simp: slab_inv0_def)

lemma info_geo:
  assumes "info_ok me si n sz st"
  shows "SLAB_HDR_SZ + n * sz \<le> MEM_MGR_OBJ_SZ" and "0 < sz" and "n < 2 ^ 32"
proof -
  have n: "n = (MEM_MGR_OBJ_SZ - SLAB_HDR_SZ) div sz" and sz: "0 < sz" using assms by (auto simp: info_ok_def)
  have "n * sz \<le> MEM_MGR_OBJ_SZ - SLAB_HDR_SZ" unfolding n by (rule div_times_less_eq_dividend)
  then show "SLAB_HDR_SZ + n * sz \<le> MEM_MGR_OBJ_SZ" by simp
  have "n \<le> MEM_MGR_OBJ_SZ - SLAB_HDR_SZ" unfolding n by (rule div_le_dividend)
  then show "n < 2 ^ 32" by simp
  show "0 < sz" by (rule sz)
qed

lemma pages_apart: "pages_ok head st S xs \<Longrightarrow> apart S"
  by (auto simp: pages_ok_def apart_def)

text \<open>The end of \<^verbatim>\<open>__ps_slab_mem_alloc\<close>: take the first free object of slab \<open>s\<close>.\<close>

definition take_obj :: "u64 \<Rightarrow> addr \<Rightarrow> addr \<Rightarrow> slab_st \<Rightarrow> (addr \<times> slab_st) result" where
  "take_obj now si s st1 =
     bindE (assertE (s \<noteq> NULL \<and> s_freelist (slabs st1 s) \<noteq> NULL)) (\<lambda>_.
     let h = s_freelist (slabs st1 s);
         st2 = upd_slab s (s_freelist_update (\<lambda>_. h_next (hdrs st1 h))) st1;
         st3 = upd_slab s (\<lambda>x. x\<lparr>s_nfree := (s_nfree x + (2 ^ 64 - 1)) mod 2 ^ 64\<rparr>) st2;
         st4 = ps_mhead_reset now h st3
     in if s_nfree (slabs st4 s) = 0
        then bindE (fl_rem si s st4) (\<lambda>st5.
             bindE (assertE (ps_list_singleton (slists st5) s)) (\<lambda>_.
             bindE (el_add si s st5) (\<lambda>st6. Inr (ps_mhead_mem h, st6))))
        else Inr (ps_mhead_mem h, st4))"

lemma mem_alloc_take: "ps_slab_mem_alloc head now si allocsz headoff st =
    bindE (assertE ((i_obj_sz (infos st si) + headoff) mod 2 ^ 64 \<le> allocsz)) (\<lambda>_.
    bindE (slab_for_alloc head si allocsz headoff st) (\<lambda>(s, st1). take_obj now si s st1))"
  by (simp add: ps_slab_mem_alloc_def take_obj_def)

lemma dec_word: "0 < k \<Longrightarrow> k < 2 ^ 64 \<Longrightarrow> (k + (2 ^ 64 - 1)) mod 2 ^ 64 = k - (1 :: nat)"
proof -
  assume k: "0 < k" "k < 2 ^ 64"
  then have "k + (2 ^ 64 - 1) = (k - 1) + 2 ^ 64" "k - 1 < 2 ^ 64" by auto
  then show ?thesis by (simp only: mod_add_self2 mod_less)
qed

lemma move_to_el:
  assumes r: "rings_ok si st (s # F) E" and s: "s \<noteq> NULL"
  shows "\<exists>st5 st6. fl_rem si s st = Inr st5 \<and> ps_list_singleton (slists st5) s \<and> el_add si s st5 = Inr st6 \<and>
    rings_ok si st6 F (ring_insert s E) \<and> slabs st6 = slabs st \<and> hdrs st6 = hdrs st \<and> pgs st6 = pgs st \<and>
    (\<forall>me n sz. info_ok me si n sz st6 = info_ok me si n sz st)"
proof -
  have fl: "slist (slists st) (i_fl (infos st si)) (s # F)" and el: "slist (slists st) (i_el (infos st si)) E"
    and dj: "set (s # F) \<inter> set E = {}" using r by (auto simp: rings_ok_def)
  obtain p' h' where rem: "slab_freelist_rem (i_fl (infos st si)) s (slists st) = Inr (p', h')"
    "slist h' p' F" "cyc h' [s]" "cyc h' E = cyc (slists st) E"
    using freelist_rem_slist[OF fl, of s] dj by auto
  define st5 where "st5 = upd_info si (i_fl_update (\<lambda>_. p')) (st\<lparr>slists := h'\<rparr>)"
  have e5: "slist h' (i_el (infos st5 si)) E"
    using slist_other[OF el rem(4)] by (simp add: st5_def upd_info_def)
  obtain h'' where add: "slab_freelist_add (i_el (infos st5 si)) s h' = Inr (s, h'')"
    "slist h'' s (ring_insert s E)" "cyc h'' F = cyc h' F"
  proof -
    have "s \<notin> set E" "set F \<inter> insert s (set E) = {}" using dj slist_distinct[OF fl] by auto
    then show ?thesis using freelist_add_slist[OF e5 rem(3) _ s] that by blast
  qed
  define st6 where "st6 = upd_info si (i_el_update (\<lambda>_. s)) (st5\<lparr>slists := h''\<rparr>)"
  have "fl_rem si s st = Inr st5" using rem(1) by (simp add: fl_rem_def st5_def)
  moreover have "ps_list_singleton (slists st5) s"
    using cyc_singleton_iff[OF rem(3)] by (simp add: st5_def upd_info_def)
  moreover have "el_add si s st5 = Inr st6" using add(1) by (simp add: el_add_def st6_def st5_def upd_info_def)
  moreover have "rings_ok si st6 F (ring_insert s E)"
    using slist_other[OF rem(2) add(3)] add(2) dj slist_distinct[OF fl] r
    by (auto simp: rings_ok_def st6_def st5_def upd_info_def)
  ultimately show ?thesis by (auto simp: st6_def st5_def upd_info_def info_ok_def)
qed

lemma chain_length:
  assumes "slab_ok st si n sz s c a"
  shows "length c \<le> n" and "0 < sz \<Longrightarrow> a = {} \<longleftrightarrow> length c = n"
proof -
  have d: "distinct c" "set c \<union> a = cells n sz s" "set c \<inter> a = {}" using assms by (auto simp: slab_ok_def)
  have dl: "distinct (cell_list n sz s)" if "0 < sz"
    using that by (auto simp: cell_list_def distinct_map inj_on_def)
  have len: "length (cell_list n sz s) = n" by (simp add: cell_list_def)
  have "card (set c) \<le> card (cells n sz s)" using d(2) by (intro card_mono) (auto simp: cells_def)
  also have "\<dots> \<le> n" unfolding cells_def using card_length[of "cell_list n sz s"] len by simp
  finally show le: "length c \<le> n" using distinct_card[OF d(1)] by simp
  assume "0 < sz"
  then have card: "card (cells n sz s) = n" unfolding cells_def using distinct_card[OF dl] len by simp
  show "a = {} \<longleftrightarrow> length c = n"
  proof
    assume "a = {}"
    then show "length c = n" using d card distinct_card[OF d(1)] by auto
  next
    assume "length c = n"
    then have "card (set c) = card (cells n sz s)" using card distinct_card[OF d(1)] by auto
    then have "set c = cells n sz s" using d(2) by (intro card_subset_eq) (auto simp: cells_def)
    then show "a = {}" using d by blast
  qed
qed

lemma take_obj_inv:
  assumes i: "slab_inv0 head me si n sz st (s # F) E C A xs" and c: "C s = h # c"
  shows "\<exists>st'. take_obj now si s st = Inr (ps_mhead_mem h, st') \<and> h \<notin> A \<and> h \<in> cells n sz s \<and>
    slab_inv0 head me si n sz st' (if c = [] then F else s # F) (if c = [] then ring_insert s E else E)
      (C(s := c)) (insert h A) xs"
proof -
  note D = slab_inv0D[OF i]
  note geo = info_geo[OF D(1)]
  have ap: "apart (set (s # F) \<union> set E)" by (rule pages_apart[OF D(4)])
  have sS: "s \<in> set (s # F) \<union> set E" by simp
  have s0: "s \<noteq> NULL" using D(2) by (auto simp: rings_ok_def slist_def)
  have ok: "slab_ok st si n sz s (h # c) (A \<inter> cells n sz s)" using objs_okD[OF D(3) sS] c by simp
  have fl: "s_freelist (slabs st s) = h" and nf: "s_nfree (slabs st s) = Suc (length c)"
    using ok by (auto simp: slab_ok_def)
  have h: "h \<in> cells n sz s" using ok by (auto simp: slab_ok_def)
  then have h0: "h \<noteq> NULL" using cells_range(1)[OF geo(1)] by fastforce
  have "Suc (length c) < 2 ^ 64" using chain_length(1)[OF ok] geo(3) by simp
  then have dec: "(Suc (length c) + (2 ^ 64 - 1)) mod 2 ^ 64 = length c" using dec_word[of "Suc (length c)"] by simp
  define st4 where "st4 = st\<lparr>slabs := (slabs st)(s := (slabs st s)\<lparr>s_freelist := h_next (hdrs st h), s_nfree := length c\<rparr>),
      hdrs := (hdrs st)(h := (hdrs st h)\<lparr>h_next := NULL, h_type := now\<rparr>)\<rparr>"
  have t: "take_obj now si s st = (if length c = 0
      then bindE (fl_rem si s st4) (\<lambda>st5. bindE (assertE (ps_list_singleton (slists st5) s)) (\<lambda>_.
           bindE (el_add si s st5) (\<lambda>st6. Inr (ps_mhead_mem h, st6))))
      else Inr (ps_mhead_mem h, st4))"
    using s0 h0 fl nf dec by (simp add: take_obj_def Let_def upd_slab_def ps_mhead_reset_def upd_hdr_def st4_def)
  have obj: "objs_ok st4 si n sz (set (s # F) \<union> set E) (C(s := c)) (insert h A)" and hA: "h \<notin> A"
    using objs_take[OF D(3) geo(1,2) ap sS c, of st4 now] by (simp_all add: st4_def)
  have r4: "rings_ok si st4 (s # F) E" using D(2) by (simp add: rings_ok_def st4_def)
  have i4: "info_ok me si n sz st4" using D(1) by (simp add: info_ok_def st4_def)
  have p4: "pages_ok head st4 (set (s # F) \<union> set E) xs" using D(4) by (auto simp: pages_ok_def st4_def)
  have nE: "s \<notin> set E" "s \<notin> set F" using D(2) slist_distinct by (fastforce simp: rings_ok_def)+
  show ?thesis
  proof (cases "c = []")
    case False
    then have "slab_inv0 head me si n sz st4 (s # F) E (C(s := c)) (insert h A) xs"
      using obj r4 i4 p4 D(5,6,7) nE by (auto simp: slab_inv0_def)
    then show ?thesis using t False hA h by simp
  next
    case True
    obtain st5 st6 where m: "fl_rem si s st4 = Inr st5" "ps_list_singleton (slists st5) s" "el_add si s st5 = Inr st6"
      "rings_ok si st6 F (ring_insert s E)" "slabs st6 = slabs st4" "hdrs st6 = hdrs st4" "pgs st6 = pgs st4"
      "info_ok me si n sz st6" using move_to_el[OF r4 s0] i4 by blast
    have S: "set F \<union> set (ring_insert s E) = set (s # F) \<union> set E" by auto
    have "objs_ok st6 si n sz (set F \<union> set (ring_insert s E)) (C(s := c)) (insert h A)"
      unfolding S using obj m(5-7) by (simp add: objs_ok_def slab_ok_def)
    moreover have "pages_ok head st6 (set F \<union> set (ring_insert s E)) xs"
      unfolding S using p4 m(5,7) by (simp add: pages_ok_def)
    ultimately have "slab_inv0 head me si n sz st6 F (ring_insert s E) (C(s := c)) (insert h A) xs"
      using m(4,8) D(5-7) nE True by (auto simp: slab_inv0_def)
    then show ?thesis using t True hA h m(1-3) by simp
  qed
qed

text \<open>The objects of a page that has just been linked.\<close>

lemma init_loop_objs:
  assumes o: "objs_ok st si n sz S C A" and geo: "SLAB_HDR_SZ + n * sz \<le> MEM_MGR_OBJ_SZ" "0 < sz" "0 < n"
    and ap: "apart (insert s S)" and s: "s \<notin> S"
    and st1: "slabs st1 = (slabs st)(s := x)" "hdrs st1 = hdrs st" "item_addr (pgs st1) = item_addr (pgs st)"
      "s_memory x = s" "s_si x = si" "item_addr (pgs st) (s_mem_item x) = s" "s_nfree x = n"
      "s_freelist x = s + SLAB_HDR_SZ"
    and st2: "st2 = snd (slab_init_loop n s (s + SLAB_HDR_SZ) (s + SLAB_HDR_SZ) sz st1)"
  shows "objs_ok st2 si n sz (insert s S) (C(s := cell_list n sz s)) A"
proof -
  let ?a = "s + SLAB_HDR_SZ"
  have fr: "slabs st2 = slabs st1" "pgs st2 = pgs st1" using init_loop_frame by (simp_all add: st2)
  have cl: "cells n sz s = (\<lambda>j. ?a + j * sz) ` {..<n}" by (simp add: cells_def cell_list_def atLeast0LessThan)
  have a: "?a \<in> cells n sz s" unfolding cl using geo(3) by force
  have out: "hdrs st2 b = hdrs st b" if "b \<notin> cells n sz s" for b
    unfolding st2 using that a st1(2) cl by (subst init_loop_outside) auto
  have dj: "h \<notin> cells n sz s" if "h \<in> cells n sz t" "t \<in> S" for h t
    using cells_disjoint[OF geo(1,2) ap, of s t h] that s by auto
  have "slab_ok st2 si n sz t (C t) (A \<inter> cells n sz t)" if t: "t \<in> S" for t
  proof -
    have "slabs st2 t = slabs st t" using t s fr(1) st1(1) by auto
    moreover have "item_addr (pgs st2) = item_addr (pgs st)" using fr(2) st1(3) by simp
    ultimately show ?thesis using out dj[OF _ t] by (intro slab_ok_frame[OF objs_okD[OF o t]]) auto
  qed
  moreover have "slab_ok st2 si n sz s (cell_list n sz s) {}"
  proof -
    have "fchain (hdrs st2) ?a (cell_list n sz s)"
      using init_loop_chain[OF geo(2), of n s ?a ?a st1] by (simp add: st2 cell_list_def)
    moreover have "h_slab (hdrs st2 h) = s" if "h \<in> cells n sz s" for h
      using that init_loop_slab[OF geo(2), of ?a ?a _ n s st1] unfolding cl st2 by auto
    moreover have "distinct (cell_list n sz s)" "length (cell_list n sz s) = n"
      using geo(2) by (auto simp: cell_list_def distinct_map inj_on_def)
    ultimately show ?thesis using st1 fr by (simp add: slab_ok_def cells_def)
  qed
  moreover have "A \<inter> cells n sz s = {}" using o dj unfolding objs_ok_def by blast
  ultimately show ?thesis using o s unfolding objs_ok_def by auto
qed

lemma new_slab:
  assumes i: "slab_inv0 head me si n sz st [] E C A (x # xs)"
  shows "\<exists>s st'. slab_for_alloc head si MEM_MGR_OBJ_SZ SLAB_HDR_SZ st = Inr (s, st') \<and> s \<notin> set E \<and>
    slab_inv0 head me si n sz st' [s] E (C(s := cell_list n sz s)) A xs"
proof -
  note D = slab_inv0D[OF i]
  note geo = info_geo[OF D(1)]
  have n2: "2 \<le> n" and isz: "ps_slab_objmemsz (i_obj_sz (infos st si)) = sz"
    and nn: "(MEM_MGR_OBJ_SZ - SLAB_HDR_SZ) div sz = n" using D(1) by (auto simp: info_ok_def)
  obtain pg where pg: "mem_mgr_alloc head MEM_MGR_OBJ_SZ (pgs st) = Inr (x, pg)" "pages_inv head pg xs"
    "item_addr pg = item_addr (pgs st)" using page_alloc_first[of head "pgs st" x xs] D(4) by (auto simp: pages_ok_def)
  define s where "s = item_addr (pgs st) x"
  have s0: "s \<noteq> NULL" and sE: "s \<notin> set E" using D(4) by (auto simp: pages_ok_def s_def)
  define r where "r = (slabs st s)\<lparr>s_memory := s, s_mem_item := x, s_nfree := n, s_memsz := MEM_MGR_OBJ_SZ,
      s_si := si, s_freelist := s + SLAB_HDR_SZ\<rparr>"
  define st1 where "st1 = st\<lparr>pgs := pg, slabs := (slabs st)(s := r)\<rparr>"
  define st2 where "st2 = snd (slab_init_loop n s (s + SLAB_HDR_SZ) (s + SLAB_HDR_SZ) sz st1)"
  have fr: "slabs st2 = slabs st1" "infos st2 = infos st" "slists st2 = slists st" "pgs st2 = pg"
    using init_loop_frame[of n s "s + SLAB_HDR_SZ" "s + SLAB_HDR_SZ" sz st1] by (simp_all add: st2_def st1_def)
  have ap: "apart (insert s (set E))" using D(4) by (auto simp: pages_ok_def apart_def s_def)
  have obj: "objs_ok st2 si n sz (insert s (set E)) (C(s := cell_list n sz s)) A"
  proof (rule init_loop_objs[where x = r and ?st1.0 = st1])
    show "objs_ok st si n sz (set E) C A" using D(3) by simp
    show "0 < n" using n2 by simp
  qed (fact geo(1,2) ap sE st2_def | simp add: st1_def r_def pg(3) flip: s_def)+
  define h where "h = ps_list_ll_init (slists st) s"
  have el: "slist h (i_el (infos st si)) E" and fl: "i_fl (infos st si) = NULL" "slist h NULL []"
    using D(2) sE ll_init_other[of s E] by (auto simp: rings_ok_def slist_def h_def)
  obtain h' where add: "slab_freelist_add NULL s h = Inr (s, h')" "slist h' s [s]" "cyc h' E = cyc h E"
    using freelist_add_slist[OF fl(2), of s] ll_init_cyc[of "slists st" s] s0 sE
    by (auto simp: h_def ring_insert_def)
  define st3 where "st3 = st2\<lparr>slists := h', infos := (infos st)(si := (infos st si)\<lparr>i_fl := s,
      i_nslabs := Suc (i_nslabs (infos st si))\<rparr>)\<rparr>"
  have ns: "(i_nslabs (infos st si) + 1) mod 2 ^ 64 = Suc (i_nslabs (infos st si))"
    using D(2,7) by (simp add: rings_ok_def)
  have da: "ps_slab_defalloc head MEM_MGR_OBJ_SZ st = Inr (s, st\<lparr>pgs := pg,
      slabs := (slabs st)(s := (slabs st s)\<lparr>s_memory := s, s_mem_item := x\<rparr>)\<rparr>)"
    using pg(1,3) s0 by (simp add: ps_slab_defalloc_def upd_slab_def Let_def s_def)
  define sta where "sta = st\<lparr>pgs := pg, slabs := (slabs st)(s := (slabs st s)\<lparr>s_memory := s, s_mem_item := x\<rparr>)\<rparr>"
  have "upd_slab s (\<lambda>x. x\<lparr>s_nfree := n, s_memsz := MEM_MGR_OBJ_SZ, s_si := si, s_freelist := s + SLAB_HDR_SZ\<rparr>) sta = st1"
    by (simp add: upd_slab_def sta_def st1_def r_def)
  moreover have "fst (slab_init_loop n s (s + SLAB_HDR_SZ) (s + SLAB_HDR_SZ) sz st1) \<le> s + MEM_MGR_OBJ_SZ"
    using init_loop_end[of n s "s + SLAB_HDR_SZ"] geo(1) by simp
  moreover have "infos sta = infos st" "s_memory (slabs sta s) = s" "s_memory (slabs st2 s) = s"
    by (simp_all add: sta_def fr(1) st1_def r_def)
  ultimately have "ps_slab_init si s MEM_MGR_OBJ_SZ SLAB_HDR_SZ sta = fl_add si s (st2\<lparr>slists := h\<rparr>)"
    using isz nn fr(3) by (simp add: ps_slab_init_def Let_def case_prod_beta h_def flip: st2_def)
  also have "\<dots> = Inr (st2\<lparr>slists := h', infos := (infos st)(si := (infos st si)\<lparr>i_fl := s\<rparr>)\<rparr>)"
    using add(1) fl(1) by (simp add: fl_add_def upd_info_def fr(2))
  finally have "slab_for_alloc head si MEM_MGR_OBJ_SZ SLAB_HDR_SZ st = Inr (s, st3)"
    using s0 ns fl(1) da by (simp add: slab_for_alloc_def upd_info_def st3_def Let_def fr(1) st1_def r_def flip: sta_def)
  moreover have "rings_ok si st3 [s] E"
    using add(2) slist_other[OF el add(3)] sE D(2) by (simp add: rings_ok_def st3_def)
  moreover have "objs_ok st3 si n sz (insert s (set E)) (C(s := cell_list n sz s)) A"
    using obj by (simp add: objs_ok_def slab_ok_def st3_def)
  moreover have "info_ok me si n sz st3" using D(1) by (simp add: info_ok_def st3_def)
  moreover have "pages_ok head st3 (insert s (set E)) xs"
    using D(4) pg(2,3) pages_inv_distinct[of head "pgs st" "x # xs"] sE
    by (auto simp: pages_ok_def st3_def fr st1_def r_def s_def pages_inv_def)
  moreover have "cell_list n sz s \<noteq> []" using n2 by (auto simp: cell_list_def)
  ultimately show ?thesis using D(6,7) sE by (intro exI[of _ s] exI[of _ st3]) (auto simp: slab_inv0_def)
qed

section \<open>Allocation and release\<close>

lemma objects_apart:
  assumes i: "slab_inv0 head me si n sz st F E C A xs" and h: "h \<in> A" "h' \<in> A" "h \<noteq> h'"
  shows "\<not> overlap (h, sz) (h', sz)"
proof -
  note D = slab_inv0D[OF i]
  note geo = info_geo[OF D(1)]
  obtain s t where st: "s \<in> set F \<union> set E" "h \<in> cells n sz s" "t \<in> set F \<union> set E" "h' \<in> cells n sz t"
    using h(1,2) D(3) unfolding objs_ok_def by blast
  show ?thesis
  proof (cases "s = t")
    case True
    then obtain j k where "h = s + SLAB_HDR_SZ + j * sz" "h' = s + SLAB_HDR_SZ + k * sz" "j \<noteq> k"
      using st(2,4) h(3) by (auto simp: cells_def cell_list_def)
    then show ?thesis using cells_apart[of j k "s + SLAB_HDR_SZ" sz] by simp
  next
    case False
    then have "s + MEM_MGR_OBJ_SZ \<le> t \<or> t + MEM_MGR_OBJ_SZ \<le> s"
      using pages_apart[OF D(4)] st(1,3) by (simp add: apart_def)
    then show ?thesis using cells_range[OF geo(1) st(2)] cells_range[OF geo(1) st(4)]
      by (auto simp: overlap_def)
  qed
qed

lemma alloc_from_slab:
  assumes i: "slab_inv0 head me si n sz st F E C A xs"
    and s: "slab_for_alloc head si MEM_MGR_OBJ_SZ SLAB_HDR_SZ st = Inr (s, st1)"
    and i1: "slab_inv0 head me si n sz st1 (s # F1) E C1 A xs1" and lt: "\<forall>t \<in> set F1. length (C1 t) < n"
  shows "\<exists>h st' F' E' C' xs'. bi_slab_alloc head me now si st = Inr (ps_mhead_mem h, st') \<and> h \<notin> A \<and>
    slab_inv head me si n sz st' F' E' C' (insert h A) xs'"
proof -
  note D = slab_inv0D[OF i1]
  obtain h c where c: "C1 s = h # c" using D(5)[of s] by (cases "C1 s") auto
  obtain st' where t: "take_obj now si s st1 = Inr (ps_mhead_mem h, st')" "h \<notin> A"
    and inv: "slab_inv0 head me si n sz st' (if c = [] then F1 else s # F1)
      (if c = [] then ring_insert s E else E) (C1(s := c)) (insert h A) xs1"
    using take_obj_inv[OF i1 c] by blast
  have "length (h # c) \<le> n" using chain_length(1)[OF objs_okD[OF D(3), of s]] c by simp
  moreover have "s \<notin> set F1" using D(2) slist_distinct by (fastforce simp: rings_ok_def)
  ultimately have "slab_inv head me si n sz st' (if c = [] then F1 else s # F1)
      (if c = [] then ring_insert s E else E) (C1(s := c)) (insert h A) xs1"
    using inv lt by (auto simp: slab_inv_def)
  moreover have "bi_slab_alloc head me now si st = Inr (ps_mhead_mem h, st')"
    using slab_inv0D(1)[OF i] s t(1) by (simp add: bi_slab_alloc_def mem_alloc_take info_ok_def)
  ultimately show ?thesis using t(2) by blast
qed

lemma slab_alloc_inv:
  assumes i: "slab_inv head me si n sz st F E C A xs" and room: "F \<noteq> [] \<or> xs \<noteq> []"
  shows "\<exists>h st' F' E' C' xs'. bi_slab_alloc head me now si st = Inr (ps_mhead_mem h, st') \<and> h \<notin> A \<and>
    slab_inv head me si n sz st' F' E' C' (insert h A) xs'"
proof (cases F)
  case (Cons s F1)
  have i0: "slab_inv0 head me si n sz st (s # F1) E C A xs" using i Cons by (simp add: slab_inv_def)
  then have "i_fl (infos st si) = s" "s \<noteq> NULL" by (auto simp: slab_inv0_def rings_ok_def slist_def)
  then have "slab_for_alloc head si MEM_MGR_OBJ_SZ SLAB_HDR_SZ st = Inr (s, st)" by (simp add: slab_for_alloc_def)
  from alloc_from_slab[OF i0 this i0] i Cons show ?thesis by (simp add: slab_inv_def)
next
  case Nil
  then obtain x xs1 where xs: "xs = x # xs1" using room by (cases xs) auto
  have i0: "slab_inv0 head me si n sz st [] E C A (x # xs1)" using i Nil xs by (simp add: slab_inv_def)
  obtain s st1 where "slab_for_alloc head si MEM_MGR_OBJ_SZ SLAB_HDR_SZ st = Inr (s, st1)"
    "slab_inv0 head me si n sz st1 [s] E (C(s := cell_list n sz s)) A xs1" using new_slab[OF i0] by blast
  from alloc_from_slab[OF i0 this] show ?thesis by simp
qed

lemma move_to_fl:
  assumes r: "rings_ok si st F E" and s: "s \<in> set E"
  shows "\<exists>st4 st5. el_rem si s st = Inr st4 \<and> ps_list_singleton (slists st4) s \<and> slabs st4 = slabs st \<and>
    fl_add si s st4 = Inr st5 \<and> rings_ok si st5 (ring_insert s F) (remove1 s E) \<and> slabs st5 = slabs st \<and>
    hdrs st5 = hdrs st \<and> pgs st5 = pgs st \<and> (\<forall>me n sz. info_ok me si n sz st5 = info_ok me si n sz st)"
proof -
  have fl: "slist (slists st) (i_fl (infos st si)) F" and el: "slist (slists st) (i_el (infos st si)) E"
    and dj: "set F \<inter> set E = {}" using r by (auto simp: rings_ok_def)
  have s0: "s \<noteq> NULL" using el s unfolding slist_def by metis
  obtain p' h' where rem: "slab_freelist_rem (i_el (infos st si)) s (slists st) = Inr (p', h')"
    "slist h' p' (remove1 s E)" "cyc h' [s]" "cyc h' F = cyc (slists st) F"
    using freelist_rem_slist[OF el s] dj by blast
  define st4 where "st4 = upd_info si (i_el_update (\<lambda>_. p')) (st\<lparr>slists := h'\<rparr>)"
  have f4: "slist h' (i_fl (infos st4 si)) F" using slist_other[OF fl rem(4)] by (simp add: st4_def upd_info_def)
  have se: "set (remove1 s E) = set E - {s}" using slist_distinct[OF el] by (rule set_remove1_eq)
  obtain h'' where add: "slab_freelist_add (i_fl (infos st4 si)) s h' = Inr (s, h'')"
    "slist h'' s (ring_insert s F)" "cyc h'' (remove1 s E) = cyc h' (remove1 s E)"
  proof -
    have "s \<notin> set F" "set (remove1 s E) \<inter> insert s (set F) = {}" using dj s se by auto
    then show ?thesis using freelist_add_slist[OF f4 rem(3) _ s0] that by blast
  qed
  define st5 where "st5 = upd_info si (i_fl_update (\<lambda>_. s)) (st4\<lparr>slists := h''\<rparr>)"
  have "el_rem si s st = Inr st4" using rem(1) by (simp add: el_rem_def st4_def)
  moreover have "ps_list_singleton (slists st4) s"
    using cyc_singleton_iff[OF rem(3)] by (simp add: st4_def upd_info_def)
  moreover have "fl_add si s st4 = Inr st5" using add(1) by (simp add: fl_add_def st5_def st4_def upd_info_def)
  moreover have "rings_ok si st5 (ring_insert s F) (remove1 s E)"
    using slist_other[OF rem(2) add(3)] add(2) dj se r s length_pos_if_in_set[OF s]
    by (auto simp: rings_ok_def st5_def st4_def upd_info_def length_remove1)
  ultimately show ?thesis by (auto simp: st5_def st4_def upd_info_def info_ok_def)
qed

lemma Suc_length_remove1: "x \<in> set xs \<Longrightarrow> Suc (length (remove1 x xs)) = length xs"
  by (induction xs) auto

lemma drop_from_fl:
  assumes r: "rings_ok si st F E" and s: "s \<in> set F" and big: "length F + length E < 2 ^ 64"
  shows "\<exists>st4. fl_rem si s st = Inr st4 \<and> slabs st4 = slabs st \<and> hdrs st4 = hdrs st \<and> pgs st4 = pgs st \<and>
    (\<forall>me n sz. info_ok me si n sz st4 = info_ok me si n sz st) \<and>
    rings_ok si (upd_info si (\<lambda>x. x\<lparr>i_nslabs := (i_nslabs x + (2 ^ 64 - 1)) mod 2 ^ 64\<rparr>) st4) (remove1 s F) E"
proof -
  have fl: "slist (slists st) (i_fl (infos st si)) F" and el: "slist (slists st) (i_el (infos st si)) E"
    and dj: "set F \<inter> set E = {}" and ns: "i_nslabs (infos st si) = length F + length E"
    using r by (auto simp: rings_ok_def)
  obtain p' h' where rem: "slab_freelist_rem (i_fl (infos st si)) s (slists st) = Inr (p', h')"
    "slist h' p' (remove1 s F)" "cyc h' E = cyc (slists st) E"
    using freelist_rem_slist[OF fl s] dj by blast
  define st4 where "st4 = upd_info si (i_fl_update (\<lambda>_. p')) (st\<lparr>slists := h'\<rparr>)"
  have pos: "Suc (length (remove1 s F)) = length F" using s by (rule Suc_length_remove1)
  have "(i_nslabs (infos st si) + (2 ^ 64 - 1)) mod 2 ^ 64 = length (remove1 s F) + length E"
  proof -
    have "0 < length F + length E" using pos by linarith
    moreover have "length F + length E - 1 = length (remove1 s F) + length E" using pos by linarith
    ultimately show ?thesis unfolding ns using dec_word[OF _ big] by presburger
  qed
  then have "rings_ok si (upd_info si (\<lambda>x. x\<lparr>i_nslabs := (i_nslabs x + (2 ^ 64 - 1)) mod 2 ^ 64\<rparr>) st4) (remove1 s F) E"
    using rem(2) slist_other[OF el rem(3)] dj set_remove1_subset[of s F]
    by (auto simp: rings_ok_def st4_def upd_info_def)
  moreover have "fl_rem si s st = Inr st4" using rem(1) by (simp add: fl_rem_def st4_def)
  ultimately show ?thesis by (auto simp: st4_def upd_info_def info_ok_def)
qed

text \<open>What \<^verbatim>\<open>__ps_slab_mem_free\<close> has done before it looks at the counter.\<close>

definition put_obj :: "addr \<Rightarrow> addr \<Rightarrow> slab_st \<Rightarrow> slab_st" where
  "put_obj s h st = st\<lparr>hdrs := (hdrs st)(h := (hdrs st h)\<lparr>h_next := s_freelist (slabs st s)\<rparr>),
     slabs := (slabs st)(s := (slabs st s)\<lparr>s_freelist := h, s_nfree := Suc (s_nfree (slabs st s))\<rparr>)\<rparr>"

lemma mem_free_put:
  assumes info: "info_ok me si n sz st" and s: "h_slab (hdrs st h) = s" "s \<noteq> NULL" "s_si (slabs st s) = si"
    and nf: "s_nfree (slabs st s) = k" "k < n" and st3: "st3 = put_obj s h st"
  shows "ps_slab_mem_free head me (ps_mhead_mem h) MEM_MGR_OBJ_SZ SLAB_HDR_SZ st =
    (if Suc k = n
     then bindE (fl_rem si s st3) (\<lambda>st4. Inr (ps_slab_deffree head s
            (upd_info si (\<lambda>x. x\<lparr>i_nslabs := (i_nslabs x + (2 ^ 64 - 1)) mod 2 ^ 64\<rparr>) st4)))
     else if k = 0
     then bindE (el_rem si s st3) (\<lambda>st4. bindE (assertE (ps_list_singleton (slists st4) s)) (\<lambda>_.
          bindE (assertE (s_memory (slabs st4 s) \<noteq> NULL \<and> s_freelist (slabs st4 s) \<noteq> NULL)) (\<lambda>_. fl_add si s st4)))
     else Inr st3)"
proof -
  note geo = info_geo[OF info]
  have "sz \<le> n * sz" using info by (simp add: info_ok_def)
  then have sz: "sz + SLAB_HDR_SZ \<le> MEM_MGR_OBJ_SZ" using geo(1) by linarith
  then have "(sz + SLAB_HDR_SZ) mod 2 ^ 64 = sz + SLAB_HDR_SZ" by simp
  moreover have "ps_slab_max_nobjs (i_obj_sz (infos st si)) MEM_MGR_OBJ_SZ SLAB_HDR_SZ mod 2 ^ 32 = n"
    using info geo(3) by (simp add: ps_slab_max_nobjs_def info_ok_def)
  moreover have "(k + 1) mod 2 ^ 64 = Suc k" using nf(2) geo(3) by simp
  ultimately show ?thesis
    using info s nf sz unfolding ps_slab_mem_free_def ps_mhead_get_def ps_mhead_mem_def Let_def st3 put_obj_def
    by (simp add: info_ok_def upd_slab_def upd_hdr_def)
qed

lemma put_obj_inv:
  assumes i: "slab_inv0 head me si n sz st F E C A xs" and s: "s \<in> set F \<union> set E"
    and h: "h \<in> cells n sz s" "h \<in> A"
  shows "objs_ok (put_obj s h st) si n sz (set F \<union> set E) (C(s := h # C s)) (A - {h})"
    and "rings_ok si (put_obj s h st) F E" and "info_ok me si n sz (put_obj s h st)"
    and "pages_ok head (put_obj s h st) (set F \<union> set E) xs" and "s_nfree (slabs st s) = length (C s)"
    and "length (C s) < n" and "h_slab (hdrs st h) = s" and "s \<noteq> NULL" and "s_si (slabs st s) = si"
    and "h \<noteq> NULL" and "s_memory (slabs st s) = s"
proof -
  note D = slab_inv0D[OF i]
  note geo = info_geo[OF D(1)]
  have ok: "slab_ok st si n sz s (C s) (A \<inter> cells n sz s)" by (rule objs_okD[OF D(3) s])
  then show nf: "s_nfree (slabs st s) = length (C s)" and "h_slab (hdrs st h) = s" and "s_si (slabs st s) = si"
    and "s_memory (slabs st s) = s" using h by (auto simp: slab_ok_def)
  show "objs_ok (put_obj s h st) si n sz (set F \<union> set E) (C(s := h # C s)) (A - {h})"
    using nf by (intro objs_put[OF D(3) geo(1,2) pages_apart[OF D(4)] s h]) (simp_all add: put_obj_def)
  show "rings_ok si (put_obj s h st) F E" using D(2) by (simp add: rings_ok_def put_obj_def)
  show "info_ok me si n sz (put_obj s h st)" using D(1) by (simp add: info_ok_def put_obj_def)
  show "pages_ok head (put_obj s h st) (set F \<union> set E) xs" using D(4) by (auto simp: pages_ok_def put_obj_def)
  have "A \<inter> cells n sz s \<noteq> {}" using h by blast
  then show "length (C s) < n" using chain_length[OF ok] geo(2) by auto
  show "s \<noteq> NULL" using D(2) s unfolding rings_ok_def slist_def by (metis Un_iff)
  show "h \<noteq> NULL" using cells_range(1)[OF geo(1) h(1)] by simp
qed

lemma slab_invI:
  assumes "info_ok me si n sz st" and "rings_ok si st F E" and "objs_ok st si n sz (set F \<union> set E) C A"
    and "pages_ok head st (set F \<union> set E) xs" and "\<And>s. s \<in> set F \<Longrightarrow> C s \<noteq> [] \<and> length (C s) < n"
    and "\<And>s. s \<in> set E \<Longrightarrow> C s = []" and "length F + length E + length xs < 2 ^ 64"
  shows "slab_inv head me si n sz st F E C A xs"
  using assms by (simp add: slab_inv_def slab_inv0_def)

lemma objs_ok_cong: "slabs st' = slabs st \<Longrightarrow> hdrs st' = hdrs st \<Longrightarrow> item_addr (pgs st') = item_addr (pgs st) \<Longrightarrow>
    objs_ok st' si n sz S C A = objs_ok st si n sz S C A"
  by (simp add: objs_ok_def slab_ok_def)

lemma pages_ok_cong: "slabs st' = slabs st \<Longrightarrow> pgs st' = pgs st \<Longrightarrow> pages_ok head st' S xs = pages_ok head st S xs"
  by (simp add: pages_ok_def)

lemma pages_return:
  assumes p: "pages_ok head st3 S xs" and s: "s \<in> S" "s \<noteq> NULL"
    and it: "it = s_mem_item (slabs st3 s)" "item_addr (pgs st3) it = s"
    and st6: "pgs st6 = mem_mgr_free head it (pgs st3)" "slabs st6 = slabs st3"
  shows "pages_ok head st6 (S - {s}) (xs @ [it])"
proof -
  have ia: "item_addr (pgs st6) = item_addr (pgs st3)" by (simp add: st6 mem_mgr_free_def)
  have new: "it \<notin> set (head # xs)" "it \<noteq> NULL" using p s it by (auto simp: pages_ok_def)
  have "pages_inv head (pgs st6) (xs @ [it])"
    unfolding st6 using p by (intro page_free_last[OF _ new]) (simp add: pages_ok_def)
  moreover have "S - {s} \<union> item_addr (pgs st3) ` set (xs @ [it]) = S \<union> item_addr (pgs st3) ` set xs"
    using s it by auto
  ultimately show ?thesis
    using p s it new unfolding pages_ok_def ia st6(2) by (auto simp: inj_on_def)
qed

lemma slab_free_inv:
  assumes inv: "slab_inv head me si n sz st F E C A xs" and h: "h \<in> A"
  shows "\<exists>st' F' E' C' xs'. bi_slab_free head me (ps_mhead_mem h) st = Inr st' \<and>
    slab_inv head me si n sz st' F' E' C' (A - {h}) xs' \<and> (F' \<noteq> [] \<or> xs' \<noteq> [])"
proof -
  have i: "slab_inv0 head me si n sz st F E C A xs" and lt: "\<And>t. t \<in> set F \<Longrightarrow> length (C t) < n"
    using inv by (auto simp: slab_inv_def)
  note D = slab_inv0D[OF i]
  obtain s where s: "s \<in> set F \<union> set E" "h \<in> cells n sz s" using D(3) h unfolding objs_ok_def by blast
  note P = put_obj_inv[OF i s h]
  define st3 where "st3 = put_obj s h st"
  define C' where "C' = C(s := h # C s)"
  note P = P[folded st3_def C'_def]
  note free = mem_free_put[OF D(1) P(7,8,9,5,6) st3_def, of head]
  have b: "bi_slab_free head me (ps_mhead_mem h) st =
      ps_slab_mem_free head me (ps_mhead_mem h) MEM_MGR_OBJ_SZ SLAB_HDR_SZ st"
    by (simp add: bi_slab_free_def ps_mhead_mem_def)
  have n2: "2 \<le> n" using D(1) by (simp add: info_ok_def)
  have ds: "distinct F" "distinct E" "set F \<inter> set E = {}"
    using D(2) slist_distinct by (auto simp: rings_ok_def)
  consider (full) "Suc (length (C s)) = n" | (first) "length (C s) = 0" | (mid) "Suc (length (C s)) \<noteq> n" "length (C s) \<noteq> 0"
    by blast
  then show ?thesis
  proof cases
    case mid
    then have "s \<in> set F" using s(1) D(6) by auto
    then have "s \<notin> set E" using ds by blast
    have "slab_inv head me si n sz st3 F E C' (A - {h}) xs"
    proof (rule slab_invI[OF P(3,2,1,4)])
      show "C' t \<noteq> [] \<and> length (C' t) < n" if "t \<in> set F" for t
        using D(5)[OF that] lt[OF that] mid P(6) by (simp add: C'_def)
      show "C' t = []" if "t \<in> set E" for t using D(6)[OF that] that \<open>s \<notin> set E\<close> by (auto simp: C'_def)
    qed (fact D(7))
    moreover have "bi_slab_free head me (ps_mhead_mem h) st = Inr st3" "F \<noteq> []"
      using b free mid \<open>s \<in> set F\<close> by auto
    ultimately show ?thesis by blast
  next
    case first
    then have sE: "s \<in> set E" using s(1) D(5) by auto
    obtain st4 st5 where m: "el_rem si s st3 = Inr st4" "ps_list_singleton (slists st4) s" "slabs st4 = slabs st3"
      "fl_add si s st4 = Inr st5" "rings_ok si st5 (ring_insert s F) (remove1 s E)" "slabs st5 = slabs st3"
      "hdrs st5 = hdrs st3" "pgs st5 = pgs st3" "info_ok me si n sz st5"
      using move_to_fl[OF P(2) sE] P(3) by blast
    have S: "set (ring_insert s F) \<union> set (remove1 s E) = set F \<union> set E"
      using sE ds by (auto simp: set_remove1_eq)
    have "slab_inv head me si n sz st5 (ring_insert s F) (remove1 s E) C' (A - {h}) xs"
    proof (rule slab_invI[OF m(9,5)])
      show "objs_ok st5 si n sz (set (ring_insert s F) \<union> set (remove1 s E)) C' (A - {h})"
        unfolding S using P(1) m(6-8) objs_ok_cong by metis
      show "pages_ok head st5 (set (ring_insert s F) \<union> set (remove1 s E)) xs"
        unfolding S using P(4) m(6,8) pages_ok_cong by metis
      show "C' t \<noteq> [] \<and> length (C' t) < n" if "t \<in> set (ring_insert s F)" for t
        using D(5)[of t] lt[of t] that first n2 by (auto simp: C'_def)
      show "C' t = []" if "t \<in> set (remove1 s E)" for t
        using D(6)[of t] that ds by (auto simp: C'_def set_remove1_eq)
      show "length (ring_insert s F) + length (remove1 s E) + length xs < 2 ^ 64"
        using D(7) Suc_length_remove1[OF sE] by simp
    qed
    moreover have "s_memory (slabs st4 s) \<noteq> NULL \<and> s_freelist (slabs st4 s) \<noteq> NULL"
      using P(8,10,11) by (simp add: m(3) st3_def put_obj_def)
    moreover have "ring_insert s F \<noteq> []" by (simp add: ring_insert_def)
    moreover have "bi_slab_free head me (ps_mhead_mem h) st = Inr st5" if "s_memory (slabs st4 s) \<noteq> NULL \<and> s_freelist (slabs st4 s) \<noteq> NULL"
      using b free first n2 m(1,2,4) that by auto
    ultimately show ?thesis by blast
  next
    case full
    have sF: "s \<in> set F" using s(1) D(6) full n2 by fastforce
    then have sE: "s \<notin> set E" using ds by blast
    obtain st4 where m: "fl_rem si s st3 = Inr st4" "slabs st4 = slabs st3" "hdrs st4 = hdrs st3" "pgs st4 = pgs st3"
      "info_ok me si n sz st4"
      "rings_ok si (upd_info si (\<lambda>x. x\<lparr>i_nslabs := (i_nslabs x + (2 ^ 64 - 1)) mod 2 ^ 64\<rparr>) st4) (remove1 s F) E"
      using drop_from_fl[OF P(2) sF] P(3) D(7) by fastforce
    define st5 where "st5 = upd_info si (\<lambda>x. x\<lparr>i_nslabs := (i_nslabs x + (2 ^ 64 - 1)) mod 2 ^ 64\<rparr>) st4"
    define st6 where "st6 = ps_slab_deffree head s st5"
    define it where "it = s_mem_item (slabs st3 s)"
    have f5: "slabs st5 = slabs st3" "hdrs st5 = hdrs st3" "pgs st5 = pgs st3" using m(2-4) by (auto simp: st5_def upd_info_def)
    have p6: "pgs st6 = mem_mgr_free head it (pgs st3)" by (simp add: st6_def ps_slab_deffree_def f5 it_def)
    have ia: "item_addr (pgs st6) = item_addr (pgs st3)" by (simp add: p6 mem_mgr_free_def)
    have S: "set (remove1 s F) \<union> set E = set F \<union> set E - {s}" using ds sE by (auto simp: set_remove1_eq)
    have ok: "slab_ok st3 si n sz s (h # C s) ((A - {h}) \<inter> cells n sz s)"
      using objs_okD[OF P(1) s(1)] by (simp add: C'_def)
    have it: "item_addr (pgs st3) it = s" using ok by (simp add: slab_ok_def it_def)
    have "slab_inv head me si n sz st6 (remove1 s F) E C' (A - {h}) (xs @ [it])"
    proof (rule slab_invI)
      show "info_ok me si n sz st6" using m(5) by (simp add: st6_def ps_slab_deffree_def st5_def upd_info_def info_ok_def)
      show "rings_ok si st6 (remove1 s F) E" using m(6) by (simp add: rings_ok_def st6_def ps_slab_deffree_def st5_def)
      have "(A - {h}) \<inter> cells n sz s = {}" using chain_length(2)[OF ok] info_geo(2)[OF D(1)] full by simp
      then have "objs_ok st3 si n sz (set F \<union> set E - {s}) C' (A - {h})" using P(1) by (intro objs_drop)
      moreover have "slabs st6 = slabs st3" "hdrs st6 = hdrs st3"
        using f5 by (simp_all add: st6_def ps_slab_deffree_def)
      ultimately show "objs_ok st6 si n sz (set (remove1 s F) \<union> set E) C' (A - {h})"
        unfolding S using ia objs_ok_cong by metis
      show "pages_ok head st6 (set (remove1 s F) \<union> set E) (xs @ [it])"
        unfolding S using pages_return[OF P(4) s(1) P(8) it_def it p6] \<open>slabs st6 = slabs st3\<close> by blast
      show "C' t \<noteq> [] \<and> length (C' t) < n" if "t \<in> set (remove1 s F)" for t
        using D(5)[of t] lt[of t] that ds by (auto simp: C'_def set_remove1_eq)
      show "C' t = []" if "t \<in> set E" for t using D(6)[of t] that sE by (auto simp: C'_def)
      show "length (remove1 s F) + length E + length (xs @ [it]) < 2 ^ 64"
        using D(7) Suc_length_remove1[OF sF] by simp
    qed
    moreover have "bi_slab_free head me (ps_mhead_mem h) st = Inr st6"
      using b free full m(1) by (simp add: st6_def st5_def)
    ultimately show ?thesis by blast
  qed
qed

section \<open>Properties\<close>

text \<open>C4: while a page or a free object is left, the allocator returns an object that is not in use
  and overlaps no object in use, and keeps its invariant with that object added.\<close>

theorem slab_alloc_fresh:
  assumes "slab_inv head me si n sz st F E C A xs" and "F \<noteq> [] \<or> xs \<noteq> []"
  shows "\<exists>h st' F' E' C' xs'. bi_slab_alloc head me now si st = Inr (ps_mhead_mem h, st') \<and> h \<notin> A \<and>
    (\<forall>h' \<in> A. \<not> overlap (h, sz) (h', sz)) \<and> slab_inv head me si n sz st' F' E' C' (insert h A) xs'"
proof -
  obtain h st' F' E' C' xs' where a: "bi_slab_alloc head me now si st = Inr (ps_mhead_mem h, st')" "h \<notin> A"
    "slab_inv head me si n sz st' F' E' C' (insert h A) xs'" using slab_alloc_inv[OF assms] by blast
  then have "\<not> overlap (h, sz) (h', sz)" if "h' \<in> A" for h'
    using objects_apart[of head me si n sz st' F' E' C' "insert h A" xs' h h'] that by (auto simp: slab_inv_def)
  with a show ?thesis by blast
qed

text \<open>A slab info that has just been created on a node with free pages.\<close>

lemma slab_create_inv:
  assumes pages: "pages_inv head (pgs st) xs" "apart (item_addr (pgs st) ` set xs)"
      "NULL \<notin> item_addr (pgs st) ` set xs" "inj_on (item_addr (pgs st)) (set xs)" "length xs < 2 ^ 64"
    and sz: "sz = (obj_sz + MHEADER_SZ + 63) div 64 * 64" "2 * sz \<le> MEM_MGR_OBJ_SZ - SLAB_HDR_SZ" and si: "si \<noteq> NULL"
  shows "\<exists>st'. bi_slab_create me si obj_sz st = Inr st' \<and>
    slab_inv head me si ((MEM_MGR_OBJ_SZ - SLAB_HDR_SZ) div sz) sz st' [] [] (\<lambda>_. []) {} xs"
proof -
  have le: "obj_sz + MHEADER_SZ \<le> sz" unfolding sz(1) by linarith
  then have o: "ps_slab_objmemsz obj_sz = sz" using rndup_nat[of "obj_sz + MHEADER_SZ"] sz by (simp add: ps_slab_objmemsz_def)
  define st' where "st' = upd_info si (\<lambda>_. bi_slab_init me obj_sz) st"
  have "0 < sz" using le by simp
  then have "2 \<le> (MEM_MGR_OBJ_SZ - SLAB_HDR_SZ) div sz" using sz(2) by (subst less_eq_div_iff_mult_less_eq) auto
  then have "info_ok me si ((MEM_MGR_OBJ_SZ - SLAB_HDR_SZ) div sz) sz st'"
    using si le sz(2) o \<open>0 < sz\<close> by (auto simp: info_ok_def st'_def upd_info_def bi_slab_init_def)
  moreover have "rings_ok si st' [] []" by (simp add: rings_ok_def st'_def upd_info_def bi_slab_init_def slist_def)
  ultimately have "slab_inv head me si ((MEM_MGR_OBJ_SZ - SLAB_HDR_SZ) div sz) sz st' [] [] (\<lambda>_. []) {} xs"
    using pages by (intro slab_invI) (auto simp: objs_ok_def pages_ok_def st'_def upd_info_def)
  moreover have "bi_slab_create me si obj_sz st = Inr st'" using o sz(2) by (simp add: bi_slab_create_def st'_def)
  ultimately show ?thesis by blast
qed

definition slab_example :: slab_st where
  "slab_example = \<lparr>slabs = (\<lambda>_. \<lparr>s_memory = 0, s_memsz = 0, s_mem_item = 0, s_si = 0, s_freelist = 0, s_nfree = 0\<rparr>),
     hdrs = (\<lambda>_. \<lparr>h_type = 0, h_slab = 0, h_next = 0\<rparr>), infos = (\<lambda>_. bi_slab_init 0 100),
     slists = \<lparr>ln = (\<lambda>_. 0), lp = (\<lambda>_. 0)\<rparr>, pgs = one_page\<rparr>"

lemma slab_example_inv: "slab_inv 64 0 512 8191 128 slab_example [] [] (\<lambda>_. []) {} [4096]"
proof -
  have p: "pages_inv 64 one_page [4096]" and a: "item_addr one_page 4096 = 16777216"
    using one_page_inv by auto
  have o: "ps_slab_objmemsz 100 = 128" using rndup_nat[of 124] by (simp add: ps_slab_objmemsz_def)
  have "info_ok 0 512 8191 128 slab_example" using o by (simp add: info_ok_def slab_example_def bi_slab_init_def)
  moreover have "rings_ok 512 slab_example [] []" by (simp add: rings_ok_def slab_example_def bi_slab_init_def slist_def)
  ultimately show ?thesis
    using p a by (intro slab_invI) (auto simp: objs_ok_def pages_ok_def slab_example_def apart_def)
qed

theorem slab_alloc_fresh_witness:
  "\<exists>h st' F' E' C' xs'. bi_slab_alloc 64 0 7 512 slab_example = Inr (ps_mhead_mem h, st') \<and>
    slab_inv 64 0 512 8191 128 st' F' E' C' {h} xs'"
  using slab_alloc_fresh[OF slab_example_inv, of 7] by auto

text \<open>C26: releasing an object that is in use never aborts and keeps the invariant with the object
  no longer in use; its memory is available again.\<close>

theorem slab_free_live:
  assumes "slab_inv head me si n sz st F E C A xs" and "h \<in> A"
  shows "\<exists>st' F' E' C' xs'. bi_slab_free head me (ps_mhead_mem h) st = Inr st' \<and>
    slab_inv head me si n sz st' F' E' C' (A - {h}) xs' \<and> (F' \<noteq> [] \<or> xs' \<noteq> [])"
  by (rule slab_free_inv[OF assms])

theorem slab_free_live_witness:
  "\<exists>m st st'. bi_slab_alloc 64 0 7 512 slab_example = Inr (m, st) \<and> bi_slab_free 64 0 m st = Inr st'"
proof -
  obtain h st F E C xs where a: "bi_slab_alloc 64 0 7 512 slab_example = Inr (ps_mhead_mem h, st)"
    "slab_inv 64 0 512 8191 128 st F E C {h} xs" using slab_alloc_inv[OF slab_example_inv, of 7] by auto
  from slab_free_live[OF a(2)] a(1) show ?thesis by blast
qed

text \<open>C39: with a single object per slab the invariant fails: releasing that object takes the branch
  for a completely free slab, which unlinks it from the wrong ring. The page goes back to the
  page list while the ring of full slabs still points to it.\<close>

theorem single_object_slab_dangles:
  assumes si: "si \<noteq> NULL" "i_nodeid (infos st si) = me" "i_el (infos st si) = s" "i_fl (infos st si) \<noteq> s"
    and sz: "(ps_slab_objmemsz (i_obj_sz (infos st si)) + SLAB_HDR_SZ) mod 2 ^ 64 \<le> MEM_MGR_OBJ_SZ"
      "ps_slab_max_nobjs (i_obj_sz (infos st si)) MEM_MGR_OBJ_SZ SLAB_HDR_SZ = 1"
    and s: "s \<noteq> NULL" "h_slab (hdrs st h) = s" "s_si (slabs st s) = si" "s_nfree (slabs st s) = 0"
    and pages: "pages_inv head (pgs st) xs" "s_mem_item (slabs st s) \<notin> set (head # xs)" "s_mem_item (slabs st s) \<noteq> NULL"
  shows "\<exists>st'. bi_slab_free head me (ps_mhead_mem h) st = Inr st' \<and> i_el (infos st' si) = s \<and>
    pages_inv head (pgs st') (xs @ [s_mem_item (slabs st s)])"
  using assms page_free_last[OF pages]
  by (simp add: bi_slab_free_def ps_slab_mem_free_def ps_mhead_get_def ps_mhead_mem_def Let_def upd_slab_def
      upd_hdr_def upd_info_def fl_rem_def slab_freelist_rem_def ps_slab_deffree_def)

text \<open>Half a megabyte per object: one object fits into a slab.\<close>

definition single_example :: slab_st where
  "single_example = slab_example\<lparr>infos := (\<lambda>_. (bi_slab_init 0 600000)\<lparr>i_el := 33554432, i_nslabs := 1\<rparr>),
     slabs := (\<lambda>_. \<lparr>s_memory = 33554432, s_memsz = 0, s_mem_item = 8192, s_si = 512, s_freelist = 0, s_nfree = 0\<rparr>),
     hdrs := (\<lambda>_. \<lparr>h_type = 0, h_slab = 33554432, h_next = 0\<rparr>)\<rparr>"

theorem single_object_slab_dangles_witness:
  "\<exists>st'. bi_slab_free 64 0 (ps_mhead_mem 33554560) single_example = Inr st' \<and>
    i_el (infos st' 512) = 33554432 \<and> pages_inv 64 (pgs st') [4096, 8192]"
proof -
  have "ps_slab_objmemsz 600000 = 600064" using rndup_nat[of 600024] by (simp add: ps_slab_objmemsz_def)
  then show ?thesis
    using single_object_slab_dangles[of 512 single_example 0 33554432 33554560 64 "[4096]"] one_page_inv
    by (simp add: single_example_def slab_example_def bi_slab_init_def ps_slab_max_nobjs_def)
qed

text \<open>The size check of \<^verbatim>\<open>bi_slab_create\<close> is too weak: it accepts an object size of which no
  object fits into a slab, although the assertion of the allocation also holds for it.\<close>

theorem create_admits_empty_slab:
  "\<exists>obj_sz st'. bi_slab_create me si obj_sz st = Inr st' \<and> i_obj_sz (infos st' si) = obj_sz \<and>
    obj_sz + SLAB_HDR_SZ \<le> MEM_MGR_OBJ_SZ \<and> ps_slab_max_nobjs obj_sz MEM_MGR_OBJ_SZ SLAB_HDR_SZ = 0"
proof -
  have "ps_slab_objmemsz 1048448 = 1048512" using rndup_nat[of 1048472] by (simp add: ps_slab_objmemsz_def)
  then show ?thesis
    by (intro exI[of _ 1048448]) (simp add: bi_slab_create_def ps_slab_max_nobjs_def upd_info_def bi_slab_init_def)
qed

end
