(* ===== verification/Smr.thy ===== *)
theory Smr
  imports Slab
begin

text \<open>
  Scalable memory reclamation, \<^verbatim>\<open>libs/bi/bi_smr.c\<close> from line 126 on: readers announce that they
  are inside the library, freed objects and modified ranges wait in the rings of their node, and
  the writer takes an object out of the ring when no reader can hold it any more.

  One call runs on the state of one process: its local caches, the shared memory and, on the
  writer, the slab allocator. \<open>clk\<close> is the sequence of time stamps that the calls of
  \<^verbatim>\<open>bi_global_rtdsc\<close> return inside one batch. What a flush does to the processor cache is the
  list of flushed ranges it returns.
\<close>

section \<open>State\<close>

record smr_proc =
  smr_cache :: qsc_local_cache
  wlog_cache :: "core_id \<Rightarrow> qsc_local_cache"
  parsec_time_cache :: "core_id \<Rightarrow> parsec"

definition get_quies_ring :: "gmem \<Rightarrow> node_id \<Rightarrow> addr" where
  "get_quies_ring g n = quies_rings (global_layout g) n"

definition get_wlog_ring :: "gmem \<Rightarrow> node_id \<Rightarrow> core_id \<Rightarrow> addr" where
  "get_wlog_ring g n c = wlog_rings (global_layout g) n c"

definition get_parsec_time :: "gmem \<Rightarrow> node_id \<Rightarrow> core_id \<Rightarrow> addr" where
  "get_parsec_time g n c = parsec_times (global_layout g) n c"

definition set_ring :: "addr \<Rightarrow> bi_qsc_ring \<Rightarrow> gmem \<Rightarrow> gmem" where
  "set_ring a q g = g\<lparr>rings := (rings g)(a := q)\<rparr>"

section \<open>Readers\<close>

definition ps_in_lib :: "parsec \<Rightarrow> bool" where
  "ps_in_lib ps \<longleftrightarrow> time_out ps \<le> time_in ps"

definition bi_enter :: "core_id \<Rightarrow> u64 \<Rightarrow> smr_proc \<Rightarrow> smr_proc" where
  "bi_enter core now p =
     (let ps = parsec_time_cache p core
      in p\<lparr>parsec_time_cache := (parsec_time_cache p)(core := ps\<lparr>time_in := now, time_out := now - 1\<rparr>)\<rparr>)"

definition bi_exit :: "core_id \<Rightarrow> smr_proc \<Rightarrow> smr_proc" where
  "bi_exit core p =
     (let ps = parsec_time_cache p core
      in p\<lparr>parsec_time_cache := (parsec_time_cache p)(core := ps\<lparr>time_out := time_in ps + 1\<rparr>)\<rparr>)"

text \<open>The copy of the whole cache into the shared slots, which are consecutive.\<close>

fun time_flush_loop :: "nat \<Rightarrow> addr \<Rightarrow> smr_proc \<Rightarrow> gmem \<Rightarrow> gmem" where
  "time_flush_loop 0 base p g = g"
| "time_flush_loop (Suc k) base p g =
     (let g' = time_flush_loop k base p g
      in g'\<lparr>parsecs := (parsecs g')(base + PARSEC_SZ * k := parsec_time_cache p k)\<rparr>)"

definition bi_time_flush :: "node_id \<Rightarrow> smr_proc \<Rightarrow> gmem \<Rightarrow> gmem" where
  "bi_time_flush me p g = time_flush_loop NUM_CORE_PER_NODE (get_parsec_time g me 0) p g"

section \<open>Quiescence\<close>

definition bi_quiesce_smr ::
  "node_id \<Rightarrow> nat \<Rightarrow> nat \<Rightarrow> (node_id \<Rightarrow> core_id \<Rightarrow> parsec) \<Rightarrow> u64 \<Rightarrow> u64 result" where
  "bi_quiesce_smr me tot_cpu tot_core rd time =
     bindE (assertE (\<forall>i \<in> {1..<tot_cpu}. (me + i) mod tot_cpu \<noteq> me)) (\<lambda>_.
     Inr (fold (\<lambda>i m. fold (\<lambda>j m. let t = rd ((me + i) mod tot_cpu) j
                               in if ps_in_lib t then (if time_in t < m then time_in t else m) else m)
                      [0..<tot_core] m)
            [0..<tot_cpu] time))"

definition bi_quiesce_cache :: "u64 \<Rightarrow> u64" where
  "bi_quiesce_cache time = time - of_nat FLUSH_GRACE_PERIOD"

definition bi_quiesce ::
  "node_id \<Rightarrow> nat \<Rightarrow> nat \<Rightarrow> (node_id \<Rightarrow> core_id \<Rightarrow> parsec) \<Rightarrow> u64 \<Rightarrow> u64 result" where
  "bi_quiesce me tot_cpu tot_core rd time =
     bindE (bi_quiesce_smr me tot_cpu tot_core rd time) (\<lambda>qsc. Inr (bi_quiesce_cache qsc))"

text \<open>How the shared slots are read.\<close>

definition parsec_rd :: "gmem \<Rightarrow> node_id \<Rightarrow> core_id \<Rightarrow> parsec" where
  "parsec_rd g n c = parsecs g (get_parsec_time g n c)"

section \<open>Local caches\<close>

definition bi_smr_cache_init :: "smr_proc \<Rightarrow> smr_proc" where
  "bi_smr_cache_init p = p\<lparr>smr_cache := qsc_local_cache_init (smr_cache p)\<rparr>"

definition bi_smr_cache_flush ::
  "node_id \<Rightarrow> (nat \<Rightarrow> u64) \<Rightarrow> smr_proc \<Rightarrow> gmem \<Rightarrow> (nat \<times> smr_proc \<times> gmem) result" where
  "bi_smr_cache_flush me clk p g =
     (let a = get_quies_ring g me
      in bindE (qsc_local_cache_flush (smr_cache p) (rings g a) clk) (\<lambda>(r, lc, q).
         Inr (r, p\<lparr>smr_cache := lc\<rparr>, set_ring a q g)))"

definition bi_wlog_cache_init :: "smr_proc \<Rightarrow> smr_proc" where
  "bi_wlog_cache_init p =
     p\<lparr>wlog_cache := (\<lambda>i. if i < NUM_CORE_PER_NODE then qsc_local_cache_init (wlog_cache p i) else wlog_cache p i)\<rparr>"

definition bi_wlog_cache_flush ::
  "node_id \<Rightarrow> core_id \<Rightarrow> (nat \<Rightarrow> u64) \<Rightarrow> smr_proc \<Rightarrow> gmem \<Rightarrow> (nat \<times> smr_proc \<times> gmem) result" where
  "bi_wlog_cache_flush me cid clk p g =
     (let a = get_wlog_ring g me cid
      in bindE (qsc_local_cache_flush (wlog_cache p cid) (rings g a) clk) (\<lambda>(r, lc, q).
         Inr (r, p\<lparr>wlog_cache := (wlog_cache p)(cid := lc)\<rparr>, set_ring a q g)))"

definition bi_qsc_cache_init :: "smr_proc \<Rightarrow> smr_proc" where
  "bi_qsc_cache_init p = bi_wlog_cache_init (bi_smr_cache_init p)"

text \<open>The loop over the write logs in \<^verbatim>\<open>bi_qsc_cache_flush\<close>: \<open>k\<close> remain, from core \<open>i\<close>.\<close>

fun wlog_flush_loop ::
  "nat \<Rightarrow> core_id \<Rightarrow> node_id \<Rightarrow> (nat \<Rightarrow> nat \<Rightarrow> u64) \<Rightarrow> nat \<Rightarrow> smr_proc \<Rightarrow> gmem \<Rightarrow> (nat \<times> smr_proc \<times> gmem) result" where
  "wlog_flush_loop 0 i me clk r p g = Inr (r, p, g)"
| "wlog_flush_loop (Suc k) i me clk r p g =
     bindE (bi_wlog_cache_flush me i (clk (Suc i)) p g) (\<lambda>(r', p', g').
     wlog_flush_loop k (Suc i) me clk (r + r') p' g')"

definition bi_qsc_cache_flush ::
  "node_id \<Rightarrow> nat \<Rightarrow> (nat \<Rightarrow> nat \<Rightarrow> u64) \<Rightarrow> smr_proc \<Rightarrow> gmem \<Rightarrow> (nat \<times> smr_proc \<times> gmem) result" where
  "bi_qsc_cache_flush me tot_core clk p g =
     bindE (bi_smr_cache_flush me (clk 0) p g) (\<lambda>(r, p', g').
     wlog_flush_loop tot_core 0 me clk r p' g')"

section \<open>Freed objects\<close>

definition bi_smr_free ::
  "node_id \<Rightarrow> (nat \<Rightarrow> u64) \<Rightarrow> addr \<Rightarrow> smr_proc \<Rightarrow> gmem \<Rightarrow> slab_st \<Rightarrow> (smr_proc \<times> gmem \<times> slab_st) result" where
  "bi_smr_free me clk buf p g st =
     bindE (assertE (buf \<noteq> NULL)) (\<lambda>_.
     let m = ps_mhead_get buf;
         sz = bi_slab_objmem (s_si (slabs st (h_slab (hdrs st m)))) st;
         st' = ps_mhead_setfree m st;
         a = get_quies_ring g me
     in bindE (qsc_local_cache_put (smr_cache p) (rings g a) clk m sz) (\<lambda>(lc, q).
        Inr (p\<lparr>smr_cache := lc\<rparr>, set_ring a q g, st')))"

text \<open>
  The reclaim loop: as long as the oldest entry is old enough, take it out of the ring and give
  the object back to its slab. The bound is the number of slots.
\<close>

fun smr_reclaim_loop ::
  "nat \<Rightarrow> addr \<Rightarrow> int \<Rightarrow> u64 \<Rightarrow> nat \<Rightarrow> bi_qsc_ring \<Rightarrow> slab_st \<Rightarrow> (nat \<times> bi_qsc_ring \<times> slab_st) result" where
  "smr_reclaim_loop 0 head nid qsc i ql st = Inl Out_of_fuel"
| "smr_reclaim_loop (Suc k) head nid qsc i ql st =
     (case qsc_ring_peek ql of
        None \<Rightarrow> Inr (i, ql, st)
      | Some a \<Rightarrow>
          if qsc < tsc_free a then Inr (i, ql, st)
          else (case qsc_ring_dequeue ql of
                  None \<Rightarrow> Inl Null_deref
                | Some (b, ql') \<Rightarrow>
                    bindE (bi_slab_free head nid (ps_mhead_mem (mh b)) st) (\<lambda>st'.
                    smr_reclaim_loop k head nid qsc (Suc i) ql' st')))"

definition bi_smr_reclaim ::
  "node_id \<Rightarrow> addr \<Rightarrow> nat \<Rightarrow> nat \<Rightarrow> u64 \<Rightarrow> gmem \<Rightarrow> slab_st \<Rightarrow> (nat \<times> gmem \<times> slab_st) result" where
  "bi_smr_reclaim me head tot_cpu tot_core now g st =
     (let a = get_quies_ring g me
      in bindE (assertE (a \<noteq> NULL)) (\<lambda>_.
         case qsc_ring_peek (rings g a) of
           None \<Rightarrow> Inr (0, g, st)
         | Some _ \<Rightarrow>
             bindE (bi_quiesce me tot_cpu tot_core (parsec_rd g) now) (\<lambda>qsc.
             bindE (smr_reclaim_loop MAX_QUI_RING_LEN head (int me) qsc 0 (rings g a) st) (\<lambda>(i, ql, st').
             Inr (i, set_ring a ql g, st')))))"

text \<open>The second loop of \<^verbatim>\<open>bi_smr_flush\<close> and \<^verbatim>\<open>bi_wlog_flush\<close>: flush what is queued in the rings.\<close>

fun rings_flush_loop :: "addr list \<Rightarrow> nat \<Rightarrow> gmem \<Rightarrow> (nat \<times> (addr \<times> nat) list) result" where
  "rings_flush_loop [] r g = Inr (r, [])"
| "rings_flush_loop (a # as) r g =
     (let ql = rings g a; r' = r + (MAX_QUI_RING_LEN + q_tail ql - q_head ql) mod MAX_QUI_RING_LEN
      in bindE (qsc_ring_flush ql) (\<lambda>fs.
         bindE (rings_flush_loop as r' g) (\<lambda>(n, gs). Inr (n, fs @ gs))))"

definition bi_smr_flush ::
  "node_id \<Rightarrow> nat \<Rightarrow> (nat \<Rightarrow> u64) \<Rightarrow> smr_proc \<Rightarrow> gmem \<Rightarrow> (nat \<times> (addr \<times> nat) list \<times> smr_proc \<times> gmem) result" where
  "bi_smr_flush me tot_cpu clk p g =
     bindE (bi_smr_cache_flush me clk p g) (\<lambda>(_, p', g').
     bindE (assertE (\<forall>i \<in> {1..<tot_cpu}. (me + i) mod tot_cpu \<noteq> me \<and>
                       get_quies_ring g' ((me + i) mod tot_cpu) \<noteq> NULL)) (\<lambda>_.
     bindE (rings_flush_loop (map (\<lambda>i. get_quies_ring g' ((me + i) mod tot_cpu)) [0..<tot_cpu]) 0 g') (\<lambda>(r, fs).
     Inr (r, fs, p', g'))))"

section \<open>Modification logs\<close>

definition bi_wlog_free ::
  "node_id \<Rightarrow> (nat \<Rightarrow> u64) \<Rightarrow> addr \<Rightarrow> nat \<Rightarrow> core_id \<Rightarrow> smr_proc \<Rightarrow> gmem \<Rightarrow> (smr_proc \<times> gmem) result" where
  "bi_wlog_free me clk buf sz cid p g =
     bindE (assertE (buf \<noteq> NULL)) (\<lambda>_.
     let a = get_wlog_ring g me cid
     in bindE (qsc_local_cache_put (wlog_cache p cid) (rings g a) clk buf sz) (\<lambda>(lc, q).
        Inr (p\<lparr>wlog_cache := (wlog_cache p)(cid := lc)\<rparr>, set_ring a q g)))"

fun wlog_reclaim_loop :: "nat \<Rightarrow> u64 \<Rightarrow> nat \<Rightarrow> bi_qsc_ring \<Rightarrow> (nat \<times> bi_qsc_ring) result" where
  "wlog_reclaim_loop 0 qsc i ql = Inl Out_of_fuel"
| "wlog_reclaim_loop (Suc k) qsc i ql =
     (case qsc_ring_peek ql of
        None \<Rightarrow> Inr (i, ql)
      | Some a \<Rightarrow>
          if qsc < tsc_free a then Inr (i, ql)
          else (case qsc_ring_dequeue ql of
                  None \<Rightarrow> Inl Null_deref
                | Some (_, ql') \<Rightarrow> wlog_reclaim_loop k qsc (Suc i) ql'))"

definition bi_wlog_reclaim :: "node_id \<Rightarrow> core_id \<Rightarrow> u64 \<Rightarrow> gmem \<Rightarrow> (nat \<times> gmem) result" where
  "bi_wlog_reclaim me cid now g =
     (let a = get_wlog_ring g me cid
      in bindE (assertE (a \<noteq> NULL)) (\<lambda>_.
         case qsc_ring_peek (rings g a) of
           None \<Rightarrow> Inr (0, g)
         | Some _ \<Rightarrow>
             bindE (wlog_reclaim_loop MAX_QUI_RING_LEN (bi_quiesce_cache now) 0 (rings g a)) (\<lambda>(i, ql).
             Inr (i, set_ring a ql g))))"

definition bi_wlog_flush ::
  "node_id \<Rightarrow> nat \<Rightarrow> core_id \<Rightarrow> (nat \<Rightarrow> u64) \<Rightarrow> smr_proc \<Rightarrow> gmem \<Rightarrow>
   (nat \<times> (addr \<times> nat) list \<times> smr_proc \<times> gmem) result" where
  "bi_wlog_flush me tot_cpu cid clk p g =
     bindE (bi_wlog_cache_flush me cid clk p g) (\<lambda>(_, p', g').
     bindE (assertE (\<forall>i \<in> {1..<tot_cpu}. (me + i) mod tot_cpu \<noteq> me)) (\<lambda>_.
     bindE (rings_flush_loop (map (\<lambda>i. get_wlog_ring g' ((me + i) mod tot_cpu) cid) [1..<tot_cpu]) 0 g') (\<lambda>(r, fs).
     Inr (r, fs, p', g'))))"

section \<open>Lemmas on quiescence\<close>

lemma other_node:
  assumes "me < tot" and "i \<in> {1..<tot}"
  shows "(me + i) mod tot \<noteq> (me :: nat)"
  using ring_slot_inj[of i tot 0 me] assms by auto

lemma all_nodes: "0 < tot \<Longrightarrow> (\<lambda>i. (me + i) mod tot) ` {..<tot} = {..<(tot :: nat)}"
proof -
  assume t: "0 < tot"
  have "inj_on (\<lambda>i. (me + i) mod tot) {..<tot}" using ring_slot_inj[of _ tot _ me] by (auto simp: inj_on_def)
  then have "card ((\<lambda>i. (me + i) mod tot) ` {..<tot}) = card {..<tot}" by (rule card_image)
  moreover have "(\<lambda>i. (me + i) mod tot) ` {..<tot} \<subseteq> {..<tot}" using t by auto
  ultimately show ?thesis by (intro card_subset_eq) auto
qed

definition qsc_min :: "parsec \<Rightarrow> u64 \<Rightarrow> u64" where
  "qsc_min t m = (if ps_in_lib t then (if time_in t < m then time_in t else m) else m)"

lemma fold_qsc_min:
  "fold qsc_min ts m \<le> m \<and> (\<forall>t \<in> set ts. ps_in_lib t \<longrightarrow> fold qsc_min ts m \<le> time_in t) \<and>
   (fold qsc_min ts m = m \<or> (\<exists>t \<in> set ts. ps_in_lib t \<and> fold qsc_min ts m = time_in t))"
proof (induction ts arbitrary: m)
  case (Cons t ts)
  have "qsc_min t m \<le> m" "ps_in_lib t \<Longrightarrow> qsc_min t m \<le> time_in t"
    "qsc_min t m = m \<or> ps_in_lib t \<and> qsc_min t m = time_in t" by (auto simp: qsc_min_def)
  with Cons[of "qsc_min t m"] show ?case by (auto intro: order_trans)
qed simp

lemma fold_fold_map: "fold (\<lambda>i. fold f (g i)) is m = fold f (concat (map g is)) m"
  by (induction "is" arbitrary: m) auto

lemma quiesce_smr_spec:
  assumes "me < tot"
  shows "\<exists>q. bi_quiesce_smr me tot tc rd time = Inr q \<and> q \<le> time \<and>
    (\<forall>n < tot. \<forall>c < tc. ps_in_lib (rd n c) \<longrightarrow> q \<le> time_in (rd n c)) \<and>
    (q = time \<or> (\<exists>n < tot. \<exists>c < tc. ps_in_lib (rd n c) \<and> q = time_in (rd n c)))"
proof -
  define ts where "ts = concat (map (\<lambda>i. map (rd ((me + i) mod tot)) [0..<tc]) [0..<tot])"
  have set_ts: "set ts = {rd n c | n c. n < tot \<and> c < tc}"
  proof -
    have "set ts = (\<Union>n \<in> (\<lambda>i. (me + i) mod tot) ` {..<tot}. (rd n) ` {..<tc})"
      by (auto simp: ts_def)
    also have "\<dots> = {rd n c | n c. n < tot \<and> c < tc}" unfolding all_nodes[OF order.strict_trans1[OF zero_le assms]] by auto
    finally show ?thesis .
  qed
  have "fold (\<lambda>j m. let t = rd n j in if ps_in_lib t then if time_in t < m then time_in t else m else m) js m =
      fold qsc_min (map (rd n) js) m" for n js m
    by (induction js arbitrary: m) (simp_all add: qsc_min_def Let_def)
  then have "bi_quiesce_smr me tot tc rd time = Inr (fold qsc_min ts time)"
    using other_node[OF assms] by (simp add: bi_quiesce_smr_def fold_fold_map ts_def)
  with fold_qsc_min[of ts time] set_ts show ?thesis by fastforce
qed

lemma quiesce_cache_nat: "FLUSH_GRACE_PERIOD \<le> unat t \<Longrightarrow> unat (bi_quiesce_cache t) = unat t - FLUSH_GRACE_PERIOD"
  unfolding bi_quiesce_cache_def by (subst unat_sub) (simp_all add: word_le_nat_alt)

section \<open>Lemmas on reclamation\<close>

abbreviation quiesced :: "u64 \<Rightarrow> quies_item \<Rightarrow> bool" where
  "quiesced qsc a \<equiv> tsc_free a \<le> qsc"

lemma reclaim_loop_spec:
  assumes "ring_wf ql" and "slab_inv head nid si n sz st F E C A xs"
    and "mh ` set (takeWhile (quiesced qsc) (ring_items ql)) \<subseteq> A"
    and "distinct (map mh (takeWhile (quiesced qsc) (ring_items ql)))" and "qsc_ring_len ql < k"
  shows "\<exists>ql' st' F' E' C' xs'. smr_reclaim_loop k head nid qsc i ql st =
      Inr (i + length (takeWhile (quiesced qsc) (ring_items ql)), ql', st') \<and> ring_wf ql' \<and>
    ring_items ql' = dropWhile (quiesced qsc) (ring_items ql) \<and>
    slab_inv head nid si n sz st' F' E' C' (A - mh ` set (takeWhile (quiesced qsc) (ring_items ql))) xs'"
  using assms
proof (induction k arbitrary: i ql st F E C A xs)
  case (Suc k)
  show ?case
  proof (cases "ring_items ql")
    case Nil
    then have "qsc_ring_peek ql = None" using peek_spec[OF Suc.prems(1)] by simp
    then show ?thesis using Suc.prems Nil by auto
  next
    case (Cons a rest)
    have pk: "qsc_ring_peek ql = Some a" using peek_spec[OF Suc.prems(1)] Cons by simp
    show ?thesis
    proof (cases "tsc_free a \<le> qsc")
      case False
      then show ?thesis using Suc.prems Cons pk by auto
    next
      case True
      obtain ql1 where dq: "qsc_ring_dequeue ql = Some (a, ql1)" "ring_wf ql1" "ring_items ql1 = rest"
        using dequeue_front[OF Suc.prems(1) Cons] by blast
      let ?tw = "takeWhile (quiesced qsc) rest"
      have aA: "mh a \<in> A" and rest: "mh ` set ?tw \<subseteq> A - {mh a}" "distinct (map mh ?tw)"
        using Suc.prems(3,4) Cons True by (auto, metis image_eqI)
      obtain st1 F1 E1 C1 xs1 where f: "bi_slab_free head nid (ps_mhead_mem (mh a)) st = Inr st1"
        "slab_inv head nid si n sz st1 F1 E1 C1 (A - {mh a}) xs1"
        using slab_free_inv[OF Suc.prems(2) aA] by blast
      have len: "qsc_ring_len ql1 < k"
        using Suc.prems(5) length_ring_items[of ql] length_ring_items[of ql1] Cons dq(3) by simp
      obtain ql' st' F' E' C' xs' where IH: "smr_reclaim_loop k head nid qsc (Suc i) ql1 st1 =
            Inr (Suc i + length ?tw, ql', st')" "ring_wf ql'" "ring_items ql' = dropWhile (quiesced qsc) rest"
          "slab_inv head nid si n sz st' F' E' C' (A - {mh a} - mh ` set ?tw) xs'"
        using Suc.IH[OF dq(2) f(2), where i = "Suc i"] rest len dq(3) by auto
      have "A - {mh a} - mh ` set ?tw = A - mh ` set (a # ?tw)" by auto
      then show ?thesis using IH pk dq(1) f(1) True Cons by (auto simp: not_less)
    qed
  qed
qed simp

lemma wlog_loop_spec:
  assumes "ring_wf ql" and "qsc_ring_len ql < k"
  shows "\<exists>ql'. wlog_reclaim_loop k qsc i ql =
      Inr (i + length (takeWhile (quiesced qsc) (ring_items ql)), ql') \<and> ring_wf ql' \<and>
    ring_items ql' = dropWhile (quiesced qsc) (ring_items ql)"
  using assms
proof (induction k arbitrary: i ql)
  case (Suc k)
  show ?case
  proof (cases "ring_items ql")
    case Nil
    then show ?thesis using peek_spec[OF Suc.prems(1)] Suc.prems by auto
  next
    case (Cons a rest)
    have pk: "qsc_ring_peek ql = Some a" using peek_spec[OF Suc.prems(1)] Cons by simp
    obtain ql1 where dq: "qsc_ring_dequeue ql = Some (a, ql1)" "ring_wf ql1" "ring_items ql1 = rest"
      using dequeue_front[OF Suc.prems(1) Cons] by blast
    have len: "qsc_ring_len ql1 < k"
      using Suc.prems(2) length_ring_items[of ql] length_ring_items[of ql1] Cons dq(3) by simp
    show ?thesis
      using Suc.IH[OF dq(2) len, of "Suc i"] Suc.prems(1) pk dq Cons by (auto simp: not_less)
  qed
qed simp

section \<open>Properties of the operations\<close>



lemma smr_reclaim_spec:
  assumes a: "a = get_quies_ring g me" "a \<noteq> NULL" "ring_wf (rings g a)" and me: "me < tot"
    and slab: "slab_inv head (int me) si n sz st F E C A xs"
    and q: "bi_quiesce me tot tc (parsec_rd g) now = Inr qsc"
    and tw: "tw = takeWhile (quiesced qsc) (ring_items (rings g a))" "mh ` set tw \<subseteq> A" "distinct (map mh tw)"
  shows "\<exists>g' st' F' E' C' xs'. bi_smr_reclaim me head tot tc now g st = Inr (length tw, g', st') \<and>
    ring_wf (rings g' a) \<and> tw @ ring_items (rings g' a) = ring_items (rings g a) \<and>
    slab_inv head (int me) si n sz st' F' E' C' (A - mh ` set tw) xs'"
proof (cases "ring_items (rings g a)")
  case Nil
  then have "qsc_ring_peek (rings g a) = None" using peek_spec[OF a(3)] by simp
  then show ?thesis using a slab tw Nil by (auto simp: bi_smr_reclaim_def Let_def)
next
  case (Cons x rest)
  then have pk: "qsc_ring_peek (rings g a) = Some x" using peek_spec[OF a(3)] by simp
  obtain ql' st' F' E' C' xs' where l: "smr_reclaim_loop MAX_QUI_RING_LEN head (int me) qsc 0 (rings g a) st =
      Inr (length tw, ql', st')" "ring_wf ql'" "ring_items ql' = dropWhile (quiesced qsc) (ring_items (rings g a))"
      "slab_inv head (int me) si n sz st' F' E' C' (A - mh ` set tw) xs'"
    using reclaim_loop_spec[OF a(3) slab, of qsc MAX_QUI_RING_LEN 0] tw qsc_ring_len_less[of "rings g a"] by auto
  have "bi_smr_reclaim me head tot tc now g st = Inr (length tw, set_ring a ql' g, st')"
    using a(2) pk q l(1) unfolding bi_smr_reclaim_def Let_def a(1)[symmetric] by simp
  moreover have "tw @ ring_items ql' = ring_items (rings g a)" using l(3) tw(1) by simp
  ultimately show ?thesis using l(2,4) by (auto simp: set_ring_def)
qed


lemma smr_gmem_example: "get_quies_ring (gmem_example\<lparr>global_layout := zero_layout\<lparr>quies_rings := (\<lambda>_. 64)\<rparr>,
    rings := (\<lambda>_. ring_example)\<rparr>) 0 = 64"
  by (simp add: get_quies_ring_def)


text \<open>C37: before the clock has passed the grace period the subtraction of the grace period wraps
  around, and every entry counts as quiesced, whoever is inside the library.\<close>

theorem quiesce_wraps_early:
  assumes "me < tot" and "unat time < FLUSH_GRACE_PERIOD"
  shows "\<exists>q. bi_quiesce me tot tc rd time = Inr q \<and> time < q"
proof -
  obtain q where q: "bi_quiesce_smr me tot tc rd time = Inr q" "q \<le> time"
    using quiesce_smr_spec[OF assms(1)] by blast
  then have "unat q < FLUSH_GRACE_PERIOD" using assms(2) by (simp add: word_le_nat_alt)
  then have "unat (bi_quiesce_cache q) = unat q + 2 ^ 64 - FLUSH_GRACE_PERIOD"
    unfolding bi_quiesce_cache_def by (subst unat_sub_if') simp
  then have "time < bi_quiesce_cache q" using assms(2) by (simp add: word_less_nat_alt)
  with q(1) show ?thesis by (simp add: bi_quiesce_def)
qed

theorem quiesce_wraps_early_witness:
  "\<exists>q. bi_quiesce 0 2 1 (\<lambda>_ _. \<lparr>time_in = 3, time_out = 2\<rparr>) 500 = Inr q \<and> 500 < q"
  using quiesce_wraps_early[of 0 2 500 1 "\<lambda>_ _. \<lparr>time_in = 3, time_out = 2\<rparr>"] by simp

lemma word_pred_le: "(t :: u64) - 1 \<le> t \<longleftrightarrow> t \<noteq> 0"
proof (cases "t = 0")
  case False
  then have "unat (t - 1) = unat t - 1" by (rule unat_minus_one)
  with False show ?thesis by (simp add: word_le_nat_alt)
qed simp

lemma word_succ_le: "(t :: u64) + 1 \<le> t \<longleftrightarrow> t = - 1"
proof (cases "t = - 1")
  case False
  then have "1 + t \<noteq> 0" by (simp add: add_eq_0_iff)
  then have "unat (1 + t) = Suc (unat t)" by (rule unatSuc)
  with False show ?thesis by (simp add: word_le_nat_alt add.commute)
qed simp

text \<open>A reader that enters is seen inside the library until it exits, unless it enters at time 0,
  where the exit stamp wraps around and the reader stays invisible.\<close>

theorem enter_exit_visible:
  "(ps_in_lib (parsec_time_cache (bi_enter c now p) c) \<longleftrightarrow> now \<noteq> 0) \<and>
   (ps_in_lib (parsec_time_cache (bi_exit c (bi_enter c now p)) c) \<longleftrightarrow> now = - 1)"
  by (simp add: ps_in_lib_def bi_enter_def bi_exit_def Let_def word_pred_le word_succ_le)

lemma time_flush_loop_spec:
  "parsecs (time_flush_loop k base p g) a =
     (if \<exists>j < k. a = base + PARSEC_SZ * j then parsec_time_cache p ((a - base) div PARSEC_SZ) else parsecs g a) \<and>
   global_layout (time_flush_loop k base p g) = global_layout g"
  by (induction k) (auto simp: Let_def less_Suc_eq)

text \<open>The slots of the entry times are consecutive from \<open>base\<close>, as \<^verbatim>\<open>init_parsec_times\<close> lays them out.\<close>

definition times_at :: "addr \<Rightarrow> gmem \<Rightarrow> bool" where
  "times_at base g \<longleftrightarrow> (\<forall>n < NUM_NODES. \<forall>c < NUM_CORE_PER_NODE.
     get_parsec_time g n c = base + PARSEC_SZ * (n * NUM_CORE_PER_NODE + c))"

lemma time_flush_rd:
  assumes "times_at base g" and "n < NUM_NODES" and "me < NUM_NODES" and "c < NUM_CORE_PER_NODE"
  shows "parsec_rd (bi_time_flush me p g) n c = (if n = me then parsec_time_cache p c else parsec_rd g n c)"
proof -
  have at: "get_parsec_time g n c = base + PARSEC_SZ * (n * NUM_CORE_PER_NODE + c)"
    "get_parsec_time g me 0 = base + PARSEC_SZ * (me * NUM_CORE_PER_NODE)"
    using assms by (auto simp: times_at_def)
  have "(\<exists>j < 18. base + 64 * (n * 18 + c) = base + 64 * (me * 18) + 64 * j) \<longleftrightarrow> n = me"
    using radix_inj[of c 18 _ n me] assms(4) by (auto simp: add_mult_distrib2[symmetric])
  then show ?thesis
    using time_flush_loop_spec[of 18 "get_parsec_time g me 0" p g "get_parsec_time g n c"] at
    by (auto simp: parsec_rd_def bi_time_flush_def get_parsec_time_def)
qed

lemma time_flush_layout: "times_at base (bi_time_flush me p g) = times_at base g"
  using time_flush_loop_spec by (simp add: times_at_def bi_time_flush_def get_parsec_time_def)

text \<open>After the flush of the entry times the shared slots of the node hold the times of its cores,
  and the slots of the other nodes are as before.\<close>

theorem time_flush_publishes:
  assumes "times_at base g" and "n < NUM_NODES" and "me < NUM_NODES" and "c < NUM_CORE_PER_NODE"
  shows "parsec_rd (bi_time_flush me p g) n c = (if n = me then parsec_time_cache p c else parsec_rd g n c)"
  using assms by (rule time_flush_rd)

definition reader_example :: smr_proc where
  "reader_example = \<lparr>smr_cache = cache_example, wlog_cache = (\<lambda>_. cache_example),
     parsec_time_cache = (\<lambda>c. \<lparr>time_in = of_nat c + 100, time_out = 99\<rparr>)\<rparr>"

theorem time_flush_publishes_witness:
  "parsec_rd (bi_time_flush 2 reader_example (gmem_example\<lparr>global_layout :=
     zero_layout\<lparr>parsec_times := (\<lambda>n c. 4096 + 64 * (n * 18 + c))\<rparr>\<rparr>)) 2 5 = \<lparr>time_in = 105, time_out = 99\<rparr>"
  using time_flush_publishes[of 4096 "gmem_example\<lparr>global_layout :=
      zero_layout\<lparr>parsec_times := (\<lambda>n c. 4096 + 64 * (n * 18 + c))\<rparr>\<rparr>" 2 2 5 reader_example]
  by (simp add: times_at_def get_parsec_time_def reader_example_def)

lemma rings_flush_spec:
  assumes "\<And>a. a \<in> set as \<Longrightarrow> ring_wf (rings g a)"
  shows "rings_flush_loop as r g = Inr (r + sum_list (map (\<lambda>a. qsc_ring_len (rings g a)) as),
    concat (map (\<lambda>a. ranges (rings g a)) as))"
  using assms
proof (induction as arbitrary: r)
  case (Cons a as)
  have "(MAX_QUI_RING_LEN + q_tail (rings g a) - q_head (rings g a)) mod MAX_QUI_RING_LEN = qsc_ring_len (rings g a)"
    by (simp add: qsc_ring_len_def add.commute)
  with Cons qsc_ring_flush_ranges[of "rings g a"] show ?case by (simp add: ranges_def Let_def add.assoc)
qed simp

lemma smr_flush_spec:
  assumes me: "me < tot" and wf: "\<And>n. n < tot \<Longrightarrow> ring_wf (rings g (get_quies_ring g n))"
    and nn: "\<And>n. n < tot \<Longrightarrow> get_quies_ring g n \<noteq> NULL"
    and f: "bi_smr_cache_flush me clk p g = Inr (r0, p', g')"
  shows "\<exists>r. bi_smr_flush me tot clk p g = Inr (r, concat (map (\<lambda>i. ranges (rings g' (get_quies_ring g ((me + i) mod tot))))
      [0..<tot]), p', g') \<and>
    ranges (rings g' (get_quies_ring g me)) = ranges (rings g (get_quies_ring g me)) @ lc_pending (smr_cache p) \<and>
    lc_pending (smr_cache p') = [] \<and>
    (\<forall>n < tot. ring_wf (rings g' (get_quies_ring g n))) \<and> (\<forall>n. get_quies_ring g' n = get_quies_ring g n) \<and> parsec_rd g' = parsec_rd g"
proof -
  let ?a = "get_quies_ring g me"
  obtain lc q where lf: "qsc_local_cache_flush (smr_cache p) (rings g ?a) clk = Inr (r0, lc, q)"
    and p': "p' = p\<lparr>smr_cache := lc\<rparr>" and g': "g' = set_ring ?a q g"
    using f by (auto simp: bi_smr_cache_flush_def Let_def result_simps)
  note fl = ranges_flush[OF wf[OF me] lf]
  have lay: "get_quies_ring g' n = get_quies_ring g n" for n by (simp add: g' set_ring_def get_quies_ring_def)
  have wf': "ring_wf (rings g' (get_quies_ring g n))" if "n < tot" for n
    using wf[OF that] fl by (simp add: g' set_ring_def)
  have lt: "(me + i) mod tot < tot" for i using me by simp
  have "\<forall>i \<in> {1..<tot}. (me + i) mod tot \<noteq> me \<and> get_quies_ring g' ((me + i) mod tot) \<noteq> NULL"
    using other_node[OF me] nn lt by (simp add: lay)
  moreover have "rings_flush_loop (map (\<lambda>i. get_quies_ring g' ((me + i) mod tot)) [0..<tot]) 0 g' =
      Inr (0 + sum_list (map (\<lambda>a. qsc_ring_len (rings g' a)) (map (\<lambda>i. get_quies_ring g' ((me + i) mod tot)) [0..<tot])),
        concat (map (\<lambda>a. ranges (rings g' a)) (map (\<lambda>i. get_quies_ring g' ((me + i) mod tot)) [0..<tot])))"
    using wf' lt by (intro rings_flush_spec) (auto simp: lay)
  moreover have "parsec_rd g' = parsec_rd g" by (simp add: g' set_ring_def parsec_rd_def get_parsec_time_def fun_eq_iff)
  ultimately show ?thesis
    using fl f wf' by (simp add: bi_smr_flush_def lay o_def) (simp add: g' set_ring_def p')
qed

text \<open>A flush of the freed objects first moves the node's own pending objects into its ring and
  then flushes, for every active node, exactly the memory of the objects queued in its ring.\<close>

theorem smr_flush_covers:
  assumes me: "me < tot" and wf: "\<And>n. n < tot \<Longrightarrow> ring_wf (rings g (get_quies_ring g n))"
    and nn: "\<And>n. n < tot \<Longrightarrow> get_quies_ring g n \<noteq> NULL"
    and f: "bi_smr_cache_flush me clk p g = Inr (r0, p', g')"
  shows "\<exists>r. bi_smr_flush me tot clk p g = Inr (r, concat (map (\<lambda>i. ranges (rings g' (get_quies_ring g ((me + i) mod tot))))
      [0..<tot]), p', g') \<and>
    ranges (rings g' (get_quies_ring g me)) = ranges (rings g (get_quies_ring g me)) @ lc_pending (smr_cache p) \<and>
    lc_pending (smr_cache p') = []"
  using smr_flush_spec[OF assms] by blast

definition two_rings_example :: gmem where
  "two_rings_example = gmem_example\<lparr>global_layout := zero_layout\<lparr>quies_rings := (\<lambda>n. 64 + 8192 * n)\<rparr>,
     rings := (\<lambda>_. ring_example)\<rparr>"

theorem smr_flush_covers_witness:
  "\<exists>r fs p' g'. bi_smr_flush 1 2 (\<lambda>_. 7) (reader_example\<lparr>smr_cache := cache_example\<lparr>lc_m := (\<lambda>_. 4096),
      lc_sz := (\<lambda>_. 256), lc_cnt := 1\<rparr>\<rparr>) two_rings_example = Inr (r, fs, p', g') \<and>
    ranges (rings g' 8256) = [(4096, 256)] \<and> lc_pending (smr_cache p') = []"
proof -
  let ?p = "reader_example\<lparr>smr_cache := cache_example\<lparr>lc_m := (\<lambda>_. 4096), lc_sz := (\<lambda>_. 256), lc_cnt := 1\<rparr>\<rparr>"
  have a: "get_quies_ring two_rings_example n = 64 + 8192 * n" for n
    by (simp add: two_rings_example_def get_quies_ring_def)
  have w: "ring_wf (rings two_rings_example b)" "ranges (rings two_rings_example b) = []" for b
    by (simp_all add: two_rings_example_def ring_wf_def ring_example_def ranges_def ring_items_def qsc_ring_len_def)
  obtain r0 p' g' where f: "bi_smr_cache_flush 1 (\<lambda>_. 7) ?p two_rings_example = Inr (r0, p', g')"
    by (simp add: bi_smr_cache_flush_def qsc_local_cache_flush_def qsc_ring_enqueue_batch_def two_rings_example_def
        ring_example_def cache_example_def Let_def)
  show ?thesis
    using smr_flush_covers[OF _ _ _ f, of 2] a w by (auto simp: lc_pending_def cache_example_def)
qed

end
