(* ===== verification/Smr_Protocol.thy ===== *)
theory Smr_Protocol
  imports Smr
begin

text \<open>
  The reclamation protocol as a transition system over the operations of \<^verbatim>\<open>libs/bi/bi_smr.c\<close>. Readers
  on all nodes enter and leave the library (\<^verbatim>\<open>bi_enter\<close>, \<^verbatim>\<open>bi_exit\<close>), the server of each node
  publishes their times (\<^verbatim>\<open>bi_time_flush\<close>), a writer unlinks objects, stamps them when the local cache
  is flushed into the ring, and takes them back when \<^verbatim>\<open>bi_quiesce\<close> allows it, as \<^verbatim>\<open>bi_smr_reclaim\<close>
  does with the head of the ring.

  Time is a global clock. A time stamp is what \<^verbatim>\<open>bi_global_rtdsc\<close> returns: it may be behind the
  clock by the age of the reader's copy of the shared word. On memory that is not coherent a
  reader may still find an unlinked object for a while, until the flushes of its node have removed
  the stale lines. The two bounds and the flush period are the fields of \<open>smr_cfg\<close>; safety needs
  that they fit into \<^verbatim>\<open>FLUSH_GRACE_PERIOD\<close>.
\<close>

section \<open>States and steps\<close>

record smr_cfg =
  nodes :: nat
  cores :: nat
  flush_gap :: nat
  stale_for :: nat
  clock_lag :: nat

record proto =
  clock :: nat
  readers :: "node_id \<Rightarrow> smr_proc"
  shm :: gmem
  flushed_at :: "node_id \<Rightarrow> nat"
  entered_at :: "node_id \<Rightarrow> core_id \<Rightarrow> nat"
  refs :: "node_id \<Rightarrow> core_id \<Rightarrow> addr set"
  unlinked_at :: "addr \<Rightarrow> nat option"
  freed_stamp :: "addr \<Rightarrow> u64 option"
  reclaimed :: "addr set"

abbreviation reader_slot :: "proto \<Rightarrow> node_id \<Rightarrow> core_id \<Rightarrow> parsec" where
  "reader_slot s n c \<equiv> parsec_time_cache (readers s n) c"

definition stamp_ok :: "smr_cfg \<Rightarrow> proto \<Rightarrow> u64 \<Rightarrow> bool" where
  "stamp_ok cfg s t \<longleftrightarrow> unat t \<le> clock s \<and> clock s \<le> unat t + clock_lag cfg"

text \<open>An object can be reached while it is linked and, through stale lines, for a while afterwards.\<close>

definition reachable_obj :: "smr_cfg \<Rightarrow> proto \<Rightarrow> addr \<Rightarrow> bool" where
  "reachable_obj cfg s x \<longleftrightarrow> (case unlinked_at s x of None \<Rightarrow> True | Some t \<Rightarrow> clock s \<le> t + stale_for cfg)"

inductive smr_step :: "smr_cfg \<Rightarrow> proto \<Rightarrow> proto \<Rightarrow> bool" for cfg where
  Tick: "clock s + d + 1 < 2 ^ 64 \<Longrightarrow> (\<And>n. n < nodes cfg \<Longrightarrow> clock s + d \<le> flushed_at s n + flush_gap cfg) \<Longrightarrow>
    smr_step cfg s (s\<lparr>clock := clock s + d\<rparr>)"
| Enter: "n < nodes cfg \<Longrightarrow> c < cores cfg \<Longrightarrow> \<not> ps_in_lib (reader_slot s n c) \<Longrightarrow> stamp_ok cfg s t \<Longrightarrow>
    smr_step cfg s (s\<lparr>readers := (readers s)(n := bi_enter c t (readers s n)),
      entered_at := (entered_at s)(n := (entered_at s n)(c := clock s))\<rparr>)"
| Exit: "n < nodes cfg \<Longrightarrow> c < cores cfg \<Longrightarrow> ps_in_lib (reader_slot s n c) \<Longrightarrow>
    smr_step cfg s (s\<lparr>readers := (readers s)(n := bi_exit c (readers s n)), refs := (refs s)(n := (refs s n)(c := {}))\<rparr>)"
| Flush: "n < nodes cfg \<Longrightarrow>
    smr_step cfg s (s\<lparr>shm := bi_time_flush n (readers s n) (shm s), flushed_at := (flushed_at s)(n := clock s)\<rparr>)"
| Acquire: "n < nodes cfg \<Longrightarrow> c < cores cfg \<Longrightarrow> ps_in_lib (reader_slot s n c) \<Longrightarrow> reachable_obj cfg s x \<Longrightarrow>
    smr_step cfg s (s\<lparr>refs := (refs s)(n := (refs s n)(c := insert x (refs s n c)))\<rparr>)"
| Unlink: "unlinked_at s x = None \<Longrightarrow> smr_step cfg s (s\<lparr>unlinked_at := (unlinked_at s)(x \<mapsto> clock s)\<rparr>)"
| Free: "unlinked_at s x \<noteq> None \<Longrightarrow> freed_stamp s x = None \<Longrightarrow> stamp_ok cfg s t \<Longrightarrow>
    smr_step cfg s (s\<lparr>freed_stamp := (freed_stamp s)(x \<mapsto> t)\<rparr>)"
| Reclaim: "n < nodes cfg \<Longrightarrow> freed_stamp s x = Some u \<Longrightarrow> stamp_ok cfg s t \<Longrightarrow>
    bi_quiesce n (nodes cfg) (cores cfg) (parsec_rd (shm s)) t = Inr q \<Longrightarrow> u \<le> q \<Longrightarrow>
    smr_step cfg s (s\<lparr>reclaimed := insert x (reclaimed s)\<rparr>)"

definition smr_init :: "smr_cfg \<Rightarrow> proto \<Rightarrow> bool" where
  "smr_init cfg s \<longleftrightarrow>
     FLUSH_GRACE_PERIOD + clock_lag cfg \<le> clock s \<and> clock s + 1 < 2 ^ 64 \<and> (\<exists>base. times_at base (shm s)) \<and>
     (\<forall>n < nodes cfg. flushed_at s n = clock s \<and>
        (\<forall>c < cores cfg. \<not> ps_in_lib (reader_slot s n c) \<and> \<not> ps_in_lib (parsec_rd (shm s) n c))) \<and>
     (\<forall>n c. refs s n c = {}) \<and> (\<forall>x. unlinked_at s x = None \<and> freed_stamp s x = None) \<and> reclaimed s = {}"

inductive_cases smr_stepE: "smr_step cfg s s'"

section \<open>Invariant\<close>

definition reader_inv :: "smr_cfg \<Rightarrow> proto \<Rightarrow> node_id \<Rightarrow> core_id \<Rightarrow> bool" where
  "reader_inv cfg s n c \<longleftrightarrow>
     (ps_in_lib (reader_slot s n c) \<longrightarrow> FLUSH_GRACE_PERIOD \<le> unat (time_in (reader_slot s n c)) \<and>
        unat (time_in (reader_slot s n c)) \<le> entered_at s n c \<and> entered_at s n c \<le> clock s \<and>
        (parsec_rd (shm s) n c = reader_slot s n c \<or> flushed_at s n \<le> entered_at s n c)) \<and>
     (ps_in_lib (parsec_rd (shm s) n c) \<longrightarrow> FLUSH_GRACE_PERIOD \<le> unat (time_in (parsec_rd (shm s) n c)))"

definition object_inv :: "smr_cfg \<Rightarrow> proto \<Rightarrow> addr \<Rightarrow> bool" where
  "object_inv cfg s x \<longleftrightarrow> (\<forall>t. unlinked_at s x = Some t \<longrightarrow> t \<le> clock s) \<and>
     (\<forall>u. freed_stamp s x = Some u \<longrightarrow> (\<exists>t. unlinked_at s x = Some t \<and> t \<le> unat u + clock_lag cfg)) \<and>
     (x \<in> reclaimed s \<longrightarrow> (\<exists>t. unlinked_at s x = Some t \<and> t + stale_for cfg < clock s)) \<and>
     (\<forall>n c. x \<in> refs s n c \<longrightarrow> n < nodes cfg \<and> c < cores cfg \<and> ps_in_lib (reader_slot s n c) \<and> x \<notin> reclaimed s \<and>
        (\<forall>t. unlinked_at s x = Some t \<longrightarrow> entered_at s n c \<le> t + stale_for cfg))"

definition proto_inv :: "smr_cfg \<Rightarrow> proto \<Rightarrow> bool" where
  "proto_inv cfg s \<longleftrightarrow>
     FLUSH_GRACE_PERIOD + clock_lag cfg \<le> clock s \<and> clock s + 1 < 2 ^ 64 \<and> (\<exists>base. times_at base (shm s)) \<and>
     (\<forall>n < nodes cfg. flushed_at s n \<le> clock s \<and> clock s \<le> flushed_at s n + flush_gap cfg \<and>
        (\<forall>c < cores cfg. reader_inv cfg s n c)) \<and>
     (\<forall>x. object_inv cfg s x)"

lemma smr_init_inv: "smr_init cfg s \<Longrightarrow> proto_inv cfg s"
  by (auto simp: smr_init_def proto_inv_def reader_inv_def object_inv_def)

lemma proto_reader: "proto_inv cfg s \<Longrightarrow> n < nodes cfg \<Longrightarrow> c < cores cfg \<Longrightarrow> reader_inv cfg s n c"
  and proto_object: "proto_inv cfg s \<Longrightarrow> object_inv cfg s x"
  by (auto simp: proto_inv_def)

lemma entered_before: "proto_inv cfg s \<Longrightarrow> n < nodes cfg \<Longrightarrow> c < cores cfg \<Longrightarrow> ps_in_lib (reader_slot s n c) \<Longrightarrow>
    unat (time_in (reader_slot s n c)) \<le> entered_at s n c \<and> entered_at s n c \<le> clock s"
  using proto_reader[of cfg s n c] by (simp add: reader_inv_def)

lemma enter_slot [simp]:
  "parsec_time_cache (bi_enter c t p) = (parsec_time_cache p)(c := \<lparr>time_in = t, time_out = t - 1\<rparr>)"
  "parsec_time_cache (bi_exit c p) =
    (parsec_time_cache p)(c := (parsec_time_cache p c)\<lparr>time_out := time_in (parsec_time_cache p c) + 1\<rparr>)"
  by (auto simp: bi_enter_def bi_exit_def Let_def)

lemma exit_not_in_lib: "ps_in_lib (p\<lparr>time_out := time_in p + 1\<rparr>) \<longleftrightarrow> time_in p = - 1"
  by (simp add: ps_in_lib_def word_succ_le)

text \<open>The contract between the flush period, the staleness bound and the grace period.\<close>

locale grace_budget =
  fixes cfg :: smr_cfg
  assumes nodes_bound: "nodes cfg \<le> NUM_NODES" and cores_bound: "cores cfg \<le> NUM_CORE_PER_NODE"
    and budget: "stale_for cfg + clock_lag cfg + flush_gap cfg < FLUSH_GRACE_PERIOD"
begin

text \<open>The core of the protocol: what may be reclaimed now is held by nobody and can be reached by nobody.\<close>

lemma reclaim_unreachable:
  assumes inv: "proto_inv cfg s" and n: "n < nodes cfg" and x: "freed_stamp s x = Some u" and t: "stamp_ok cfg s t"
    and q: "bi_quiesce n (nodes cfg) (cores cfg) (parsec_rd (shm s)) t = Inr q" and u: "u \<le> q"
  shows "\<exists>b. unlinked_at s x = Some b \<and> b + stale_for cfg < clock s \<and> (\<forall>n c. x \<notin> refs s n c)"
proof -
  let ?G = FLUSH_GRACE_PERIOD
  obtain m where m: "bi_quiesce_smr n (nodes cfg) (cores cfg) (parsec_rd (shm s)) t = Inr m" "m \<le> t"
      "\<And>n c. n < nodes cfg \<Longrightarrow> c < cores cfg \<Longrightarrow> ps_in_lib (parsec_rd (shm s) n c) \<Longrightarrow> m \<le> time_in (parsec_rd (shm s) n c)"
      "m = t \<or> (\<exists>n < nodes cfg. \<exists>c < cores cfg. ps_in_lib (parsec_rd (shm s) n c) \<and> m = time_in (parsec_rd (shm s) n c))"
    using quiesce_smr_spec[OF n, of "cores cfg" "parsec_rd (shm s)" t] by blast
  have t': "unat t \<le> clock s" "?G \<le> unat t" using t inv by (auto simp: stamp_ok_def proto_inv_def)
  then have "?G \<le> unat m" using m(4) inv by (auto simp: proto_inv_def reader_inv_def)
  moreover have "q = bi_quiesce_cache m" using q m(1) by (simp add: bi_quiesce_def)
  ultimately have um: "unat u + ?G \<le> unat m" using quiesce_cache_nat[of m] u by (simp add: word_le_nat_alt)
  then have uc: "unat u + ?G \<le> clock s" using m(2) t' by (simp add: word_le_nat_alt)
  obtain b where b: "unlinked_at s x = Some b" "b \<le> unat u + clock_lag cfg"
    using proto_object[OF inv, of x] x by (auto simp: object_inv_def)
  have "x \<notin> refs s k c" for k c
  proof
    assume r: "x \<in> refs s k c"
    have k: "k < nodes cfg" "c < cores cfg" "ps_in_lib (reader_slot s k c)" "entered_at s k c \<le> b + stale_for cfg"
      using inv r b(1) by (auto simp: proto_inv_def object_inv_def)
    have e: "unat (time_in (reader_slot s k c)) \<le> entered_at s k c"
      "parsec_rd (shm s) k c = reader_slot s k c \<or> flushed_at s k \<le> entered_at s k c"
      "clock s \<le> flushed_at s k + flush_gap cfg"
      using inv k by (auto simp: proto_inv_def reader_inv_def)
    from e(2) show False
    proof
      assume "parsec_rd (shm s) k c = reader_slot s k c"
      then have "unat m \<le> entered_at s k c" using m(3)[OF k(1,2)] k(3) e(1) by (simp add: word_le_nat_alt)
      then show False using um k(4) b(2) budget by linarith
    next
      assume "flushed_at s k \<le> entered_at s k c"
      then show False using uc e(3) k(4) b(2) budget by linarith
    qed
  qed
  then show ?thesis using b uc budget by auto
qed

lemma flush_inv:
  assumes inv: "proto_inv cfg s" and n: "n < nodes cfg"
  shows "proto_inv cfg (s\<lparr>shm := bi_time_flush n (readers s n) (shm s), flushed_at := (flushed_at s)(n := clock s)\<rparr>)"
proof -
  obtain base where base: "times_at base (shm s)" using inv by (auto simp: proto_inv_def)
  have "parsec_rd (bi_time_flush n (readers s n) (shm s)) k c = (if k = n then reader_slot s n c else parsec_rd (shm s) k c)"
    if "k < nodes cfg" "c < cores cfg" for k c
    using time_flush_rd[OF base] that n nodes_bound cores_bound by simp
  then show ?thesis using inv unfolding proto_inv_def reader_inv_def object_inv_def
    by (auto simp: time_flush_layout)
qed

lemma enter_inv:
  assumes inv: "proto_inv cfg s" and nc: "n < nodes cfg" "c < cores cfg" "\<not> ps_in_lib (reader_slot s n c)"
    and t: "stamp_ok cfg s t"
  shows "proto_inv cfg (s\<lparr>readers := (readers s)(n := bi_enter c t (readers s n)),
      entered_at := (entered_at s)(n := (entered_at s n)(c := clock s))\<rparr>)"
proof -
  have "FLUSH_GRACE_PERIOD \<le> unat t" "unat t \<le> clock s" using t inv by (auto simp: stamp_ok_def proto_inv_def)
  then show ?thesis using inv nc unfolding proto_inv_def reader_inv_def object_inv_def by auto
qed

lemma exit_inv:
  assumes inv: "proto_inv cfg s" and nc: "n < nodes cfg" "c < cores cfg" "ps_in_lib (reader_slot s n c)"
  shows "proto_inv cfg (s\<lparr>readers := (readers s)(n := bi_exit c (readers s n)), refs := (refs s)(n := (refs s n)(c := {}))\<rparr>)"
proof -
  have "unat (time_in (reader_slot s n c)) \<le> clock s" "clock s + 1 < 2 ^ 64"
    using entered_before[OF inv nc] inv by (auto simp: proto_inv_def)
  then have "time_in (reader_slot s n c) \<noteq> - 1" by (auto simp: unsigned_minus_1_eq_mask mask_eq_exp_minus_1)
  then have "\<not> ps_in_lib (reader_slot s n c\<lparr>time_out := time_in (reader_slot s n c) + 1\<rparr>)" by (simp add: exit_not_in_lib)
  then show ?thesis using inv unfolding proto_inv_def reader_inv_def object_inv_def by auto
qed

lemma acquire_inv:
  assumes inv: "proto_inv cfg s" and nc: "n < nodes cfg" "c < cores cfg" "ps_in_lib (reader_slot s n c)"
    and x: "reachable_obj cfg s x"
  shows "proto_inv cfg (s\<lparr>refs := (refs s)(n := (refs s n)(c := insert x (refs s n c)))\<rparr>)" (is "proto_inv cfg ?s'")
proof -
  have "x \<notin> reclaimed s" using proto_object[OF inv, of x] x by (auto simp: object_inv_def reachable_obj_def)
  moreover have "\<forall>t. unlinked_at s x = Some t \<longrightarrow> entered_at s n c \<le> t + stale_for cfg"
    using entered_before[OF inv nc] x by (auto simp: reachable_obj_def)
  ultimately have "object_inv cfg ?s' y" for y
    using proto_object[OF inv, of y] nc by (auto simp: object_inv_def)
  moreover have "reader_inv cfg ?s' k j = reader_inv cfg s k j" for k j by (simp add: reader_inv_def)
  ultimately show ?thesis using inv by (simp add: proto_inv_def)
qed

lemma unlink_inv:
  assumes inv: "proto_inv cfg s" and x: "unlinked_at s x = None"
  shows "proto_inv cfg (s\<lparr>unlinked_at := (unlinked_at s)(x \<mapsto> clock s)\<rparr>)" (is "proto_inv cfg ?s'")
proof -
  have "entered_at s n c \<le> clock s" if "x \<in> refs s n c" for n c
    using proto_object[OF inv, of x] entered_before[OF inv, of n c] that by (auto simp: object_inv_def)
  then have "object_inv cfg ?s' y" for y
    using proto_object[OF inv, of y] x by (fastforce simp: object_inv_def)
  moreover have "reader_inv cfg ?s' k j = reader_inv cfg s k j" for k j by (simp add: reader_inv_def)
  ultimately show ?thesis using inv by (simp add: proto_inv_def)
qed

lemma free_inv:
  assumes inv: "proto_inv cfg s" and x: "unlinked_at s x \<noteq> None" and t: "stamp_ok cfg s t"
    and u: "\<And>b. unlinked_at s x = Some b \<Longrightarrow> b \<le> clock s"
  shows "proto_inv cfg (s\<lparr>freed_stamp := (freed_stamp s)(x \<mapsto> t)\<rparr>)" (is "proto_inv cfg ?s'")
proof -
  obtain b where "unlinked_at s x = Some b" "b \<le> unat t + clock_lag cfg" using x t u by (fastforce simp: stamp_ok_def)
  then have "object_inv cfg ?s' y" for y
    using proto_object[OF inv, of y] by (auto simp: object_inv_def)
  moreover have "reader_inv cfg ?s' k j = reader_inv cfg s k j" for k j by (simp add: reader_inv_def)
  ultimately show ?thesis using inv by (simp add: proto_inv_def)
qed

lemma reclaim_inv:
  assumes inv: "proto_inv cfg s" and x: "\<exists>b. unlinked_at s x = Some b \<and> b + stale_for cfg < clock s \<and> (\<forall>n c. x \<notin> refs s n c)"
  shows "proto_inv cfg (s\<lparr>reclaimed := insert x (reclaimed s)\<rparr>)" (is "proto_inv cfg ?s'")
proof -
  have "object_inv cfg ?s' y" for y
    using proto_object[OF inv, of y] x by (auto simp: object_inv_def)
  moreover have "reader_inv cfg ?s' k j = reader_inv cfg s k j" for k j by (simp add: reader_inv_def)
  ultimately show ?thesis using inv by (simp add: proto_inv_def)
qed

lemma tick_inv:
  assumes inv: "proto_inv cfg s" and d: "clock s + d + 1 < 2 ^ 64"
    and f: "\<And>n. n < nodes cfg \<Longrightarrow> clock s + d \<le> flushed_at s n + flush_gap cfg"
  shows "proto_inv cfg (s\<lparr>clock := clock s + d\<rparr>)" (is "proto_inv cfg ?s'")
proof -
  have "object_inv cfg ?s' y" for y using proto_object[OF inv, of y] by (auto simp: object_inv_def)
  moreover have "reader_inv cfg s k j \<Longrightarrow> reader_inv cfg ?s' k j" for k j by (auto simp: reader_inv_def)
  ultimately show ?thesis using inv d f by (auto simp: proto_inv_def trans_le_add1)
qed

lemma step_inv: "smr_step cfg s s' \<Longrightarrow> proto_inv cfg s \<Longrightarrow> proto_inv cfg s'"
proof (induction rule: smr_step.induct)
  case (Free s x t)
  then show ?case using free_inv proto_object[of cfg s x] by (simp add: object_inv_def)
next
  case (Reclaim n s x u t q)
  with reclaim_unreachable[of s n x u t q] show ?case by (intro reclaim_inv) auto
qed (auto intro: flush_inv enter_inv exit_inv acquire_inv unlink_inv tick_inv)

lemma run_inv: "(smr_step cfg)\<^sup>*\<^sup>* s s' \<Longrightarrow> proto_inv cfg s \<Longrightarrow> proto_inv cfg s'"
  by (induction rule: rtranclp_induct) (auto intro: step_inv)

lemma run_safe: "(smr_step cfg)\<^sup>*\<^sup>* s s' \<Longrightarrow> smr_init cfg s \<Longrightarrow> refs s' n c \<inter> reclaimed s' = {}"
  using run_inv[OF _ smr_init_inv] by (fastforce simp: proto_inv_def object_inv_def)

end

section \<open>The configuration of the repository\<close>

text \<open>
  Four nodes of eighteen cores; every server flushes at least every second flush period, a stale
  line survives at most two flush periods, and the copy of the global clock is refreshed at least
  every second clock period. \<^verbatim>\<open>FLUSH_GRACE_PERIOD\<close>, five flush periods, covers the sum.
\<close>

definition bi_cfg :: smr_cfg where
  "bi_cfg = \<lparr>nodes = NUM_NODES, cores = NUM_CORE_PER_NODE, flush_gap = 2 * QUISE_FLUSH_PERIOD,
     stale_for = 2 * QUISE_FLUSH_PERIOD, clock_lag = 2 * GLOBAL_TSC_PERIOD\<rparr>"

interpretation bi: grace_budget bi_cfg
  by unfold_locales (simp_all add: bi_cfg_def)

text \<open>C1: no object is reclaimed while a reader holds it, and none is ever picked up after it was
  reclaimed: in every state that the steps of readers, servers and writers lead to, the objects
  held inside the library and the reclaimed objects are disjoint, provided that flush period,
  staleness and clock lag together stay below the grace period and the clock started after it.\<close>

theorem reclaim_safe:
  assumes "nodes cfg \<le> NUM_NODES" and "cores cfg \<le> NUM_CORE_PER_NODE"
    and "stale_for cfg + clock_lag cfg + flush_gap cfg < FLUSH_GRACE_PERIOD"
    and "smr_init cfg s" and "(smr_step cfg)\<^sup>*\<^sup>* s s'"
  shows "refs s' n c \<inter> reclaimed s' = {}"
  using assms by (intro grace_budget.run_safe) (simp_all add: grace_budget_def)

definition proto_example :: proto where
  "proto_example = \<lparr>clock = 20000000, readers = (\<lambda>_. reader_example\<lparr>parsec_time_cache := (\<lambda>_. \<lparr>time_in = 0, time_out = 1\<rparr>)\<rparr>),
     shm = \<lparr>global_layout = zero_layout\<lparr>parsec_times := (\<lambda>n c. 4096 + 64 * (n * 18 + c))\<rparr>,
       queues = queues gmem_example, parsecs = (\<lambda>_. \<lparr>time_in = 0, time_out = 1\<rparr>), rings = (\<lambda>_. ring_example)\<rparr>,
     flushed_at = (\<lambda>_. 20000000), entered_at = (\<lambda>_ _. 0), refs = (\<lambda>_ _. {}),
     unlinked_at = Map.empty, freed_stamp = Map.empty, reclaimed = {}\<rparr>"

lemma idle_quiesce:
  assumes "n < tot" and "\<And>n c. n < tot \<Longrightarrow> c < tc \<Longrightarrow> \<not> ps_in_lib (rd n c)"
  shows "bi_quiesce n tot tc rd t = Inr (bi_quiesce_cache t)"
  using quiesce_smr_spec[OF assms(1), of tc rd t] assms(2) by (auto simp: bi_quiesce_def)

definition reclaim_run_cfg :: smr_cfg where
  "reclaim_run_cfg = \<lparr>nodes = 1, cores = 1, flush_gap = 9000000, stale_for = 100, clock_lag = 0\<rparr>"

text \<open>A run in which an object is unlinked, freed and, after the grace period, reclaimed.\<close>

lemma reclaim_run:
  "\<exists>s'. (smr_step reclaim_run_cfg)\<^sup>*\<^sup>* proto_example s' \<and> reclaimed s' = {4096}"
proof -
  let ?s1 = "proto_example\<lparr>unlinked_at := [4096 \<mapsto> 20000000]\<rparr>"
  let ?s2 = "?s1\<lparr>freed_stamp := [4096 \<mapsto> 20000000]\<rparr>"
  let ?s3 = "?s2\<lparr>clock := 29000000\<rparr>"
  let ?s4 = "?s3\<lparr>shm := bi_time_flush 0 (readers ?s3 0) (shm ?s3), flushed_at := (flushed_at ?s3)(0 := clock ?s3)\<rparr>"
  let ?s5 = "?s4\<lparr>clock := 30000000\<rparr>"
  note ev = proto_example_def reclaim_run_cfg_def stamp_ok_def
  have 1: "smr_step reclaim_run_cfg proto_example ?s1"
    using smr_step.Unlink[of proto_example 4096 reclaim_run_cfg] by (simp add: ev)
  have 2: "smr_step reclaim_run_cfg ?s1 ?s2"
    using smr_step.Free[of ?s1 4096 reclaim_run_cfg 20000000] by (simp add: ev)
  have 3: "smr_step reclaim_run_cfg ?s2 ?s3"
    using smr_step.Tick[of ?s2 9000000 reclaim_run_cfg] by (simp add: ev)
  have 4: "smr_step reclaim_run_cfg ?s3 ?s4"
    by (rule smr_step.Flush) (simp add: ev)
  have 5: "smr_step reclaim_run_cfg ?s4 ?s5"
    using smr_step.Tick[of ?s4 1000000 reclaim_run_cfg] by (simp add: ev)
  have "times_at 4096 (shm ?s3)" by (simp add: ev times_at_def get_parsec_time_def)
  then have rd: "parsec_rd (shm ?s5) 0 0 = \<lparr>time_in = 0, time_out = 1\<rparr>"
    using time_flush_rd[of 4096 "shm ?s3" 0 0 0 "readers ?s3 0"] by (simp add: ev)
  have "bi_quiesce 0 1 1 (parsec_rd (shm ?s5)) 30000000 = Inr 20000000"
    by (subst idle_quiesce) (use rd in \<open>simp_all add: ps_in_lib_def bi_quiesce_cache_def\<close>)
  then have 6: "smr_step reclaim_run_cfg ?s5 (?s5\<lparr>reclaimed := insert 4096 (reclaimed ?s5)\<rparr>)"
    by (intro smr_step.Reclaim[where n = 0 and u = 20000000 and t = 30000000 and q = 20000000]) (simp_all add: ev)
  have "(smr_step reclaim_run_cfg)\<^sup>*\<^sup>* proto_example (?s5\<lparr>reclaimed := insert 4096 (reclaimed ?s5)\<rparr>)"
    using 1 2 3 4 5 6 by (meson converse_rtranclp_into_rtranclp rtranclp.rtrancl_refl)
  then show ?thesis by (intro exI conjI) (assumption, simp add: ev)
qed

theorem reclaim_safe_witness:
  "\<exists>s'. (smr_step reclaim_run_cfg)\<^sup>*\<^sup>* proto_example s' \<and> 4096 \<in> reclaimed s' \<and> 4096 \<notin> refs s' 0 0"
proof -
  obtain s' where s': "(smr_step reclaim_run_cfg)\<^sup>*\<^sup>* proto_example s'" "reclaimed s' = {4096}" using reclaim_run by blast
  have i: "smr_init reclaim_run_cfg proto_example"
    by (auto simp: smr_init_def proto_example_def reclaim_run_cfg_def ps_in_lib_def parsec_rd_def
        times_at_def get_parsec_time_def)
  have "refs s' 0 0 \<inter> reclaimed s' = {}"
    by (rule reclaim_safe[OF _ _ _ i s'(1)]) (simp_all add: reclaim_run_cfg_def)
  with s' show ?thesis by auto
qed

end
