(* ===== verification/Bi_Server.thy ===== *)
theory Bi_Server
  imports Smr
begin

text \<open>
  The server of a node, \<^verbatim>\<open>bi_server_run\<close> in \<^verbatim>\<open>libs/bi/bi_init.c\<close>: the barrier at which the servers of all nodes
  meet, and one turn of the loop that follows, with the flush of times and freed objects, the
  reclamation, the global time and the dispatch of a request to the application.

  The barrier is a transition system. A poll that finds the word still zero changes nothing and is
  no step; the word is flushed before every read, so a poll sees what has been written back. The
  turn takes the readings of the clocks as arguments; the function pointers of the application
  are options, as the code tests them for \<^verbatim>\<open>NULL\<close>.
\<close>

section \<open>Start barrier\<close>

datatype bar_pc = Scan nat | Announce | Await | Passed

record bar_st =
  bar :: "node_id \<Rightarrow> int"
  pc :: "node_id \<Rightarrow> bar_pc"

definition bar_init :: bar_st where
  "bar_init = \<lparr>bar = (\<lambda>_. 0), pc = (\<lambda>n. if n = 0 then Scan 1 else Announce)\<rparr>"

inductive bar_step :: "nat \<Rightarrow> bar_st \<Rightarrow> bar_st \<Rightarrow> bool" for ntot where
  Seen: "pc s 0 = Scan nd \<Longrightarrow> nd < ntot \<Longrightarrow> bar s nd \<noteq> 0 \<Longrightarrow> bar_step ntot s (s\<lparr>pc := (pc s)(0 := Scan (nd + 1))\<rparr>)"
| Release: "pc s 0 = Scan nd \<Longrightarrow> \<not> nd < ntot \<Longrightarrow> bar_step ntot s (s\<lparr>bar := (bar s)(0 := 1), pc := (pc s)(0 := Passed)\<rparr>)"
| Arrive: "0 < n \<Longrightarrow> n < ntot \<Longrightarrow> pc s n = Announce \<Longrightarrow> bar_step ntot s (s\<lparr>bar := (bar s)(n := 1), pc := (pc s)(n := Await)\<rparr>)"
| Leave: "0 < n \<Longrightarrow> n < ntot \<Longrightarrow> pc s n = Await \<Longrightarrow> bar s 0 \<noteq> 0 \<Longrightarrow> bar_step ntot s (s\<lparr>pc := (pc s)(n := Passed)\<rparr>)"

inductive_cases bar_stepE: "bar_step ntot s s'"

definition bar_inv :: "nat \<Rightarrow> bar_st \<Rightarrow> bool" where
  "bar_inv ntot s \<longleftrightarrow> (\<forall>n. 0 < n \<and> n < ntot \<longrightarrow> pc s n \<in> {Announce, Await, Passed} \<and> (bar s n \<noteq> 0 \<longleftrightarrow> pc s n \<noteq> Announce)) \<and>
     (case pc s 0 of
        Scan nd \<Rightarrow> 0 < nd \<and> nd \<le> ntot \<and> bar s 0 = 0 \<and> (\<forall>j. 0 < j \<and> j < nd \<longrightarrow> bar s j \<noteq> 0) \<and> (\<forall>n. 0 < n \<and> n < ntot \<longrightarrow> pc s n \<noteq> Passed)
      | Passed \<Rightarrow> bar s 0 \<noteq> 0 \<and> (\<forall>j. 0 < j \<and> j < ntot \<longrightarrow> bar s j \<noteq> 0)
      | _ \<Rightarrow> False)"

lemma bar_inv_init: "0 < ntot \<Longrightarrow> bar_inv ntot bar_init"
  by (auto simp: bar_inv_def bar_init_def)

lemma bar_inv_step: "bar_step ntot s s' \<Longrightarrow> bar_inv ntot s \<Longrightarrow> bar_inv ntot s'"
proof (induction rule: bar_step.induct)
  case (Seen s nd)
  then show ?case by (auto simp: bar_inv_def less_Suc_eq)
next
  case (Release s nd)
  then show ?case by (auto simp: bar_inv_def)
next
  case (Arrive n s)
  then show ?case by (auto simp: bar_inv_def split: bar_pc.splits)
next
  case (Leave n s)
  then show ?case by (auto simp: bar_inv_def split: bar_pc.splits)
qed

text \<open>The number of steps that are left.\<close>

definition node_left :: "bar_pc \<Rightarrow> nat" where
  "node_left p = (case p of Announce \<Rightarrow> 2 | Await \<Rightarrow> 1 | _ \<Rightarrow> 0)"

definition bar_left :: "nat \<Rightarrow> bar_st \<Rightarrow> nat" where
  "bar_left ntot s = (case pc s 0 of Scan nd \<Rightarrow> ntot + 1 - nd | _ \<Rightarrow> 0) + (\<Sum>n \<in> {1..<ntot}. node_left (pc s n))"

lemma left_others:
  fixes n ntot :: nat
  assumes "0 < n" and "n < ntot" and "node_left (f n) = Suc (node_left x)"
  shows "(\<Sum>m \<in> {1..<ntot}. node_left (f m)) = Suc (\<Sum>m \<in> {1..<ntot}. node_left ((f(n := x)) m))"
proof -
  have n: "n \<in> {1..<ntot}" using assms(1,2) by simp
  have "(\<Sum>m \<in> {1..<ntot} - {n}. node_left (f m)) = (\<Sum>m \<in> {1..<ntot} - {n}. node_left ((f(n := x)) m))"
    by (rule sum.cong) auto
  then show ?thesis using sum.remove[OF _ n, of "\<lambda>m. node_left (f m)"] sum.remove[OF _ n, of "\<lambda>m. node_left ((f(n := x)) m)"] assms(3) by simp
qed

lemma left_zero: "(\<Sum>m \<in> {1..<ntot :: nat}. node_left ((f(0 := x)) m)) = (\<Sum>m \<in> {1..<ntot}. node_left (f m))"
  by (rule sum.cong) auto

lemma bar_left_step: "bar_step ntot s s' \<Longrightarrow> bar_inv ntot s \<Longrightarrow> bar_left ntot s = Suc (bar_left ntot s')"
proof (induction rule: bar_step.induct)
  case (Seen s nd)
  then show ?case by (simp add: bar_left_def left_zero)
next
  case (Release s nd)
  then have "nd = ntot" by (simp add: bar_inv_def)
  with Release show ?case by (simp add: bar_left_def left_zero)
next
  case (Arrive n s)
  then show ?case using left_others[of n ntot "pc s" Await] by (simp add: bar_left_def node_left_def)
next
  case (Leave n s)
  then show ?case using left_others[of n ntot "pc s" Passed] by (simp add: bar_left_def node_left_def)
qed

lemma bar_run:
  assumes "0 < ntot" and "(bar_step ntot ^^ k) bar_init s"
  shows "bar_inv ntot s \<and> k + bar_left ntot s = bar_left ntot bar_init"
  using assms(2)
proof (induction k arbitrary: s)
  case 0
  then show ?case using bar_inv_init[OF assms(1)] by simp
next
  case (Suc k)
  then obtain s1 where s1: "(bar_step ntot ^^ k) bar_init s1" "bar_step ntot s1 s" by auto
  then show ?case using Suc.IH[OF s1(1)] bar_inv_step[OF s1(2)] bar_left_step[OF s1(2)] by auto
qed

lemma bar_left_init: "0 < ntot \<Longrightarrow> bar_left ntot bar_init = 3 * ntot - 2"
proof -
  assume n: "0 < ntot"
  have "(\<Sum>m \<in> {1..<ntot}. node_left (pc bar_init m)) = (\<Sum>m \<in> {1..<ntot}. 2)" by (rule sum.cong) (auto simp: bar_init_def node_left_def)
  then show ?thesis using n by (simp add: bar_left_def) (simp add: bar_init_def)
qed

lemma bar_progress:
  assumes inv: "bar_inv ntot s" and n: "n < ntot" "pc s n \<noteq> Passed"
  shows "\<exists>s'. bar_step ntot s s'"
proof (cases "\<exists>m. 0 < m \<and> m < ntot \<and> pc s m = Announce")
  case True
  then show ?thesis by (blast intro: Arrive)
next
  case False
  then have all: "bar s j \<noteq> 0" if "0 < j" "j < ntot" for j using inv that by (auto simp: bar_inv_def)
  show ?thesis
  proof (cases "pc s 0")
    case (Scan nd)
    then have "0 < nd" using inv by (simp add: bar_inv_def)
    then show ?thesis using Seen[OF Scan] Release[OF Scan] all by (cases "nd < ntot") blast+
  next
    case Passed
    then have "bar s 0 \<noteq> 0" "0 < n" using inv n by (auto simp: bar_inv_def intro: ccontr)
    moreover have "pc s n = Await" using inv n False \<open>0 < n\<close> by (auto simp: bar_inv_def)
    ultimately show ?thesis using Leave n(1) by blast
  qed (use inv in \<open>auto simp: bar_inv_def\<close>)
qed

section \<open>One turn of the loop\<close>

record 'u bi_srv =
  sv_p :: smr_proc
  sv_g :: gmem
  sv_slab :: slab_st
  sv_rpc :: rpc_sys
  sv_hw :: hw_st
  sv_app :: 'u
  flush_prev :: u64
  tsc_prev :: u64
  running_cores :: int

abbreviation QUISE_FLUSH_PERIOD :: u64 where "QUISE_FLUSH_PERIOD \<equiv> 2000000"
abbreviation GLOBAL_TSC_PERIOD :: u64 where "GLOBAL_TSC_PERIOD \<equiv> 500000"

type_synonym 'u update_fn = "u8 list \<Rightarrow> node_id \<Rightarrow> core_id \<Rightarrow> 'u bi_srv \<Rightarrow> 'u bi_srv result"
type_synonym 'u flush_fn = "'u bi_srv \<Rightarrow> 'u bi_srv result"

text \<open>
  The work of a flush period. \<open>clk\<close> are the readings of the clock while the local cache is emptied, \<open>tm\<close>
  is the one of the reclamation.
\<close>

definition flush_work :: "node_id \<Rightarrow> addr \<Rightarrow> nat \<Rightarrow> nat \<Rightarrow> (nat \<Rightarrow> u64) \<Rightarrow> u64 \<Rightarrow> 'u flush_fn option \<Rightarrow> 'u bi_srv \<Rightarrow> 'u bi_srv result" where
  "flush_work me head tot tc clk tm flush_fn s =
     bindE (case flush_fn of None \<Rightarrow> Inr s | Some f \<Rightarrow> f s) (\<lambda>s.
     let g = bi_time_flush me (sv_p s) (sv_g s)
     in bindE (bi_smr_flush me tot clk (sv_p s) g) (\<lambda>(_, _, p, g).
        bindE (bi_smr_reclaim me head tot tc tm g (sv_slab s)) (\<lambda>(_, g, st).
        Inr (s\<lparr>sv_p := p, sv_g := g, sv_slab := st\<rparr>))))"

definition server_turn ::
  "node_id \<Rightarrow> addr \<Rightarrow> nat \<Rightarrow> nat \<Rightarrow> (nat \<Rightarrow> u64) \<Rightarrow> u64 \<Rightarrow> u64 \<Rightarrow> u64 \<Rightarrow> 'u update_fn option \<Rightarrow> 'u flush_fn option \<Rightarrow> 'u bi_srv \<Rightarrow> 'u bi_srv result" where
  "server_turn me head tot tc clk tm time gt update_fn flush_fn s =
     bindE (if time - flush_prev s > QUISE_FLUSH_PERIOD
            then bindE (flush_work me head tot tc clk tm flush_fn s) (\<lambda>s. Inr (s\<lparr>flush_prev := time\<rparr>))
            else Inr s) (\<lambda>s.
     let s = (if time - tsc_prev s > GLOBAL_TSC_PERIOD
              then (if me = 0 then s\<lparr>sv_hw := snd (bi_global_rtdsc gt (sv_hw s)), tsc_prev := time\<rparr> else s\<lparr>tsc_prev := time\<rparr>)
              else s)
     in bindE (rpc_recv_server tot tc me (sv_rpc s)) (\<lambda>(msg, nd, cd, sys).
        let s = s\<lparr>sv_rpc := sys\<rparr>
        in if msg = [] then Inr s else case update_fn of None \<Rightarrow> Inr s | Some f \<Rightarrow> f msg nd cd s))"

text \<open>\<open>time\<close> is the reading at the start of the turn, \<open>gt\<close> the one that node 0 publishes as global time; \<open>ins\<close> are the readings of the turns; the loop ends when no core of the node is left.\<close>

fun server_loop ::
  "((nat \<Rightarrow> u64) \<times> u64 \<times> u64 \<times> u64) list \<Rightarrow> node_id \<Rightarrow> addr \<Rightarrow> nat \<Rightarrow> nat \<Rightarrow> 'u update_fn option \<Rightarrow> 'u flush_fn option \<Rightarrow> 'u bi_srv \<Rightarrow> 'u bi_srv result" where
  "server_loop [] me head tot tc update_fn flush_fn s = (if running_cores s = 0 then Inr s else Inl Out_of_fuel)"
| "server_loop ((clk, tm, time, gt) # ins) me head tot tc update_fn flush_fn s =
     (if running_cores s = 0 then Inr s
      else bindE (server_turn me head tot tc clk tm time gt update_fn flush_fn s) (server_loop ins me head tot tc update_fn flush_fn))"

definition bi_server_run ::
  "u64 \<Rightarrow> u64 \<Rightarrow> ((nat \<Rightarrow> u64) \<times> u64 \<times> u64 \<times> u64) list \<Rightarrow> node_id \<Rightarrow> addr \<Rightarrow> nat \<Rightarrow> nat \<Rightarrow> 'u update_fn option \<Rightarrow> 'u flush_fn option \<Rightarrow> 'u bi_srv \<Rightarrow> 'u bi_srv result" where
  "bi_server_run t0 t1 ins me head tot tc update_fn flush_fn s =
     server_loop ins me head tot tc update_fn flush_fn (s\<lparr>flush_prev := t0, tsc_prev := t1\<rparr>)"

definition bi_reader_exit :: "'u bi_srv \<Rightarrow> 'u bi_srv" where
  "bi_reader_exit s = s\<lparr>running_cores := running_cores s - 1\<rparr>"

definition bi_server_stop :: "'u bi_srv \<Rightarrow> 'u bi_srv" where
  "bi_server_stop s = s\<lparr>running_cores := 0\<rparr>"

definition bi_local_init_server :: "int \<Rightarrow> int \<Rightarrow> 'u bi_srv \<Rightarrow> 'u bi_srv" where
  "bi_local_init_server core_id ncore s =
     s\<lparr>sv_hw := setup_core_id core_id (sv_hw s), running_cores := ncore - 1,
       sv_p := (sv_p s)\<lparr>parsec_time_cache := (\<lambda>i. if i < NUM_CORE_PER_NODE then parsec_struct_init (parsec_time_cache (sv_p s) i) else parsec_time_cache (sv_p s) i)\<rparr>\<rparr>"

lemma time_flush_rings: "rings (bi_time_flush me p g) = rings g" "get_quies_ring (bi_time_flush me p g) = get_quies_ring g"
proof -
  have "rings (time_flush_loop k base p g) = rings g" for k base by (induction k) (simp_all add: Let_def)
  then show "rings (bi_time_flush me p g) = rings g" by (simp add: bi_time_flush_def)
  show "get_quies_ring (bi_time_flush me p g) = get_quies_ring g"
    using time_flush_loop_spec by (simp add: bi_time_flush_def get_quies_ring_def fun_eq_iff)
qed

lemma reclaim_times: "bi_smr_reclaim me head tot tc tm g st = Inr (i, g', st') \<Longrightarrow> parsec_rd g' = parsec_rd g"
  by (auto simp: bi_smr_reclaim_def Let_def result_simps set_ring_def parsec_rd_def get_parsec_time_def fun_eq_iff split: option.splits)

section \<open>Properties\<close>

text \<open>C25: the start barrier: in every reachable state, if any server has passed the barrier, every server has
  arrived at it. The barrier does not deadlock, and it is through after at most \<open>3 * ntot - 2\<close> steps.\<close>

theorem start_barrier:
  assumes "(bar_step ntot ^^ k) bar_init s" and "0 < ntot"
  shows "(\<forall>m n. m < ntot \<and> n < ntot \<and> pc s m = Passed \<longrightarrow> pc s n \<in> {Await, Passed}) \<and>
    (\<forall>n < ntot. pc s n \<noteq> Passed \<longrightarrow> (\<exists>s'. bar_step ntot s s')) \<and> k \<le> 3 * ntot - 2"
proof -
  have inv: "bar_inv ntot s" and k: "k \<le> 3 * ntot - 2" using bar_run[OF assms(2,1)] bar_left_init[OF assms(2)] by auto
  have "pc s n \<in> {Await, Passed}" if m: "m < ntot" "pc s m = Passed" and n: "n < ntot" for m n
  proof -
    have p0: "pc s 0 = Passed"
    proof (cases "m = 0")
      case False
      then show ?thesis using inv m by (auto simp: bar_inv_def split: bar_pc.splits)
    qed (use m in simp)
    then show ?thesis using inv n by (cases "n = 0") (auto simp: bar_inv_def)
  qed
  then show ?thesis using bar_progress[OF inv] k by blast
qed


section \<open>Witnesses\<close>

definition server_example :: "unit bi_srv" where
  "server_example = \<lparr>sv_p = reader_example,
     sv_g = gmem_example\<lparr>global_layout := zero_layout\<lparr>quies_rings := (\<lambda>_. 64), parsec_times := (\<lambda>n c. 4096 + 64 * (n * 18 + c))\<rparr>, rings := (\<lambda>_. ring_example)\<rparr>,
     sv_slab = slab_example, sv_rpc = sys0, sv_hw = \<lparr>local_node_id = 0, num_node_in_use = 1, num_core_in_use = 1, local_core_id = 0, tsc = 0\<rparr>,
     sv_app = (), flush_prev = 0, tsc_prev = 0, running_cores = 1\<rparr>"

theorem start_barrier_witness:
  "(\<exists>s'. bar_step 2 (bar_init\<lparr>bar := (bar bar_init)(1 := 1), pc := (pc bar_init)(1 := Await)\<rparr>) s') \<and> (1 :: nat) \<le> 4"
proof -
  let ?s = "bar_init\<lparr>bar := (bar bar_init)(1 := 1), pc := (pc bar_init)(1 := Await)\<rparr>"
  have "bar_step 2 bar_init ?s" by (rule Arrive) (simp_all add: bar_init_def)
  then have "(bar_step 2 ^^ 1) bar_init ?s" by (simp only: relpowp_1)
  note b = start_barrier[OF this zero_less_numeral]
  have "pc ?s 0 \<noteq> Passed" by (simp add: bar_init_def)
  then have "\<exists>s'. bar_step 2 ?s s'" by (rule b[THEN conjunct2, THEN conjunct1, rule_format, of 0, rotated]) simp
  then show ?thesis by simp
qed


end
