(* ===== verification/Noncc_Cache.thy ===== *)
theory Noncc_Cache
  imports Hw_Util
begin

text \<open>
  Memory that several nodes cache without hardware coherence, and the operations of
  \<^verbatim>\<open>include/noncc-cache_util.h\<close> and \<^verbatim>\<open>include/bi_pointer.h\<close> on it. A node reads and
  writes through its own cache of 64-byte lines; \<^verbatim>\<open>clwb\<close> writes a dirty line back and keeps
  it, \<^verbatim>\<open>clflush\<close> writes it back and drops it. At any time the hardware may also evict a line or
  prefetch one, which is the step relation at the end. The fences are not needed here: the model
  performs the instructions of one node in program order.
\<close>

section \<open>Memory and caches\<close>

record cache_line =
  cl_data :: "nat \<Rightarrow> u8"
  cl_dirty :: bool

record ncmem =
  gm :: "addr \<Rightarrow> u8"
  cch :: "node_id \<Rightarrow> nat \<Rightarrow> cache_line option"

definition line_of :: "addr \<Rightarrow> nat" where
  "line_of a = a div CACHE_LINE"

definition off_of :: "addr \<Rightarrow> nat" where
  "off_of a = a mod CACHE_LINE"

definition set_line :: "node_id \<Rightarrow> nat \<Rightarrow> cache_line option \<Rightarrow> ncmem \<Rightarrow> ncmem" where
  "set_line n l c m = m\<lparr>cch := (cch m)(n := (cch m n)(l := c))\<rparr>"

text \<open>Bring a line into the cache of a node, unless it is there.\<close>

definition fetch :: "node_id \<Rightarrow> nat \<Rightarrow> ncmem \<Rightarrow> ncmem" where
  "fetch n l m = (case cch m n l of
     Some _ \<Rightarrow> m
   | None \<Rightarrow> set_line n l (Some \<lparr>cl_data = (\<lambda>k. gm m (CACHE_LINE * l + k)), cl_dirty = False\<rparr>) m)"

text \<open>The value a node sees at an address.\<close>

definition view :: "node_id \<Rightarrow> ncmem \<Rightarrow> addr \<Rightarrow> u8" where
  "view n m a = (case cch m n (line_of a) of None \<Rightarrow> gm m a | Some c \<Rightarrow> cl_data c (off_of a))"

definition load :: "node_id \<Rightarrow> addr \<Rightarrow> ncmem \<Rightarrow> u8 \<times> ncmem" where
  "load n a m = (let m' = fetch n (line_of a) m in (view n m' a, m'))"

definition store :: "node_id \<Rightarrow> addr \<Rightarrow> u8 \<Rightarrow> ncmem \<Rightarrow> ncmem" where
  "store n a v m =
     (let m' = fetch n (line_of a) m; c = the (cch m' n (line_of a))
      in set_line n (line_of a) (Some \<lparr>cl_data = (cl_data c)(off_of a := v), cl_dirty = True\<rparr>) m')"

definition write_back :: "nat \<Rightarrow> cache_line \<Rightarrow> ncmem \<Rightarrow> ncmem" where
  "write_back l c m = (if cl_dirty c
     then m\<lparr>gm := (\<lambda>a. if line_of a = l then cl_data c (off_of a) else gm m a)\<rparr> else m)"

section \<open>Cache instructions and ranges\<close>

definition bi_flush_cache :: "node_id \<Rightarrow> addr \<Rightarrow> ncmem \<Rightarrow> ncmem" where
  "bi_flush_cache n p m = (case cch m n (line_of p) of
     None \<Rightarrow> m
   | Some c \<Rightarrow> set_line n (line_of p) None (write_back (line_of p) c m))"

definition bi_wb_cache :: "node_id \<Rightarrow> addr \<Rightarrow> ncmem \<Rightarrow> ncmem" where
  "bi_wb_cache n p m = (case cch m n (line_of p) of
     None \<Rightarrow> m
   | Some c \<Rightarrow> set_line n (line_of p) (Some (c\<lparr>cl_dirty := False\<rparr>)) (write_back (line_of p) c m))"

function clflush_loop :: "node_id \<Rightarrow> addr \<Rightarrow> addr \<Rightarrow> ncmem \<Rightarrow> ncmem" where
  "clflush_loop n s e m =
     (if s \<le> e then clflush_loop n (s + CACHE_LINE) e (bi_flush_cache n s m) else m)"
  by pat_completeness auto
termination by (relation "measure (\<lambda>(n, s, e, m). Suc e - s)") auto

function clwb_loop :: "node_id \<Rightarrow> addr \<Rightarrow> addr \<Rightarrow> ncmem \<Rightarrow> ncmem" where
  "clwb_loop n s e m =
     (if s \<le> e then clwb_loop n (s + CACHE_LINE) e (bi_wb_cache n s m) else m)"
  by pat_completeness auto
termination by (relation "measure (\<lambda>(n, s, e, m). Suc e - s)") auto

declare clflush_loop.simps [simp del] clwb_loop.simps [simp del]

definition range_end :: "addr \<Rightarrow> nat \<Rightarrow> addr" where
  "range_end s sz = round_to_cacheline ((s + sz + (2 ^ 64 - 1)) mod 2 ^ 64)"

definition clflush_range :: "node_id \<Rightarrow> addr \<Rightarrow> nat \<Rightarrow> ncmem \<Rightarrow> ncmem" where
  "clflush_range n s sz m = clflush_loop n (round_to_cacheline s) (range_end s sz) m"

definition clwb_range :: "node_id \<Rightarrow> addr \<Rightarrow> nat \<Rightarrow> ncmem \<Rightarrow> ncmem" where
  "clwb_range n s sz m = clwb_loop n (round_to_cacheline s) (range_end s sz) m"

section \<open>Access to shared areas\<close>

fun loads :: "node_id \<Rightarrow> addr \<Rightarrow> nat \<Rightarrow> ncmem \<Rightarrow> u8 list \<times> ncmem" where
  "loads n a 0 m = ([], m)"
| "loads n a (Suc k) m =
     (let (v, m1) = load n a m; (vs, m2) = loads n (Suc a) k m1 in (v # vs, m2))"

fun stores :: "node_id \<Rightarrow> addr \<Rightarrow> u8 list \<Rightarrow> ncmem \<Rightarrow> ncmem" where
  "stores n a [] m = m"
| "stores n a (v # vs) m = stores n (Suc a) vs (store n a v m)"

definition bi_dereference_area_lazy :: "node_id \<Rightarrow> addr \<Rightarrow> nat \<Rightarrow> ncmem \<Rightarrow> u8 list \<times> ncmem" where
  "bi_dereference_area_lazy n src sz m = loads n src sz m"

definition bi_dereference_area_aggressive :: "node_id \<Rightarrow> addr \<Rightarrow> nat \<Rightarrow> ncmem \<Rightarrow> u8 list \<times> ncmem" where
  "bi_dereference_area_aggressive n src sz m =
     bi_dereference_area_lazy n src sz (clflush_range n src sz m)"

definition bi_publish_area :: "node_id \<Rightarrow> addr \<Rightarrow> u8 list \<Rightarrow> ncmem \<Rightarrow> ncmem" where
  "bi_publish_area n dst src m = clwb_range n dst (length src) (stores n dst src m)"

section \<open>Lines that a range touches\<close>

lemma line_off: "CACHE_LINE * line_of a + off_of a = a"
  by (simp add: line_of_def off_of_def)

lemma line_of_mult [simp]: "line_of (CACHE_LINE * l) = l"
  by (simp add: line_of_def)

lemma line_of_add [simp]: "line_of (CACHE_LINE * l + CACHE_LINE) = Suc l"
  by (simp add: line_of_def)

lemma range_lines:
  assumes "0 < sz" and "s + sz \<le> 2 ^ 64"
  shows "round_to_cacheline s = CACHE_LINE * line_of s"
    and "range_end s sz = CACHE_LINE * line_of (s + sz - 1)"
proof -
  have "s < 2 ^ 64" using assms by linarith
  then show "round_to_cacheline s = CACHE_LINE * line_of s"
    by (simp add: round_to_cacheline_nat line_of_def)
  have "s + sz + (2 ^ 64 - 1) = (s + sz - 1) + 2 ^ 64" using assms(1) by simp
  moreover have "s + sz - 1 < 2 ^ 64" using assms by linarith
  ultimately have "(s + sz + (2 ^ 64 - 1)) mod 2 ^ 64 = s + sz - 1"
    by (simp only: mod_add_self2 mod_less)
  then show "range_end s sz = CACHE_LINE * line_of (s + sz - 1)"
    using round_to_cacheline_nat[OF \<open>s + sz - 1 < 2 ^ 64\<close>] by (simp add: range_end_def line_of_def)
qed

text \<open>Flushing or writing back a set of lines at once.\<close>

definition dirty :: "node_id \<Rightarrow> nat \<Rightarrow> ncmem \<Rightarrow> bool" where
  "dirty n l m \<longleftrightarrow> (case cch m n l of None \<Rightarrow> False | Some c \<Rightarrow> cl_dirty c)"

definition settle :: "node_id \<Rightarrow> nat set \<Rightarrow> bool \<Rightarrow> ncmem \<Rightarrow> ncmem" where
  "settle n L keep m = m\<lparr>
     gm := (\<lambda>a. if line_of a \<in> L \<and> dirty n (line_of a) m then view n m a else gm m a),
     cch := (\<lambda>n' l. if n' = n \<and> l \<in> L
       then (if keep then map_option (cl_dirty_update (\<lambda>_. False)) (cch m n l) else None)
       else cch m n' l)\<rparr>"

lemma settle_empty: "settle n {} keep m = m"
  by (cases m) (simp add: settle_def fun_eq_iff)

lemma ncmem_eqI: "gm a = gm b \<Longrightarrow> cch a = cch b \<Longrightarrow> a = (b :: ncmem)"
  by (cases a; cases b) auto

lemma flush_settle: "bi_flush_cache n p m = settle n {line_of p} False m"
  by (rule ncmem_eqI)
    (auto simp: bi_flush_cache_def settle_def set_line_def write_back_def dirty_def view_def fun_eq_iff
      split: option.splits)

lemma wb_settle: "bi_wb_cache n p m = settle n {line_of p} True m"
  by (rule ncmem_eqI)
    (auto simp: bi_wb_cache_def settle_def set_line_def write_back_def dirty_def view_def fun_eq_iff
      split: option.splits)

lemma settle_settle:
  "l \<notin> L \<Longrightarrow> settle n L keep (settle n {l} keep m) = settle n (insert l L) keep m"
  by (rule ncmem_eqI) (auto simp: settle_def dirty_def view_def fun_eq_iff split: option.splits)

lemma clflush_loop_settle:
  "clflush_loop n (CACHE_LINE * a) (CACHE_LINE * b) m = settle n {a..b} False m"
proof (induction "Suc b - a" arbitrary: a m)
  case 0
  then have "{a..b} = {}" "\<not> CACHE_LINE * a \<le> CACHE_LINE * b" by auto
  then show ?case by (simp add: clflush_loop.simps settle_empty)
next
  case (Suc d)
  then have le: "a \<le> b" by linarith
  then have "{a..b} = insert a {Suc a..b}" by auto
  moreover have "CACHE_LINE * a + CACHE_LINE = CACHE_LINE * Suc a" by simp
  ultimately show ?case
    using Suc.hyps(1)[of "Suc a" "settle n {a} False m"] Suc.hyps(2) le
    by (subst clflush_loop.simps) (simp add: flush_settle settle_settle del: mult_Suc_right)
qed

lemma clwb_loop_settle:
  "clwb_loop n (CACHE_LINE * a) (CACHE_LINE * b) m = settle n {a..b} True m"
proof (induction "Suc b - a" arbitrary: a m)
  case 0
  then have "{a..b} = {}" "\<not> CACHE_LINE * a \<le> CACHE_LINE * b" by auto
  then show ?case by (simp add: clwb_loop.simps settle_empty)
next
  case (Suc d)
  then have le: "a \<le> b" by linarith
  then have "{a..b} = insert a {Suc a..b}" by auto
  moreover have "CACHE_LINE * a + CACHE_LINE = CACHE_LINE * Suc a" by simp
  ultimately show ?case
    using Suc.hyps(1)[of "Suc a" "settle n {a} True m"] Suc.hyps(2) le
    by (subst clwb_loop.simps) (simp add: wb_settle settle_settle del: mult_Suc_right)
qed

definition lines :: "addr \<Rightarrow> nat \<Rightarrow> nat set" where
  "lines s sz = line_of ` {s..<s + sz}"

lemma lines_interval:
  assumes "0 < sz"
  shows "lines s sz = {line_of s..line_of (s + sz - 1)}"
proof
  show "lines s sz \<subseteq> {line_of s..line_of (s + sz - 1)}"
    by (auto simp: lines_def line_of_def intro: div_le_mono)
  show "{line_of s..line_of (s + sz - 1)} \<subseteq> lines s sz"
  proof
    fix l assume l: "l \<in> {line_of s..line_of (s + sz - 1)}"
    define a where "a = max s (CACHE_LINE * l)"
    have "s \<le> a" by (simp add: a_def)
    moreover have "CACHE_LINE * l \<le> s + sz - 1" using l by (auto simp: line_of_def)
    then have "a < s + sz" using assms by (auto simp: a_def)
    moreover have "line_of a = l" using l by (auto simp: a_def line_of_def max_def)
    ultimately show "l \<in> lines s sz" by (auto simp: lines_def)
  qed
qed

lemma clflush_range_settle:
  "0 < sz \<Longrightarrow> s + sz \<le> 2 ^ 64 \<Longrightarrow> clflush_range n s sz m = settle n (lines s sz) False m"
  by (simp only: clflush_range_def range_lines lines_interval clflush_loop_settle)

lemma clwb_range_settle:
  "0 < sz \<Longrightarrow> s + sz \<le> 2 ^ 64 \<Longrightarrow> clwb_range n s sz m = settle n (lines s sz) True m"
  by (simp only: clwb_range_def range_lines lines_interval clwb_loop_settle)

section \<open>What loads and stores change\<close>

lemma fetch_gm [simp]: "gm (fetch n l m) = gm m"
  by (simp add: fetch_def set_line_def split: option.splits)

lemma fetch_view [simp]: "view n' (fetch n l m) a = view n' m a"
  using line_off[of a] by (auto simp: fetch_def set_line_def view_def split: option.splits)

lemma fetch_dirty [simp]: "dirty n' l' (fetch n l m) = dirty n' l' m"
  by (auto simp: fetch_def set_line_def dirty_def split: option.splits)

lemma load_spec: "load n a m = (view n m a, fetch n (line_of a) m)"
  by (simp add: load_def)

lemma loads_spec:
  "fst (loads n a k m) = map (view n m) [a..<a + k] \<and> gm (snd (loads n a k m)) = gm m \<and>
   view n' (snd (loads n a k m)) = view n' m \<and> dirty n' l' (snd (loads n a k m)) = dirty n' l' m"
proof (induction k arbitrary: a m)
  case (Suc k)
  have "[a..<Suc (a + k)] = a # [Suc a..<Suc (a + k)]" by (rule upt_conv_Cons) simp
  with Suc[of "Suc a" "fetch n (line_of a) m"] show ?case
    by (simp add: load_spec case_prod_beta fun_eq_iff del: upt_Suc)
qed simp

lemma store_gm [simp]: "gm (store n a v m) = gm m"
  by (simp add: store_def Let_def set_line_def)

lemma fetch_cached: "\<exists>c. cch (fetch n l m) n l = Some c"
  by (auto simp: fetch_def set_line_def split: option.splits)

lemma line_off_eq: "line_of a = line_of b \<Longrightarrow> off_of a = off_of b \<Longrightarrow> a = b"
  by (metis line_off)

lemma set_line_view: "view n' (set_line n l c m) b = (if n' = n \<and> line_of b = l
    then (case c of None \<Rightarrow> gm m b | Some d \<Rightarrow> cl_data d (off_of b)) else view n' m b)"
  by (simp add: view_def set_line_def split: option.split)

lemma store_view:
  "view n' (store n a v m) b = (if n' = n \<and> b = a then v else view n' m b)"
proof -
  define m' where "m' = fetch n (line_of a) m"
  obtain c where c: "cch m' n (line_of a) = Some c" using fetch_cached[of n "line_of a" m] by (auto simp: m'_def)
  have vc: "cl_data c (off_of b) = view n m b" if "line_of b = line_of a"
  proof -
    have "view n m' b = cl_data c (off_of b)" using c that by (simp add: view_def)
    then show ?thesis by (simp add: m'_def)
  qed
  have "view n' (store n a v m) b = (if n' = n \<and> line_of b = line_of a
      then ((cl_data c)(off_of a := v)) (off_of b) else view n' m' b)"
    by (simp add: store_def Let_def set_line_view c flip: m'_def)
  also have "\<dots> = (if n' = n \<and> b = a then v else view n' m b)"
    using vc line_off_eq[of b a] by (cases "b = a") (auto simp: m'_def)
  finally show ?thesis .
qed

lemma store_dirty:
  "dirty n' l (store n a v m) \<longleftrightarrow> n' = n \<and> l = line_of a \<or> dirty n' l m"
  using fetch_dirty[of n' l n "line_of a" m]
  by (auto simp: store_def Let_def dirty_def set_line_def split: option.splits)

lemma stores_gm [simp]: "gm (stores n a vs m) = gm m"
  by (induction vs arbitrary: a m) auto

lemma stores_view:
  "view n' (stores n a vs m) b =
     (if n' = n \<and> a \<le> b \<and> b < a + length vs then vs ! (b - a) else view n' m b)"
proof (induction vs arbitrary: a m)
  case (Cons v vs)
  show ?case
    unfolding stores.simps Cons.IH
    by (auto simp: store_view nth_Cons' Suc_diff_le not_le not_less_eq_eq)
qed auto

lemma stores_dirty:
  "dirty n' l (stores n a vs m) \<longleftrightarrow> n' = n \<and> l \<in> lines a (length vs) \<or> dirty n' l m"
proof (induction vs arbitrary: a m)
  case (Cons v vs)
  have "{a..<a + length (v # vs)} = insert a {Suc a..<Suc a + length vs}" by auto
  then have "lines a (length (v # vs)) = insert (line_of a) (lines (Suc a) (length vs))"
    by (simp add: lines_def)
  with Cons show ?case by (auto simp: store_dirty)
qed (simp add: lines_def)

lemma settle_dirty: "dirty n' l (settle n L keep m) \<longleftrightarrow> dirty n' l m \<and> \<not> (n' = n \<and> l \<in> L)"
  by (auto simp: dirty_def settle_def split: option.splits)

lemma view_clean: "cch m n (line_of a) = None \<Longrightarrow> view n m a = gm m a"
  by (simp add: view_def)

section \<open>Published data\<close>

text \<open>
  The bytes \<open>bs\<close> are published at \<open>a\<close>: memory holds them and no node has a modified copy of the
  lines they lie in, which it could still write back over them.
\<close>

definition published :: "addr \<Rightarrow> u8 list \<Rightarrow> ncmem \<Rightarrow> bool" where
  "published a bs m \<longleftrightarrow>
     (\<forall>i < length bs. gm m (a + i) = bs ! i) \<and> (\<forall>n. \<forall>l \<in> lines a (length bs). \<not> dirty n l m)"

text \<open>
  What the rest of the system may do meanwhile: evict a line, prefetch a line, load from
  anywhere, store to other lines.
\<close>

inductive sys_step :: "nat set \<Rightarrow> ncmem \<Rightarrow> ncmem \<Rightarrow> bool" for L where
  evict: "sys_step L m (bi_flush_cache n p m)"
| write_back: "sys_step L m (bi_wb_cache n p m)"
| prefetch: "sys_step L m (fetch n l m)"
| read: "sys_step L m (snd (load n p m))"
| write_other: "line_of p \<notin> L \<Longrightarrow> sys_step L m (store n p v m)"

lemma published_settle:
  assumes "published a bs m"
  shows "published a bs (settle n L keep m)"
proof -
  have "gm (settle n L keep m) (a + i) = bs ! i" if "i < length bs" for i
  proof -
    have "line_of (a + i) \<in> lines a (length bs)" using that by (auto simp: lines_def)
    then show ?thesis using assms that by (auto simp: published_def settle_def)
  qed
  then show ?thesis using assms by (simp add: published_def settle_dirty)
qed

lemma published_step:
  assumes "sys_step (lines a (length bs)) m m'" and "published a bs m"
  shows "published a bs m'"
  using assms
proof cases
  case (evict n p)
  then show ?thesis using published_settle assms(2) by (simp add: flush_settle)
next
  case (write_back n p)
  then show ?thesis using published_settle assms(2) by (simp add: wb_settle)
next
  case (read n p)
  then show ?thesis using assms(2) by (simp add: load_spec published_def)
qed (use assms(2) in \<open>auto simp: published_def store_dirty\<close>)

lemma published_steps:
  "(sys_step (lines a (length bs)))\<^sup>*\<^sup>* m m' \<Longrightarrow> published a bs m \<Longrightarrow> published a bs m'"
  by (induction rule: rtranclp_induct) (auto intro: published_step)

lemma publish_published:
  assumes "bs \<noteq> []" and "a + length bs \<le> 2 ^ 64"
    and others: "\<And>n l. n \<noteq> w \<Longrightarrow> l \<in> lines a (length bs) \<Longrightarrow> \<not> dirty n l m"
  shows "published a bs (bi_publish_area w a bs m)"
proof -
  define m1 where "m1 = stores w a bs m"
  have p: "bi_publish_area w a bs m = settle w (lines a (length bs)) True m1"
    using assms(1,2) by (simp add: bi_publish_area_def clwb_range_settle m1_def)
  have d: "dirty w l m1" if "l \<in> lines a (length bs)" for l using that by (simp add: m1_def stores_dirty)
  have "gm (settle w (lines a (length bs)) True m1) (a + i) = bs ! i" if "i < length bs" for i
  proof -
    have l: "line_of (a + i) \<in> lines a (length bs)" using that by (auto simp: lines_def)
    then show ?thesis using d[OF l] that by (simp add: settle_def m1_def stores_view)
  qed
  moreover have "\<not> dirty n l (settle w (lines a (length bs)) True m1)" if "l \<in> lines a (length bs)" for n l
    using others[of n l] that by (auto simp: settle_dirty m1_def stores_dirty)
  ultimately show ?thesis unfolding p published_def by blast
qed

lemma aggressive_published:
  assumes "published a bs m" and "bs \<noteq> []" and "a + length bs \<le> 2 ^ 64"
  shows "fst (bi_dereference_area_aggressive r a (length bs) m) = bs"
proof -
  define m1 where "m1 = settle r (lines a (length bs)) False m"
  have "published a bs m1" using published_settle[OF assms(1)] by (simp add: m1_def)
  moreover have "view r m1 (a + i) = gm m1 (a + i)" if "i < length bs" for i
  proof (rule view_clean)
    have "line_of (a + i) \<in> lines a (length bs)" using that by (auto simp: lines_def)
    then show "cch m1 r (line_of (a + i)) = None" by (simp add: m1_def settle_def)
  qed
  ultimately have "map (view r m1) [a..<a + length bs] = bs"
    by (intro nth_equalityI) (auto simp: published_def)
  moreover have "clflush_range r a (length bs) m = m1"
    using assms(2,3) by (simp add: clflush_range_settle m1_def)
  ultimately show ?thesis
    using loads_spec[of r a "length bs" m1]
    by (simp add: bi_dereference_area_aggressive_def bi_dereference_area_lazy_def)
qed

text \<open>C32: what one node publishes, every node reads back with an aggressive dereference, however
  many evictions, prefetches, reads and writes to other lines happen in between, provided no
  other node had modified the lines of the area.\<close>

theorem publish_then_aggressive_fresh:
  assumes "bs \<noteq> []" and "a + length bs \<le> 2 ^ 64"
    and "\<And>n l. n \<noteq> w \<Longrightarrow> l \<in> lines a (length bs) \<Longrightarrow> \<not> dirty n l m"
    and "(sys_step (lines a (length bs)))\<^sup>*\<^sup>* (bi_publish_area w a bs m) m'"
  shows "fst (bi_dereference_area_aggressive r a (length bs) m') = bs"
  using aggressive_published[OF published_steps[OF assms(4)] assms(1,2)] publish_published[of bs a w m] assms
  by blast

text \<open>Two nodes, nothing cached, memory all zero.\<close>

definition mem0 :: ncmem where
  "mem0 = \<lparr>gm = (\<lambda>_. 0), cch = (\<lambda>_ _. None)\<rparr>"

theorem publish_then_aggressive_fresh_witness:
  "fst (bi_dereference_area_aggressive 1 100 2
     (snd (load 1 100 (bi_publish_area 0 100 [7, 8] mem0)))) = [7, 8]"
proof -
  have "(sys_step (lines 100 (length [7, 8 :: u8])))\<^sup>*\<^sup>* (bi_publish_area 0 100 [7, 8] mem0)
      (snd (load 1 100 (bi_publish_area 0 100 [7, 8] mem0)))"
    by (rule r_into_rtranclp) (rule sys_step.read)
  from publish_then_aggressive_fresh[OF _ _ _ this, of 1]
  have "fst (bi_dereference_area_aggressive 1 100 (length [7, 8 :: u8])
     (snd (load 1 100 (bi_publish_area 0 100 [7, 8] mem0)))) = [7, 8]" by (simp add: dirty_def mem0_def)
  moreover have "length [7, 8 :: u8] = 2" by simp
  ultimately show ?thesis by (simp only:)
qed

text \<open>C33: a range flush writes the node's modified lines of the range to memory and drops exactly
  the lines that the range touches; the caches of the other nodes stay as they are.\<close>

theorem clflush_range_exact:
  assumes "0 < sz" and "s + sz \<le> 2 ^ 64" and "m' = clflush_range n s sz m"
  shows "(\<forall>l. cch m' n l = (if l \<in> lines s sz then None else cch m n l)) \<and>
    (\<forall>n' l. n' \<noteq> n \<longrightarrow> cch m' n' l = cch m n' l) \<and>
    (\<forall>a. gm m' a = (if line_of a \<in> lines s sz \<and> dirty n (line_of a) m then view n m a else gm m a))"
  using assms by (simp add: clflush_range_settle settle_def)

theorem clflush_range_exact_witness:
  "\<exists>m'. m' = clflush_range 0 100 2 (store 0 101 9 mem0) \<and> gm m' 101 = 9 \<and> cch m' 0 1 = None"
proof -
  have l: "line_of 101 \<in> lines 100 2" "Suc 0 \<in> lines 100 2" by (auto simp: lines_interval line_of_def)
  have "dirty 0 (line_of 101) (store 0 101 9 mem0)" "view 0 (store 0 101 9 mem0) 101 = 9"
    by (simp_all add: store_dirty store_view)
  with clflush_range_exact[of 2 100 "clflush_range 0 100 2 (store 0 101 9 mem0)" 0 "store 0 101 9 mem0"] l
  show ?thesis by simp
qed

text \<open>Without an invalidation a reader that has the lines cached keeps reading the values from
  before the publication.\<close>

theorem lazy_dereference_stale:
  assumes "r \<noteq> w" and "0 < sz" and "\<And>l. l \<in> lines a sz \<Longrightarrow> cch m r l \<noteq> None"
    and "bs \<noteq> []" and "dst + length bs \<le> 2 ^ 64"
  shows "fst (bi_dereference_area_lazy r a sz (bi_publish_area w dst bs m)) =
    fst (bi_dereference_area_lazy r a sz m)"
proof -
  define m1 where "m1 = stores w dst bs m"
  have p: "bi_publish_area w dst bs m = settle w (lines dst (length bs)) True m1"
    using assms(4,5) by (simp add: bi_publish_area_def clwb_range_settle m1_def)
  have same: "cch m1 r l = cch m r l" for l
    unfolding m1_def
  proof (induction bs arbitrary: dst m)
    case (Cons v bs)
    then show ?case using assms(1) by (simp add: store_def Let_def set_line_def fetch_def split: option.splits)
  qed simp
  have "view r (bi_publish_area w dst bs m) b = view r m b" if "b \<in> set [a..<a + sz]" for b
  proof -
    have "line_of b \<in> lines a sz" using that by (auto simp: lines_def)
    then obtain c where "cch m r (line_of b) = Some c" using assms(3) by blast
    then show ?thesis using same assms(1) by (simp add: p view_def settle_def)
  qed
  then have "map (view r (bi_publish_area w dst bs m)) [a..<a + sz] = map (view r m) [a..<a + sz]"
    by (rule map_cong[OF refl])
  then show ?thesis using loads_spec by (simp add: bi_dereference_area_lazy_def)
qed

theorem lazy_dereference_stale_witness:
  "fst (bi_dereference_area_lazy 1 100 2 (bi_publish_area 0 100 [7, 8] (fetch 1 1 mem0))) = [0, 0]"
proof -
  have "lines 100 2 = {1}" by (auto simp: lines_interval line_of_def)
  moreover have z: "view 1 mem0 b = 0" for b by (simp add: mem0_def view_def)
  have "fst (loads 1 100 2 (fetch 1 1 mem0)) = map (view 1 (fetch 1 1 mem0)) [100..<102]"
    using loads_spec[of 1 100 2 "fetch 1 1 mem0"] by simp
  then have "fst (bi_dereference_area_lazy 1 100 2 (fetch 1 1 mem0)) = [0, 0]"
    using z by (simp add: bi_dereference_area_lazy_def upt_rec[of 100] upt_rec[of 101])
  ultimately show ?thesis
    using lazy_dereference_stale[of 1 0 2 100 "fetch 1 1 mem0" "[7, 8]" 100]
    by (simp add: fetch_def set_line_def mem0_def)
qed

end
