(* ===== verification/Ps_Slab.thy ===== *)
theory Ps_Slab
  imports Slab
begin

text \<open>
  The slab allocator of the key-value servers, \<^verbatim>\<open>ps_slab.h\<close>, \<^verbatim>\<open>ps_slab.c\<close>, \<^verbatim>\<open>ps_global.h\<close> and
  \<^verbatim>\<open>ps_plat.h\<close> under \<^verbatim>\<open>mc_code/2pc_mc/servers\<close> (the copies under \<^verbatim>\<open>mc_code/mp_mc/servers\<close> are the same). It is
  an earlier version of the allocator of the library: memory comes from functions that the client
  passes, only slabs with free objects are on a ring, and an object that a core frees although its
  slab has another home core goes to a list at the home core, one list per memory locality, which
  the home core empties from time to time.

  Typed memory is one map from addresses per structure, as in \<^verbatim>\<open>Slab\<close>. The C heap is the list of
  chunks that it has left; \<open>nl\<close> is the number of localities, \<^verbatim>\<open>PS_NUMLOCALITIES\<close>. The fields of
  \<^verbatim>\<open>struct ps_mem\<close> for name spaces and for reclamation are used by no code here and are left out.
\<close>

section \<open>Data\<close>

record pslab =
  p_memory :: addr
  p_memsz :: nat
  p_coreid :: nat
  p_freelist :: addr
  p_nfree :: nat

record mheader =
  m_tsc :: u64
  m_slab :: addr
  m_next :: addr

record ps_qsc_list =
  q_head :: addr
  q_tail :: addr

record ps_slab_remote_list =
  r_lock :: bool
  remote_frees :: ps_qsc_list
  r_nfree :: nat

record slab_info =
  sl_fl :: addr
  salloccnt :: nat
  remote_token :: nat
  nslabs :: nat

record ps_mem_percore =
  slab_info :: slab_info
  slab_remote :: "nat \<Rightarrow> ps_slab_remote_list"

record ps_mem =
  pslabs :: "addr \<Rightarrow> pslab"
  phdrs :: "addr \<Rightarrow> mheader"
  plists :: ps_lists
  percore :: "nat \<Rightarrow> ps_mem_percore"
  chunks :: "addr list"

type_synonym ps_alloc_fn = "nat \<Rightarrow> nat \<Rightarrow> ps_mem \<Rightarrow> (addr \<times> ps_mem) result"
type_synonym ps_free_fn = "addr \<Rightarrow> nat \<Rightarrow> nat \<Rightarrow> ps_mem \<Rightarrow> ps_mem result"

abbreviation PS_REMOTE_BATCH :: nat where "PS_REMOTE_BATCH \<equiv> 64"
abbreviation PS_SLAB_SZ :: nat where "PS_SLAB_SZ \<equiv> 96"

text \<open>The platform code returns a constant for the core.\<close>

definition ps_coreid :: nat where
  "ps_coreid = 0"

definition upd_h :: "addr \<Rightarrow> (mheader \<Rightarrow> mheader) \<Rightarrow> ps_mem \<Rightarrow> ps_mem" where
  "upd_h h f st = st\<lparr>phdrs := (phdrs st)(h := f (phdrs st h))\<rparr>"

definition upd_s :: "addr \<Rightarrow> (pslab \<Rightarrow> pslab) \<Rightarrow> ps_mem \<Rightarrow> ps_mem" where
  "upd_s s f st = st\<lparr>pslabs := (pslabs st)(s := f (pslabs st s))\<rparr>"

definition upd_i :: "nat \<Rightarrow> (slab_info \<Rightarrow> slab_info) \<Rightarrow> ps_mem \<Rightarrow> ps_mem" where
  "upd_i c f st = st\<lparr>percore := (percore st)(c := (percore st c)\<lparr>slab_info := f (slab_info (percore st c))\<rparr>)\<rparr>"

definition upd_r :: "nat \<Rightarrow> nat \<Rightarrow> (ps_slab_remote_list \<Rightarrow> ps_slab_remote_list) \<Rightarrow> ps_mem \<Rightarrow> ps_mem" where
  "upd_r c l f st = st\<lparr>percore := (percore st)(c := (percore st c)\<lparr>slab_remote := (slab_remote (percore st c))(l := f (slab_remote (percore st c) l))\<rparr>)\<rparr>"

lemmas upd_defs = upd_h_def upd_s_def upd_i_def upd_r_def

section \<open>Object headers\<close>

definition mhead_get :: "addr \<Rightarrow> addr" where
  "mhead_get m = m - MHEADER_SZ"

definition mhead_mem :: "addr \<Rightarrow> addr" where
  "mhead_mem h = h + MHEADER_SZ"

definition mhead_isfree :: "addr \<Rightarrow> ps_mem \<Rightarrow> bool" where
  "mhead_isfree h st \<longleftrightarrow> m_tsc (phdrs st h) \<noteq> 0"

definition mhead_reset :: "addr \<Rightarrow> ps_mem \<Rightarrow> ps_mem" where
  "mhead_reset h = upd_h h (\<lambda>x. x\<lparr>m_tsc := 0, m_next := NULL\<rparr>)"

definition mhead_setfree :: "addr \<Rightarrow> u64 \<Rightarrow> ps_mem \<Rightarrow> ps_mem" where
  "mhead_setfree h token = upd_h h (m_tsc_update (\<lambda>_. token))"

definition mhead_init :: "addr \<Rightarrow> addr \<Rightarrow> ps_mem \<Rightarrow> ps_mem" where
  "mhead_init h s st = mhead_setfree h 1 (upd_h h (m_slab_update (\<lambda>_. s)) st)"

section \<open>Lists of freed objects\<close>

definition qsc_peek :: "ps_qsc_list \<Rightarrow> addr" where
  "qsc_peek ql = q_head ql"

definition qsc_enqueue :: "addr \<Rightarrow> ps_qsc_list \<Rightarrow> ps_mem \<Rightarrow> ps_qsc_list \<times> ps_mem" where
  "qsc_enqueue n ql st =
     (let t = q_tail ql
      in if t \<noteq> NULL then (ql\<lparr>q_tail := n\<rparr>, upd_h t (m_next_update (\<lambda>_. n)) st)
         else (ql\<lparr>q_head := n, q_tail := n\<rparr>, st))"

definition qsc_dequeue :: "ps_qsc_list \<Rightarrow> ps_mem \<Rightarrow> addr \<times> ps_qsc_list \<times> ps_mem" where
  "qsc_dequeue ql st =
     (let a = q_head ql
      in if a \<noteq> NULL
         then (let ql = ql\<lparr>q_head := m_next (phdrs st a)\<rparr>;
                   ql = (if q_tail ql = a then ql\<lparr>q_tail := NULL\<rparr> else ql)
               in (a, ql, upd_h a (m_next_update (\<lambda>_. NULL)) st))
         else (a, ql, st))"

definition qsc_clear :: "ps_qsc_list \<Rightarrow> addr \<times> ps_qsc_list" where
  "qsc_clear l = (q_head l, l\<lparr>q_head := NULL, q_tail := NULL\<rparr>)"

section \<open>Sizes\<close>

definition slab_objmemsz :: "nat \<Rightarrow> nat" where
  "slab_objmemsz obj_sz = unat (PS_RNDUP (of_nat (obj_sz + MHEADER_SZ)) 8)"

text \<open>Subtraction of \<^verbatim>\<open>size_t\<close> values.\<close>

definition size_sub :: "nat \<Rightarrow> nat \<Rightarrow> nat" where
  "size_sub a b = (a + (2 ^ 64 - b)) mod 2 ^ 64"

definition slab_max_nobjs :: "nat \<Rightarrow> nat \<Rightarrow> nat \<Rightarrow> nat" where
  "slab_max_nobjs obj_sz allocsz headoff = size_sub allocsz headoff div slab_objmemsz obj_sz"

definition slab_objsoff :: "addr \<Rightarrow> addr \<Rightarrow> nat \<Rightarrow> nat \<Rightarrow> ps_mem \<Rightarrow> nat" where
  "slab_objsoff s h obj_sz headoff st = size_sub h (p_memory (pslabs st s) + headoff) div slab_objmemsz obj_sz"

section \<open>Memory of the platform\<close>

definition zero_slab :: pslab where
  "zero_slab = \<lparr>p_memory = 0, p_memsz = 0, p_coreid = 0, p_freelist = 0, p_nfree = 0\<rparr>"

definition zero_hdr :: mheader where
  "zero_hdr = \<lparr>m_tsc = 0, m_slab = 0, m_next = 0\<rparr>"

definition wipe :: "addr \<Rightarrow> nat \<Rightarrow> 'a \<Rightarrow> (addr \<Rightarrow> 'a) \<Rightarrow> addr \<Rightarrow> 'a" where
  "wipe m sz z f = (\<lambda>a. if m \<le> a \<and> a < m + sz then z else f a)"

definition ps_plat_alloc :: "nat \<Rightarrow> nat \<Rightarrow> ps_mem \<Rightarrow> (addr \<times> ps_mem) result" where
  "ps_plat_alloc sz coreid st =
     (case chunks st of
        [] \<Rightarrow> Inl Assert_fail
      | m # ms \<Rightarrow> Inr (m, st\<lparr>chunks := ms, pslabs := wipe m sz zero_slab (pslabs st), phdrs := wipe m sz zero_hdr (phdrs st),
          plists := \<lparr>ln = wipe m sz 0 (ln (plists st)), lp = wipe m sz 0 (lp (plists st))\<rparr>\<rparr>))"

definition ps_plat_free :: "addr \<Rightarrow> nat \<Rightarrow> nat \<Rightarrow> ps_mem \<Rightarrow> ps_mem" where
  "ps_plat_free s sz coreid st = st\<lparr>chunks := chunks st @ [s]\<rparr>"

definition slab_defalloc :: ps_alloc_fn where
  "slab_defalloc sz coreid st =
     bindE (ps_plat_alloc sz coreid st) (\<lambda>(s, st).
     if s = NULL then Inr (NULL, st) else Inr (s, upd_s s (p_memory_update (\<lambda>_. s)) st))"

definition slab_deffree :: ps_free_fn where
  "slab_deffree s sz coreid st = Inr (ps_plat_free s sz coreid st)"

section \<open>Ring of slabs with free objects\<close>

definition pfl_rem :: "nat \<Rightarrow> addr \<Rightarrow> ps_mem \<Rightarrow> ps_mem result" where
  "pfl_rem c s st = bindE (slab_freelist_rem (sl_fl (slab_info (percore st c))) s (plists st))
     (\<lambda>(p, h). Inr (upd_i c (sl_fl_update (\<lambda>_. p)) (st\<lparr>plists := h\<rparr>)))"

definition pfl_add :: "nat \<Rightarrow> addr \<Rightarrow> ps_mem \<Rightarrow> ps_mem result" where
  "pfl_add c s st = bindE (slab_freelist_add (sl_fl (slab_info (percore st c))) s (plists st))
     (\<lambda>(p, h). Inr (upd_i c (sl_fl_update (\<lambda>_. p)) (st\<lparr>plists := h\<rparr>)))"

section \<open>A new slab\<close>

text \<open>The loop over the objects: \<open>k\<close> remain.\<close>

fun pslab_init_loop :: "nat \<Rightarrow> addr \<Rightarrow> addr \<Rightarrow> addr \<Rightarrow> nat \<Rightarrow> ps_mem \<Rightarrow> addr \<times> ps_mem" where
  "pslab_init_loop 0 s alloc prev objmemsz st = (alloc, st)"
| "pslab_init_loop (Suc k) s alloc prev objmemsz st =
     pslab_init_loop k s (alloc + objmemsz) alloc objmemsz
       (upd_h prev (m_next_update (\<lambda>_. alloc)) (mhead_init alloc s st))"

definition pslab_init :: "addr \<Rightarrow> nat \<Rightarrow> nat \<Rightarrow> nat \<Rightarrow> nat \<Rightarrow> ps_mem \<Rightarrow> ps_mem result" where
  "pslab_init s coreid obj_sz allocsz headoff st =
     (let objmemsz = slab_objmemsz obj_sz;
          nfree = size_sub allocsz headoff div objmemsz;
          alloc = p_memory (pslabs st s) + headoff;
          st1 = upd_s s (\<lambda>x. x\<lparr>p_nfree := nfree, p_memsz := allocsz, p_coreid := ps_coreid, p_freelist := alloc\<rparr>) st;
          (alloc', st2) = pslab_init_loop nfree s alloc alloc objmemsz st1
      in bindE (assertE (alloc' \<le> p_memory (pslabs st2 s) + allocsz)) (\<lambda>_.
         pfl_add coreid s (st2\<lparr>plists := ps_list_ll_init (plists st2) s\<rparr>)))"

definition zero_percore :: ps_mem_percore where
  "zero_percore = \<lparr>slab_info = \<lparr>sl_fl = NULL, salloccnt = 0, remote_token = 0, nslabs = 0\<rparr>,
     slab_remote = (\<lambda>_. \<lparr>r_lock = False, remote_frees = \<lparr>q_head = NULL, q_tail = NULL\<rparr>, r_nfree = 0\<rparr>)\<rparr>"

definition slabptr_init :: "ps_mem \<Rightarrow> ps_mem" where
  "slabptr_init st = st\<lparr>percore := (\<lambda>_. zero_percore)\<rparr>"

section \<open>Release\<close>

definition ps_lock_take :: "nat \<Rightarrow> nat \<Rightarrow> ps_mem \<Rightarrow> ps_mem result" where
  "ps_lock_take c l st = (if r_lock (slab_remote (percore st c) l) then Inl Spins else Inr (upd_r c l (r_lock_update (\<lambda>_. True)) st))"

definition ps_lock_release :: "nat \<Rightarrow> nat \<Rightarrow> ps_mem \<Rightarrow> ps_mem" where
  "ps_lock_release c l = upd_r c l (r_lock_update (\<lambda>_. False))"

text \<open>
  \<open>numaid\<close> is the value of the variable that \<^verbatim>\<open>ps_tsc_locality\<close> should set; outside the array of lists
  the access is an error.
\<close>

definition slab_mem_remote_free :: "nat \<Rightarrow> nat \<Rightarrow> addr \<Rightarrow> nat \<Rightarrow> ps_mem \<Rightarrow> ps_mem result" where
  "slab_mem_remote_free nl numaid h core_target st =
     (if \<not> numaid < nl then Inl Null_deref
      else bindE (ps_lock_take core_target numaid st) (\<lambda>st.
           let (ql, st) = qsc_enqueue h (remote_frees (slab_remote (percore st core_target) numaid)) st;
               st = upd_r core_target numaid (\<lambda>r. r\<lparr>remote_frees := ql, r_nfree := (r_nfree r + 1) mod 2 ^ 64\<rparr>) st
           in Inr (ps_lock_release core_target numaid st)))"

definition slab_mem_free :: "ps_free_fn \<Rightarrow> nat \<Rightarrow> nat \<Rightarrow> nat \<Rightarrow> nat \<Rightarrow> nat \<Rightarrow> nat \<Rightarrow> addr \<Rightarrow> ps_mem \<Rightarrow> ps_mem result" where
  "slab_mem_free ffn nl numaid coreid obj_sz allocsz headoff buf st =
     bindE (assertE ((slab_objmemsz obj_sz + headoff) mod 2 ^ 64 \<le> allocsz)) (\<lambda>_.
     let max_nobjs = slab_max_nobjs obj_sz allocsz headoff mod 2 ^ 32; h = mhead_get buf
     in bindE (assertE (\<not> mhead_isfree h st)) (\<lambda>_.
        let s = m_slab (phdrs st h)
        in bindE (assertE (s \<noteq> NULL)) (\<lambda>_.
           let target = p_coreid (pslabs st s)
           in if target \<noteq> coreid then slab_mem_remote_free nl numaid h target st
              else
                let st = mhead_setfree h 1 st; nxt = p_freelist (pslabs st s);
                    st = upd_s s (p_freelist_update (\<lambda>_. h)) st;
                    st = upd_h h (m_next_update (\<lambda>_. nxt)) st;
                    st = upd_s s (\<lambda>x. x\<lparr>p_nfree := (p_nfree x + 1) mod 2 ^ 64\<rparr>) st
                in if p_nfree (pslabs st s) = max_nobjs
                   then bindE (pfl_rem coreid s (upd_i coreid (\<lambda>x. x\<lparr>nslabs := (nslabs x + (2 ^ 64 - 1)) mod 2 ^ 64\<rparr>) st)) (\<lambda>st.
                        ffn s (p_memsz (pslabs st s)) coreid st)
                   else if p_nfree (pslabs st s) = 1
                   then bindE (assertE (ps_list_singleton (plists st) s)) (\<lambda>_.
                        bindE (assertE (p_memory (pslabs st s) \<noteq> NULL \<and> p_freelist (pslabs st s) \<noteq> NULL)) (\<lambda>_.
                        pfl_add coreid s st))
                   else Inr st)))"

section \<open>Lists of other cores\<close>

fun remote_scan :: "nat \<Rightarrow> nat \<Rightarrow> nat \<Rightarrow> nat \<Rightarrow> nat \<Rightarrow> ps_mem \<Rightarrow> (addr \<times> nat \<times> ps_mem) result" where
  "remote_scan 0 nl coreid token locality st = Inl Out_of_fuel"
| "remote_scan (Suc k) nl coreid token locality st =
     bindE (ps_lock_take coreid locality st) (\<lambda>st.
     let (h, ql) = qsc_clear (remote_frees (slab_remote (percore st coreid) locality));
         st = ps_lock_release coreid locality (upd_r coreid locality (\<lambda>r. r\<lparr>remote_frees := ql, r_nfree := 0\<rparr>) st);
         locality = (locality + 1) mod nl
     in if h = NULL \<and> locality \<noteq> token then remote_scan k nl coreid token locality st
        else Inr (h, locality, st))"

fun remote_drain :: "nat \<Rightarrow> ps_free_fn \<Rightarrow> nat \<Rightarrow> nat \<Rightarrow> nat \<Rightarrow> nat \<Rightarrow> nat \<Rightarrow> nat \<Rightarrow> addr \<Rightarrow> ps_mem \<Rightarrow> ps_mem result" where
  "remote_drain fuel ffn nl numaid coreid obj_sz allocsz headoff h st =
     (if h = NULL then Inr st
      else case fuel of
        0 \<Rightarrow> Inl Out_of_fuel
      | Suc fuel \<Rightarrow>
          let n = m_next (phdrs st h)
          in bindE (slab_mem_free ffn nl numaid coreid obj_sz allocsz headoff (mhead_mem h) (upd_h h (m_next_update (\<lambda>_. NULL)) st))
               (remote_drain fuel ffn nl numaid coreid obj_sz allocsz headoff n))"

declare remote_drain.simps [simp del]

definition slab_mem_remote_process :: "nat \<Rightarrow> ps_free_fn \<Rightarrow> nat \<Rightarrow> nat \<Rightarrow> nat \<Rightarrow> nat \<Rightarrow> nat \<Rightarrow> nat \<Rightarrow> ps_mem \<Rightarrow> ps_mem result" where
  "slab_mem_remote_process fuel ffn nl numaid coreid obj_sz allocsz headoff st =
     (let token = remote_token (slab_info (percore st coreid))
      in bindE (remote_scan nl nl coreid token token st) (\<lambda>(h, locality, st).
         remote_drain fuel ffn nl numaid coreid obj_sz allocsz headoff h (upd_i coreid (remote_token_update (\<lambda>_. locality)) st)))"

section \<open>Allocation\<close>

definition pslab_for_alloc :: "ps_alloc_fn \<Rightarrow> nat \<Rightarrow> nat \<Rightarrow> nat \<Rightarrow> nat \<Rightarrow> ps_mem \<Rightarrow> (addr \<times> ps_mem) result" where
  "pslab_for_alloc afn coreid obj_sz allocsz headoff st =
     (let s = sl_fl (slab_info (percore st coreid))
      in if s \<noteq> NULL then Inr (s, st)
         else bindE (afn allocsz coreid st) (\<lambda>(s, st).
              if s = NULL then Inr (NULL, st)
              else bindE (pslab_init s coreid obj_sz allocsz headoff st) (\<lambda>st.
                   let st = upd_i coreid (\<lambda>x. x\<lparr>nslabs := (nslabs x + 1) mod 2 ^ 64\<rparr>) st
                   in bindE (assertE (p_memory (pslabs st s) \<noteq> NULL \<and> p_freelist (pslabs st s) \<noteq> NULL)) (\<lambda>_. Inr (s, st)))))"

definition pslab_take :: "nat \<Rightarrow> addr \<Rightarrow> ps_mem \<Rightarrow> (addr \<times> ps_mem) result" where
  "pslab_take coreid s st =
     bindE (assertE (s \<noteq> NULL \<and> p_freelist (pslabs st s) \<noteq> NULL)) (\<lambda>_.
     let h = p_freelist (pslabs st s);
         st = upd_s s (p_freelist_update (\<lambda>_. m_next (phdrs st h))) st;
         st = upd_h h (m_next_update (\<lambda>_. NULL)) st;
         st = upd_s s (\<lambda>x. x\<lparr>p_nfree := (p_nfree x + (2 ^ 64 - 1)) mod 2 ^ 64\<rparr>) st;
         st = mhead_reset h st
     in bindE (if p_nfree (pslabs st s) = 0
               then bindE (pfl_rem coreid s st) (\<lambda>st. bindE (assertE (ps_list_singleton (plists st) s)) (\<lambda>_. Inr st))
               else Inr st) (\<lambda>st.
        bindE (assertE (\<not> mhead_isfree h st)) (\<lambda>_. Inr (mhead_mem h, st))))"

definition slab_mem_alloc ::
  "nat \<Rightarrow> ps_alloc_fn \<Rightarrow> ps_free_fn \<Rightarrow> nat \<Rightarrow> nat \<Rightarrow> nat \<Rightarrow> nat \<Rightarrow> nat \<Rightarrow> nat \<Rightarrow> ps_mem \<Rightarrow> (addr \<times> ps_mem) result" where
  "slab_mem_alloc fuel afn ffn nl numaid coreid obj_sz allocsz headoff st =
     bindE (assertE ((obj_sz + headoff) mod 2 ^ 64 \<le> allocsz)) (\<lambda>_.
     let st = upd_i coreid (\<lambda>x. x\<lparr>salloccnt := (salloccnt x + 1) mod 2 ^ 64\<rparr>) st
     in bindE (if salloccnt (slab_info (percore st coreid)) mod PS_REMOTE_BATCH = 0
               then slab_mem_remote_process fuel ffn nl numaid coreid obj_sz allocsz headoff st else Inr st) (\<lambda>st.
        bindE (pslab_for_alloc afn coreid obj_sz allocsz headoff st) (\<lambda>(s, st).
        if s = NULL then Inr (NULL, st) else pslab_take coreid s st)))"

section \<open>Statistics\<close>

record slab_stats =
  st_nslabs :: nat
  st_npartslabs :: nat
  st_nfree :: nat
  st_nremote :: nat

text \<open>The loop over the ring from slab \<open>s\<close> on; the C code leaves it when it is back at the head.\<close>

fun stats_ring :: "nat \<Rightarrow> addr \<Rightarrow> addr \<Rightarrow> ps_mem \<Rightarrow> slab_stats \<Rightarrow> slab_stats result" where
  "stats_ring fuel p s st x =
     (if s = NULL then Inr x
      else case fuel of
        0 \<Rightarrow> Inl Out_of_fuel
      | Suc fuel \<Rightarrow>
          let x = x\<lparr>st_npartslabs := st_npartslabs x + 1, st_nfree := st_nfree x + p_nfree (pslabs st s)\<rparr>;
              s' = ps_list_next (plists st) s
          in if s' = p then Inr x else stats_ring fuel p s' st x)"

declare stats_ring.simps [simp del]

definition slabptr_stats :: "nat \<Rightarrow> nat \<Rightarrow> nat \<Rightarrow> ps_mem \<Rightarrow> slab_stats result" where
  "slabptr_stats fuel nl i st =
     (let pc = percore st i; s = sl_fl (slab_info pc)
      in bindE (stats_ring fuel s s st \<lparr>st_nslabs = nslabs (slab_info pc), st_npartslabs = 0, st_nfree = 0, st_nremote = 0\<rparr>) (\<lambda>x.
         Inr (x\<lparr>st_nremote := (\<Sum>j \<leftarrow> [0..<nl]. r_nfree (slab_remote pc j))\<rparr>)))"

definition slabptr_isempty :: "nat \<Rightarrow> nat \<Rightarrow> ps_mem \<Rightarrow> bool" where
  "slabptr_isempty ncores nl st \<longleftrightarrow>
     list_all (\<lambda>i. nslabs (slab_info (percore st i)) = 0 \<and> list_all (\<lambda>j. r_nfree (slab_remote (percore st i) j) = 0) [0..<nl]) [0..<ncores]"

section \<open>The allocator of items\<close>

abbreviation MC_SLAB_OBJ_SZ :: nat where "MC_SLAB_OBJ_SZ \<equiv> 94"
abbreviation MC_SLAB_AOC_SZ :: nat where "MC_SLAB_AOC_SZ \<equiv> 16384"

definition slab_alloc_item :: "nat \<Rightarrow> nat \<Rightarrow> nat \<Rightarrow> ps_mem \<Rightarrow> (addr \<times> ps_mem) result" where
  "slab_alloc_item fuel nl numaid st =
     slab_mem_alloc fuel slab_defalloc slab_deffree nl numaid ps_coreid MC_SLAB_OBJ_SZ MC_SLAB_AOC_SZ PS_SLAB_SZ st"

definition slab_free_coreid_item :: "nat \<Rightarrow> nat \<Rightarrow> nat \<Rightarrow> addr \<Rightarrow> ps_mem \<Rightarrow> ps_mem result" where
  "slab_free_coreid_item nl numaid coreid buf st =
     slab_mem_free slab_deffree nl numaid coreid MC_SLAB_OBJ_SZ MC_SLAB_AOC_SZ PS_SLAB_SZ buf st"

definition slab_free_item :: "nat \<Rightarrow> nat \<Rightarrow> addr \<Rightarrow> ps_mem \<Rightarrow> ps_mem result" where
  "slab_free_item nl numaid buf st = slab_free_coreid_item nl numaid ps_coreid buf st"

definition slab_objmem_item :: nat where
  "slab_objmem_item = slab_objmemsz MC_SLAB_OBJ_SZ"

definition slab_nobjs_item :: nat where
  "slab_nobjs_item = slab_max_nobjs MC_SLAB_OBJ_SZ MC_SLAB_AOC_SZ PS_SLAB_SZ"

definition slab_objoff_item :: "addr \<Rightarrow> ps_mem \<Rightarrow> nat" where
  "slab_objoff_item obj st = (let h = mhead_get obj in slab_objsoff (m_slab (phdrs st h)) h MC_SLAB_OBJ_SZ PS_SLAB_SZ st)"

section \<open>Lists of freed objects as lists\<close>

abbreviation nxt :: "ps_mem \<Rightarrow> addr \<Rightarrow> addr" where "nxt st \<equiv> \<lambda>a. m_next (phdrs st a)"

text \<open>The first objects of a list, and a list that ends with \<^verbatim>\<open>NULL\<close>.\<close>

fun pchain :: "(addr \<Rightarrow> addr) \<Rightarrow> addr \<Rightarrow> addr list \<Rightarrow> bool" where
  "pchain f p [] \<longleftrightarrow> True"
| "pchain f p (x # xs) \<longleftrightarrow> p = x \<and> pchain f (f x) xs"

fun tchain :: "(addr \<Rightarrow> addr) \<Rightarrow> addr \<Rightarrow> addr list \<Rightarrow> bool" where
  "tchain f p [] \<longleftrightarrow> p = NULL"
| "tchain f p (x # xs) \<longleftrightarrow> p = x \<and> x \<noteq> NULL \<and> tchain f (f x) xs"

lemma pchain_cong: "(\<And>x. x \<in> set xs \<Longrightarrow> f' x = f x) \<Longrightarrow> pchain f' p xs = pchain f p xs"
  by (induction xs arbitrary: p) auto

lemma tchain_cong: "(\<And>x. x \<in> set xs \<Longrightarrow> f' x = f x) \<Longrightarrow> tchain f' p xs = tchain f p xs"
  by (induction xs arbitrary: p) auto

lemma tchain_snoc:
  "tchain f p xs \<Longrightarrow> xs \<noteq> [] \<Longrightarrow> distinct xs \<Longrightarrow> x \<notin> set xs \<Longrightarrow> x \<noteq> NULL \<Longrightarrow> f x = NULL \<Longrightarrow> tchain (f(last xs := x)) p (xs @ [x])"
proof (induction xs arbitrary: p)
  case (Cons y ys)
  show ?case
  proof (cases "ys = []")
    case False
    then have "y \<noteq> last ys" using Cons.prems(3) by auto
    then show ?thesis using Cons False by auto
  qed (use Cons.prems in auto)
qed simp

definition qlist :: "(addr \<Rightarrow> addr) \<Rightarrow> ps_qsc_list \<Rightarrow> addr list \<Rightarrow> bool" where
  "qlist f q xs \<longleftrightarrow> tchain f (q_head q) xs \<and> distinct xs \<and> q_tail q = (if xs = [] then NULL else last xs)"

lemma qlist_cong: "(\<And>x. x \<in> set xs \<Longrightarrow> f' x = f x) \<Longrightarrow> qlist f' q xs = qlist f q xs"
  by (simp add: qlist_def tchain_cong[of xs f' f])

lemma tchain_nonnull: "tchain f p xs \<Longrightarrow> NULL \<notin> set xs"
  by (induction xs arbitrary: p) auto

lemma qsc_enqueue_qlist:
  assumes "qlist (nxt st) q xs" and "x \<notin> set xs" and "x \<noteq> NULL" and "nxt st x = NULL"
  shows "\<exists>q' st'. qsc_enqueue x q st = (q', st') \<and> qlist (nxt st') q' (xs @ [x]) \<and>
    (\<forall>a. a \<notin> set xs \<longrightarrow> phdrs st' a = phdrs st a) \<and> (\<forall>a. m_tsc (phdrs st' a) = m_tsc (phdrs st a) \<and> m_slab (phdrs st' a) = m_slab (phdrs st a)) \<and>
    pslabs st' = pslabs st \<and> plists st' = plists st \<and> percore st' = percore st \<and> chunks st' = chunks st"
proof (cases "xs = []")
  case True
  then show ?thesis using assms by (simp add: qlist_def qsc_enqueue_def)
next
  case False
  then have t1: "q_tail q = last xs" "last xs \<in> set xs" using assms(1) by (simp_all add: qlist_def)
  have "NULL \<notin> set xs" using assms(1) tchain_nonnull unfolding qlist_def by blast
  then have t: "q_tail q = last xs" "last xs \<noteq> NULL" "last xs \<in> set xs" using t1 by metis+
  define st' where "st' = upd_h (last xs) (m_next_update (\<lambda>_. x)) st"
  have "nxt st' = (nxt st)(last xs := x)" by (auto simp: st'_def upd_h_def)
  moreover have "tchain ((nxt st)(last xs := x)) (q_head q) (xs @ [x])"
    using assms False by (intro tchain_snoc) (auto simp: qlist_def)
  ultimately have "qlist (nxt st') (q\<lparr>q_tail := x\<rparr>) (xs @ [x])" using assms(1,2) by (simp add: qlist_def)
  moreover have "qsc_enqueue x q st = (q\<lparr>q_tail := x\<rparr>, st')" using t by (simp add: qsc_enqueue_def st'_def)
  moreover have "\<forall>a. a \<notin> set xs \<longrightarrow> phdrs st' a = phdrs st a" using t(3) by (auto simp: st'_def upd_h_def)
  ultimately show ?thesis by (intro exI[of _ "q\<lparr>q_tail := x\<rparr>"] exI[of _ st']) (simp add: st'_def upd_h_def)
qed

lemma qsc_dequeue_qlist:
  assumes "qlist (nxt st) q (x # xs)"
  shows "\<exists>q' st'. qsc_dequeue q st = (x, q', st') \<and> qlist (nxt st') q' xs \<and> nxt st' x = NULL"
proof -
  have x: "q_head q = x" "x \<noteq> NULL" "x \<notin> set xs" "tchain (nxt st) (nxt st x) xs" using assms by (auto simp: qlist_def)
  have "tchain (nxt (upd_h x (m_next_update (\<lambda>_. NULL)) st)) p xs = tchain (nxt st) p xs" for p
    using x(3) by (intro tchain_cong) (auto simp: upd_h_def)
  moreover have "last xs \<noteq> x" if "xs \<noteq> []" using x(3) that by (metis last_in_set)
  ultimately show ?thesis using assms x by (auto simp: qsc_dequeue_def Let_def qlist_def upd_h_def)
qed

lemma qsc_clear_qlist: "qlist f q xs \<Longrightarrow> \<exists>p q'. qsc_clear q = (p, q') \<and> tchain f p xs \<and> qlist g q' []"
  by (simp add: qsc_clear_def qlist_def)

section \<open>Objects of a slab\<close>

definition pcells :: "nat \<Rightarrow> nat \<Rightarrow> nat \<Rightarrow> addr \<Rightarrow> addr set" where
  "pcells ho n sz s = (\<lambda>k. s + ho + k * sz) ` {..<n}"

definition pslab_ok :: "nat \<Rightarrow> nat \<Rightarrow> nat \<Rightarrow> nat \<Rightarrow> ps_mem \<Rightarrow> addr set \<Rightarrow> addr \<Rightarrow> bool" where
  "pslab_ok asz ho n sz st U s \<longleftrightarrow>
     p_memory (pslabs st s) = s \<and> p_memsz (pslabs st s) = asz \<and> p_coreid (pslabs st s) = ps_coreid \<and>
     (\<exists>c. p_nfree (pslabs st s) = length c \<and> pchain (nxt st) (p_freelist (pslabs st s)) c \<and> distinct c \<and> set c = pcells ho n sz s - U) \<and>
     (\<forall>h \<in> pcells ho n sz s. m_slab (phdrs st h) = s \<and> (m_tsc (phdrs st h) = 0 \<longleftrightarrow> h \<in> U))"

text \<open>The sizes: objects of \<open>sz\<close> bytes with their headers, \<open>n\<close> of them behind \<open>ho\<close> bytes in a chunk of \<open>asz\<close> bytes.\<close>

definition slab_geo :: "nat \<Rightarrow> nat \<Rightarrow> nat \<Rightarrow> nat \<Rightarrow> nat \<Rightarrow> bool" where
  "slab_geo osz asz ho n sz \<longleftrightarrow> slab_objmemsz osz = sz \<and> osz \<le> sz \<and> 0 < sz \<and> n = (asz - ho) div sz \<and> 1 \<le> n \<and> ho \<le> asz \<and> asz < 2 ^ 32"

definition papart :: "nat \<Rightarrow> addr set \<Rightarrow> bool" where
  "papart asz B \<longleftrightarrow> (\<forall>b \<in> B. \<forall>b' \<in> B. b \<noteq> b' \<longrightarrow> b + asz \<le> b' \<or> b' + asz \<le> b)"

lemma size_sub_nat: "b \<le> a \<Longrightarrow> a < 2 ^ 64 \<Longrightarrow> size_sub a b = a - b"
proof -
  assume "b \<le> a" "a < 2 ^ 64"
  then have "a + (2 ^ 64 - b) = (a - b) + 2 ^ 64" "a - b < 2 ^ 64" by auto
  then show ?thesis by (simp only: size_sub_def mod_add_self2 mod_less)
qed

lemma geo_facts:
  assumes "slab_geo osz asz ho n sz"
  shows "ho + n * sz \<le> asz" and "0 < sz" and "n < 2 ^ 32" and "1 \<le> n" and "slab_objmemsz osz = sz" and "slab_max_nobjs osz asz ho = n"
    and "(osz + ho) mod 2 ^ 64 \<le> asz" and "(slab_objmemsz osz + ho) mod 2 ^ 64 \<le> asz" and "size_sub asz ho div sz = n"
proof -
  note g = assms[unfolded slab_geo_def]
  have m: "n * sz \<le> asz - ho" using g by (simp add: div_times_less_eq_dividend)
  then show h: "ho + n * sz \<le> asz" using g by linarith
  have "sz \<le> n * sz" using g by (cases n) auto
  then have "sz + ho \<le> asz" using h by linarith
  then show "(slab_objmemsz osz + ho) mod 2 ^ 64 \<le> asz" "(osz + ho) mod 2 ^ 64 \<le> asz" using g by auto
  have "n \<le> n * sz" using g by (cases sz) auto
  then show "n < 2 ^ 32" using h g by linarith
  show "size_sub asz ho div sz = n" "slab_max_nobjs osz asz ho = n" using size_sub_nat[of ho asz] g by (simp_all add: slab_max_nobjs_def)
qed (use assms in \<open>auto simp: slab_geo_def\<close>)

lemma pcells_range:
  assumes "ho + n * sz \<le> asz" and "h \<in> pcells ho n sz s"
  shows "s + ho \<le> h" and "h + sz \<le> s + asz"
proof -
  obtain k where k: "k < n" "h = s + ho + k * sz" using assms(2) by (auto simp: pcells_def)
  then show "s + ho \<le> h" by simp
  have "Suc k * sz \<le> n * sz" using k by (intro mult_le_mono1) simp
  then show "h + sz \<le> s + asz" using k assms(1) by simp
qed

lemma pcells_disjoint:
  assumes "slab_geo osz asz ho n sz" and "papart asz B" and "s \<in> B" and "t \<in> B" and "h \<in> pcells ho n sz s" and "h \<in> pcells ho n sz t"
  shows "s = t"
proof (rule ccontr)
  note geo = geo_facts[OF assms(1)]
  assume "s \<noteq> t"
  then have "s + asz \<le> t \<or> t + asz \<le> s" using assms(2-4) by (simp add: papart_def)
  with pcells_range[OF geo(1) assms(5)] pcells_range[OF geo(1) assms(6)] geo(2) show False by linarith
qed

lemma pcells_card: "0 < sz \<Longrightarrow> finite (pcells ho n sz s) \<and> card (pcells ho n sz s) = n"
  by (auto simp: pcells_def card_image inj_on_def)

lemma pslab_ok_frame:
  assumes "pslab_ok asz ho n sz st U s" and "pslabs st' s = pslabs st s"
    and "\<And>h. h \<in> pcells ho n sz s \<Longrightarrow> phdrs st' h = phdrs st h \<and> (h \<in> U' \<longleftrightarrow> h \<in> U)"
  shows "pslab_ok asz ho n sz st' U' s"
proof -
  have "pchain (nxt st') p c = pchain (nxt st) p c" if "set c = pcells ho n sz s - U" for p c
    using that assms(3) by (intro pchain_cong) auto
  moreover have "pcells ho n sz s - U' = pcells ho n sz s - U" using assms(3) by auto
  ultimately show ?thesis using assms unfolding pslab_ok_def by auto
qed

definition core_inv :: "nat \<Rightarrow> nat \<Rightarrow> nat \<Rightarrow> nat \<Rightarrow> ps_mem \<Rightarrow> addr set \<Rightarrow> addr list \<Rightarrow> addr set \<Rightarrow> bool" where
  "core_inv asz ho n sz st S F U \<longleftrightarrow>
     (\<forall>s \<in> S. pslab_ok asz ho n sz st U s) \<and> U \<subseteq> (\<Union>s \<in> S. pcells ho n sz s) \<and>
     slist (plists st) (sl_fl (slab_info (percore st ps_coreid))) F \<and> set F \<subseteq> S \<and>
     (\<forall>s \<in> S. s \<in> set F \<longleftrightarrow> \<not> pcells ho n sz s \<subseteq> U) \<and> (\<forall>s \<in> S - set F. cyc (plists st) [s]) \<and>
     nslabs (slab_info (percore st ps_coreid)) = card S \<and> finite S \<and> card S + length (chunks st) < 2 ^ 64 \<and>
     distinct (chunks st) \<and> set (chunks st) \<inter> S = {} \<and> NULL \<notin> S \<union> set (chunks st) \<and> papart asz (S \<union> set (chunks st))"

lemma core_invD:
  assumes "core_inv asz ho n sz st S F U"
  shows "\<And>s. s \<in> S \<Longrightarrow> pslab_ok asz ho n sz st U s" and "U \<subseteq> (\<Union>s \<in> S. pcells ho n sz s)"
    and "slist (plists st) (sl_fl (slab_info (percore st ps_coreid))) F" and "set F \<subseteq> S"
    and "\<And>s. s \<in> S \<Longrightarrow> s \<in> set F \<longleftrightarrow> \<not> pcells ho n sz s \<subseteq> U" and "\<And>s. s \<in> S \<Longrightarrow> s \<notin> set F \<Longrightarrow> cyc (plists st) [s]"
    and "nslabs (slab_info (percore st ps_coreid)) = card S" and "finite S" and "card S + length (chunks st) < 2 ^ 64"
    and "distinct (chunks st)" and "set (chunks st) \<inter> S = {}" and "NULL \<notin> S \<union> set (chunks st)" and "papart asz (S \<union> set (chunks st))"
  using assms unfolding core_inv_def by blast+

lemma core_invI:
  assumes "\<And>s. s \<in> S \<Longrightarrow> pslab_ok asz ho n sz st U s" and "U \<subseteq> (\<Union>s \<in> S. pcells ho n sz s)"
    and "slist (plists st) (sl_fl (slab_info (percore st ps_coreid))) F" and "set F \<subseteq> S"
    and "\<And>s. s \<in> S \<Longrightarrow> s \<in> set F \<longleftrightarrow> \<not> pcells ho n sz s \<subseteq> U" and "\<And>s. s \<in> S \<Longrightarrow> s \<notin> set F \<Longrightarrow> cyc (plists st) [s]"
    and "nslabs (slab_info (percore st ps_coreid)) = card S" and "finite S" and "card S + length (chunks st) < 2 ^ 64"
    and "distinct (chunks st)" and "set (chunks st) \<inter> S = {}" and "NULL \<notin> S \<union> set (chunks st)" and "papart asz (S \<union> set (chunks st))"
  shows "core_inv asz ho n sz st S F U"
  using assms unfolding core_inv_def by blast

text \<open>What an operation leaves alone: the objects in use and the lists of other cores.\<close>

definition core_frame :: "ps_mem \<Rightarrow> ps_mem \<Rightarrow> addr set \<Rightarrow> bool" where
  "core_frame st st' X \<longleftrightarrow> (\<forall>a \<in> X. phdrs st' a = phdrs st a) \<and> (\<forall>c. slab_remote (percore st' c) = slab_remote (percore st c)) \<and>
     (\<forall>c. remote_token (slab_info (percore st' c)) = remote_token (slab_info (percore st c)))"

text \<open>One object of slab \<open>s\<close> changes hands.\<close>

lemma pobjs_step:
  assumes geo: "slab_geo osz asz ho n sz" and inv: "core_inv asz ho n sz st S F U" and s: "s \<in> S" and h: "h \<in> pcells ho n sz s"
    and st: "pslabs st' = (pslabs st)(s := x)" "phdrs st' = (phdrs st)(h := y)" and U': "U' - {h} = U - {h}"
    and mine: "pslab_ok asz ho n sz st' U' s"
  shows "(\<forall>t \<in> S. pslab_ok asz ho n sz st' U' t) \<and> U' \<subseteq> (\<Union>t \<in> S. pcells ho n sz t) \<and>
    (\<forall>t \<in> S. t \<noteq> s \<longrightarrow> (pcells ho n sz t \<subseteq> U' \<longleftrightarrow> pcells ho n sz t \<subseteq> U))"
proof -
  note D = core_invD[OF inv]
  have out: "h \<notin> pcells ho n sz t" if "t \<in> S" "t \<noteq> s" for t
    using pcells_disjoint[OF geo D(13), of s t h] s h that by auto
  have "pslab_ok asz ho n sz st' U' t" if "t \<in> S" for t
  proof (cases "t = s")
    case False
    then show ?thesis using out[OF that] U' st by (intro pslab_ok_frame[OF D(1)[OF that]]) auto
  qed (use mine in simp)
  moreover have "U' \<subseteq> (\<Union>t \<in> S. pcells ho n sz t)" using U' D(2) s h by blast
  moreover have "pcells ho n sz t \<subseteq> U' \<longleftrightarrow> pcells ho n sz t \<subseteq> U" if "t \<in> S" "t \<noteq> s" for t using out[OF that] U' by blast
  ultimately show ?thesis by blast
qed

lemma pfree_count:
  assumes "pslab_ok asz ho n sz st U s" and "0 < sz"
  shows "p_nfree (pslabs st s) \<le> n" and "p_nfree (pslabs st s) = 0 \<longleftrightarrow> pcells ho n sz s \<subseteq> U"
    and "p_nfree (pslabs st s) = n \<longleftrightarrow> pcells ho n sz s \<inter> U = {}"
proof -
  obtain c where c: "p_nfree (pslabs st s) = length c" "distinct c" "set c = pcells ho n sz s - U" using assms(1) by (auto simp: pslab_ok_def)
  have P: "finite (pcells ho n sz s)" "card (pcells ho n sz s) = n" using pcells_card[OF assms(2)] by auto
  have l: "length c = card (pcells ho n sz s - U)" using distinct_card[OF c(2)] c(3) by simp
  show "p_nfree (pslabs st s) \<le> n" unfolding c(1) l using P card_mono[of "pcells ho n sz s" "pcells ho n sz s - U"] by simp
  show "p_nfree (pslabs st s) = 0 \<longleftrightarrow> pcells ho n sz s \<subseteq> U" unfolding c(1) length_0_conv using c(3) by (metis Diff_eq_empty_iff set_empty)
  show "p_nfree (pslabs st s) = n \<longleftrightarrow> pcells ho n sz s \<inter> U = {}"
  proof
    assume "p_nfree (pslabs st s) = n"
    then have "pcells ho n sz s - U = pcells ho n sz s" using P l c(1) by (intro card_subset_eq) auto
    then show "pcells ho n sz s \<inter> U = {}" by blast
  next
    assume "pcells ho n sz s \<inter> U = {}"
    then have "pcells ho n sz s - U = pcells ho n sz s" by blast
    then show "p_nfree (pslabs st s) = n" using P(2) l c(1) by simp
  qed
qed

lemma papart_subset: "papart asz B \<Longrightarrow> B' \<subseteq> B \<Longrightarrow> papart asz B'"
  by (auto simp: papart_def)

lemma pfl_rem_slist:
  assumes "slist (plists st) (sl_fl (slab_info (percore st c))) F" and "s \<in> set F"
  shows "\<exists>p h'. pfl_rem c s st = Inr (upd_i c (sl_fl_update (\<lambda>_. p)) (st\<lparr>plists := h'\<rparr>)) \<and> slist h' p (remove1 s F) \<and> cyc h' [s] \<and>
    (\<forall>t. t \<notin> set F \<longrightarrow> cyc h' [t] = cyc (plists st) [t])"
proof -
  obtain p h' where r: "slab_freelist_rem (sl_fl (slab_info (percore st c))) s (plists st) = Inr (p, h')" "slist h' p (remove1 s F)" "cyc h' [s]"
      "\<And>zs. set zs \<inter> set F = {} \<Longrightarrow> cyc h' zs = cyc (plists st) zs"
    using freelist_rem_slist[OF assms] by blast
  have "cyc h' [t] = cyc (plists st) [t]" if "t \<notin> set F" for t using that by (intro r(4)) simp
  with r show ?thesis by (intro exI[of _ p] exI[of _ h']) (simp only: pfl_rem_def bindE.simps prod.case, blast)
qed

lemma pfl_rem_alone:
  assumes "slist (plists st) (sl_fl (slab_info (percore st c))) F" and "s \<notin> set F" and "cyc (plists st) [s]" and "s \<noteq> NULL"
  shows "pfl_rem c s st = Inr (upd_i c (sl_fl_update (\<lambda>_. sl_fl (slab_info (percore st c)))) st)"
proof -
  have "sl_fl (slab_info (percore st c)) \<noteq> s" using assms(1,2,4) by (auto simp: slist_def split: list.splits)
  then show ?thesis using assms(4) ll_rem_alone[OF assms(3)] by (simp add: pfl_rem_def slab_freelist_rem_def)
qed

lemma pfl_add_slist:
  assumes "slist (plists st) (sl_fl (slab_info (percore st c))) F" and "s \<notin> set F" and "cyc (plists st) [s]" and "s \<noteq> NULL"
  shows "\<exists>h'. pfl_add c s st = Inr (upd_i c (sl_fl_update (\<lambda>_. s)) (st\<lparr>plists := h'\<rparr>)) \<and> slist h' s (ring_insert s F) \<and>
    (\<forall>t. t \<notin> insert s (set F) \<longrightarrow> cyc h' [t] = cyc (plists st) [t])"
proof -
  obtain h' where r: "slab_freelist_add (sl_fl (slab_info (percore st c))) s (plists st) = Inr (s, h')" "slist h' s (ring_insert s F)"
      "\<And>zs. set zs \<inter> insert s (set F) = {} \<Longrightarrow> cyc h' zs = cyc (plists st) zs"
    using freelist_add_slist[OF assms(1,3,2,4)] by blast
  have "cyc h' [t] = cyc (plists st) [t]" if "t \<notin> insert s (set F)" for t using that by (intro r(3)) simp
  with r show ?thesis by (intro exI[of _ h']) (simp only: pfl_add_def bindE.simps prod.case, blast)
qed

text \<open>The state after an object has been taken off the list of its slab, and before the ring is updated.\<close>

definition took :: "addr \<Rightarrow> addr \<Rightarrow> nat \<Rightarrow> ps_mem \<Rightarrow> ps_mem" where
  "took s h k st = st\<lparr>pslabs := (pslabs st)(s := (pslabs st s)\<lparr>p_freelist := nxt st h, p_nfree := k\<rparr>),
     phdrs := (phdrs st)(h := (phdrs st h)\<lparr>m_tsc := 0, m_next := NULL\<rparr>)\<rparr>"

lemma took_fields [simp]:
  "pslabs (took s h k st) = (pslabs st)(s := (pslabs st s)\<lparr>p_freelist := nxt st h, p_nfree := k\<rparr>)"
  "phdrs (took s h k st) = (phdrs st)(h := (phdrs st h)\<lparr>m_tsc := 0, m_next := NULL\<rparr>)"
  "plists (took s h k st) = plists st" "percore (took s h k st) = percore st" "chunks (took s h k st) = chunks st"
  by (simp_all add: took_def)

lemma take_objs:
  assumes geo: "slab_geo osz asz ho n sz" and inv: "core_inv asz ho n sz st S F U" and s: "s \<in> set F"
  shows "\<exists>h k. p_freelist (pslabs st s) = h \<and> h \<in> pcells ho n sz s \<and> h \<notin> U \<and> p_nfree (pslabs st s) = Suc k \<and> Suc k < 2 ^ 64 \<and>
    (\<forall>t \<in> S. pslab_ok asz ho n sz (took s h k st) (insert h U) t) \<and> insert h U \<subseteq> (\<Union>t \<in> S. pcells ho n sz t) \<and>
    (\<forall>t \<in> S. \<not> pcells ho n sz t \<subseteq> insert h U \<longleftrightarrow> t \<in> set F \<and> (t = s \<longrightarrow> k \<noteq> 0))"
proof -
  note D = core_invD[OF inv] and g = geo_facts[OF geo]
  have sS: "s \<in> S" using D(4) s by blast
  note ok = D(1)[OF sS]
  obtain c0 where c0: "p_nfree (pslabs st s) = length c0" "pchain (nxt st) (p_freelist (pslabs st s)) c0" "distinct c0" "set c0 = pcells ho n sz s - U"
    using ok by (auto simp: pslab_ok_def)
  have "c0 \<noteq> []" using D(5)[OF sS] s c0(4) by auto
  then obtain h c where c: "c0 = h # c" by (cases c0) auto
  have h: "p_freelist (pslabs st s) = h" "h \<in> pcells ho n sz s" "h \<notin> U" "h \<notin> set c" "pchain (nxt st) (nxt st h) c" using c0 c by auto
  have "Suc (length c) < 2 ^ 64" using pfree_count(1)[OF ok g(2)] c0(1) c g(3) by simp
  let ?st = "took s h (length c) st"
  have "pchain (nxt ?st) p c = pchain (nxt st) p c" for p using h(4) by (intro pchain_cong) auto
  note ch = this
  have sc: "set c = pcells ho n sz s - insert h U" using c0(3,4) c by auto
  have "pslab_ok asz ho n sz ?st (insert h U) s" unfolding pslab_ok_def
  proof (intro conjI)
    show "\<exists>c'. p_nfree (pslabs ?st s) = length c' \<and> pchain (nxt ?st) (p_freelist (pslabs ?st s)) c' \<and> distinct c' \<and> set c' = pcells ho n sz s - insert h U"
      using ch h(5) c0(3) c sc by (intro exI[of _ c]) simp
  qed (use ok h in \<open>auto simp: pslab_ok_def\<close>)
  from pobjs_step[OF geo inv sS h(2) _ _ _ this, of "(pslabs st s)\<lparr>p_freelist := nxt st h, p_nfree := length c\<rparr>" "(phdrs st h)\<lparr>m_tsc := 0, m_next := NULL\<rparr>"]
  have o: "\<forall>t \<in> S. pslab_ok asz ho n sz ?st (insert h U) t" "insert h U \<subseteq> (\<Union>t \<in> S. pcells ho n sz t)"
      "\<forall>t \<in> S. t \<noteq> s \<longrightarrow> (pcells ho n sz t \<subseteq> insert h U \<longleftrightarrow> pcells ho n sz t \<subseteq> U)" by auto
  have "\<not> pcells ho n sz t \<subseteq> insert h U \<longleftrightarrow> t \<in> set F \<and> (t = s \<longrightarrow> length c \<noteq> 0)" if "t \<in> S" for t
  proof (cases "t = s")
    case True
    then show ?thesis using s sc by (metis Diff_eq_empty_iff length_0_conv set_empty)
  qed (use o(3) D(5)[OF that] that in auto)
  then show ?thesis using h(1-3) c0(1) c \<open>Suc (length c) < 2 ^ 64\<close> o(1,2) by (intro exI[of _ h] exI[of _ "length c"]) simp
qed

lemma take_core:
  assumes geo: "slab_geo osz asz ho n sz" and inv: "core_inv asz ho n sz st S (s # F) U"
  shows "\<exists>h st' F'. pslab_take ps_coreid s st = Inr (mhead_mem h, st') \<and> h \<notin> U \<and> core_inv asz ho n sz st' S F' (insert h U) \<and>
    core_frame st st' U \<and> nxt st' h = NULL \<and> h \<noteq> NULL"
proof -
  note D = core_invD[OF inv] and g = geo_facts[OF geo]
  have s: "s \<in> S" "s \<noteq> NULL" using D(4,12) by (simp, metis UnI1 list.set_intros(1) subsetD)
  obtain h k where h: "p_freelist (pslabs st s) = h" "h \<in> pcells ho n sz s" "h \<notin> U" "p_nfree (pslabs st s) = Suc k" "Suc k < 2 ^ 64"
      and o: "\<forall>t \<in> S. pslab_ok asz ho n sz (took s h k st) (insert h U) t" "insert h U \<subseteq> (\<Union>t \<in> S. pcells ho n sz t)"
      "\<forall>t \<in> S. \<not> pcells ho n sz t \<subseteq> insert h U \<longleftrightarrow> t \<in> set (s # F) \<and> (t = s \<longrightarrow> k \<noteq> 0)"
    using take_objs[OF geo inv, of s] by auto
  have h0: "h \<noteq> NULL" using pcells_range(1)[OF g(1) h(2)] s(2) by simp
  have dec: "(Suc k + (2 ^ 64 - 1)) mod 2 ^ 64 = k" using dec_word[OF _ h(5)] by simp
  have t: "pslab_take ps_coreid s st = bindE (if k = 0
      then bindE (pfl_rem ps_coreid s (took s h k st)) (\<lambda>st. bindE (assertE (ps_list_singleton (plists st) s)) (\<lambda>_. Inr st)) else Inr (took s h k st))
      (\<lambda>st. bindE (assertE (\<not> mhead_isfree h st)) (\<lambda>_. Inr (mhead_mem h, st)))"
    using s(2) h0 h(1,4) dec by (simp add: pslab_take_def Let_def upd_defs mhead_reset_def took_def)
  have dF: "s \<notin> set F" using slist_distinct[OF D(3)] by simp
  show ?thesis
  proof (cases "k = 0")
    case False
    have "core_inv asz ho n sz (took s h k st) S (s # F) (insert h U)"
      by (rule core_invI) (use o False D(3,4,6-13) in auto)
    moreover have "core_frame st (took s h k st) U" using h(3) by (auto simp: core_frame_def)
    ultimately show ?thesis using t False h(3) h0 by (intro exI[of _ h] exI[of _ "took s h k st"]) (auto simp: mhead_isfree_def)
  next
    case True
    obtain p h' where r: "pfl_rem ps_coreid s (took s h k st) = Inr (upd_i ps_coreid (sl_fl_update (\<lambda>_. p)) ((took s h k st)\<lparr>plists := h'\<rparr>))"
        "slist h' p (remove1 s (s # F))" "cyc h' [s]" "\<forall>t. t \<notin> set (s # F) \<longrightarrow> cyc h' [t] = cyc (plists st) [t]"
      using pfl_rem_slist[of "took s h k st" ps_coreid "s # F" s] D(3) unfolding took_fields by (metis list.set_intros(1))
    define st5 where "st5 = upd_i ps_coreid (sl_fl_update (\<lambda>_. p)) ((took s h k st)\<lparr>plists := h'\<rparr>)"
    have f5: "pslabs st5 = pslabs (took s h k st)" "phdrs st5 = phdrs (took s h k st)" "plists st5 = h'" "chunks st5 = chunks st"
        "sl_fl (slab_info (percore st5 ps_coreid)) = p" "nslabs (slab_info (percore st5 ps_coreid)) = nslabs (slab_info (percore st ps_coreid))"
      by (simp_all add: st5_def upd_i_def)
    have "core_inv asz ho n sz st5 S F (insert h U)"
    proof (rule core_invI)
      show "pslab_ok asz ho n sz st5 (insert h U) t" if "t \<in> S" for t
        using o(1)[rule_format, OF that] by (rule pslab_ok_frame) (simp_all add: f5(1,2))
      show "t \<in> set F \<longleftrightarrow> \<not> pcells ho n sz t \<subseteq> insert h U" if "t \<in> S" for t using o(3)[rule_format, OF that] True dF by auto
      show "cyc (plists st5) [t]" if "t \<in> S" "t \<notin> set F" for t
        using D(6)[of t] that r(3,4) unfolding f5(3) by (metis set_ConsD)
    qed (use o(2) D(4,7-13) r(2) in \<open>simp_all add: f5(3-6)\<close>)
    moreover have "core_frame st st5 U" using h(3) by (auto simp: core_frame_def st5_def upd_i_def)
    moreover have "ps_list_singleton (plists st5) s" using cyc_singleton_iff[OF r(3)] f5(3) by simp
    moreover have "pslab_take ps_coreid s st = Inr (mhead_mem h, st5)"
      unfolding t r(1)[folded st5_def] using True calculation(3) by (simp add: mhead_isfree_def f5(2))
    ultimately show ?thesis using h(3) h0 f5(2) by (intro exI[of _ h] exI[of _ st5]) auto
  qed
qed

section \<open>The objects of a new slab\<close>

lemma pinit_loop_frame:
  "fst (pslab_init_loop k s a p sz st) = a + k * sz \<and> pslabs (snd (pslab_init_loop k s a p sz st)) = pslabs st \<and>
   plists (snd (pslab_init_loop k s a p sz st)) = plists st \<and> percore (snd (pslab_init_loop k s a p sz st)) = percore st \<and>
   chunks (snd (pslab_init_loop k s a p sz st)) = chunks st"
  by (induction k arbitrary: a p st) (auto simp: upd_h_def mhead_init_def mhead_setfree_def)

text \<open>One turn: the header at \<open>a\<close> is set up and linked from \<open>p\<close>.\<close>

definition link_obj :: "addr \<Rightarrow> addr \<Rightarrow> addr \<Rightarrow> ps_mem \<Rightarrow> ps_mem" where
  "link_obj s a p st = upd_h p (m_next_update (\<lambda>_. a)) (mhead_init a s st)"

lemma link_obj_hdr:
  "phdrs (link_obj s a p st) b = (if b = a then (phdrs st a)\<lparr>m_slab := s, m_tsc := 1, m_next := if p = a then a else nxt st a\<rparr>
     else if b = p then (phdrs st p)\<lparr>m_next := a\<rparr> else phdrs st b)"
  by (simp add: link_obj_def upd_h_def mhead_init_def mhead_setfree_def)

lemma pinit_loop_Suc: "snd (pslab_init_loop (Suc k) s a p sz st) = snd (pslab_init_loop k s (a + sz) a sz (link_obj s a p st))"
  by (simp add: link_obj_def)

declare pslab_init_loop.simps(2) [simp del]

lemma pinit_loop_spec:
  assumes "0 < sz" and "p \<le> a"
  shows "(\<forall>b. b \<noteq> p \<longrightarrow> b < a \<or> a + k * sz \<le> b \<longrightarrow> phdrs (snd (pslab_init_loop k s a p sz st)) b = phdrs st b) \<and>
    (p < a \<longrightarrow> phdrs (snd (pslab_init_loop k s a p sz st)) p = (phdrs st p)\<lparr>m_next := if k = 0 then nxt st p else a\<rparr>) \<and>
    (\<forall>j < k. m_slab (phdrs (snd (pslab_init_loop k s a p sz st)) (a + j * sz)) = s \<and> m_tsc (phdrs (snd (pslab_init_loop k s a p sz st)) (a + j * sz)) = 1) \<and>
    (\<forall>j. Suc j < k \<longrightarrow> nxt (snd (pslab_init_loop k s a p sz st)) (a + j * sz) = a + Suc j * sz)"
  using assms(2)
proof (induction k arbitrary: a p st)
  case (Suc k)
  let ?st = "link_obj s a p st" and ?st' = "snd (pslab_init_loop k s (a + sz) a sz (link_obj s a p st))"
  have I: "phdrs ?st' b = phdrs ?st b" if "b \<noteq> a" "b < a + sz \<or> a + sz + k * sz \<le> b" for b
    using Suc.IH[of a "a + sz" ?st] that by auto
  have A: "phdrs ?st' a = (phdrs ?st a)\<lparr>m_next := if k = 0 then nxt ?st a else a + sz\<rparr>" using Suc.IH[of a "a + sz" ?st] assms(1) by simp
  have J: "m_slab (phdrs ?st' (a + j * sz)) = s \<and> m_tsc (phdrs ?st' (a + j * sz)) = 1" if "j < Suc k" for j
  proof (cases j)
    case (Suc i)
    then show ?thesis using Suc.IH[of a "a + sz" ?st] that by (simp add: add.assoc)
  qed (simp add: A link_obj_hdr)
  have N: "nxt ?st' (a + j * sz) = a + Suc j * sz" if "Suc j < Suc k" for j
  proof (cases j)
    case (Suc i)
    then show ?thesis using Suc.IH[of a "a + sz" ?st] that by (simp add: add.assoc)
  qed (use that A in simp)
  have "phdrs ?st' b = phdrs st b" if "b \<noteq> p" "b < a \<or> a + Suc k * sz \<le> b" for b
    using I[of b] that assms(1) by (auto simp: link_obj_hdr)
  moreover have "p < a \<Longrightarrow> phdrs ?st' p = (phdrs st p)\<lparr>m_next := a\<rparr>" using I[of p] assms(1) by (simp add: link_obj_hdr)
  ultimately show ?case unfolding pinit_loop_Suc using J N by simp
qed simp

lemma upt_chain: "(\<And>j. i \<le> j \<Longrightarrow> Suc j < k \<Longrightarrow> f (a + j * sz) = a + Suc j * sz) \<Longrightarrow> i < k \<Longrightarrow> pchain f (a + i * sz) (map (\<lambda>j. a + j * sz) [i..<k])"
proof (induction "k - i" arbitrary: i)
  case (Suc d)
  then have l: "[i..<k] = i # [Suc i..<k]" by (simp add: upt_conv_Cons)
  show ?case
  proof (cases "Suc i < k")
    case True
    then have "pchain f (a + Suc i * sz) (map (\<lambda>j. a + j * sz) [Suc i..<k])" using Suc.prems(1) Suc.hyps(2) by (intro Suc.hyps(1)) auto
    then show ?thesis using Suc.prems(1)[of i] True unfolding l by simp
  qed (use l in simp)
qed simp

lemma pinit_slab_ok:
  assumes "0 < sz" and "1 \<le> n" and st: "st' = snd (pslab_init_loop n s (s + ho) (s + ho) sz st)"
    and x: "p_memory (pslabs st s) = s" "p_memsz (pslabs st s) = asz" "p_coreid (pslabs st s) = ps_coreid" "p_nfree (pslabs st s) = n" "p_freelist (pslabs st s) = s + ho"
    and U: "pcells ho n sz s \<inter> U = {}"
  shows "pslab_ok asz ho n sz st' U s"
proof -
  note sp = pinit_loop_spec[OF assms(1) order.refl, of "s + ho" n s st, folded st]
  have "pslabs st' = pslabs st" unfolding st using pinit_loop_frame by simp
  let ?c = "map (\<lambda>j. s + ho + j * sz) [0..<n]"
  have "pchain (nxt st') (s + ho + 0 * sz) ?c" using sp assms(2) by (intro upt_chain) auto
  moreover have "distinct ?c" using assms(1) by (auto simp: distinct_map inj_on_def)
  moreover have "set ?c = pcells ho n sz s" by (simp add: pcells_def atLeast0LessThan)
  then have "set ?c = pcells ho n sz s - U" using U by blast
  ultimately have "\<exists>c. n = length c \<and> pchain (nxt st') (s + ho) c \<and> distinct c \<and> set c = pcells ho n sz s - U"
    by (intro exI[of _ ?c]) simp
  moreover have "m_slab (phdrs st' h) = s \<and> m_tsc (phdrs st' h) = 1" if "h \<in> pcells ho n sz s" for h using sp that by (auto simp: pcells_def)
  ultimately show ?thesis using x U \<open>pslabs st' = pslabs st\<close> unfolding pslab_ok_def by fastforce
qed

text \<open>Two states that agree outside the chunk at \<open>s\<close>.\<close>

definition same_outside :: "addr \<Rightarrow> nat \<Rightarrow> ps_mem \<Rightarrow> ps_mem \<Rightarrow> bool" where
  "same_outside s asz st st' \<longleftrightarrow> (\<forall>t. t < s \<or> s + asz \<le> t \<longrightarrow> pslabs st' t = pslabs st t \<and> phdrs st' t = phdrs st t \<and>
     ln (plists st') t = ln (plists st) t \<and> lp (plists st') t = lp (plists st) t)"

lemma same_outsideD:
  assumes "same_outside s asz st st'" and "t < s \<or> s + asz \<le> t"
  shows "pslabs st' t = pslabs st t" and "phdrs st' t = phdrs st t" and "cyc (plists st') [t] = cyc (plists st) [t]"
  using assms by (auto simp: same_outside_def)

lemma apart_outside: "papart asz B \<Longrightarrow> s \<in> B \<Longrightarrow> t \<in> B \<Longrightarrow> t \<noteq> s \<Longrightarrow> 0 < asz \<Longrightarrow> t < s \<or> s + asz \<le> t"
  unfolding papart_def by fastforce

lemma cells_outside:
  assumes "slab_geo osz asz ho n sz" and "papart asz B" and "s \<in> B" and "t \<in> B" and "t \<noteq> s" and "h \<in> pcells ho n sz t"
  shows "h < s \<or> s + asz \<le> h"
proof -
  note g = geo_facts[OF assms(1)]
  have "t + asz \<le> s \<or> s + asz \<le> t" using assms(2-5) by (simp add: papart_def)
  then show ?thesis using pcells_range[OF g(1) assms(6)] g(2) by linarith
qed

text \<open>The state after the objects of the chunk at \<open>s\<close> have been set up.\<close>

definition inited :: "nat \<Rightarrow> nat \<Rightarrow> nat \<Rightarrow> nat \<Rightarrow> addr \<Rightarrow> ps_mem \<Rightarrow> ps_mem" where
  "inited asz ho n sz s st = snd (pslab_init_loop n s (s + ho) (s + ho) sz
     (upd_s s (\<lambda>x. x\<lparr>p_nfree := n, p_memsz := asz, p_coreid := ps_coreid, p_freelist := s + ho\<rparr>) st))"

lemma inited_fields [simp]:
  "pslabs (inited asz ho n sz s st) = (pslabs st)(s := (pslabs st s)\<lparr>p_nfree := n, p_memsz := asz, p_coreid := ps_coreid, p_freelist := s + ho\<rparr>)"
  "plists (inited asz ho n sz s st) = plists st" "percore (inited asz ho n sz s st) = percore st" "chunks (inited asz ho n sz s st) = chunks st"
  by (simp_all add: inited_def pinit_loop_frame upd_s_def)

lemma init_objs:
  assumes geo: "slab_geo osz asz ho n sz" and inv: "core_inv asz ho n sz st S F U" and s: "s \<in> S \<union> set (chunks st)" "s \<notin> S"
    and st1: "p_memory (pslabs st1 s) = s" "same_outside s asz st st1"
  shows "pcells ho n sz s \<inter> U = {}" and "\<And>t. t \<in> insert s S \<Longrightarrow> pslab_ok asz ho n sz (inited asz ho n sz s st1) U t"
    and "\<And>h. h \<in> U \<Longrightarrow> phdrs (inited asz ho n sz s st1) h = phdrs st h" and "\<And>t. t \<in> S \<Longrightarrow> t < s \<or> s + asz \<le> t"
proof -
  note D = core_invD[OF inv] and g = geo_facts[OF geo]
  let ?st = "inited asz ho n sz s st1"
  have asz: "ho < asz" "0 < asz" using g(1,2,4) by (cases n; auto)+
  show out: "t < s \<or> s + asz \<le> t" if "t \<in> S" for t using apart_outside[OF D(13) s(1) _ _ asz(2)] that s(2) by blast
  have outc: "h < s \<or> s + asz \<le> h" if "h \<in> pcells ho n sz t" "t \<in> S" for h t using cells_outside[OF geo D(13) s(1) _ _ that(1)] that(2) s(2) by blast
  have hd: "phdrs ?st h = phdrs st h" if "h < s \<or> s + asz \<le> h" for h
    using pinit_loop_spec[OF g(2) order.refl, of "s + ho" n s] that g(1) asz(1) same_outsideD(2)[OF st1(2) that] by (auto simp: inited_def upd_s_def)
  show U: "pcells ho n sz s \<inter> U = {}" using D(2) outc pcells_range[OF g(1)] g(2) by (fastforce simp: disjoint_iff)
  have mine: "pslab_ok asz ho n sz ?st U s"
    by (rule pinit_slab_ok[OF g(2,4) inited_def _ _ _ _ _ U]) (simp_all add: upd_s_def st1(1))
  show "pslab_ok asz ho n sz ?st U t" if "t \<in> insert s S" for t
  proof (cases "t = s")
    case False
    then have t: "t \<in> S" using that by simp
    show ?thesis
      by (rule pslab_ok_frame[OF D(1)[OF t]]) (use False same_outsideD(1)[OF st1(2) out[OF t]] hd outc[OF _ t] in auto)
  qed (use mine in simp)
  show "phdrs ?st h = phdrs st h" if "h \<in> U" for h using that D(2) hd outc by blast
qed

lemma init_core:
  assumes geo: "slab_geo osz asz ho n sz" and inv: "core_inv asz ho n sz st S [] U" and ch: "chunks st = s # xs"
    and st1: "chunks st1 = xs" "percore st1 = percore st" "p_memory (pslabs st1 s) = s" "same_outside s asz st st1"
  shows "\<exists>st'. pslab_init s ps_coreid osz asz ho st1 = Inr st' \<and> p_memory (pslabs st' s) = s \<and> p_freelist (pslabs st' s) = s + ho \<and>
    core_inv asz ho n sz (upd_i ps_coreid (\<lambda>x. x\<lparr>nslabs := (nslabs x + 1) mod 2 ^ 64\<rparr>) st') (insert s S) [s] U \<and> core_frame st st' U"
proof -
  note D = core_invD[OF inv] and g = geo_facts[OF geo]
  have s: "s \<notin> S" "s \<noteq> NULL" "s \<in> S \<union> set (chunks st)" "s \<notin> set xs" using D(10-12) ch by simp_all
  note o = init_objs[OF geo inv s(3,1) st1(3,4)]
  define st4 where "st4 = (inited asz ho n sz s st1)\<lparr>plists := ps_list_ll_init (plists st1) s\<rparr>"
  have "slist (plists st4) (sl_fl (slab_info (percore st4 ps_coreid))) []" using D(3) by (simp add: st4_def st1(2) slist_def)
  moreover have "cyc (plists st4) [s]" using ll_init_cyc[of "plists st1" s] by (simp add: st4_def del: cyc.simps)
  ultimately obtain h' where a: "pfl_add ps_coreid s st4 = Inr (upd_i ps_coreid (sl_fl_update (\<lambda>_. s)) (st4\<lparr>plists := h'\<rparr>))" "slist h' s (ring_insert s [])"
      "\<forall>t. t \<notin> insert s (set []) \<longrightarrow> cyc h' [t] = cyc (plists st4) [t]"
    using pfl_add_slist[of st4 ps_coreid "[]" s] s(2) by auto
  define st5 where "st5 = upd_i ps_coreid (sl_fl_update (\<lambda>_. s)) (st4\<lparr>plists := h'\<rparr>)"
  define st6 where "st6 = upd_i ps_coreid (\<lambda>x. x\<lparr>nslabs := (nslabs x + 1) mod 2 ^ 64\<rparr>) st5"
  have f6: "pslabs st6 = pslabs (inited asz ho n sz s st1)" "phdrs st6 = phdrs (inited asz ho n sz s st1)" "plists st6 = h'" "chunks st6 = xs"
      "sl_fl (slab_info (percore st6 ps_coreid)) = s" "nslabs (slab_info (percore st6 ps_coreid)) = (card S + 1) mod 2 ^ 64"
    using D(7) by (simp_all add: st6_def st5_def st4_def upd_i_def st1)
  have big: "Suc (card S) + length xs < 2 ^ 64" using D(9) ch by simp
  then have ns: "(card S + 1) mod 2 ^ 64 = card (insert s S)" using D(8) s(1) by simp
  have "core_inv asz ho n sz st6 (insert s S) [s] U"
  proof (rule core_invI)
    show "pslab_ok asz ho n sz st6 U t" if "t \<in> insert s S" for t using o(2)[OF that] by (rule pslab_ok_frame) (simp_all add: f6(1,2))
    show "t \<in> set [s] \<longleftrightarrow> \<not> pcells ho n sz t \<subseteq> U" if "t \<in> insert s S" for t
    proof (cases "t = s")
      case True
      then show ?thesis using o(1) g(4) pcells_card[OF g(2), of ho n s] by (cases "pcells ho n sz s = {}") auto
    qed (use D(5)[of t] that in auto)
    show "cyc (plists st6) [t]" if "t \<in> insert s S" "t \<notin> set [s]" for t
    proof -
      have t: "t \<in> S" "t \<noteq> s" using that by auto
      then have "cyc (plists st1) [t]" using D(6)[of t] same_outsideD(3)[OF st1(4) o(4)[of t]] by auto
      then have "cyc (plists st4) [t]" using t(2) ll_init_other[of s "[t]" "plists st1"] by (simp add: st4_def del: cyc.simps)
      then show ?thesis using a(3) t(2) f6(3) by (metis insertE empty_iff list.set(1))
    qed
  qed (use D ch s ns a(2) big in \<open>auto simp: f6 ring_insert_def papart_def\<close>)
  moreover have "core_frame st st5 U" using o(3) by (simp add: core_frame_def st5_def st4_def upd_i_def st1(2))
  moreover have "pslab_init s ps_coreid osz asz ho st1 = Inr st5"
    using g st1(3) pinit_loop_frame[of n s "s + ho" "s + ho" sz "upd_s s (\<lambda>x. x\<lparr>p_nfree := n, p_memsz := asz, p_coreid := ps_coreid, p_freelist := s + ho\<rparr>) st1"]
      a(1)[folded st5_def, unfolded st4_def inited_def]
    by (simp add: pslab_init_def Let_def case_prod_beta) (simp add: upd_s_def)
  ultimately show ?thesis by (intro exI[of _ st5]) (simp add: st6_def st5_def st4_def upd_i_def st1(3))
qed

section \<open>Release of an object\<close>

text \<open>The state after an object is back on the list of its slab, and before the counter is looked at.\<close>

definition gave :: "addr \<Rightarrow> addr \<Rightarrow> ps_mem \<Rightarrow> ps_mem" where
  "gave s h st = st\<lparr>phdrs := (phdrs st)(h := (phdrs st h)\<lparr>m_tsc := 1, m_next := p_freelist (pslabs st s)\<rparr>),
     pslabs := (pslabs st)(s := (pslabs st s)\<lparr>p_freelist := h, p_nfree := Suc (p_nfree (pslabs st s))\<rparr>)\<rparr>"

lemma gave_fields [simp]:
  "pslabs (gave s h st) = (pslabs st)(s := (pslabs st s)\<lparr>p_freelist := h, p_nfree := Suc (p_nfree (pslabs st s))\<rparr>)"
  "phdrs (gave s h st) = (phdrs st)(h := (phdrs st h)\<lparr>m_tsc := 1, m_next := p_freelist (pslabs st s)\<rparr>)"
  "plists (gave s h st) = plists st" "percore (gave s h st) = percore st" "chunks (gave s h st) = chunks st"
  by (simp_all add: gave_def)

lemma give_objs:
  assumes geo: "slab_geo osz asz ho n sz" and inv: "core_inv asz ho n sz st S F U" and h: "h \<in> U"
  shows "\<exists>s. s \<in> S \<and> h \<in> pcells ho n sz s \<and> m_slab (phdrs st h) = s \<and> m_tsc (phdrs st h) = 0 \<and> p_coreid (pslabs st s) = ps_coreid \<and>
    p_nfree (pslabs st s) < n \<and> (p_nfree (pslabs st s) = 0 \<longleftrightarrow> s \<notin> set F) \<and>
    (\<forall>t \<in> S. pslab_ok asz ho n sz (gave s h st) (U - {h}) t) \<and> U - {h} \<subseteq> (\<Union>t \<in> S. pcells ho n sz t) \<and>
    (\<forall>t \<in> S. \<not> pcells ho n sz t \<subseteq> U - {h} \<longleftrightarrow> t \<in> insert s (set F)) \<and>
    (Suc (p_nfree (pslabs st s)) = n \<longleftrightarrow> pcells ho n sz s \<inter> (U - {h}) = {})"
proof -
  note D = core_invD[OF inv] and g = geo_facts[OF geo]
  obtain s where s: "s \<in> S" "h \<in> pcells ho n sz s" using D(2) h by blast
  note ok = D(1)[OF s(1)]
  have hd: "m_slab (phdrs st h) = s" "m_tsc (phdrs st h) = 0" using ok s(2) h by (auto simp: pslab_ok_def)
  obtain c where c: "p_nfree (pslabs st s) = length c" "pchain (nxt st) (p_freelist (pslabs st s)) c" "distinct c" "set c = pcells ho n sz s - U"
    using ok by (auto simp: pslab_ok_def)
  have c4: "insert h (set c) = pcells ho n sz s - (U - {h})" "h \<notin> set c" using c(4) s(2) h by auto
  have "p_nfree (pslabs st s) \<noteq> n" using pfree_count(3)[OF ok g(2)] s(2) h by blast
  then have lt: "p_nfree (pslabs st s) < n" using pfree_count(1)[OF ok g(2)] by simp
  let ?st = "gave s h st"
  have ch: "pchain (nxt ?st) p c = pchain (nxt st) p c" for p using c(4) h by (intro pchain_cong) auto
  have "pslab_ok asz ho n sz ?st (U - {h}) s" unfolding pslab_ok_def
  proof (intro conjI)
    show "\<exists>c'. p_nfree (pslabs ?st s) = length c' \<and> pchain (nxt ?st) (p_freelist (pslabs ?st s)) c' \<and> distinct c' \<and> set c' = pcells ho n sz s - (U - {h})"
      using c(1-3) ch c4 by (intro exI[of _ "h # c"]) simp
  qed (use ok in \<open>auto simp: pslab_ok_def\<close>)
  note mine = this
  from pobjs_step[OF geo inv s _ _ _ mine, of "(pslabs st s)\<lparr>p_freelist := h, p_nfree := Suc (p_nfree (pslabs st s))\<rparr>" "(phdrs st h)\<lparr>m_tsc := 1, m_next := p_freelist (pslabs st s)\<rparr>"]
  have o: "\<forall>t \<in> S. pslab_ok asz ho n sz ?st (U - {h}) t" "U - {h} \<subseteq> (\<Union>t \<in> S. pcells ho n sz t)"
      "\<forall>t \<in> S. t \<noteq> s \<longrightarrow> (pcells ho n sz t \<subseteq> U - {h} \<longleftrightarrow> pcells ho n sz t \<subseteq> U)" by auto
  have "\<not> pcells ho n sz t \<subseteq> U - {h} \<longleftrightarrow> t \<in> insert s (set F)" if "t \<in> S" for t
    using o(3) D(5)[OF that] that s(2) by (cases "t = s") auto
  moreover have "Suc (p_nfree (pslabs st s)) = n \<longleftrightarrow> pcells ho n sz s \<inter> (U - {h}) = {}" using pfree_count(3)[OF mine g(2)] by simp
  moreover have "p_nfree (pslabs st s) = 0 \<longleftrightarrow> s \<notin> set F" using pfree_count(2)[OF ok g(2)] D(5)[OF s(1)] by simp
  moreover have "p_coreid (pslabs st s) = ps_coreid" using ok by (simp add: pslab_ok_def)
  ultimately show ?thesis using s hd lt o(1,2) by (intro exI[of _ s]) simp
qed

lemma mem_free_local:
  assumes geo: "slab_geo osz asz ho n sz" and h: "m_tsc (phdrs st h) = 0" "m_slab (phdrs st h) = s" "s \<noteq> NULL" "p_coreid (pslabs st s) = c"
    and k: "p_nfree (pslabs st s) < n"
  shows "slab_mem_free ffn nl numaid c osz asz ho (mhead_mem h) st =
    (if Suc (p_nfree (pslabs st s)) = n
     then bindE (pfl_rem c s (upd_i c (\<lambda>x. x\<lparr>nslabs := (nslabs x + (2 ^ 64 - 1)) mod 2 ^ 64\<rparr>) (gave s h st))) (\<lambda>st. ffn s (p_memsz (pslabs st s)) c st)
     else if p_nfree (pslabs st s) = 0
     then bindE (assertE (ps_list_singleton (plists st) s)) (\<lambda>_. bindE (assertE (p_memory (pslabs st s) \<noteq> NULL \<and> h \<noteq> NULL)) (\<lambda>_. pfl_add c s (gave s h st)))
     else Inr (gave s h st))"
proof -
  note g = geo_facts[OF geo]
  have "(p_nfree (pslabs st s) + 1) mod 2 ^ 64 = Suc (p_nfree (pslabs st s))" "n mod 2 ^ 32 = n" using k g(3) by simp_all
  then show ?thesis using g(6,8) h
    by (simp add: slab_mem_free_def Let_def mhead_get_def mhead_mem_def mhead_isfree_def mhead_setfree_def upd_h_def upd_s_def gave_def)
qed

lemma core_inv_room: "core_inv asz ho n sz st S F U \<Longrightarrow> sl_fl (slab_info (percore st ps_coreid)) = NULL \<longleftrightarrow> F = []"
  using slist_empty[OF core_invD(3)] by simp

lemma put_middle:
  assumes inv: "core_inv asz ho n sz st S F U" and s: "s \<in> set F"
    and o: "\<forall>t \<in> S. pslab_ok asz ho n sz (gave s h st) (U - {h}) t" "U - {h} \<subseteq> (\<Union>t \<in> S. pcells ho n sz t)"
      "\<forall>t \<in> S. \<not> pcells ho n sz t \<subseteq> U - {h} \<longleftrightarrow> t \<in> insert s (set F)"
  shows "core_inv asz ho n sz (gave s h st) S F (U - {h})"
  by (rule core_invI) (use core_invD[OF inv] s o in auto)

lemma put_first:
  assumes inv: "core_inv asz ho n sz st S F U" and s: "s \<in> S" "s \<notin> set F" "s \<noteq> NULL"
    and o: "\<forall>t \<in> S. pslab_ok asz ho n sz (gave s h st) (U - {h}) t" "U - {h} \<subseteq> (\<Union>t \<in> S. pcells ho n sz t)"
      "\<forall>t \<in> S. \<not> pcells ho n sz t \<subseteq> U - {h} \<longleftrightarrow> t \<in> insert s (set F)"
  shows "\<exists>st'. pfl_add ps_coreid s (gave s h st) = Inr st' \<and> core_inv asz ho n sz st' S (ring_insert s F) (U - {h}) \<and> core_frame (gave s h st) st' UNIV"
proof -
  note D = core_invD[OF inv]
  obtain h' where a: "pfl_add ps_coreid s (gave s h st) = Inr (upd_i ps_coreid (sl_fl_update (\<lambda>_. s)) ((gave s h st)\<lparr>plists := h'\<rparr>))"
      "slist h' s (ring_insert s F)" "\<forall>t. t \<notin> insert s (set F) \<longrightarrow> cyc h' [t] = cyc (plists st) [t]"
    using pfl_add_slist[of "gave s h st" ps_coreid F s] D(3) D(6)[OF s(1,2)] s(2,3) unfolding gave_fields by blast
  define st5 where "st5 = upd_i ps_coreid (sl_fl_update (\<lambda>_. s)) ((gave s h st)\<lparr>plists := h'\<rparr>)"
  have f5: "pslabs st5 = pslabs (gave s h st)" "phdrs st5 = phdrs (gave s h st)" "plists st5 = h'" "chunks st5 = chunks st"
      "sl_fl (slab_info (percore st5 ps_coreid)) = s" "nslabs (slab_info (percore st5 ps_coreid)) = nslabs (slab_info (percore st ps_coreid))"
    by (simp_all add: st5_def upd_i_def)
  have "core_inv asz ho n sz st5 S (ring_insert s F) (U - {h})"
  proof (rule core_invI)
    show "pslab_ok asz ho n sz st5 (U - {h}) t" if "t \<in> S" for t
      using o(1)[rule_format, OF that] by (rule pslab_ok_frame) (simp_all add: f5(1,2))
    show "t \<in> set (ring_insert s F) \<longleftrightarrow> \<not> pcells ho n sz t \<subseteq> U - {h}" if "t \<in> S" for t using o(3)[rule_format, OF that] by simp
    show "cyc (plists st5) [t]" if "t \<in> S" "t \<notin> set (ring_insert s F)" for t
      using D(6)[of t] that a(3) unfolding f5(3) set_ring_insert by blast
  qed (use o(2) D(4,7-13) s(1) a(2) in \<open>simp_all add: f5(3-6)\<close>)
  then show ?thesis using a(1) by (intro exI[of _ st5]) (simp add: core_frame_def st5_def upd_i_def)
qed

text \<open>The last object of a slab is back; the slab leaves the ring if it was on it. With one object per slab it was not.\<close>

lemma rem_any:
  assumes "slist (plists st) (sl_fl (slab_info (percore st c))) F" and "s \<notin> set F \<Longrightarrow> cyc (plists st) [s]" and "s \<noteq> NULL"
  shows "\<exists>p h'. pfl_rem c s st = Inr (upd_i c (sl_fl_update (\<lambda>_. p)) (st\<lparr>plists := h'\<rparr>)) \<and> slist h' p (remove1 s F) \<and>
    (\<forall>t. t \<notin> set F \<longrightarrow> cyc h' [t] = cyc (plists st) [t])"
proof (cases "s \<in> set F")
  case True
  then show ?thesis using pfl_rem_slist[OF assms(1)] by blast
next
  case False
  have e: "st\<lparr>plists := plists st\<rparr> = st" by simp
  show ?thesis using pfl_rem_alone[OF assms(1) False assms(2)[OF False] assms(3)] assms(1) False
    by (intro exI[of _ "sl_fl (slab_info (percore st c))"] exI[of _ "plists st"]) (simp add: e remove1_idem del: cyc.simps)
qed

lemma put_last:
  assumes inv: "core_inv asz ho n sz st S F U" and s: "s \<in> S" "s \<noteq> NULL"
    and o: "\<forall>t \<in> S. pslab_ok asz ho n sz (gave s h st) (U - {h}) t" "U - {h} \<subseteq> (\<Union>t \<in> S. pcells ho n sz t)"
      "\<forall>t \<in> S. \<not> pcells ho n sz t \<subseteq> U - {h} \<longleftrightarrow> t \<in> insert s (set F)" "pcells ho n sz s \<inter> (U - {h}) = {}"
  shows "\<exists>st'. pfl_rem ps_coreid s (upd_i ps_coreid (\<lambda>x. x\<lparr>nslabs := (nslabs x + (2 ^ 64 - 1)) mod 2 ^ 64\<rparr>) (gave s h st)) = Inr st' \<and>
    core_inv asz ho n sz (st'\<lparr>chunks := chunks st' @ [s]\<rparr>) (S - {s}) (remove1 s F) (U - {h}) \<and> core_frame (gave s h st) st' UNIV"
proof -
  note D = core_invD[OF inv]
  define st3 where "st3 = upd_i ps_coreid (\<lambda>x. x\<lparr>nslabs := (nslabs x + (2 ^ 64 - 1)) mod 2 ^ 64\<rparr>) (gave s h st)"
  have f3: "plists st3 = plists st" "sl_fl (slab_info (percore st3 ps_coreid)) = sl_fl (slab_info (percore st ps_coreid))" by (simp_all add: st3_def upd_i_def)
  obtain p h' where a: "pfl_rem ps_coreid s st3 = Inr (upd_i ps_coreid (sl_fl_update (\<lambda>_. p)) (st3\<lparr>plists := h'\<rparr>))"
      "slist h' p (remove1 s F)" "\<forall>t. t \<notin> set F \<longrightarrow> cyc h' [t] = cyc (plists st) [t]"
    using rem_any[of st3 ps_coreid F s] D(3) D(6)[OF s(1)] s(2) unfolding f3 by blast
  define st4 where "st4 = upd_i ps_coreid (sl_fl_update (\<lambda>_. p)) (st3\<lparr>plists := h'\<rparr>)"
  define st5 where "st5 = st4\<lparr>chunks := chunks st4 @ [s]\<rparr>"
  have pos: "0 < card S" "card (S - {s}) = card S - 1" using D(8) s(1) by (auto simp: card_gt_0_iff)
  have f5: "pslabs st5 = pslabs (gave s h st)" "phdrs st5 = phdrs (gave s h st)" "plists st5 = h'" "chunks st5 = chunks st @ [s]"
      "sl_fl (slab_info (percore st5 ps_coreid)) = p" "nslabs (slab_info (percore st5 ps_coreid)) = card S - 1"
    using D(7) dec_word[of "card S"] pos D(9) by (simp_all add: st5_def st4_def st3_def upd_i_def)
  have dF: "set (remove1 s F) = set F - {s}" using slist_distinct[OF D(3)] by (rule set_remove1_eq)
  have "core_inv asz ho n sz st5 (S - {s}) (remove1 s F) (U - {h})"
  proof (rule core_invI)
    show "pslab_ok asz ho n sz st5 (U - {h}) t" if "t \<in> S - {s}" for t
      by (rule pslab_ok_frame[of _ _ _ _ "gave s h st" "U - {h}"]) (use o(1) that in \<open>simp_all add: f5(1,2)\<close>)
    show "t \<in> set (remove1 s F) \<longleftrightarrow> \<not> pcells ho n sz t \<subseteq> U - {h}" if "t \<in> S - {s}" for t using o(3) that dF by simp
    show "cyc (plists st5) [t]" if "t \<in> S - {s}" "t \<notin> set (remove1 s F)" for t
      using D(6)[of t] that a(3) dF unfolding f5(3) by blast
    show "U - {h} \<subseteq> (\<Union>t \<in> S - {s}. pcells ho n sz t)" using o(2,4) by blast
    show "papart asz (S - {s} \<union> set (chunks st5))" by (rule papart_subset[OF D(13)]) (use s(1) in \<open>auto simp: f5(4)\<close>)
    show "set (remove1 s F) \<subseteq> S - {s}" "set (chunks st5) \<inter> (S - {s}) = {}" "NULL \<notin> S - {s} \<union> set (chunks st5)" "distinct (chunks st5)"
      using D(4,10-12) dF s by (auto simp: f5(4))
  qed (use D(8,9) pos a(2) in \<open>simp_all add: f5(3-6)\<close>)
  moreover have "core_frame (gave s h st) st4 UNIV" by (simp add: core_frame_def st4_def st3_def upd_i_def)
  ultimately show ?thesis using a(1) unfolding st3_def[symmetric] st4_def[symmetric] st5_def by blast
qed

section \<open>Where slabs come from\<close>

text \<open>
  The contract of the functions that an instance of the allocator is created with: they hand out
  and take back the chunks of the heap, a new chunk names itself as its memory, and nothing outside
  it changes.
\<close>

locale slab_source =
  fixes afn :: ps_alloc_fn and ffn :: ps_free_fn
  assumes afn_chunk: "chunks st = s # xs \<Longrightarrow> s \<noteq> NULL \<Longrightarrow> 0 < sz \<Longrightarrow> \<exists>st'. afn sz c st = Inr (s, st') \<and> chunks st' = xs \<and>
      percore st' = percore st \<and> p_memory (pslabs st' s) = s \<and> same_outside s sz st st'"
    and ffn_chunk: "ffn s sz c st = Inr (st\<lparr>chunks := chunks st @ [s]\<rparr>)"
begin

lemma free_core:
  assumes geo: "slab_geo osz asz ho n sz" and inv: "core_inv asz ho n sz st S F U" and h: "h \<in> U"
  shows "\<exists>st' S' F'. slab_mem_free ffn nl numaid ps_coreid osz asz ho (mhead_mem h) st = Inr st' \<and>
    core_inv asz ho n sz st' S' F' (U - {h}) \<and> core_frame st st' (U - {h}) \<and> (F' \<noteq> [] \<or> chunks st' \<noteq> [])"
proof -
  note D = core_invD[OF inv] and g = geo_facts[OF geo]
  obtain s where s: "s \<in> S" "h \<in> pcells ho n sz s" "m_slab (phdrs st h) = s" "m_tsc (phdrs st h) = 0" "p_coreid (pslabs st s) = ps_coreid"
      and k: "p_nfree (pslabs st s) < n" "p_nfree (pslabs st s) = 0 \<longleftrightarrow> s \<notin> set F"
      and o: "\<forall>t \<in> S. pslab_ok asz ho n sz (gave s h st) (U - {h}) t" "U - {h} \<subseteq> (\<Union>t \<in> S. pcells ho n sz t)"
        "\<forall>t \<in> S. \<not> pcells ho n sz t \<subseteq> U - {h} \<longleftrightarrow> t \<in> insert s (set F)" "Suc (p_nfree (pslabs st s)) = n \<longleftrightarrow> pcells ho n sz s \<inter> (U - {h}) = {}"
    using give_objs[OF geo inv h] by (elim exE conjE) (rule that)
  have "s \<noteq> NULL" using D(12) s(1) by (metis UnI1)
  then have s0: "s \<noteq> NULL" "h \<noteq> NULL" using pcells_range(1)[OF g(1) s(2)] by simp_all
  have fr: "core_frame st (gave s h st) (U - {h})" by (simp add: core_frame_def)
  note f = mem_free_local[OF geo s(4,3) s0(1) s(5) k(1), of ffn nl numaid]
  consider (last) "Suc (p_nfree (pslabs st s)) = n" | (first) "Suc (p_nfree (pslabs st s)) \<noteq> n" "p_nfree (pslabs st s) = 0"
    | (middle) "Suc (p_nfree (pslabs st s)) \<noteq> n" "p_nfree (pslabs st s) \<noteq> 0" by blast
  then show ?thesis
  proof cases
    case last
    obtain st' where a: "pfl_rem ps_coreid s (upd_i ps_coreid (\<lambda>x. x\<lparr>nslabs := (nslabs x + (2 ^ 64 - 1)) mod 2 ^ 64\<rparr>) (gave s h st)) = Inr st'"
        "core_inv asz ho n sz (st'\<lparr>chunks := chunks st' @ [s]\<rparr>) (S - {s}) (remove1 s F) (U - {h})" "core_frame (gave s h st) st' UNIV"
      using put_last[OF inv s(1) s0(1) o(1-3)] o(4) last by blast
    then have "core_frame st (st'\<lparr>chunks := chunks st' @ [s]\<rparr>) (U - {h})" using fr by (simp add: core_frame_def)
    moreover have "slab_mem_free ffn nl numaid ps_coreid osz asz ho (mhead_mem h) st = Inr (st'\<lparr>chunks := chunks st' @ [s]\<rparr>)"
      unfolding f using last a(1) ffn_chunk by simp
    ultimately show ?thesis using a(2) by (intro exI[of _ "st'\<lparr>chunks := chunks st' @ [s]\<rparr>"] exI[of _ "S - {s}"] exI[of _ "remove1 s F"]) simp
  next
    case first
    then have sF: "s \<notin> set F" using k(2) by simp
    obtain st' where a: "pfl_add ps_coreid s (gave s h st) = Inr st'" "core_inv asz ho n sz st' S (ring_insert s F) (U - {h})" "core_frame (gave s h st) st' UNIV"
      using put_first[OF inv s(1) sF s0(1) o(1-3)] by blast
    have "ps_list_singleton (plists st) s" using cyc_singleton_iff[OF D(6)[OF s(1) sF]] by simp
    moreover have "p_memory (pslabs st s) \<noteq> NULL" using D(1)[OF s(1)] s0(1) by (simp add: pslab_ok_def)
    moreover have "core_frame st st' (U - {h})" using fr a(3) by (simp add: core_frame_def)
    moreover have "ring_insert s F \<noteq> []" by (simp add: ring_insert_def)
    moreover have "slab_mem_free ffn nl numaid ps_coreid osz asz ho (mhead_mem h) st = Inr st'" unfolding f using first a(1) s0(2) calculation(1,2) by simp
    ultimately show ?thesis using a(2) by blast
  next
    case middle
    then have "s \<in> set F" using k(2) by simp
    moreover from this have "F \<noteq> []" by auto
    moreover have "slab_mem_free ffn nl numaid ps_coreid osz asz ho (mhead_mem h) st = Inr (gave s h st)" unfolding f using middle by simp
    ultimately show ?thesis using fr put_middle[OF inv _ o(1-3)] by blast
  qed
qed

lemma alloc_core:
  assumes geo: "slab_geo osz asz ho n sz" and inv: "core_inv asz ho n sz st S F U" and room: "F \<noteq> [] \<or> chunks st \<noteq> []"
  shows "\<exists>s h st1 st' S' F'. pslab_for_alloc afn ps_coreid osz asz ho st = Inr (s, st1) \<and> s \<noteq> NULL \<and> pslab_take ps_coreid s st1 = Inr (mhead_mem h, st') \<and>
    h \<notin> U \<and> h \<noteq> NULL \<and> core_inv asz ho n sz st' S' F' (insert h U) \<and> core_frame st st' U \<and> nxt st' h = NULL"
proof (cases F)
  case (Cons s F1)
  note D = core_invD[OF inv]
  have "sl_fl (slab_info (percore st ps_coreid)) = s" "s \<noteq> NULL" using D(3) Cons by (auto simp: slist_def)
  then have "pslab_for_alloc afn ps_coreid osz asz ho st = Inr (s, st)" by (simp add: pslab_for_alloc_def Let_def)
  then show ?thesis using take_core[OF geo inv[unfolded Cons]] \<open>s \<noteq> NULL\<close> by blast
next
  case Nil
  note D = core_invD[OF inv] and g = geo_facts[OF geo]
  obtain s xs where ch: "chunks st = s # xs" using room Nil by (cases "chunks st") auto
  have s0: "s \<noteq> NULL" using D(12) ch by simp
  have "0 < asz" using g(1,2,4) by (cases n) auto
  then obtain st1 where a: "afn asz ps_coreid st = Inr (s, st1)" "chunks st1 = xs" "percore st1 = percore st" "p_memory (pslabs st1 s) = s" "same_outside s asz st st1"
    using afn_chunk[OF ch s0] by blast
  obtain st2 where b: "pslab_init s ps_coreid osz asz ho st1 = Inr st2" "p_memory (pslabs st2 s) = s" "p_freelist (pslabs st2 s) = s + ho"
      "core_inv asz ho n sz (upd_i ps_coreid (\<lambda>x. x\<lparr>nslabs := (nslabs x + 1) mod 2 ^ 64\<rparr>) st2) (insert s S) [s] U" "core_frame st st2 U"
    using init_core[OF geo inv[unfolded Nil] ch a(2-5)] by blast
  let ?st3 = "upd_i ps_coreid (\<lambda>x. x\<lparr>nslabs := (nslabs x + 1) mod 2 ^ 64\<rparr>) st2"
  have "pslabs ?st3 = pslabs st2" by (simp add: upd_i_def)
  then have "pslab_for_alloc afn ps_coreid osz asz ho st = Inr (s, ?st3)"
    using D(3) Nil a(1) b(1-3) s0 by (simp add: pslab_for_alloc_def Let_def slist_def)
  moreover obtain h st' F' where t: "pslab_take ps_coreid s ?st3 = Inr (mhead_mem h, st')" "h \<notin> U" "core_inv asz ho n sz st' (insert s S) F' (insert h U)"
      "core_frame ?st3 st' U" "nxt st' h = NULL" "h \<noteq> NULL" using take_core[OF geo b(4)] by blast
  moreover have "core_frame st st' U" using t(4) b(5) by (simp add: core_frame_def upd_i_def split: if_splits)
  ultimately show ?thesis using s0 by blast
qed

end

interpretation plat: slab_source slab_defalloc slab_deffree
proof
  fix st :: ps_mem and s xs sz c
  assume "chunks st = s # xs" "s \<noteq> NULL" "(0 :: nat) < sz"
  then show "\<exists>st'. slab_defalloc sz c st = Inr (s, st') \<and> chunks st' = xs \<and> percore st' = percore st \<and> p_memory (pslabs st' s) = s \<and> same_outside s sz st st'"
    by (auto simp: slab_defalloc_def ps_plat_alloc_def upd_s_def wipe_def same_outside_def)
qed (simp add: slab_deffree_def ps_plat_free_def)

section \<open>The lists of other cores\<close>

definition pend :: "nat \<Rightarrow> (nat \<Rightarrow> addr list) \<Rightarrow> addr set" where
  "pend nl R = (\<Union>l < nl. set (R l))"

definition lists_ok :: "nat \<Rightarrow> ps_mem \<Rightarrow> (nat \<Rightarrow> addr list) \<Rightarrow> bool" where
  "lists_ok nl st R \<longleftrightarrow>
     (\<forall>l < nl. let r = slab_remote (percore st ps_coreid) l in \<not> r_lock r \<and> qlist (nxt st) (remote_frees r) (R l) \<and> r_nfree r = length (R l) mod 2 ^ 64) \<and>
     (\<forall>l < nl. \<forall>l' < nl. l \<noteq> l' \<longrightarrow> set (R l) \<inter> set (R l') = {})"

lemma lists_okD:
  assumes "lists_ok nl st R" and "l < nl"
  shows "\<not> r_lock (slab_remote (percore st ps_coreid) l)" and "qlist (nxt st) (remote_frees (slab_remote (percore st ps_coreid) l)) (R l)"
    and "r_nfree (slab_remote (percore st ps_coreid) l) = length (R l) mod 2 ^ 64" and "\<And>l'. l' < nl \<Longrightarrow> l \<noteq> l' \<Longrightarrow> set (R l) \<inter> set (R l') = {}"
  using assms by (simp_all add: lists_ok_def Let_def)

text \<open>The allocator does not see a change of links between objects in use.\<close>

lemma core_inv_links:
  assumes inv: "core_inv asz ho n sz st S F U" and same: "pslabs st' = pslabs st" "plists st' = plists st" "chunks st' = chunks st"
      "sl_fl (slab_info (percore st' ps_coreid)) = sl_fl (slab_info (percore st ps_coreid))" "nslabs (slab_info (percore st' ps_coreid)) = nslabs (slab_info (percore st ps_coreid))"
    and hd: "\<And>a. m_tsc (phdrs st' a) = m_tsc (phdrs st a) \<and> m_slab (phdrs st' a) = m_slab (phdrs st a)" "\<And>a. a \<notin> U \<Longrightarrow> phdrs st' a = phdrs st a"
  shows "core_inv asz ho n sz st' S F U"
proof -
  note D = core_invD[OF inv]
  have "pslab_ok asz ho n sz st' U s" if "s \<in> S" for s
  proof -
    have "pchain (nxt st') p c = pchain (nxt st) p c" if "set c = pcells ho n sz s - U" for p c using hd(2) that by (intro pchain_cong) auto
    then show ?thesis using D(1)[OF that] hd(1) by (auto simp: pslab_ok_def same(1))
  qed
  then show ?thesis by (intro core_invI) (use D in \<open>simp_all add: same\<close>)
qed

declare remote_scan.simps(2) [simp del]

lemma remote_scan_spec:
  assumes "lists_ok nl st R" and "loc < nl" and "(loc + k) mod nl = token" and "0 < k"
  shows "\<exists>i h st'. remote_scan k nl ps_coreid token loc st = Inr (h, (loc + Suc i) mod nl, st') \<and> i < k \<and>
    (\<forall>j < i. R ((loc + j) mod nl) = []) \<and> (R ((loc + i) mod nl) \<noteq> [] \<or> (loc + Suc i) mod nl = token) \<and>
    tchain (nxt st) h (R ((loc + i) mod nl)) \<and> lists_ok nl st' (R((loc + i) mod nl := [])) \<and> phdrs st' = phdrs st \<and> pslabs st' = pslabs st \<and>
    plists st' = plists st \<and> chunks st' = chunks st \<and> (\<forall>c. slab_info (percore st' c) = slab_info (percore st c))"
  using assms
proof (induction k arbitrary: loc st)
  case (Suc k)
  note L = lists_okD[OF Suc.prems(1,2)]
  let ?r = "slab_remote (percore st ps_coreid) loc" and ?loc = "(loc + 1) mod nl"
  define st1 where "st1 = upd_r ps_coreid loc (\<lambda>r. r\<lparr>remote_frees := (remote_frees r)\<lparr>q_head := NULL, q_tail := NULL\<rparr>, r_nfree := 0, r_lock := False\<rparr>) st"
  have f1: "phdrs st1 = phdrs st" "pslabs st1 = pslabs st" "plists st1 = plists st" "chunks st1 = chunks st" "\<And>c. slab_info (percore st1 c) = slab_info (percore st c)"
    by (simp_all add: st1_def upd_r_def)
  have tc: "tchain (nxt st) (q_head (remote_frees ?r)) (R loc)" using L(2) by (simp add: qlist_def)
  have step: "remote_scan (Suc k) nl ps_coreid token loc st =
      (if q_head (remote_frees ?r) = NULL \<and> ?loc \<noteq> token then remote_scan k nl ps_coreid token ?loc st1 else Inr (q_head (remote_frees ?r), ?loc, st1))"
    using L(1) by (simp add: remote_scan.simps(2) ps_lock_take_def ps_lock_release_def qsc_clear_def Let_def upd_r_def st1_def)
  have ok1: "lists_ok nl st1 (R(loc := []))"
    using Suc.prems(1) by (auto simp: lists_ok_def Let_def st1_def upd_r_def qlist_def)
  show ?case
  proof (cases "q_head (remote_frees ?r) = NULL \<and> ?loc \<noteq> token")
    case False
    then have "R loc \<noteq> [] \<or> ?loc = token" using tc by auto
    moreover have "(loc + 0) mod nl = loc" "loc + Suc 0 = loc + 1" using Suc.prems(2) by simp_all
    moreover have "remote_scan (Suc k) nl ps_coreid token loc st = Inr (q_head (remote_frees ?r), ?loc, st1)" using step False by argo
    ultimately show ?thesis using tc ok1 f1
      by - (rule exI[of _ "0 :: nat"], rule exI[of _ "q_head (remote_frees ?r)"], rule exI[of _ st1], simp only: less_nat_zero_code simp_thms zero_less_Suc)
  next
    case True
    then have e: "R loc = []" using tc by (cases "R loc") auto
    then have "lists_ok nl st1 R" using ok1 by (simp add: fun_upd_idem)
    have m: "(?loc + j) mod nl = (loc + Suc j) mod nl" for j by (simp add: mod_add_left_eq)
    have "0 < k" using True Suc.prems(3) by (cases k) auto
    have "?loc < nl" "(?loc + k) mod nl = token" using Suc.prems(2,3) m by simp_all
    note ih = Suc.IH[OF \<open>lists_ok nl st1 R\<close> this \<open>0 < k\<close>, unfolded m]
    obtain i h st' where i: "remote_scan k nl ps_coreid token ?loc st1 = Inr (h, (loc + Suc (Suc i)) mod nl, st')" "i < k"
        "\<forall>j < i. R ((loc + Suc j) mod nl) = []" "R ((loc + Suc i) mod nl) \<noteq> [] \<or> (loc + Suc (Suc i)) mod nl = token"
        "tchain (nxt st1) h (R ((loc + Suc i) mod nl))" "lists_ok nl st' (R((loc + Suc i) mod nl := []))" "phdrs st' = phdrs st1" "pslabs st' = pslabs st1"
        "plists st' = plists st1" "chunks st' = chunks st1" "\<forall>c. slab_info (percore st' c) = slab_info (percore st1 c)"
      using ih by (elim exE conjE) (rule that)
    have "\<forall>j < Suc i. R ((loc + j) mod nl) = []" using i(3) e Suc.prems(2) by (auto simp: less_Suc_eq_0_disj)
    moreover have "remote_scan (Suc k) nl ps_coreid token loc st = Inr (h, (loc + Suc (Suc i)) mod nl, st')" using step True i(1) by argo
    ultimately show ?thesis using i(2,4-11) f1 by - (rule exI[of _ "Suc i"], rule exI[of _ h], rule exI[of _ st'], simp only: Suc_less_eq simp_thms)
  qed
qed simp

context slab_source begin

lemma drain_core:
  assumes geo: "slab_geo osz asz ho n sz"
  shows "core_inv asz ho n sz st S F U \<Longrightarrow> tchain (nxt st) h xs \<Longrightarrow> distinct xs \<Longrightarrow> set xs \<subseteq> U \<Longrightarrow> length xs \<le> fuel \<Longrightarrow>
    \<exists>st' S' F'. remote_drain fuel ffn nl numaid ps_coreid osz asz ho h st = Inr st' \<and> core_inv asz ho n sz st' S' F' (U - set xs) \<and>
      core_frame st st' (U - set xs) \<and> (xs \<noteq> [] \<or> F \<noteq> [] \<or> chunks st \<noteq> [] \<longrightarrow> F' \<noteq> [] \<or> chunks st' \<noteq> [])"
proof (induction xs arbitrary: fuel h st S F U)
  case Nil
  then have "remote_drain fuel ffn nl numaid ps_coreid osz asz ho h st = Inr st" by (simp add: remote_drain.simps)
  then show ?case using Nil(1) by (intro exI[of _ st] exI[of _ S] exI[of _ F]) (simp add: core_frame_def)
next
  case (Cons x xs)
  obtain fu where fu: "fuel = Suc fu" using Cons.prems(5) by (cases fuel) auto
  have x: "h = x" "x \<noteq> NULL" "x \<in> U" "x \<notin> set xs" using Cons.prems(2-4) by auto
  define st1 where "st1 = upd_h x (m_next_update (\<lambda>_. NULL)) st"
  have inv1: "core_inv asz ho n sz st1 S F U" by (rule core_inv_links[OF Cons.prems(1)]) (use x(3) in \<open>auto simp: st1_def upd_h_def\<close>)
  obtain st2 S2 F2 where f: "slab_mem_free ffn nl numaid ps_coreid osz asz ho (mhead_mem x) st1 = Inr st2" "core_inv asz ho n sz st2 S2 F2 (U - {x})"
      "core_frame st1 st2 (U - {x})" "F2 \<noteq> [] \<or> chunks st2 \<noteq> []"
    using free_core[OF geo inv1 x(3)] by blast
  have sub: "set xs \<subseteq> U - {x}" using Cons.prems(4) x(4) by auto
  have keep: "phdrs st2 a = phdrs st a" if "a \<in> U - {x}" for a using f(3) that by (simp add: core_frame_def st1_def upd_h_def)
  have "tchain (nxt st2) (nxt st x) xs = tchain (nxt st) (nxt st x) xs" using keep sub by (intro tchain_cong) (simp add: subset_iff)
  then obtain st' S' F' where d: "remote_drain fu ffn nl numaid ps_coreid osz asz ho (nxt st x) st2 = Inr st'"
      "core_inv asz ho n sz st' S' F' (U - {x} - set xs)" "core_frame st2 st' (U - {x} - set xs)" "F' \<noteq> [] \<or> chunks st' \<noteq> []"
    using Cons.IH[OF f(2) _ _ sub, of "nxt st x" fu] Cons.prems(2,3,5) f(4) fu by auto
  have e: "U - {x} - set xs = U - set (x # xs)" by auto
  have "remote_drain fuel ffn nl numaid ps_coreid osz asz ho h st = Inr st'"
    using d(1) f(1) x(1,2) by (simp add: remote_drain.simps[of "Suc fu"] fu Let_def st1_def)
  moreover have "core_frame st st' (U - set (x # xs))"
    using d(3) f(3) keep unfolding e by (auto simp: core_frame_def st1_def upd_h_def)
  ultimately show ?case using d(2,4) unfolding e by blast
qed

end

section \<open>The invariant of the allocator\<close>

text \<open>\<open>A\<close> are the objects that clients have, \<open>R l\<close> the objects on the list of locality \<open>l\<close>.\<close>

definition psm_inv ::
  "nat \<Rightarrow> nat \<Rightarrow> nat \<Rightarrow> nat \<Rightarrow> nat \<Rightarrow> nat \<Rightarrow> ps_mem \<Rightarrow> addr set \<Rightarrow> addr list \<Rightarrow> addr set \<Rightarrow> (nat \<Rightarrow> addr list) \<Rightarrow> bool" where
  "psm_inv osz asz ho n sz nl st S F A R \<longleftrightarrow>
     slab_geo osz asz ho n sz \<and> core_inv asz ho n sz st S F (A \<union> pend nl R) \<and> A \<inter> pend nl R = {} \<and> (\<forall>h \<in> A. nxt st h = NULL \<and> h \<noteq> NULL) \<and>
     lists_ok nl st R \<and> remote_token (slab_info (percore st ps_coreid)) < nl"

lemma lists_ok_frame:
  assumes "lists_ok nl st R" and "slab_remote (percore st' ps_coreid) = slab_remote (percore st ps_coreid)" and "\<And>a. a \<in> pend nl R \<Longrightarrow> phdrs st' a = phdrs st a"
  shows "lists_ok nl st' R"
proof -
  have "qlist (nxt st') q (R l) = qlist (nxt st) q (R l)" if "l < nl" for q l
  proof (rule qlist_cong)
    fix a assume "a \<in> set (R l)"
    then have "a \<in> pend nl R" using that by (auto simp: pend_def)
    then show "nxt st' a = nxt st a" using assms(3) by simp
  qed
  then show ?thesis using assms(1,2) by (simp add: lists_ok_def Let_def)
qed

lemma pend_clear:
  assumes "lists_ok nl st R" and "l < nl"
  shows "pend nl R = set (R l) \<union> pend nl (R(l := []))" and "set (R l) \<inter> pend nl (R(l := [])) = {}"
proof -
  show "pend nl R = set (R l) \<union> pend nl (R(l := []))" using assms(2) by (auto simp: pend_def split: if_splits)
  have "set (R l) \<inter> set (R l') = {}" if "l' < nl" "l' \<noteq> l" for l' using lists_okD(4)[OF assms that(1)] that(2) by blast
  then show "set (R l) \<inter> pend nl (R(l := [])) = {}" by (fastforce simp: pend_def split: if_splits)
qed

lemma pend_snoc: "l < nl \<Longrightarrow> pend nl (R(l := R l @ [h])) = insert h (pend nl R)"
  by (auto simp: pend_def split: if_splits)

lemma psm_invD:
  assumes "psm_inv osz asz ho n sz nl st S F A R"
  shows "slab_geo osz asz ho n sz" and "core_inv asz ho n sz st S F (A \<union> pend nl R)" and "A \<inter> pend nl R = {}"
    and "\<And>h. h \<in> A \<Longrightarrow> nxt st h = NULL \<and> h \<noteq> NULL" and "lists_ok nl st R" and "remote_token (slab_info (percore st ps_coreid)) < nl"
  using assms by (auto simp: psm_inv_def)

lemma remote_free_inv:
  assumes inv: "psm_inv osz asz ho n sz nl st S F A R" and h: "h \<in> A" and c: "c \<noteq> ps_coreid" and l: "l < nl"
  shows "\<exists>st'. slab_mem_free ffn nl l c osz asz ho (mhead_mem h) st = Inr st' \<and>
    psm_inv osz asz ho n sz nl st' S F (A - {h}) (R(l := R l @ [h])) \<and> chunks st' = chunks st"
proof -
  note I = psm_invD[OF inv] and L = lists_okD[OF psm_invD(5)[OF inv] l]
  obtain s where s: "s \<in> S" "m_slab (phdrs st h) = s" "m_tsc (phdrs st h) = 0" "p_coreid (pslabs st s) = ps_coreid"
    using give_objs[OF I(1,2) UnI1[OF h]] by (elim exE conjE) (rule that)
  have s0: "s \<noteq> NULL" using core_invD(12)[OF I(2)] s(1) by (metis UnI1)
  let ?r = "slab_remote (percore st ps_coreid) l"
  define st1 where "st1 = upd_r ps_coreid l (r_lock_update (\<lambda>_. True)) st"
  have "h \<notin> pend nl R" using I(3) h by blast
  then have hR: "h \<notin> set (R l')" if "l' < nl" for l' using that by (auto simp: pend_def)
  have "qlist (nxt st1) (remote_frees ?r) (R l)" using L(2) by (simp add: st1_def upd_r_def)
  moreover have "nxt st1 h = NULL" "h \<noteq> NULL" using I(4)[OF h] by (simp_all add: st1_def upd_r_def)
  ultimately obtain q st2 where e: "qsc_enqueue h (remote_frees ?r) st1 = (q, st2)" "qlist (nxt st2) q (R l @ [h])" "\<forall>a. a \<notin> set (R l) \<longrightarrow> phdrs st2 a = phdrs st1 a"
      "\<forall>a. m_tsc (phdrs st2 a) = m_tsc (phdrs st1 a) \<and> m_slab (phdrs st2 a) = m_slab (phdrs st1 a)"
      "pslabs st2 = pslabs st1" "plists st2 = plists st1" "percore st2 = percore st1" "chunks st2 = chunks st1"
    using qsc_enqueue_qlist[OF _ hR[OF l]] by blast
  define st3 where "st3 = ps_lock_release ps_coreid l (upd_r ps_coreid l (\<lambda>r. r\<lparr>remote_frees := q, r_nfree := (r_nfree r + 1) mod 2 ^ 64\<rparr>) st2)"
  have f3: "phdrs st3 = phdrs st2" "pslabs st3 = pslabs st" "plists st3 = plists st" "chunks st3 = chunks st" "\<And>c. slab_info (percore st3 c) = slab_info (percore st c)"
      "slab_remote (percore st3 ps_coreid) = (slab_remote (percore st ps_coreid))(l := ?r\<lparr>remote_frees := q, r_nfree := (r_nfree ?r + 1) mod 2 ^ 64, r_lock := False\<rparr>)"
    using e(5-8) by (simp_all add: st3_def ps_lock_release_def upd_r_def st1_def)
  have free: "slab_mem_free ffn nl l c osz asz ho (mhead_mem h) st = Inr st3"
    using geo_facts(8)[OF I(1)] s s0 c l L(1) e(1)
    by (simp add: slab_mem_free_def Let_def mhead_get_def mhead_mem_def mhead_isfree_def slab_mem_remote_free_def ps_lock_take_def st3_def st1_def upd_r_def)
  have hd: "phdrs st3 a = phdrs st a" if "a \<notin> set (R l)" for a using e(3) that by (simp add: f3(1) st1_def upd_r_def)
  have U: "A - {h} \<union> pend nl (R(l := R l @ [h])) = A \<union> pend nl R" unfolding pend_snoc[OF l] using h by blast
  have "core_inv asz ho n sz st3 S F (A \<union> pend nl R)"
    by (rule core_inv_links[OF I(2)]) (use f3 e(4) hd l in \<open>auto simp: st1_def upd_r_def pend_def\<close>)
  moreover have "(A - {h}) \<inter> pend nl (R(l := R l @ [h])) = {}" unfolding pend_snoc[OF l] using I(3) by blast
  moreover have "nxt st3 a = NULL \<and> a \<noteq> NULL" if "a \<in> A - {h}" for a
  proof -
    have "set (R l) \<subseteq> pend nl R" using l by (auto simp: pend_def)
    then have "a \<notin> set (R l)" using I(3) that by blast
    then show ?thesis using hd I(4) that by simp
  qed
  moreover have "lists_ok nl st3 (R(l := R l @ [h]))"
  proof -
    have "qlist (nxt st3) (remote_frees (slab_remote (percore st ps_coreid) l')) (R l')" if "l' < nl" "l' \<noteq> l" for l'
    proof -
      have "qlist (nxt st3) q (R l') = qlist (nxt st) q (R l')" for q
        using lists_okD(4)[OF I(5) l, of l'] that hd by (intro qlist_cong) (metis disjoint_iff)
      then show ?thesis using lists_okD(2)[OF I(5) that(1)] by simp
    qed
    moreover have "(length (R l) mod 2 ^ 64 + 1) mod 2 ^ 64 = length (R l @ [h]) mod 2 ^ 64" by (simp add: mod_Suc_eq)
    ultimately show ?thesis using I(5) e(2) hR f3(1,6) L(3) l by (auto simp: lists_ok_def Let_def)
  qed
  ultimately show ?thesis using free I(1,6) f3(4,5) by (intro exI[of _ st3]) (simp add: psm_inv_def U)
qed

context slab_source begin

lemma local_free_inv:
  assumes inv: "psm_inv osz asz ho n sz nl st S F A R" and h: "h \<in> A"
  shows "\<exists>st' S' F'. slab_mem_free ffn nl numaid ps_coreid osz asz ho (mhead_mem h) st = Inr st' \<and>
    psm_inv osz asz ho n sz nl st' S' F' (A - {h}) R \<and> (F' \<noteq> [] \<or> chunks st' \<noteq> [])"
proof -
  note I = psm_invD[OF inv]
  have e: "A \<union> pend nl R - {h} = A - {h} \<union> pend nl R" using I(3) h by auto
  obtain st' S' F' where f: "slab_mem_free ffn nl numaid ps_coreid osz asz ho (mhead_mem h) st = Inr st'" "core_inv asz ho n sz st' S' F' (A - {h} \<union> pend nl R)"
      "core_frame st st' (A - {h} \<union> pend nl R)" "F' \<noteq> [] \<or> chunks st' \<noteq> []"
    using free_core[OF I(1,2), of h nl numaid] h unfolding e by blast
  have "lists_ok nl st' R" by (rule lists_ok_frame[OF I(5)]) (use f(3) in \<open>auto simp: core_frame_def\<close>)
  then have "psm_inv osz asz ho n sz nl st' S' F' (A - {h}) R" using I f(2,3) by (auto simp: psm_inv_def core_frame_def)
  then show ?thesis using f(1,4) by blast
qed

lemma process_inv:
  assumes inv: "psm_inv osz asz ho n sz nl st S F A R" and fuel: "\<forall>l < nl. length (R l) \<le> fuel" and tok: "tok = remote_token (slab_info (percore st ps_coreid))"
  shows "\<exists>i st' S' F'. i < nl \<and> slab_mem_remote_process fuel ffn nl numaid ps_coreid osz asz ho st = Inr st' \<and>
    psm_inv osz asz ho n sz nl st' S' F' A (R((tok + i) mod nl := [])) \<and> (\<forall>j < i. R ((tok + j) mod nl) = []) \<and> (R ((tok + i) mod nl) \<noteq> [] \<or> Suc i = nl) \<and>
    remote_token (slab_info (percore st' ps_coreid)) = (tok + Suc i) mod nl \<and> (F \<noteq> [] \<or> chunks st \<noteq> [] \<longrightarrow> F' \<noteq> [] \<or> chunks st' \<noteq> [])"
proof -
  note I = psm_invD[OF inv]
  have t: "tok < nl" "(tok + nl) mod nl = tok" "0 < nl" using I(6) tok by simp_all
  obtain i h st1 where s: "remote_scan nl nl ps_coreid tok tok st = Inr (h, (tok + Suc i) mod nl, st1)" "i < nl" "\<forall>j < i. R ((tok + j) mod nl) = []"
      "R ((tok + i) mod nl) \<noteq> [] \<or> (tok + Suc i) mod nl = tok" "tchain (nxt st) h (R ((tok + i) mod nl))" "lists_ok nl st1 (R((tok + i) mod nl := []))"
      "phdrs st1 = phdrs st" "pslabs st1 = pslabs st" "plists st1 = plists st" "chunks st1 = chunks st" "\<forall>c. slab_info (percore st1 c) = slab_info (percore st c)"
    using remote_scan_spec[OF I(5) t] by (elim exE conjE) (rule that)
  define l where "l = (tok + i) mod nl"
  have l: "l < nl" using t(3) by (simp add: l_def)
  note P = pend_clear[OF I(5) l]
  let ?st2 = "upd_i ps_coreid (remote_token_update (\<lambda>_. (tok + Suc i) mod nl)) st1"
  have "core_inv asz ho n sz ?st2 S F (A \<union> pend nl R)" by (rule core_inv_links[OF I(2)]) (use s(7-11) in \<open>auto simp: upd_i_def\<close>)
  moreover have "tchain (nxt ?st2) h (R l)" using s(5,7) by (simp add: upd_i_def l_def)
  moreover have "distinct (R l)" using lists_okD(2)[OF I(5) l] by (simp add: qlist_def)
  moreover have "set (R l) \<subseteq> A \<union> pend nl R" using P(1) by blast
  moreover have "length (R l) \<le> fuel" using fuel l by blast
  ultimately obtain st' S' F' where d: "remote_drain fuel ffn nl numaid ps_coreid osz asz ho h ?st2 = Inr st'" "core_inv asz ho n sz st' S' F' (A \<union> pend nl R - set (R l))"
      "core_frame ?st2 st' (A \<union> pend nl R - set (R l))" "R l \<noteq> [] \<or> F \<noteq> [] \<or> chunks ?st2 \<noteq> [] \<longrightarrow> F' \<noteq> [] \<or> chunks st' \<noteq> []"
    using drain_core[OF I(1)] by blast
  have e: "A \<union> pend nl R - set (R l) = A \<union> pend nl (R(l := []))" using P I(3) by blast
  have "lists_ok nl st' (R(l := []))"
    by (rule lists_ok_frame[OF s(6)[folded l_def]]) (use d(3) s(7) in \<open>auto simp: core_frame_def upd_i_def e\<close>)
  moreover have "nxt st' a = NULL \<and> a \<noteq> NULL" if "a \<in> A" for a using d(3) s(7) I(4)[OF that] that unfolding e by (simp add: core_frame_def upd_i_def)
  moreover have tk: "remote_token (slab_info (percore st' ps_coreid)) = (tok + Suc i) mod nl" using d(3) by (simp add: core_frame_def upd_i_def)
  moreover have "A \<inter> pend nl (R(l := [])) = {}" using I(3) P(1) by blast
  ultimately have "psm_inv osz asz ho n sz nl st' S' F' A (R(l := []))" using I(1) d(2) t(3) unfolding e by (simp add: psm_inv_def)
  moreover have "slab_mem_remote_process fuel ffn nl numaid ps_coreid osz asz ho st = Inr st'"
    using s(1) d(1) tok by (simp add: slab_mem_remote_process_def Let_def)
  moreover have "Suc i = nl" if "(tok + Suc i) mod nl = tok"
  proof -
    have "(tok + Suc i) mod nl = tok mod nl" using that t(1) by simp
    then have "nl dvd Suc i" using mod_eq_dvd_iff_nat[of tok "tok + Suc i" nl] by simp
    then have "nl \<le> Suc i" by (intro dvd_imp_le) simp_all
    then show ?thesis using s(2) by simp
  qed
  moreover have "chunks ?st2 = chunks st" using s(10) by (simp add: upd_i_def)
  moreover have "F \<noteq> [] \<or> chunks st \<noteq> [] \<longrightarrow> F' \<noteq> [] \<or> chunks st' \<noteq> []" using d(4) calculation(4) by simp
  ultimately show ?thesis using s(2,3,4) tk unfolding l_def by meson
qed

end

context slab_source begin

lemma alloc_from_core:
  assumes inv: "psm_inv osz asz ho n sz nl st S F A R" and room: "F \<noteq> [] \<or> chunks st \<noteq> []"
  shows "\<exists>s h st1 st' S' F'. pslab_for_alloc afn ps_coreid osz asz ho st = Inr (s, st1) \<and> s \<noteq> NULL \<and> pslab_take ps_coreid s st1 = Inr (mhead_mem h, st') \<and>
    h \<notin> A \<and> psm_inv osz asz ho n sz nl st' S' F' (insert h A) R"
proof -
  note I = psm_invD[OF inv]
  obtain s h st1 st' S' F' where a: "pslab_for_alloc afn ps_coreid osz asz ho st = Inr (s, st1)" "s \<noteq> NULL" "pslab_take ps_coreid s st1 = Inr (mhead_mem h, st')"
      "h \<notin> A \<union> pend nl R" "h \<noteq> NULL" "core_inv asz ho n sz st' S' F' (insert h (A \<union> pend nl R))" "core_frame st st' (A \<union> pend nl R)" "nxt st' h = NULL"
    using alloc_core[OF I(1,2) room] by (elim exE conjE) (rule that)
  have "lists_ok nl st' R" by (rule lists_ok_frame[OF I(5)]) (use a(7) in \<open>auto simp: core_frame_def\<close>)
  moreover have "nxt st' b = NULL \<and> b \<noteq> NULL" if "b \<in> insert h A" for b using that a(5,7,8) I(4)[of b] by (auto simp: core_frame_def)
  moreover have "insert h A \<inter> pend nl R = {}" using a(4) I(3) by blast
  moreover have "remote_token (slab_info (percore st' ps_coreid)) < nl" using a(7) I(6) by (simp add: core_frame_def)
  ultimately have "psm_inv osz asz ho n sz nl st' S' F' (insert h A) R" using I(1) a(6) by (simp add: psm_inv_def)
  then show ?thesis using a(1-4) by blast
qed

lemma alloc_inv:
  assumes inv: "psm_inv osz asz ho n sz nl st S F A R" and room: "F \<noteq> [] \<or> chunks st \<noteq> []" and fuel: "\<forall>l < nl. length (R l) \<le> fuel"
  shows "\<exists>h st' S' F' R'. slab_mem_alloc fuel afn ffn nl numaid ps_coreid osz asz ho st = Inr (mhead_mem h, st') \<and> h \<notin> A \<and>
    psm_inv osz asz ho n sz nl st' S' F' (insert h A) R' \<and> (\<forall>l. R' l = R l \<or> R' l = [])"
proof -
  note I = psm_invD[OF inv]
  define st1 where "st1 = upd_i ps_coreid (\<lambda>x. x\<lparr>salloccnt := (salloccnt x + 1) mod 2 ^ 64\<rparr>) st"
  have c1: "core_inv asz ho n sz st1 S F (A \<union> pend nl R)" by (rule core_inv_links[OF I(2)]) (simp_all add: st1_def upd_i_def)
  have l1: "lists_ok nl st1 R" by (rule lists_ok_frame[OF I(5)]) (simp_all add: st1_def upd_i_def)
  have f1: "chunks st1 = chunks st" "phdrs st1 = phdrs st" "remote_token (slab_info (percore st1 ps_coreid)) = remote_token (slab_info (percore st ps_coreid))"
    by (simp_all add: st1_def upd_i_def)
  have inv1: "psm_inv osz asz ho n sz nl st1 S F A R" using inv c1 l1 by (simp add: psm_inv_def f1)
  let ?due = "salloccnt (slab_info (percore st1 ps_coreid)) mod PS_REMOTE_BATCH = 0"
  obtain st2 S2 F2 R2 where p: "(if ?due then slab_mem_remote_process fuel ffn nl numaid ps_coreid osz asz ho st1 else Inr st1) = Inr st2"
      "psm_inv osz asz ho n sz nl st2 S2 F2 A R2" "F2 \<noteq> [] \<or> chunks st2 \<noteq> []" "\<forall>l. R2 l = R l \<or> R2 l = []"
  proof (cases ?due)
    case True
    obtain i st' S' F' where q: "slab_mem_remote_process fuel ffn nl numaid ps_coreid osz asz ho st1 = Inr st'"
        "psm_inv osz asz ho n sz nl st' S' F' A (R((remote_token (slab_info (percore st1 ps_coreid)) + i) mod nl := []))"
        "F \<noteq> [] \<or> chunks st1 \<noteq> [] \<longrightarrow> F' \<noteq> [] \<or> chunks st' \<noteq> []"
      using process_inv[OF inv1 fuel refl, of numaid] by (elim exE conjE) (rule that)
    show ?thesis by (rule that[OF _ q(2)]) (use True q(1,3) room f1(1) in auto)
  qed (use that inv1 room f1(1) in auto)
  obtain s h st3 st' S' F' where a: "pslab_for_alloc afn ps_coreid osz asz ho st2 = Inr (s, st3)" "s \<noteq> NULL" "pslab_take ps_coreid s st3 = Inr (mhead_mem h, st')"
      "h \<notin> A" "psm_inv osz asz ho n sz nl st' S' F' (insert h A) R2"
    using alloc_from_core[OF p(2,3)] by (elim exE conjE) (rule that)
  have "slab_mem_alloc fuel afn ffn nl numaid ps_coreid osz asz ho st = Inr (mhead_mem h, st')"
    unfolding slab_mem_alloc_def assertE_True[OF geo_facts(7)[OF I(1)]] bindE.simps Let_def st1_def[symmetric] p(1) a(1) using a(2,3) by simp
  then show ?thesis using a(4,5) p(4) by blast
qed

end

lemma pobjects_apart:
  assumes "psm_inv osz asz ho n sz nl st S F A R" and h: "h \<in> A" "h' \<in> A" "h \<noteq> h'"
  shows "\<not> overlap (h, sz) (h', sz)"
proof -
  note I = psm_invD[OF assms(1)] and g = geo_facts[OF psm_invD(1)[OF assms(1)]]
  note D = core_invD[OF I(2)]
  obtain s t where st: "s \<in> S" "h \<in> pcells ho n sz s" "t \<in> S" "h' \<in> pcells ho n sz t" using h(1,2) D(2) by blast
  show ?thesis
  proof (cases "s = t")
    case True
    then obtain j k where "h = s + ho + j * sz" "h' = s + ho + k * sz" "j \<noteq> k" using st(2,4) h(3) by (auto simp: pcells_def)
    then show ?thesis using cells_apart[of j k "s + ho" sz] by simp
  next
    case False
    then have "s + asz \<le> t \<or> t + asz \<le> s" using D(13) st(1,3) by (simp add: papart_def)
    then show ?thesis using pcells_range[OF g(1) st(2)] pcells_range[OF g(1) st(4)] by (auto simp: overlap_def)
  qed
qed

section \<open>Properties\<close>

text \<open>C27: allocation in the slab allocator of the servers: while a slab has a free object or the heap has a chunk, it returns an
  object that no client has and that overlaps no object in use, whether or not it first takes in objects that
  other cores have freed, and keeps the invariant.\<close>

theorem ps_alloc_fresh:
  assumes "psm_inv osz asz ho n sz nl st S F A R" and "F \<noteq> [] \<or> chunks st \<noteq> []" and "\<forall>l < nl. length (R l) \<le> fuel"
  shows "\<exists>h st' S' F' R'. slab_mem_alloc fuel slab_defalloc slab_deffree nl numaid ps_coreid osz asz ho st = Inr (mhead_mem h, st') \<and> h \<notin> A \<and>
    (\<forall>a \<in> A. \<not> overlap (h, sz) (a, sz)) \<and> psm_inv osz asz ho n sz nl st' S' F' (insert h A) R' \<and> (\<forall>l. R' l = R l \<or> R' l = [])"
proof -
  obtain h st' S' F' R' where a: "slab_mem_alloc fuel slab_defalloc slab_deffree nl numaid ps_coreid osz asz ho st = Inr (mhead_mem h, st')" "h \<notin> A"
      "psm_inv osz asz ho n sz nl st' S' F' (insert h A) R'" "\<forall>l. R' l = R l \<or> R' l = []"
    using plat.alloc_inv[OF assms, of numaid] by (elim exE conjE) (rule that)
  have "\<not> overlap (h, sz) (b, sz)" if "b \<in> A" for b using pobjects_apart[OF a(3), of h b] that a(2) by auto
  then show ?thesis using a by blast
qed


text \<open>The home core takes in the objects of exactly one list, the first from its token on that is not empty.\<close>

theorem ps_remote_exact:
  assumes "psm_inv osz asz ho n sz nl st S F A R" and "\<forall>l < nl. length (R l) \<le> fuel" and "tok = remote_token (slab_info (percore st ps_coreid))"
  shows "\<exists>i st' S' F'. i < nl \<and> slab_mem_remote_process fuel slab_deffree nl numaid ps_coreid osz asz ho st = Inr st' \<and>
    psm_inv osz asz ho n sz nl st' S' F' A (R((tok + i) mod nl := [])) \<and> (\<forall>j < i. R ((tok + j) mod nl) = []) \<and>
    (R ((tok + i) mod nl) \<noteq> [] \<or> Suc i = nl) \<and> remote_token (slab_info (percore st' ps_coreid)) = (tok + Suc i) mod nl"
  using plat.process_inv[OF assms, of numaid] by blast

text \<open>A second release of an object is caught by the assertion once the object is back on the list of its slab.\<close>

theorem ps_double_free_caught:
  assumes "psm_inv osz asz ho n sz nl st S F A R" and "s \<in> S" and "h \<in> pcells ho n sz s" and "h \<notin> A \<union> pend nl R"
  shows "slab_mem_free ffn nl numaid coreid osz asz ho (mhead_mem h) st = Inl Assert_fail"
proof -
  note I = psm_invD[OF assms(1)]
  have "m_tsc (phdrs st h) \<noteq> 0" using core_invD(1)[OF I(2) assms(2)] assms(3,4) by (auto simp: pslab_ok_def)
  then show ?thesis using geo_facts(8)[OF I(1)] by (simp add: slab_mem_free_def Let_def mhead_get_def mhead_mem_def mhead_isfree_def)
qed

text \<open>It is not caught while the object waits on the list of another core: the list then links the object to itself.\<close>

theorem ps_remote_double_free_loops:
  assumes "psm_inv osz asz ho n sz nl st S F A R" and "h \<in> A" and "coreid \<noteq> ps_coreid" and "numaid < nl"
  shows "\<exists>st1 st2. slab_mem_free ffn nl numaid coreid osz asz ho (mhead_mem h) st = Inr st1 \<and>
    slab_mem_free ffn nl numaid coreid osz asz ho (mhead_mem h) st1 = Inr st2 \<and> nxt st2 h = h"
proof -
  obtain st1 where a: "slab_mem_free ffn nl numaid coreid osz asz ho (mhead_mem h) st = Inr st1"
      "psm_inv osz asz ho n sz nl st1 S F (A - {h}) (R(numaid := R numaid @ [h]))" using remote_free_inv[OF assms] by blast
  note I = psm_invD[OF a(2)] and L = lists_okD[OF psm_invD(5)[OF a(2)] assms(4)]
  have h: "h \<in> A - {h} \<union> pend nl (R(numaid := R numaid @ [h]))" unfolding pend_snoc[OF assms(4)] by blast
  obtain s where s: "s \<in> S" "m_slab (phdrs st1 h) = s" "m_tsc (phdrs st1 h) = 0" "p_coreid (pslabs st1 s) = ps_coreid"
    using give_objs[OF I(1,2) h] by (elim exE conjE) (rule that)
  have s0: "s \<noteq> NULL" using core_invD(12)[OF I(2)] s(1) by (metis UnI1)
  have t: "q_tail (remote_frees (slab_remote (percore st1 ps_coreid) numaid)) = h" "h \<noteq> NULL"
    using L(2) psm_invD(4)[OF assms(1,2)] by (simp_all add: qlist_def)
  show ?thesis using a(1) geo_facts(8)[OF I(1)] s s0 assms(3,4) L(1) t
    by (simp add: slab_mem_free_def Let_def mhead_get_def mhead_mem_def mhead_isfree_def slab_mem_remote_free_def ps_lock_take_def
        qsc_enqueue_def ps_lock_release_def upd_r_def upd_h_def)
qed

section \<open>Statistics\<close>

text \<open>The loop over the ring, from the slab at the head of \<open>ys\<close> on.\<close>

lemma stats_ring_spec:
  assumes c: "cyc (plists st) (xs @ ys)" and nn: "NULL \<notin> set (xs @ ys)" and p: "hd (xs @ ys) = p"
  shows "ys \<noteq> [] \<Longrightarrow> length ys \<le> fuel \<Longrightarrow> stats_ring fuel p (hd ys) st x =
    Inr (x\<lparr>st_npartslabs := st_npartslabs x + length ys, st_nfree := st_nfree x + (\<Sum>s \<leftarrow> ys. p_nfree (pslabs st s))\<rparr>)"
  using c nn p
proof (induction ys arbitrary: xs fuel x)
  case (Cons y ys)
  note IH = Cons.IH and pr = Cons.prems
  obtain fu where fu: "fuel = Suc fu" using Cons.prems(2) by (cases fuel) auto
  have y: "y \<noteq> NULL" using Cons.prems(4) by (auto intro: ccontr)
  have rot: "cyc (plists st) (y # ys @ xs)" by (rule cyc_rotate_to[OF Cons.prems(3)])
  have d: "distinct (xs @ y # ys)" by (rule cyc_distinct[OF Cons.prems(3)])
  show ?case
  proof (cases ys)
    case Nil
    have "ps_list_next (plists st) y = p"
      using rot Nil Cons.prems(5) cyc_next[of "plists st" y "hd xs" "tl xs"] by (cases xs) (auto simp: ps_list_next_def)
    then show ?thesis using Nil y by (simp add: stats_ring.simps[of "Suc fu"] fu Let_def)
  next
    case (Cons z zs)
    have n: "ps_list_next (plists st) y = z" using rot Cons cyc_next[of "plists st" y z "zs @ xs"] by (simp add: ps_list_next_def)
    have "z \<noteq> p" using d Cons pr(5) by (cases xs) auto
    moreover have "hd (xs @ y # ys) = hd ((xs @ [y]) @ ys)" by (cases xs) auto
    ultimately show ?thesis
      using IH[of fu "xs @ [y]"] pr n y Cons by (simp add: stats_ring.simps[of "Suc fu"] fu Let_def add.assoc)
  qed
qed simp

lemma free_total:
  assumes geo: "slab_geo osz asz ho n sz" and inv: "core_inv asz ho n sz st S F U"
  shows "(\<Sum>s \<leftarrow> F. p_nfree (pslabs st s)) = card ((\<Union>s \<in> S. pcells ho n sz s) - U)"
proof -
  note D = core_invD[OF inv] and g = geo_facts[OF geo]
  let ?f = "\<lambda>s. pcells ho n sz s - U"
  have nf: "p_nfree (pslabs st s) = card (?f s)" if s: "s \<in> S" for s
    using D(1)[OF s] unfolding pslab_ok_def by (metis distinct_card)
  have "card (\<Union>s \<in> S. ?f s) = (\<Sum>s \<in> S. card (?f s))"
  proof (rule card_UN_disjoint[OF D(8)])
    show "\<forall>i \<in> S. \<forall>j \<in> S. i \<noteq> j \<longrightarrow> ?f i \<inter> ?f j = {}" using pcells_disjoint[OF geo D(13)] by blast
  qed (use pcells_card[OF g(2)] in blast)
  also have "\<dots> = (\<Sum>s \<in> set F. card (?f s))"
  proof (rule sum.mono_neutral_right[OF D(8,4)])
    have "?f s = {}" if "s \<in> S - set F" for s using D(5)[of s] that by blast
    then show "\<forall>s \<in> S - set F. card (?f s) = 0" by (metis card.empty)
  qed
  also have "\<dots> = (\<Sum>s \<in> set F. p_nfree (pslabs st s))" using nf D(4) by (intro sum.cong) auto
  also have "\<dots> = (\<Sum>s \<leftarrow> F. p_nfree (pslabs st s))" using slist_distinct[OF D(3)] by (simp add: sum_list_distinct_conv_sum_set)
  moreover have "(\<Union>s \<in> S. ?f s) = (\<Union>s \<in> S. pcells ho n sz s) - U" by blast
  ultimately show ?thesis by simp
qed

text \<open>The statistics count what the invariant says: slabs, slabs with free objects, free objects, and objects on the lists of other cores.\<close>

theorem ps_stats_exact:
  assumes "psm_inv osz asz ho n sz nl st S F A R" and "length F \<le> fuel"
  shows "slabptr_stats fuel nl ps_coreid st = Inr \<lparr>st_nslabs = card S, st_npartslabs = length F,
    st_nfree = card ((\<Union>s \<in> S. pcells ho n sz s) - (A \<union> pend nl R)), st_nremote = (\<Sum>l \<leftarrow> [0..<nl]. length (R l) mod 2 ^ 64)\<rparr>"
proof -
  note I = psm_invD[OF assms(1)] and D = core_invD[OF psm_invD(2)[OF assms(1)]]
  let ?p = "sl_fl (slab_info (percore st ps_coreid))" and ?x = "\<lparr>st_nslabs = card S, st_npartslabs = 0, st_nfree = 0, st_nremote = 0\<rparr>"
  have "stats_ring fuel ?p ?p st ?x = Inr \<lparr>st_nslabs = card S, st_npartslabs = length F, st_nfree = (\<Sum>s \<leftarrow> F. p_nfree (pslabs st s)), st_nremote = 0\<rparr>"
  proof (cases F)
    case Nil
    then show ?thesis using D(3) by (simp add: slist_def stats_ring.simps)
  next
    case (Cons s F')
    have l: "cyc (plists st) ([] @ F)" "NULL \<notin> set ([] @ F)" "hd ([] @ F) = ?p" "?p = hd F" using D(3) Cons by (auto simp: slist_def)
    have "F \<noteq> []" using Cons by simp
    from stats_ring_spec[OF l(1-3) this assms(2), of ?x] show ?thesis using l(4) by simp
  qed
  moreover have "(\<Sum>j \<leftarrow> [0..<nl]. r_nfree (slab_remote (percore st ps_coreid) j)) = (\<Sum>l \<leftarrow> [0..<nl]. length (R l) mod 2 ^ 64)"
    by (rule arg_cong[where f = sum_list], rule map_cong) (use lists_okD(3)[OF I(5)] in auto)
  ultimately show ?thesis unfolding slabptr_stats_def Let_def D(7) free_total[OF I(1,2)] by simp
qed

section \<open>Start and examples\<close>

lemma item_geo: "slab_geo MC_SLAB_OBJ_SZ MC_SLAB_AOC_SZ PS_SLAB_SZ 135 120"
proof -
  have "slab_objmemsz MC_SLAB_OBJ_SZ = 120" using rndup_pow[of 118 3] by (simp add: slab_objmemsz_def)
  then show ?thesis by (simp add: slab_geo_def)
qed

text \<open>A new allocator, on a heap of chunks that do not overlap.\<close>

theorem ps_init_inv:
  assumes "slab_geo osz asz ho n sz" and "0 < nl" and "distinct (chunks st)" and "NULL \<notin> set (chunks st)" and "papart asz (set (chunks st))" and "length (chunks st) < 2 ^ 64"
  shows "psm_inv osz asz ho n sz nl (slabptr_init st) {} [] {} (\<lambda>_. [])"
proof -
  have "core_inv asz ho n sz (slabptr_init st) {} [] {}"
    by (rule core_invI) (use assms(3-6) in \<open>simp_all add: slabptr_init_def zero_percore_def slist_def\<close>)
  moreover have "lists_ok nl (slabptr_init st) (\<lambda>_. [])" by (simp add: lists_ok_def slabptr_init_def zero_percore_def qlist_def)
  moreover have "remote_token (slab_info (percore (slabptr_init st) ps_coreid)) < nl" using assms(2) by (simp add: slabptr_init_def zero_percore_def)
  ultimately show ?thesis using assms(1) by (simp add: psm_inv_def pend_def)
qed

definition ps_example :: ps_mem where
  "ps_example = \<lparr>pslabs = (\<lambda>_. zero_slab), phdrs = (\<lambda>_. zero_hdr), plists = \<lparr>ln = (\<lambda>_. 0), lp = (\<lambda>_. 0)\<rparr>,
     percore = (\<lambda>_. zero_percore), chunks = [16384, 32768]\<rparr>"

lemma ps_example_inv: "psm_inv MC_SLAB_OBJ_SZ MC_SLAB_AOC_SZ PS_SLAB_SZ 135 120 1 ps_example {} [] {} (\<lambda>_. [])"
proof -
  have "slabptr_init ps_example = ps_example" by (simp add: slabptr_init_def ps_example_def)
  moreover have "papart 16384 {16384, 32768}" by (simp add: papart_def)
  ultimately show ?thesis using ps_init_inv[OF item_geo, of 1 ps_example] by (simp add: ps_example_def)
qed

theorem ps_alloc_fresh_witness:
  "\<exists>h st' S' F' R'. slab_alloc_item 0 1 0 ps_example = Inr (mhead_mem h, st') \<and>
    psm_inv MC_SLAB_OBJ_SZ MC_SLAB_AOC_SZ PS_SLAB_SZ 135 120 1 st' S' F' {h} R'"
proof -
  have "chunks ps_example \<noteq> []" by (simp add: ps_example_def)
  then have "[] \<noteq> ([] :: addr list) \<or> chunks ps_example \<noteq> []" by simp
  from ps_alloc_fresh[OF ps_example_inv this, of 0 0] show ?thesis unfolding slab_alloc_item_def by simp blast
qed


text \<open>The allocator is empty exactly when no slab is left: an object on the list of another core belongs to a slab.\<close>

theorem ps_isempty_exact:
  assumes "psm_inv osz asz ho n sz nl st S F A R"
  shows "slabptr_isempty 1 nl st \<longleftrightarrow> S = {}"
proof -
  note I = psm_invD[OF assms(1)] and D = core_invD[OF psm_invD(2)[OF assms(1)]]
  have c: "ps_coreid = 0" by (simp add: ps_coreid_def)
  have "r_nfree (slab_remote (percore st 0) l) = 0" if "S = {}" "l < nl" for l
  proof -
    have "pend nl R = {}" using D(2) that(1) by blast
    then have "R l = []" using that(2) by (auto simp: pend_def)
    then show ?thesis using lists_okD(3)[OF I(5) that(2)] by (simp add: c)
  qed
  then show ?thesis using D(7,8) by (auto simp: slabptr_isempty_def list_all_iff c)
qed

end
