(* ===== verification/Cbtree.thy ===== *)
theory Cbtree
  imports BI_Prelude "HOL-Library.Multiset" "HOL-Library.Tree"
begin

text \<open>
  The balanced tree of \<^verbatim>\<open>rb_tree/cbtree.c\<close>: a weight-balanced search tree in shared memory that
  one writer updates, partly in place, while readers walk through it. The model keeps the nodes in
  a store from addresses to records, so that a rotation allocates new nodes and hands the replaced
  ones to \<^verbatim>\<open>TreeBBFreeNode\<close>, as the code does.

  \<^verbatim>\<open>TreeBBNewNode\<close> and \<^verbatim>\<open>TreeBBFreeNode\<close> are those of \<^verbatim>\<open>rb_tree/imple_bi.c\<close>: the field \<open>avail\<close>
  holds the objects that the slab allocator will hand out next (it returns \<^verbatim>\<open>NULL\<close> when there is none),
  and \<open>free_buf\<close> collects the nodes that are given to the reclamation after the request. The
  recursion over the tree is bounded by a fuel argument; the theorems show which amount suffices.
\<close>

section \<open>Data\<close>

record cb_kv =
  key :: nat
  "value" :: addr

record TreeBB_Node =
  left :: addr
  right :: addr
  nsize :: nat
  kv :: cb_kv

record cb_st =
  tnodes :: "addr \<Rightarrow> TreeBB_Node"
  avail :: "addr list"
  free_buf :: "addr list"

abbreviation WEIGHT :: nat where "WEIGHT \<equiv> 4"
abbreviation MAX_FREE_BUF_SZ :: nat where "MAX_FREE_BUF_SZ \<equiv> 1024"

section \<open>Operations\<close>

definition node_at :: "cb_st \<Rightarrow> addr \<Rightarrow> TreeBB_Node result" where
  "node_at st p = (if p = NULL then Inl Null_deref else Inr (tnodes st p))"

definition nodeSize :: "cb_st \<Rightarrow> addr \<Rightarrow> nat" where
  "nodeSize st p = (if p = NULL then 0 else nsize (tnodes st p))"

definition TreeBBNewNode :: "cb_st \<Rightarrow> addr \<times> cb_st" where
  "TreeBBNewNode st = (case avail st of [] \<Rightarrow> (NULL, st) | a # as \<Rightarrow> (a, st\<lparr>avail := as\<rparr>))"

definition TreeBBFreeNode :: "addr \<Rightarrow> cb_st \<Rightarrow> cb_st result" where
  "TreeBBFreeNode n st =
     bindE (assertE (length (free_buf st) < MAX_FREE_BUF_SZ)) (\<lambda>_. Inr (st\<lparr>free_buf := free_buf st @ [n]\<rparr>))"

definition mkNode :: "addr \<Rightarrow> addr \<Rightarrow> cb_kv \<Rightarrow> cb_st \<Rightarrow> (addr \<times> cb_st) result" where
  "mkNode l r x st =
     (let (node, st) = TreeBBNewNode st
      in bindE (assertE (node \<noteq> NULL)) (\<lambda>_.
         Inr (node, st\<lparr>tnodes := (tnodes st)(node :=
           \<lparr>left = l, right = r, nsize = (1 + nodeSize st l + nodeSize st r) mod 2 ^ 32, kv = x\<rparr>)\<rparr>)))"

text \<open>Where C leaves the order of two calls open, the model evaluates from left to right.\<close>

definition singleL :: "addr \<Rightarrow> addr \<Rightarrow> cb_kv \<Rightarrow> cb_st \<Rightarrow> (addr \<times> cb_st) result" where
  "singleL l r x st =
     bindE (node_at st r) (\<lambda>rn.
     bindE (mkNode l (left rn) x st) (\<lambda>(a, st).
     bindE (mkNode a (right rn) (kv rn) st) (\<lambda>(res, st).
     bindE (TreeBBFreeNode r st) (\<lambda>st. Inr (res, st)))))"

definition doubleL :: "addr \<Rightarrow> addr \<Rightarrow> cb_kv \<Rightarrow> cb_st \<Rightarrow> (addr \<times> cb_st) result" where
  "doubleL l r x st =
     bindE (node_at st r) (\<lambda>rn.
     bindE (node_at st (left rn)) (\<lambda>rln.
     bindE (mkNode l (left rln) x st) (\<lambda>(a, st).
     bindE (mkNode (right rln) (right rn) (kv rn) st) (\<lambda>(b, st).
     bindE (mkNode a b (kv rln) st) (\<lambda>(res, st).
     bindE (TreeBBFreeNode (left rn) st) (\<lambda>st.
     bindE (TreeBBFreeNode r st) (\<lambda>st. Inr (res, st))))))))"

definition singleR :: "addr \<Rightarrow> addr \<Rightarrow> cb_kv \<Rightarrow> cb_st \<Rightarrow> (addr \<times> cb_st) result" where
  "singleR l r x st =
     bindE (node_at st l) (\<lambda>ln.
     bindE (mkNode (right ln) r x st) (\<lambda>(a, st).
     bindE (mkNode (left ln) a (kv ln) st) (\<lambda>(res, st).
     bindE (TreeBBFreeNode l st) (\<lambda>st. Inr (res, st)))))"

definition doubleR :: "addr \<Rightarrow> addr \<Rightarrow> cb_kv \<Rightarrow> cb_st \<Rightarrow> (addr \<times> cb_st) result" where
  "doubleR l r x st =
     bindE (node_at st l) (\<lambda>ln.
     bindE (node_at st (right ln)) (\<lambda>lrn.
     bindE (mkNode (left ln) (left lrn) (kv ln) st) (\<lambda>(a, st).
     bindE (mkNode (right lrn) r x st) (\<lambda>(b, st).
     bindE (mkNode a b (kv lrn) st) (\<lambda>(res, st).
     bindE (TreeBBFreeNode (right ln) st) (\<lambda>st.
     bindE (TreeBBFreeNode l st) (\<lambda>st. Inr (res, st))))))))"

definition mkBalancedL :: "addr \<Rightarrow> addr \<Rightarrow> cb_kv \<Rightarrow> cb_st \<Rightarrow> (addr \<times> cb_st) result" where
  "mkBalancedL l r x st =
     bindE (node_at st r) (\<lambda>rn.
     if nodeSize st (left rn) < nodeSize st (right rn) then singleL l r x st else doubleL l r x st)"

definition mkBalancedR :: "addr \<Rightarrow> addr \<Rightarrow> cb_kv \<Rightarrow> cb_st \<Rightarrow> (addr \<times> cb_st) result" where
  "mkBalancedR l r x st =
     bindE (node_at st l) (\<lambda>ln.
     if nodeSize st (right ln) < nodeSize st (left ln) then singleR l r x st else doubleR l r x st)"

text \<open>The code after the label \<^verbatim>\<open>balanced\<close>.\<close>

definition balanced_node ::
  "addr \<Rightarrow> addr \<Rightarrow> addr \<Rightarrow> nat \<Rightarrow> bool \<Rightarrow> cb_st \<Rightarrow> (addr \<times> cb_st) result" where
  "balanced_node cur l r replace inPlace st =
     (if inPlace then
        bindE (if replace = 0
               then bindE (assertE (right (tnodes st cur) = r)) (\<lambda>_.
                    Inr (st\<lparr>tnodes := (tnodes st)(cur := (tnodes st cur)\<lparr>left := l\<rparr>)\<rparr>))
               else bindE (assertE (left (tnodes st cur) = l)) (\<lambda>_.
                    Inr (st\<lparr>tnodes := (tnodes st)(cur := (tnodes st cur)\<lparr>right := r\<rparr>)\<rparr>)))
          (\<lambda>st. Inr (cur, st\<lparr>tnodes := (tnodes st)(cur := (tnodes st cur)
             \<lparr>nsize := (1 + nodeSize st l + nodeSize st r) mod 2 ^ 32\<rparr>)\<rparr>))
      else
        bindE (mkNode l r (kv (tnodes st cur)) st) (\<lambda>(res, st).
        bindE (TreeBBFreeNode cur st) (\<lambda>st. Inr (res, st))))"

definition mkBalanced ::
  "addr \<Rightarrow> addr \<Rightarrow> addr \<Rightarrow> nat \<Rightarrow> bool \<Rightarrow> cb_st \<Rightarrow> (addr \<times> cb_st) result" where
  "mkBalanced cur l r replace inPlace st =
     (let ln = nodeSize st l; rn = nodeSize st r; x = kv (tnodes st cur)
      in if ln + rn < 2 then balanced_node cur l r replace inPlace st
         else if rn > WEIGHT * ln then
           bindE (mkBalancedL l r x st) (\<lambda>(res, st). bindE (TreeBBFreeNode cur st) (\<lambda>st. Inr (res, st)))
         else if ln > WEIGHT * rn then
           bindE (mkBalancedR l r x st) (\<lambda>(res, st). bindE (TreeBBFreeNode cur st) (\<lambda>st. Inr (res, st)))
         else balanced_node cur l r replace inPlace st)"

fun insert_node :: "nat \<Rightarrow> addr \<Rightarrow> cb_kv \<Rightarrow> cb_st \<Rightarrow> (addr \<times> cb_st) result" where
  "insert_node 0 node x st = Inl Out_of_fuel"
| "insert_node (Suc k) node x st =
     (if node = NULL then mkNode NULL NULL x st
      else if key x < key (kv (tnodes st node)) then
        bindE (insert_node k (left (tnodes st node)) x st) (\<lambda>(l, st).
        mkBalanced node l (right (tnodes st node)) 0 True st)
      else if key (kv (tnodes st node)) < key x then
        bindE (insert_node k (right (tnodes st node)) x st) (\<lambda>(r, st).
        mkBalanced node (left (tnodes st node)) r 1 True st)
      else Inr (node, st))"

definition TreeBB_Insert :: "nat \<Rightarrow> addr \<Rightarrow> nat \<Rightarrow> addr \<Rightarrow> cb_st \<Rightarrow> (addr \<times> cb_st) result" where
  "TreeBB_Insert fuel root k v st = insert_node fuel root \<lparr>key = k, value = v\<rparr> st"

fun deleteMin :: "nat \<Rightarrow> addr \<Rightarrow> cb_st \<Rightarrow> (addr \<times> addr \<times> cb_st) result" where
  "deleteMin 0 node st = Inl Out_of_fuel"
| "deleteMin (Suc k) node st =
     bindE (node_at st node) (\<lambda>n.
     if left n = NULL then Inr (right n, node, st)
     else bindE (deleteMin k (left n) st) (\<lambda>(l, minOut, st).
          bindE (mkBalanced node l (right n) 0 False st) (\<lambda>(res, st). Inr (res, minOut, st))))"

fun delete_node :: "nat \<Rightarrow> addr \<Rightarrow> nat \<Rightarrow> cb_st \<Rightarrow> (addr \<times> addr \<times> cb_st) result" where
  "delete_node 0 node k st = Inl Out_of_fuel"
| "delete_node (Suc f) node k st =
     (if node = NULL then Inr (NULL, NULL, st)
      else
        let l = left (tnodes st node); r = right (tnodes st node); x = kv (tnodes st node)
        in if k < key x then
             bindE (delete_node f l k st) (\<lambda>(l', deleted, st).
             bindE (mkBalanced node l' r 0 True st) (\<lambda>(res, st). Inr (res, deleted, st)))
           else if key x < k then
             bindE (delete_node f r k st) (\<lambda>(r', deleted, st).
             bindE (mkBalanced node l r' 1 True st) (\<lambda>(res, st). Inr (res, deleted, st)))
           else
             bindE (TreeBBFreeNode node st) (\<lambda>st.
             if l = NULL then Inr (r, value x, st)
             else if r = NULL then Inr (l, value x, st)
             else bindE (deleteMin f r st) (\<lambda>(r', m, st).
                  bindE (mkBalanced m l r' 1 False st) (\<lambda>(res, st). Inr (res, value x, st)))))"

definition TreeBB_Delete :: "nat \<Rightarrow> addr \<Rightarrow> nat \<Rightarrow> cb_st \<Rightarrow> (addr \<times> addr \<times> cb_st) result" where
  "TreeBB_Delete fuel root k st = delete_node fuel root k st"

text \<open>
  The reader's walk. On coherent memory the key read before and after the flush of the header is
  the same, so that the consistency check in the loop does not abort; what a reader on another
  node may see of stale lines is the subject of \<^verbatim>\<open>Noncc_Cache\<close> and \<^verbatim>\<open>Smr_Protocol\<close>.
\<close>

fun TreeBB_Find :: "nat \<Rightarrow> addr \<Rightarrow> nat \<Rightarrow> cb_st \<Rightarrow> cb_kv option result" where
  "TreeBB_Find 0 node needle st = Inl Out_of_fuel"
| "TreeBB_Find (Suc f) node needle st =
     (if node = NULL then Inr None
      else let x = kv (tnodes st node)
           in if key x = needle then Inr (Some x)
              else if key x > needle then TreeBB_Find f (left (tnodes st node)) needle st
              else TreeBB_Find f (right (tnodes st node)) needle st)"

section \<open>Reference: weight-balanced trees as a functional program\<close>

fun rotL :: "'a tree \<Rightarrow> 'a \<Rightarrow> 'a tree \<Rightarrow> 'a tree" where
  "rotL l x (Node rl y rr) =
     (if size rl < size rr then Node (Node l x rl) y rr
      else case rl of Leaf \<Rightarrow> Node l x (Node rl y rr) | Node rll z rlr \<Rightarrow> Node (Node l x rll) z (Node rlr y rr))"
| "rotL l x Leaf = Node l x Leaf"

fun rotR :: "'a tree \<Rightarrow> 'a \<Rightarrow> 'a tree \<Rightarrow> 'a tree" where
  "rotR (Node ll y lr) x r =
     (if size lr < size ll then Node ll y (Node lr x r)
      else case lr of Leaf \<Rightarrow> Node (Node ll y lr) x r | Node lrl z lrr \<Rightarrow> Node (Node ll y lrl) z (Node lrr x r))"
| "rotR Leaf x r = Node Leaf x r"

definition bal :: "'a tree \<Rightarrow> 'a \<Rightarrow> 'a tree \<Rightarrow> 'a tree" where
  "bal l x r = (if size l + size r < 2 then Node l x r
     else if size r > WEIGHT * size l then rotL l x r
     else if size l > WEIGHT * size r then rotR l x r else Node l x r)"

fun ins :: "cb_kv \<Rightarrow> cb_kv tree \<Rightarrow> cb_kv tree" where
  "ins x Leaf = Node Leaf x Leaf"
| "ins x (Node l y r) =
     (if key x < key y then bal (ins x l) y r else if key y < key x then bal l y (ins x r) else Node l y r)"

fun del_min :: "'a tree \<Rightarrow> 'a tree \<times> 'a" where
  "del_min (Node l x r) = (if l = Leaf then (r, x) else let (l', m) = del_min l in (bal l' x r, m))"
| "del_min Leaf = undefined"

fun del :: "nat \<Rightarrow> cb_kv tree \<Rightarrow> cb_kv tree" where
  "del k Leaf = Leaf"
| "del k (Node l y r) =
     (if k < key y then bal (del k l) y r else if key y < k then bal l y (del k r)
      else if l = Leaf then r else if r = Leaf then l
      else let (r', m) = del_min r in bal l m r')"

section \<open>Trees in the store\<close>

type_synonym node_tree = "(addr \<times> cb_kv) tree"

abbreviation kvs :: "node_tree \<Rightarrow> cb_kv tree" where
  "kvs t \<equiv> map_tree snd t"

fun addrs :: "node_tree \<Rightarrow> addr multiset" where
  "addrs Leaf = {#}"
| "addrs (Node l (a, x) r) = add_mset a (addrs l + addrs r)"

fun tree_at :: "(addr \<Rightarrow> TreeBB_Node) \<Rightarrow> addr \<Rightarrow> node_tree \<Rightarrow> bool" where
  "tree_at h p Leaf \<longleftrightarrow> p = NULL"
| "tree_at h p (Node l (a, x) r) \<longleftrightarrow> p = a \<and> a \<noteq> NULL \<and> kv (h a) = x \<and> nsize (h a) = Suc (size l + size r) \<and>
     tree_at h (left (h a)) l \<and> tree_at h (right (h a)) r"

lemma tree_at_cong:
  "(\<And>a. a \<in># addrs t \<Longrightarrow> h a = h' a) \<Longrightarrow> tree_at h p t = tree_at h' p t"
  by (induction h p t rule: tree_at.induct) auto

lemma tree_at_NULL [simp]: "tree_at h NULL t \<longleftrightarrow> t = Leaf"
  by (cases t) auto

lemma tree_at_Node: "tree_at h p t \<Longrightarrow> p \<noteq> NULL \<Longrightarrow> \<exists>l r. t = Node l (p, kv (h p)) r"
  by (cases t) auto

lemma nodeSize_tree: "tree_at (tnodes st) p t \<Longrightarrow> nodeSize st p = size t"
  by (cases t) (auto simp: nodeSize_def)

text \<open>Ownership: an operation works on the nodes it owns and on the objects still available.\<close>

definition owns :: "cb_st \<Rightarrow> addr multiset \<Rightarrow> bool" where
  "owns st M \<longleftrightarrow> (\<forall>a. count (M + mset (avail st)) a \<le> 1) \<and> NULL \<notin> set (avail st)"

definition room :: "nat \<Rightarrow> nat \<Rightarrow> cb_st \<Rightarrow> bool" where
  "room k j st \<longleftrightarrow> k \<le> length (avail st) \<and> length (free_buf st) + j \<le> MAX_FREE_BUF_SZ"

text \<open>
  \<open>moves st M k j st' M'\<close>: between the states the operation turned the owned nodes \<open>M\<close> into \<open>M'\<close>. What it
  took from the allocator and what it freed add up, nothing else was written, at most \<open>k\<close> nodes
  were allocated and at most \<open>j\<close> freed.
\<close>

definition moves :: "cb_st \<Rightarrow> addr multiset \<Rightarrow> nat \<Rightarrow> nat \<Rightarrow> cb_st \<Rightarrow> addr multiset \<Rightarrow> bool" where
  "moves st M k j st' M' \<longleftrightarrow> (\<exists>U F. mset (avail st) = U + mset (avail st') \<and>
     mset (free_buf st') = F + mset (free_buf st) \<and> M' + F = M + U \<and>
     (\<forall>a. a \<notin># M + U \<longrightarrow> tnodes st' a = tnodes st a) \<and> size U \<le> k \<and> size F \<le> j)"

lemma moves_refl: "moves st M k j st M"
  by (auto simp: moves_def intro!: exI[of _ "{#}"])

lemma moves_trans:
  assumes "moves st M k j st1 M1" and "moves st1 M1 k' j' st2 M2"
  shows "moves st M (k + k') (j + j') st2 M2"
proof -
  obtain U F where 1: "mset (avail st) = U + mset (avail st1)" "mset (free_buf st1) = F + mset (free_buf st)"
    "M1 + F = M + U" "\<And>a. a \<notin># M + U \<Longrightarrow> tnodes st1 a = tnodes st a" "size U \<le> k" "size F \<le> j"
    using assms(1) by (auto simp: moves_def)
  obtain V G where 2: "mset (avail st1) = V + mset (avail st2)" "mset (free_buf st2) = G + mset (free_buf st1)"
    "M2 + G = M1 + V" "\<And>a. a \<notin># M1 + V \<Longrightarrow> tnodes st2 a = tnodes st1 a" "size V \<le> k'" "size G \<le> j'"
    using assms(2) by (auto simp: moves_def)
  have "M2 + (G + F) = M + (U + V)" using 1(3) 2(3) by (metis add.assoc add.commute)
  moreover have "set_mset M1 \<subseteq> set_mset (M + U)" by (metis 1(3) set_mset_union Un_upper1)
  then have "tnodes st2 a = tnodes st a" if "a \<notin># M + (U + V)" for a
    using that 1(4) 2(4) by (metis UnCI UnE set_mset_union subsetD)
  ultimately show ?thesis unfolding moves_def using 1 2
    by (intro exI[of _ "U + V"] exI[of _ "G + F"]) (auto simp: ac_simps)
qed

lemma moves_frame: "moves st M k j st' M' \<Longrightarrow> moves st (M + R) k j st' (M' + R)"
  unfolding moves_def by (elim exE, rule exI, rule exI) (auto simp: ac_simps)

lemma moves_weaken: "moves st M k j st' M' \<Longrightarrow> k \<le> k' \<Longrightarrow> j \<le> j' \<Longrightarrow> moves st M k' j' st' M'"
  unfolding moves_def by (elim exE, rule exI, rule exI) auto

lemma moves_owns:
  assumes "moves st M k j st' M'" and "owns st (M + R)"
  shows "owns st' (M' + R)"
proof -
  obtain U F where 1: "mset (avail st) = U + mset (avail st')" "M' + F = M + U"
    using assms(1) by (auto simp: moves_def)
  have "count (M' + R + mset (avail st')) a \<le> count (M + R + mset (avail st)) a" for a
    using arg_cong[OF 1(2), of "\<lambda>m. count m a"] 1(1) by simp
  moreover have "set (avail st') \<subseteq> set (avail st)" using arg_cong[OF 1(1), of set_mset] by auto
  ultimately show ?thesis using assms(2) unfolding owns_def by (meson order_trans subsetD)
qed

lemma owns_sub: "owns st (M + R) \<Longrightarrow> owns st M"
proof -
  assume "owns st (M + R)"
  then have "count M a + count R a + count (mset (avail st)) a \<le> 1 \<and> NULL \<notin> set (avail st)" for a by (auto simp: owns_def)
  then have "count M a + count (mset (avail st)) a \<le> 1 \<and> NULL \<notin> set (avail st)" for a
    by (meson add_le_mono1 le_add1 le_trans)
  then show ?thesis by (auto simp: owns_def)
qed

lemma owns_children: "owns st (add_mset p (A + B)) \<Longrightarrow> owns st A" "owns st (add_mset p (A + B)) \<Longrightarrow> owns st B"
  using owns_sub[of st A "add_mset p B"] owns_sub[of st B "add_mset p A"] by (simp_all add: union_commute)

lemma owns_disjoint: "owns st (M + R) \<Longrightarrow> a \<in># R \<Longrightarrow> a \<notin># M \<and> a \<notin># mset (avail st)"
proof -
  assume "owns st (M + R)" and a: "a \<in># R"
  then have "count M a + count R a + count (mset (avail st)) a \<le> 1" by (auto simp: owns_def)
  moreover have "0 < count R a" using a by simp
  ultimately have "count M a = 0" "count (mset (avail st)) a = 0" by linarith+
  then show ?thesis by (simp only: not_in_iff)
qed

lemma moves_keep:
  assumes "moves st M k j st' M'" and "owns st (M + R)" and "a \<in># R"
  shows "tnodes st' a = tnodes st a"
proof -
  obtain U where u: "mset (avail st) = U + mset (avail st')" "\<And>a. a \<notin># M + U \<Longrightarrow> tnodes st' a = tnodes st a"
    using assms(1) by (auto simp: moves_def)
  moreover have "set_mset U \<subseteq> set_mset (mset (avail st))" unfolding u(1) by simp
  ultimately show ?thesis using owns_disjoint[OF assms(2,3)] by auto
qed

lemma moves_tree:
  assumes "moves st M k j st' M'" and "owns st (M + R)" and "addrs t \<subseteq># R" and "tree_at (tnodes st) p t"
  shows "tree_at (tnodes st') p t"
proof -
  have "tnodes st' a = tnodes st a" if "a \<in># addrs t" for a
    using moves_keep[OF assms(1,2)] assms(3) that by (meson mset_subset_eqD)
  then show ?thesis using assms(4) tree_at_cong[of t "tnodes st'" "tnodes st"] by blast
qed

lemma moves_room:
  assumes "moves st M k j st' M'" and "room (k + k') (j + j') st"
  shows "room k' j' st'"
proof -
  obtain U F where "mset (avail st) = U + mset (avail st')" "mset (free_buf st') = F + mset (free_buf st)"
    "size U \<le> k" "size F \<le> j" using assms(1) by (auto simp: moves_def)
  moreover from this(1,2) have "length (avail st) = size U + length (avail st')" "length (free_buf st') = size F + length (free_buf st)"
    by (metis size_mset size_union)+
  ultimately show ?thesis using assms(2) by (auto simp: room_def)
qed

text \<open>The primitive steps: a new node, and a node handed to the free buffer.\<close>

lemma mkNode_step:
  assumes o: "owns st M" and rm: "room k j st" "0 < k" and lr: "addrs l \<subseteq># M" "addrs r \<subseteq># M"
    and t: "tree_at (tnodes st) pl l" "tree_at (tnodes st) pr r" and sz: "size l + size r < 2 ^ 31"
  obtains a st' where "mkNode pl pr x st = Inr (a, st')" "moves st M 1 0 st' (add_mset a M)" "owns st' (add_mset a M)"
    "room (k - 1) j st'" "tree_at (tnodes st') a (Node l (a, x) r)"
    "\<And>p t. addrs t \<subseteq># M \<Longrightarrow> tree_at (tnodes st) p t \<Longrightarrow> tree_at (tnodes st') p t"
proof -
  obtain a as where av: "avail st = a # as" using rm by (cases "avail st") (auto simp: room_def)
  define st' where "st' = st\<lparr>avail := as, tnodes := (tnodes st)(a := \<lparr>left = pl, right = pr, nsize = Suc (size l + size r), kv = x\<rparr>)\<rparr>"
  have a: "a \<noteq> NULL" using o av by (auto simp: owns_def)
  have ns: "nodeSize (st\<lparr>avail := as\<rparr>) pl = size l" "nodeSize (st\<lparr>avail := as\<rparr>) pr = size r"
    using nodeSize_tree t by (simp_all add: nodeSize_def)
  have mk: "mkNode pl pr x st = Inr (a, st')"
    using a sz unfolding mkNode_def TreeBBNewNode_def st'_def by (simp add: av ns)
  have mv: "moves st {#} 1 0 st' {#a#}"
    unfolding moves_def by (rule exI[of _ "{#a#}"], rule exI[of _ "{#}"]) (simp add: st'_def av)
  have keep: "tree_at (tnodes st') p u" if "addrs u \<subseteq># M" "tree_at (tnodes st) p u" for p u
    using moves_tree[OF mv, of M] o that by simp
  show thesis
  proof (rule that[OF mk])
    show "moves st M 1 0 st' (add_mset a M)" using moves_frame[OF mv, of M] by simp
    show "owns st' (add_mset a M)" using moves_owns[OF mv, of M] o by simp
    show "room (k - 1) j st'" using moves_room[OF mv, of "k - 1" j] rm by simp
    show "tree_at (tnodes st') a (Node l (a, x) r)" using a keep lr t by (simp add: st'_def)
  qed (use keep in auto)
qed

lemma free_step:
  assumes o: "owns st (add_mset n M)" and rm: "room k j st" "0 < j"
  obtains st' where "TreeBBFreeNode n st = Inr st'" "moves st (add_mset n M) 0 1 st' M" "owns st' M"
    "room k (j - 1) st'" "tnodes st' = tnodes st"
proof -
  let ?st' = "st\<lparr>free_buf := free_buf st @ [n]\<rparr>"
  have mv: "moves st {#n#} 0 1 ?st' {#}"
    unfolding moves_def by (rule exI[of _ "{#}"], rule exI[of _ "{#n#}"]) simp
  show thesis
  proof (rule that)
    show "TreeBBFreeNode n st = Inr ?st'" using rm by (simp add: TreeBBFreeNode_def room_def)
    show "moves st (add_mset n M) 0 1 ?st' M" using moves_frame[OF mv, of M] by simp
    show "owns ?st' M" using moves_owns[OF mv, of M] o by simp
    show "room k (j - 1) ?st'" using moves_room[OF mv, of k "j - 1"] rm by simp
  qed simp
qed

text \<open>A call that builds a tree out of nodes it owns and leaves the nodes \<open>R\<close> owned.\<close>

definition built :: "cb_st \<Rightarrow> addr multiset \<Rightarrow> addr multiset \<Rightarrow> nat \<Rightarrow> nat \<Rightarrow> (addr \<times> cb_st) result \<Rightarrow> cb_kv tree \<Rightarrow> bool" where
  "built st M R k j res T \<longleftrightarrow>
     (\<exists>p t st'. res = Inr (p, st') \<and> moves st M k j st' (addrs t + R) \<and> tree_at (tnodes st') p t \<and> kvs t = T)"

lemma builtI:
  "res = Inr (p, st') \<Longrightarrow> moves st M k j st' (addrs t + R) \<Longrightarrow> tree_at (tnodes st') p t \<Longrightarrow> kvs t = T \<Longrightarrow>
    built st M R k j res T"
  by (auto simp: built_def)

lemma singleL_spec:
  assumes o: "owns st M" and M: "M = addrs l + addrs (Node rl (r, y) rr) + R" and rm: "room 2 1 st"
    and t: "tree_at (tnodes st) pl l" "tree_at (tnodes st) r (Node rl (r, y) rr)"
    and sz: "size l + size rl + size rr + 2 < 2 ^ 31"
  shows "built st M R 2 1 (singleL pl r x st) (Node (Node (kvs l) x (kvs rl)) y (kvs rr))"
proof -
  let ?n = "tnodes st r"
  have rn: "r \<noteq> NULL" "kv ?n = y" "tree_at (tnodes st) (left ?n) rl" "tree_at (tnodes st) (right ?n) rr"
    using t(2) by auto
  have sub: "addrs l \<subseteq># M" "addrs rl \<subseteq># M" "addrs rr \<subseteq># M" unfolding M by (auto simp: subset_mset.le_iff_add ac_simps)
  obtain a st1 where 1: "mkNode pl (left ?n) x st = Inr (a, st1)" "moves st M 1 0 st1 (add_mset a M)"
    "owns st1 (add_mset a M)" "room (2 - 1) 1 st1" "tree_at (tnodes st1) a (Node l (a, x) rl)"
    "\<And>p t. addrs t \<subseteq># M \<Longrightarrow> tree_at (tnodes st) p t \<Longrightarrow> tree_at (tnodes st1) p t"
    by (rule mkNode_step[OF o rm _ sub(1,2) t(1) rn(3), of x]) (use sz in auto)
  have sub1: "addrs (Node l (a, x) rl) \<subseteq># add_mset a M" "addrs rr \<subseteq># add_mset a M"
    unfolding M by (auto simp: subset_mset.le_iff_add ac_simps)
  obtain b st2 where 2: "mkNode a (right ?n) y st1 = Inr (b, st2)" "moves st1 (add_mset a M) 1 0 st2 (add_mset b (add_mset a M))"
    "owns st2 (add_mset b (add_mset a M))" "room (2 - 1 - 1) 1 st2" "tree_at (tnodes st2) b (Node (Node l (a, x) rl) (b, y) rr)"
    by (rule mkNode_step[OF 1(3,4) _ sub1 1(5) 1(6)[OF sub(3) rn(4)], of y]) (use sz in auto)
  let ?u = "Node (Node l (a, x) rl) (b, y) rr"
  have eq: "add_mset b (add_mset a M) = add_mset r (addrs ?u + R)" by (simp add: M ac_simps)
  obtain st3 where 3: "TreeBBFreeNode r st2 = Inr st3" "moves st2 (add_mset r (addrs ?u + R)) 0 1 st3 (addrs ?u + R)"
    "tnodes st3 = tnodes st2"
    by (rule free_step[OF 2(3)[unfolded eq] 2(4)]) auto
  show ?thesis
  proof (rule builtI)
    show "singleL pl r x st = Inr (b, st3)" using rn(1,2) 1(1) 2(1) 3(1) by (simp add: singleL_def node_at_def)
    show "moves st M 2 1 st3 (addrs ?u + R)"
      using moves_trans[OF moves_trans[OF 1(2) 2(2)[unfolded eq]] 3(2)] by (simp add: numeral_2_eq_2)
    show "tree_at (tnodes st3) b ?u" using 2(5) 3(3) by simp
  qed simp
qed

lemma singleR_spec:
  assumes o: "owns st M" and M: "M = addrs (Node ll (l, y) lr) + addrs r + R" and rm: "room 2 1 st"
    and t: "tree_at (tnodes st) l (Node ll (l, y) lr)" "tree_at (tnodes st) pr r"
    and sz: "size r + size ll + size lr + 2 < 2 ^ 31"
  shows "built st M R 2 1 (singleR l pr x st) (Node (kvs ll) y (Node (kvs lr) x (kvs r)))"
proof -
  let ?n = "tnodes st l"
  have ln: "l \<noteq> NULL" "kv ?n = y" "tree_at (tnodes st) (left ?n) ll" "tree_at (tnodes st) (right ?n) lr"
    using t(1) by auto
  have sub: "addrs r \<subseteq># M" "addrs ll \<subseteq># M" "addrs lr \<subseteq># M" unfolding M by (auto simp: subset_mset.le_iff_add ac_simps)
  obtain a st1 where 1: "mkNode (right ?n) pr x st = Inr (a, st1)" "moves st M 1 0 st1 (add_mset a M)"
    "owns st1 (add_mset a M)" "room (2 - 1) 1 st1" "tree_at (tnodes st1) a (Node lr (a, x) r)"
    "\<And>p t. addrs t \<subseteq># M \<Longrightarrow> tree_at (tnodes st) p t \<Longrightarrow> tree_at (tnodes st1) p t"
    by (rule mkNode_step[OF o rm _ sub(3,1) ln(4) t(2), of x]) (use sz in auto)
  have sub1: "addrs ll \<subseteq># add_mset a M" "addrs (Node lr (a, x) r) \<subseteq># add_mset a M"
    unfolding M by (auto simp: subset_mset.le_iff_add ac_simps)
  obtain b st2 where 2: "mkNode (left ?n) a y st1 = Inr (b, st2)" "moves st1 (add_mset a M) 1 0 st2 (add_mset b (add_mset a M))"
    "owns st2 (add_mset b (add_mset a M))" "room (2 - 1 - 1) 1 st2" "tree_at (tnodes st2) b (Node ll (b, y) (Node lr (a, x) r))"
    by (rule mkNode_step[OF 1(3,4) _ sub1 1(6)[OF sub(2) ln(3)] 1(5), of y]) (use sz in auto)
  let ?u = "Node ll (b, y) (Node lr (a, x) r)"
  have eq: "add_mset b (add_mset a M) = add_mset l (addrs ?u + R)" by (simp add: M ac_simps)
  obtain st3 where 3: "TreeBBFreeNode l st2 = Inr st3" "moves st2 (add_mset l (addrs ?u + R)) 0 1 st3 (addrs ?u + R)"
    "tnodes st3 = tnodes st2"
    by (rule free_step[OF 2(3)[unfolded eq] 2(4)]) auto
  show ?thesis
  proof (rule builtI)
    show "singleR l pr x st = Inr (b, st3)" using ln(1,2) 1(1) 2(1) 3(1) by (simp add: singleR_def node_at_def)
    show "moves st M 2 1 st3 (addrs ?u + R)"
      using moves_trans[OF moves_trans[OF 1(2) 2(2)[unfolded eq]] 3(2)] by (simp add: numeral_2_eq_2)
    show "tree_at (tnodes st3) b ?u" using 2(5) 3(3) by simp
  qed simp
qed

text \<open>Both double rotations build three nodes and free two.\<close>

lemma three_nodes:
  assumes o: "owns st M" and rm: "room 3 2 st"
    and sub: "addrs t1 \<subseteq># M" "addrs t2 \<subseteq># M" "addrs t3 \<subseteq># M" "addrs t4 \<subseteq># M" "addrs t1 + addrs t2 + (addrs t3 + addrs t4) \<subseteq># M"
    and t: "tree_at (tnodes st) p1 t1" "tree_at (tnodes st) p2 t2" "tree_at (tnodes st) p3 t3" "tree_at (tnodes st) p4 t4"
    and sz: "size t1 + size t2 + (size t3 + size t4) + 2 < 2 ^ 31"
  obtains a b c st1 st2 st3 where "mkNode p1 p2 x st = Inr (a, st1)" "mkNode p3 p4 z st1 = Inr (b, st2)"
    "mkNode a b y st2 = Inr (c, st3)" "moves st M 3 0 st3 (add_mset c (add_mset b (add_mset a M)))" "owns st3 (add_mset c (add_mset b (add_mset a M)))" "room 0 2 st3"
    "tree_at (tnodes st3) c (Node (Node t1 (a, x) t2) (c, y) (Node t3 (b, z) t4))"
proof -
  obtain a st1 where 1: "mkNode p1 p2 x st = Inr (a, st1)" "moves st M 1 0 st1 (add_mset a M)"
    "owns st1 (add_mset a M)" "room (3 - 1) 2 st1" "tree_at (tnodes st1) a (Node t1 (a, x) t2)"
    "\<And>p t. addrs t \<subseteq># M \<Longrightarrow> tree_at (tnodes st) p t \<Longrightarrow> tree_at (tnodes st1) p t"
    by (rule mkNode_step[OF o rm _ sub(1,2) t(1,2), of x]) (use sz in auto)
  have sub1: "addrs t3 \<subseteq># add_mset a M" "addrs t4 \<subseteq># add_mset a M" "addrs (Node t1 (a, x) t2) \<subseteq># add_mset a M"
    using sub by (auto simp: subset_mset.le_iff_add)
  obtain b st2 where 2: "mkNode p3 p4 z st1 = Inr (b, st2)" "moves st1 (add_mset a M) 1 0 st2 (add_mset b (add_mset a M))"
    "owns st2 (add_mset b (add_mset a M))" "room (3 - 1 - 1) 2 st2" "tree_at (tnodes st2) b (Node t3 (b, z) t4)"
    "\<And>p t. addrs t \<subseteq># add_mset a M \<Longrightarrow> tree_at (tnodes st1) p t \<Longrightarrow> tree_at (tnodes st2) p t"
    by (rule mkNode_step[OF 1(3,4) _ sub1(1,2) 1(6)[OF sub(3) t(3)] 1(6)[OF sub(4) t(4)], of z]) (use sz in auto)
  have sub2: "addrs (Node t1 (a, x) t2) \<subseteq># add_mset b (add_mset a M)" "addrs (Node t3 (b, z) t4) \<subseteq># add_mset b (add_mset a M)"
    using sub(5) by (auto simp: subset_mset.le_iff_add ac_simps)
  obtain c st3 where 3: "mkNode a b y st2 = Inr (c, st3)"
    "moves st2 (add_mset b (add_mset a M)) 1 0 st3 (add_mset c (add_mset b (add_mset a M)))"
    "owns st3 (add_mset c (add_mset b (add_mset a M)))" "room (3 - 1 - 1 - 1) 2 st3"
    "tree_at (tnodes st3) c (Node (Node t1 (a, x) t2) (c, y) (Node t3 (b, z) t4))"
    by (rule mkNode_step[OF 2(3,4) _ sub2 2(6)[OF sub1(3) 1(5)] 2(5), of y]) (use sz in auto)
  show thesis
    by (rule that[OF 1(1) 2(1) 3(1)])
      (use moves_trans[OF moves_trans[OF 1(2) 2(2)] 3(2)] 3 in \<open>simp_all add: numeral_3_eq_3\<close>)
qed

lemma two_frees:
  assumes o: "owns st (add_mset a (add_mset b M))" and rm: "room k 2 st"
  obtains st1 st2 where "TreeBBFreeNode a st = Inr st1" "TreeBBFreeNode b st1 = Inr st2"
    "moves st (add_mset a (add_mset b M)) 0 2 st2 M" "tnodes st2 = tnodes st"
proof -
  obtain st1 where 1: "TreeBBFreeNode a st = Inr st1" "moves st (add_mset a (add_mset b M)) 0 1 st1 (add_mset b M)"
    "owns st1 (add_mset b M)" "room k (2 - 1) st1" "tnodes st1 = tnodes st"
    by (rule free_step[OF o rm]) simp_all
  obtain st2 where 2: "TreeBBFreeNode b st1 = Inr st2" "moves st1 (add_mset b M) 0 1 st2 M" "tnodes st2 = tnodes st1"
    by (rule free_step[OF 1(3,4)]) simp_all
  show thesis by (rule that[OF 1(1) 2(1)]) (use moves_trans[OF 1(2) 2(2)] 1 2 in \<open>simp_all add: numeral_2_eq_2\<close>)
qed

lemma doubleL_spec:
  assumes o: "owns st M" and M: "M = addrs l + addrs (Node (Node rll (rl, z) rlr) (r, y) rr) + R" and rm: "room 3 2 st"
    and t: "tree_at (tnodes st) pl l" "tree_at (tnodes st) r (Node (Node rll (rl, z) rlr) (r, y) rr)"
    and sz: "size l + size rll + (size rlr + size rr) + 2 < 2 ^ 31"
  shows "built st M R 3 2 (doubleL pl r x st) (Node (Node (kvs l) x (kvs rll)) z (Node (kvs rlr) y (kvs rr)))"
proof -
  let ?n = "tnodes st r" and ?m = "tnodes st rl"
  have n: "r \<noteq> NULL" "kv ?n = y" "left ?n = rl" "tree_at (tnodes st) (right ?n) rr" "rl \<noteq> NULL" "kv ?m = z"
    "tree_at (tnodes st) (left ?m) rll" "tree_at (tnodes st) (right ?m) rlr" using t(2) by auto
  have sub: "addrs l \<subseteq># M" "addrs rll \<subseteq># M" "addrs rlr \<subseteq># M" "addrs rr \<subseteq># M" "addrs l + addrs rll + (addrs rlr + addrs rr) \<subseteq># M"
    unfolding M by (auto simp: subset_mset.le_iff_add ac_simps)
  obtain a b c st1 st2 st3 where mk: "mkNode pl (left ?m) x st = Inr (a, st1)" "mkNode (right ?m) (right ?n) y st1 = Inr (b, st2)"
    "mkNode a b z st2 = Inr (c, st3)" "moves st M 3 0 st3 (add_mset c (add_mset b (add_mset a M)))" "owns st3 (add_mset c (add_mset b (add_mset a M)))" "room 0 2 st3"
    "tree_at (tnodes st3) c (Node (Node l (a, x) rll) (c, z) (Node rlr (b, y) rr))"
    by (rule three_nodes[OF o rm sub t(1) n(7,8,4) sz])
  let ?u = "Node (Node l (a, x) rll) (c, z) (Node rlr (b, y) rr)"
  have eq: "add_mset c (add_mset b (add_mset a M)) = add_mset rl (add_mset r (addrs ?u + R))" by (simp add: M ac_simps)
  obtain st4 st5 where fr: "TreeBBFreeNode rl st3 = Inr st4" "TreeBBFreeNode r st4 = Inr st5"
    "moves st3 (add_mset c (add_mset b (add_mset a M))) 0 2 st5 (addrs ?u + R)" "tnodes st5 = tnodes st3"
    using two_frees[OF mk(5)[unfolded eq] mk(6)] unfolding eq by blast
  show ?thesis
  proof (rule builtI)
    show "doubleL pl r x st = Inr (c, st5)" using n mk(1,2,3) fr(1,2) by (simp add: doubleL_def node_at_def)
    show "moves st M 3 2 st5 (addrs ?u + R)" using moves_trans[OF mk(4) fr(3)] by (simp add: numeral_2_eq_2)
    show "tree_at (tnodes st5) c ?u" using mk(7) fr(4) by simp
  qed simp
qed

lemma doubleR_spec:
  assumes o: "owns st M" and M: "M = addrs (Node ll (l, y) (Node lrl (lr, z) lrr)) + addrs r + R" and rm: "room 3 2 st"
    and t: "tree_at (tnodes st) l (Node ll (l, y) (Node lrl (lr, z) lrr))" "tree_at (tnodes st) pr r"
    and sz: "size ll + size lrl + (size lrr + size r) + 2 < 2 ^ 31"
  shows "built st M R 3 2 (doubleR l pr x st) (Node (Node (kvs ll) y (kvs lrl)) z (Node (kvs lrr) x (kvs r)))"
proof -
  let ?n = "tnodes st l" and ?m = "tnodes st lr"
  have n: "l \<noteq> NULL" "kv ?n = y" "right ?n = lr" "tree_at (tnodes st) (left ?n) ll" "lr \<noteq> NULL" "kv ?m = z"
    "tree_at (tnodes st) (left ?m) lrl" "tree_at (tnodes st) (right ?m) lrr" using t(1) by auto
  have sub: "addrs ll \<subseteq># M" "addrs lrl \<subseteq># M" "addrs lrr \<subseteq># M" "addrs r \<subseteq># M" "addrs ll + addrs lrl + (addrs lrr + addrs r) \<subseteq># M"
    unfolding M by (auto simp: subset_mset.le_iff_add ac_simps)
  obtain a b c st1 st2 st3 where mk: "mkNode (left ?n) (left ?m) y st = Inr (a, st1)" "mkNode (right ?m) pr x st1 = Inr (b, st2)"
    "mkNode a b z st2 = Inr (c, st3)" "moves st M 3 0 st3 (add_mset c (add_mset b (add_mset a M)))" "owns st3 (add_mset c (add_mset b (add_mset a M)))" "room 0 2 st3"
    "tree_at (tnodes st3) c (Node (Node ll (a, y) lrl) (c, z) (Node lrr (b, x) r))"
    by (rule three_nodes[OF o rm sub n(4,7,8) t(2) sz])
  let ?u = "Node (Node ll (a, y) lrl) (c, z) (Node lrr (b, x) r)"
  have eq: "add_mset c (add_mset b (add_mset a M)) = add_mset lr (add_mset l (addrs ?u + R))" by (simp add: M ac_simps)
  obtain st4 st5 where fr: "TreeBBFreeNode lr st3 = Inr st4" "TreeBBFreeNode l st4 = Inr st5"
    "moves st3 (add_mset c (add_mset b (add_mset a M))) 0 2 st5 (addrs ?u + R)" "tnodes st5 = tnodes st3"
    using two_frees[OF mk(5)[unfolded eq] mk(6)] unfolding eq by blast
  show ?thesis
  proof (rule builtI)
    show "doubleR l pr x st = Inr (c, st5)" using n mk(1,2,3) fr(1,2) by (simp add: doubleR_def node_at_def)
    show "moves st M 3 2 st5 (addrs ?u + R)" using moves_trans[OF mk(4) fr(3)] by (simp add: numeral_2_eq_2)
    show "tree_at (tnodes st5) c ?u" using mk(7) fr(4) by simp
  qed simp
qed

lemma kvs_size: "size (kvs t) = size t"
  by (rule size_map_tree)

lemma built_weaken: "built st M R k j res T \<Longrightarrow> k \<le> k' \<Longrightarrow> j \<le> j' \<Longrightarrow> built st M R k' j' res T"
  unfolding built_def by (blast intro: moves_weaken)

lemma mkBalancedL_spec:
  assumes o: "owns st M" and M: "M = addrs l + addrs r + R" and rm: "room 3 2 st"
    and t: "tree_at (tnodes st) pl l" "tree_at (tnodes st) pr r" and sz: "size l + size r + 1 < 2 ^ 31"
    and heavy: "2 \<le> size r"
  shows "built st M R 3 2 (mkBalancedL pl pr x st) (rotL (kvs l) x (kvs r))"
proof -
  obtain rl y rr where r: "r = Node rl (pr, y) rr" using heavy t(2) by (cases r) auto
  have n: "pr \<noteq> NULL" "nodeSize st (left (tnodes st pr)) = size rl" "nodeSize st (right (tnodes st pr)) = size rr"
    using t(2) nodeSize_tree unfolding r by auto
  have rm2: "room 2 1 st" using rm by (simp add: room_def)
  show ?thesis
  proof (cases "size rl < size rr")
    case True
    then show ?thesis
      using built_weaken[OF singleL_spec[OF o M[unfolded r] rm2 t(1) t(2)[unfolded r], of x], of 3 2] sz n
      by (simp add: mkBalancedL_def node_at_def r kvs_size)
  next
    case False
    then obtain rll q z rlr where rl: "rl = Node rll (q, z) rlr" using heavy r by (cases rl) auto
    show ?thesis
      using doubleL_spec[OF o M[unfolded r rl] rm t(1) t(2)[unfolded r rl], of x] sz n False
      by (simp add: mkBalancedL_def node_at_def r rl kvs_size)
  qed
qed

lemma mkBalancedR_spec:
  assumes o: "owns st M" and M: "M = addrs l + addrs r + R" and rm: "room 3 2 st"
    and t: "tree_at (tnodes st) pl l" "tree_at (tnodes st) pr r" and sz: "size l + size r + 1 < 2 ^ 31"
    and heavy: "2 \<le> size l"
  shows "built st M R 3 2 (mkBalancedR pl pr x st) (rotR (kvs l) x (kvs r))"
proof -
  obtain ll y lr where l: "l = Node ll (pl, y) lr" using heavy t(1) by (cases l) auto
  have n: "pl \<noteq> NULL" "nodeSize st (left (tnodes st pl)) = size ll" "nodeSize st (right (tnodes st pl)) = size lr"
    using t(1) nodeSize_tree unfolding l by auto
  have rm2: "room 2 1 st" using rm by (simp add: room_def)
  show ?thesis
  proof (cases "size lr < size ll")
    case True
    then show ?thesis
      using built_weaken[OF singleR_spec[OF o M[unfolded l] rm2 t(1)[unfolded l] t(2), of x], of 3 2] sz n
      by (simp add: mkBalancedR_def node_at_def l kvs_size)
  next
    case False
    then obtain lrl q z lrr where lr: "lr = Node lrl (q, z) lrr" using heavy l by (cases lr) auto
    show ?thesis
      using doubleR_spec[OF o M[unfolded l lr] rm t(1)[unfolded l lr] t(2), of x] sz n False
      by (simp add: mkBalancedR_def node_at_def l lr kvs_size)
  qed
qed

text \<open>The last step of \<^verbatim>\<open>mkBalanced\<close>: the node that was replaced is freed.\<close>

lemma built_free:
  assumes b: "built st M {#cur#} 3 2 res T" and o: "owns st M" and rm: "room 3 3 st"
  shows "built st M {#} 3 3 (bindE res (\<lambda>(res, st). bindE (TreeBBFreeNode cur st) (\<lambda>st. Inr (res, st)))) T"
proof -
  obtain p t st1 where 1: "res = Inr (p, st1)" "moves st M 3 2 st1 (add_mset cur (addrs t))"
    "tree_at (tnodes st1) p t" "kvs t = T" using b by (auto simp: built_def)
  have "owns st1 (add_mset cur (addrs t))" "room 0 1 st1"
    using moves_owns[OF 1(2), of "{#}"] o moves_room[OF 1(2), of 0 1] rm by simp_all
  then obtain st2 where 2: "TreeBBFreeNode cur st1 = Inr st2" "moves st1 (add_mset cur (addrs t)) 0 1 st2 (addrs t)"
    "tnodes st2 = tnodes st1" by (rule free_step) simp_all
  show ?thesis
    by (rule builtI[of _ p st2 _ _ _ _ t]) (use 1 2 moves_trans[OF 1(2) 2(2)] in \<open>simp_all add: numeral_3_eq_3\<close>)
qed

lemma balanced_node_spec:
  assumes o: "owns st M" and M: "M = add_mset cur (addrs l + addrs r)" and rm: "room 3 3 st"
    and t: "tree_at (tnodes st) pl l" "tree_at (tnodes st) pr r" and sz: "size l + size r + 1 < 2 ^ 31"
    and c: "cur \<noteq> NULL" "kv (tnodes st cur) = x"
    and ip: "inPlace \<longrightarrow> (if rep = 0 then right (tnodes st cur) = pr else left (tnodes st cur) = pl)"
  shows "built st M {#} 3 3 (balanced_node cur pl pr rep inPlace st) (Node (kvs l) x (kvs r))"
proof (cases inPlace)
  case True
  let ?n = "\<lparr>left = pl, right = pr, nsize = Suc (size l + size r), kv = x\<rparr>"
  let ?st' = "st\<lparr>tnodes := (tnodes st)(cur := ?n)\<rparr>"
  have mv: "moves st {#cur#} 0 0 ?st' {#cur#}" unfolding moves_def by (intro exI[of _ "{#}"]) auto
  have keep: "tree_at (tnodes ?st') pl l" "tree_at (tnodes ?st') pr r"
    using moves_tree[OF mv, of "addrs l + addrs r"] o t by (simp_all add: M)
  have "cur \<noteq> pl \<or> l = Leaf" "cur \<noteq> pr \<or> r = Leaf"
    using owns_disjoint[of st "{#cur#}" "addrs l + addrs r" cur] o t by (cases l; cases r; auto simp: M)+
  then have ns: "nodeSize (st\<lparr>tnodes := (tnodes st)(cur := n)\<rparr>) pl = size l" "nodeSize (st\<lparr>tnodes := (tnodes st)(cur := n)\<rparr>) pr = size r" for n
    using nodeSize_tree[OF t(1)] nodeSize_tree[OF t(2)] t c(1) by (auto simp: nodeSize_def)
  have "balanced_node cur pl pr rep inPlace st = Inr (cur, ?st')"
  proof (cases "rep = 0")
    case r0: True
    have "(tnodes st cur)\<lparr>left := pl, nsize := Suc (size l + size r)\<rparr> = ?n" using ip True r0 c by (cases "tnodes st cur") simp
    then show ?thesis using True r0 ip sz by (simp add: balanced_node_def ns)
  next
    case r1: False
    have "(tnodes st cur)\<lparr>right := pr, nsize := Suc (size l + size r)\<rparr> = ?n" using ip True r1 c by (cases "tnodes st cur") simp
    then show ?thesis using True r1 ip sz by (simp add: balanced_node_def ns)
  qed
  moreover have "moves st M 3 3 ?st' (addrs (Node l (cur, x) r) + {#})"
    using moves_weaken[OF moves_frame[OF mv, of "addrs l + addrs r"], of 3 3] by (simp add: M)
  moreover have "tree_at (tnodes ?st') cur (Node l (cur, x) r)" using keep c by simp
  ultimately show ?thesis by (rule builtI) simp
next
  case False
  have sub: "addrs l \<subseteq># M" "addrs r \<subseteq># M" by (auto simp: M subset_mset.le_iff_add ac_simps)
  obtain a st1 where 1: "mkNode pl pr x st = Inr (a, st1)" "moves st M 1 0 st1 (add_mset a M)"
    "tree_at (tnodes st1) a (Node l (a, x) r)"
    by (rule mkNode_step[OF o rm _ sub t, of x]) (use sz in auto)
  have "built st M {#cur#} 3 2 (Inr (a, st1)) (Node (kvs l) x (kvs r))"
    by (rule builtI[of _ a st1 _ _ _ _ "Node l (a, x) r"]) (use 1 moves_weaken[OF 1(2), of 3 2] in \<open>simp_all add: M add_mset_commute\<close>)
  from built_free[OF this o rm] show ?thesis using False 1(1) c by (simp add: balanced_node_def)
qed

lemma mkBalanced_spec:
  assumes o: "owns st M" and M: "M = add_mset cur (addrs l + addrs r)" and rm: "room 3 3 st"
    and t: "tree_at (tnodes st) pl l" "tree_at (tnodes st) pr r" and sz: "size l + size r + 1 < 2 ^ 31"
    and c: "cur \<noteq> NULL" "kv (tnodes st cur) = x"
    and ip: "inPlace \<longrightarrow> (if rep = 0 then right (tnodes st cur) = pr else left (tnodes st cur) = pl)"
  shows "built st M {#} 3 3 (mkBalanced cur pl pr rep inPlace st) (bal (kvs l) x (kvs r))"
proof -
  have M': "M = addrs l + addrs r + {#cur#}" by (simp add: M)
  have rm2: "room 3 2 st" using rm by (simp add: room_def)
  note bl = balanced_node_spec[OF assms]
  have ns: "nodeSize st pl = size l" "nodeSize st pr = size r" using nodeSize_tree t by auto
  have L: "built st M {#} 3 3 (bindE (mkBalancedL pl pr x st) (\<lambda>(res, st). bindE (TreeBBFreeNode cur st) (\<lambda>st. Inr (res, st))))
      (rotL (kvs l) x (kvs r))" if "2 \<le> size r"
    using built_free[OF mkBalancedL_spec[OF o M' rm2 t sz that] o rm] .
  have R: "built st M {#} 3 3 (bindE (mkBalancedR pl pr x st) (\<lambda>(res, st). bindE (TreeBBFreeNode cur st) (\<lambda>st. Inr (res, st))))
      (rotR (kvs l) x (kvs r))" if "2 \<le> size l"
    using built_free[OF mkBalancedR_spec[OF o M' rm2 t sz that] o rm] .
  show ?thesis
    unfolding mkBalanced_def bal_def Let_def ns kvs_size using bl L R c(2) by auto
qed

lemma ins_size: "size (bal l x r) = Suc (size l + size r)"
  by (cases l; cases r) (auto simp: bal_def split: tree.splits)

lemma size_ins: "size (ins x t) \<le> Suc (size t)"
  by (induction t) (auto simp: ins_size)

text \<open>After a call on a subtree: the rest of the tree is untouched, and \<^verbatim>\<open>mkBalanced\<close> can follow.\<close>

lemma built_trans:
  assumes mv: "moves st M k j st' (M' + R)" and b: "built st' M' {#} k' j' res T"
  shows "built st M R (k + k') (j + j') res T"
proof -
  obtain q u st'' where "res = Inr (q, st'')" "moves st' M' k' j' st'' (addrs u)" "tree_at (tnodes st'') q u" "kvs u = T"
    using b by (auto simp: built_def)
  then show ?thesis using moves_trans[OF mv moves_frame] by (blast intro: builtI)
qed

lemma built_keeps:
  assumes b: "built st M {#} k j res T" and o: "owns st (M + R)" and "res = Inr (q, st')" and "a \<in># R"
  shows "tnodes st' a = tnodes st a"
  using b moves_keep[OF _ o] assms(3,4) by (auto simp: built_def)

lemma balance_left:
  assumes b: "built st (addrs l) R k j res T" and o: "owns st (add_mset p (addrs l + addrs r))" and rm: "room (k + 3) (j + 3) st"
    and n: "p \<noteq> NULL" "tree_at (tnodes st) (right (tnodes st p)) r" and sz: "size T + size r + 1 < 2 ^ 31"
  obtains q st' where "res = Inr (q, st')" "tnodes st' p = tnodes st p"
    "built st (add_mset p (addrs l + addrs r)) R (k + 3) (j + 3) (mkBalanced p q (right (tnodes st p)) 0 inPlace st')
      (bal T (kv (tnodes st p)) (kvs r))"
    "\<And>a q' st''. a \<in># R \<Longrightarrow> mkBalanced p q (right (tnodes st p)) 0 inPlace st' = Inr (q', st'') \<Longrightarrow> tnodes st'' a = tnodes st' a"
proof -
  let ?B = "add_mset p (addrs r)"
  have o': "owns st (addrs l + ?B)" using o by simp
  obtain q u st' where 1: "res = Inr (q, st')" "moves st (addrs l) k j st' (addrs u + R)" "tree_at (tnodes st') q u" "kvs u = T"
    using b by (auto simp: built_def)
  have r: "tree_at (tnodes st') (right (tnodes st p)) r"
    using moves_tree[OF 1(2) o' _ n(2)] by (simp add: subset_mset.le_iff_add)
  have np: "tnodes st' p = tnodes st p" using moves_keep[OF 1(2) o', of p] by simp
  have o1: "owns st' (add_mset p (addrs u + addrs r) + R)" using moves_owns[OF 1(2) o'] by (simp add: ac_simps)
  have bl: "built st' (add_mset p (addrs u + addrs r)) {#} 3 3 (mkBalanced p q (right (tnodes st p)) 0 inPlace st')
      (bal T (kv (tnodes st p)) (kvs r))"
    using mkBalanced_spec[OF owns_sub[OF o1] _ moves_room[OF 1(2) rm] 1(3) r _ n(1), of "kv (tnodes st p)" inPlace 0]
      sz 1(4) np kvs_size[of u] by simp
  have "moves st (add_mset p (addrs l + addrs r)) k j st' (add_mset p (addrs u + addrs r) + R)"
    using moves_frame[OF 1(2), of ?B] by (simp add: ac_simps)
  from built_trans[OF this bl] show thesis using that 1(1) np built_keeps[OF bl o1] by blast
qed

lemma balance_right:
  assumes b: "built st (addrs r) {#} k j res T" and o: "owns st (add_mset p (addrs l + addrs r))" and rm: "room (k + 3) (j + 3) st"
    and n: "p \<noteq> NULL" "tree_at (tnodes st) (left (tnodes st p)) l" and sz: "size l + size T + 1 < 2 ^ 31"
  obtains q st' where "res = Inr (q, st')" "tnodes st' p = tnodes st p"
    "built st (add_mset p (addrs l + addrs r)) {#} (k + 3) (j + 3) (mkBalanced p (left (tnodes st p)) q 1 inPlace st')
      (bal (kvs l) (kv (tnodes st p)) T)"
proof -
  let ?B = "add_mset p (addrs l)"
  have o': "owns st (addrs r + ?B)" using o by (simp add: ac_simps)
  obtain q u st' where 1: "res = Inr (q, st')" "moves st (addrs r) k j st' (addrs u)" "tree_at (tnodes st') q u" "kvs u = T"
    using b by (auto simp: built_def)
  have l: "tree_at (tnodes st') (left (tnodes st p)) l"
    using moves_tree[OF 1(2) o' _ n(2)] by (simp add: subset_mset.le_iff_add)
  have np: "tnodes st' p = tnodes st p" using moves_keep[OF 1(2) o', of p] by simp
  have o1: "owns st' (add_mset p (addrs l + addrs u))" using moves_owns[OF 1(2) o'] by (simp add: ac_simps)
  have bl: "built st' (add_mset p (addrs l + addrs u)) {#} 3 3 (mkBalanced p (left (tnodes st p)) q 1 inPlace st')
      (bal (kvs l) (kv (tnodes st p)) T)"
    using mkBalanced_spec[OF o1 _ moves_room[OF 1(2) rm] l 1(3) _ n(1), of "kv (tnodes st p)" inPlace 1]
      sz 1(4) np kvs_size[of u] by simp
  have "moves st (add_mset p (addrs l + addrs r)) k j st' (add_mset p (addrs l + addrs u) + {#})"
    using moves_frame[OF 1(2), of ?B] by (simp add: ac_simps)
  from built_trans[OF this bl] show thesis using that 1(1) np by blast
qed

lemma room_mono: "room k j st \<Longrightarrow> k' \<le> k \<Longrightarrow> j' \<le> j \<Longrightarrow> room k' j' st"
  by (simp add: room_def)

lemma insert_node_spec:
  assumes "owns st (addrs t)" and "tree_at (tnodes st) p t" and "room (3 * height t + 1) (3 * height t) st"
    and "size t + 1 < 2 ^ 31" and "height t < f"
  shows "built st (addrs t) {#} (3 * height t + 1) (3 * height t) (insert_node f p x st) (ins x (kvs t))"
  using assms
proof (induction t arbitrary: f p st)
  case Leaf
  obtain f' where f: "f = Suc f'" using Leaf by (cases f) auto
  have "owns st {#}" "room 1 0 st" using Leaf by auto
  then obtain a st' where "mkNode NULL NULL x st = Inr (a, st')" "moves st {#} 1 0 st' {#a#}"
    "tree_at (tnodes st') a (Node Leaf (a, x) Leaf)" by (rule mkNode_step[of _ _ _ _ Leaf Leaf 0 0 x]) auto
  then show ?case using Leaf f by (intro builtI[of _ a st' _ _ _ _ "Node Leaf (a, x) Leaf"]) auto
next
  case (Node l ax r)
  obtain y where ax: "ax = (p, y)" using Node.prems(2) by (cases ax) auto
  obtain f' where f: "f = Suc f'" using Node.prems(5) by (cases f) auto
  let ?n = "tnodes st p"
  have n: "p \<noteq> NULL" "kv ?n = y" "tree_at (tnodes st) (left ?n) l" "tree_at (tnodes st) (right ?n) r"
    using Node.prems(2) by (auto simp: ax)
  have o: "owns st (add_mset p (addrs l + addrs r))" using Node.prems(1) by (simp add: ax)
  note ol = owns_children(1)[OF o] and or = owns_children(2)[OF o]
  let ?h = "height (Node l ax r)"
  consider "key x < key y" | "key y < key x" | "key x = key y" by linarith
  then show ?case
  proof cases
    case 1
    have b: "built st (addrs l) {#} (3 * (?h - 1) + 1) (3 * (?h - 1)) (insert_node f' (left ?n) x st) (ins x (kvs l))"
      by (rule built_weaken[OF Node.IH(1)[OF ol n(3) room_mono[OF Node.prems(3)]]]) (use Node.prems(4,5) f in auto)
    have sz: "size (ins x (kvs l)) + size r + 1 < 2 ^ 31" using size_ins[of x "kvs l"] Node.prems(4) by (simp add: kvs_size)
    have rm: "room (3 * (?h - 1) + 1 + 3) (3 * (?h - 1) + 3) st" by (rule room_mono[OF Node.prems(3)]) simp_all
    obtain q st' where "insert_node f' (left ?n) x st = Inr (q, st')" "tnodes st' p = ?n"
      "built st (add_mset p (addrs l + addrs r)) {#} (3 * (?h - 1) + 1 + 3) (3 * (?h - 1) + 3)
        (mkBalanced p q (right ?n) 0 True st') (bal (ins x (kvs l)) (kv ?n) (kvs r))"
      by (rule balance_left[OF b o rm n(1,4) sz])
    then show ?thesis using 1 n f by (simp add: ax add.commute)
  next
    case 2
    have b: "built st (addrs r) {#} (3 * (?h - 1) + 1) (3 * (?h - 1)) (insert_node f' (right ?n) x st) (ins x (kvs r))"
      by (rule built_weaken[OF Node.IH(2)[OF or n(4) room_mono[OF Node.prems(3)]]]) (use Node.prems(4,5) f in auto)
    have sz: "size l + size (ins x (kvs r)) + 1 < 2 ^ 31" using size_ins[of x "kvs r"] Node.prems(4) by (simp add: kvs_size)
    have rm: "room (3 * (?h - 1) + 1 + 3) (3 * (?h - 1) + 3) st" by (rule room_mono[OF Node.prems(3)]) simp_all
    obtain q st' where "insert_node f' (right ?n) x st = Inr (q, st')" "tnodes st' p = ?n"
      "built st (add_mset p (addrs l + addrs r)) {#} (3 * (?h - 1) + 1 + 3) (3 * (?h - 1) + 3)
        (mkBalanced p (left ?n) q 1 True st') (bal (kvs l) (kv ?n) (ins x (kvs r)))"
      by (rule balance_right[OF b o rm n(1,3) sz])
    then show ?thesis using 2 n f by (simp add: ax add.commute)
  next
    case 3
    then show ?thesis using n f Node.prems(2)
      by (intro builtI[of _ p st _ _ _ _ "Node l ax r"]) (auto simp: ax moves_refl)
  qed
qed

lemma del_min_size: "t \<noteq> Leaf \<Longrightarrow> size t = Suc (size (fst (del_min t)))"
  by (induction t) (auto simp: ins_size split: prod.split)

lemma deleteMin_spec:
  assumes "owns st (addrs t)" and "tree_at (tnodes st) p t" and "room (3 * height t) (3 * height t) st"
    and "size t < 2 ^ 31" and "height t \<le> f" and "t \<noteq> Leaf"
  shows "\<exists>q m st'. deleteMin f p st = Inr (q, m, st') \<and> m \<noteq> NULL \<and> kv (tnodes st' m) = snd (del_min (kvs t)) \<and>
    built st (addrs t) {#m#} (3 * height t) (3 * height t) (Inr (q, st')) (fst (del_min (kvs t)))"
  using assms
proof (induction t arbitrary: f p st)
  case (Node l ax r)
  obtain y where ax: "ax = (p, y)" using Node.prems(2) by (cases ax) auto
  obtain f' where f: "f = Suc f'" using Node.prems(5) by (cases f) auto
  let ?n = "tnodes st p" and ?h = "height (Node l ax r)"
  have n: "p \<noteq> NULL" "kv ?n = y" "tree_at (tnodes st) (left ?n) l" "tree_at (tnodes st) (right ?n) r"
    using Node.prems(2) by (auto simp: ax)
  have o: "owns st (add_mset p (addrs l + addrs r))" using Node.prems(1) by (simp add: ax)
  show ?case
  proof (cases "l = Leaf")
    case True
    then have "deleteMin f p st = Inr (right ?n, p, st)" using n f by (simp add: node_at_def)
    moreover have "built st (addrs (Node l ax r)) {#p#} (3 * ?h) (3 * ?h) (Inr (right ?n, st)) (kvs r)"
      by (rule builtI[of _ "right ?n" st _ _ _ _ r]) (use n True in \<open>auto simp: ax moves_refl\<close>)
    ultimately show ?thesis using n True by (auto simp: ax)
  next
    case False
    note ol = owns_children(1)[OF o]
    have h: "3 * height l \<le> 3 * ?h" by simp
    obtain q m st1 where 1: "deleteMin f' (left ?n) st = Inr (q, m, st1)" "m \<noteq> NULL" "kv (tnodes st1 m) = snd (del_min (kvs l))"
      "built st (addrs l) {#m#} (3 * height l) (3 * height l) (Inr (q, st1)) (fst (del_min (kvs l)))"
      using Node.IH(1)[OF ol n(3) room_mono[OF Node.prems(3) h h], of f'] Node.prems(4,5) False f by auto
    have b: "built st (addrs l) {#m#} (3 * (?h - 1)) (3 * (?h - 1)) (Inr (q, st1)) (fst (del_min (kvs l)))"
      by (rule built_weaken[OF 1(4)]) auto
    have rm: "room (3 * (?h - 1) + 3) (3 * (?h - 1) + 3) st" by (rule room_mono[OF Node.prems(3)]) simp_all
    have sz: "size (fst (del_min (kvs l))) + size r + 1 < 2 ^ 31"
      using del_min_size[of "kvs l"] False Node.prems(4) by (simp add: kvs_size)
    have np: "tnodes st1 p = ?n"
      and bl: "built st (add_mset p (addrs l + addrs r)) {#m#} (3 * (?h - 1) + 3) (3 * (?h - 1) + 3)
        (mkBalanced p q (right ?n) 0 False st1) (bal (fst (del_min (kvs l))) (kv ?n) (kvs r))"
      and keep: "\<And>q' st''. mkBalanced p q (right ?n) 0 False st1 = Inr (q', st'') \<Longrightarrow> tnodes st'' m = tnodes st1 m"
      by (rule balance_left[OF b o rm n(1,4) sz, of False]; simp)+
    obtain q2 st2 where mk: "mkBalanced p q (right ?n) 0 False st1 = Inr (q2, st2)" using bl by (auto simp: built_def)
    have "left ?n \<noteq> NULL" using n(3) False tree_at_NULL[of "tnodes st" l] by metis
    then have "deleteMin f p st = Inr (q2, m, st2)" using 1(1) mk n(1) f by (simp add: node_at_def)
    moreover have "built st (addrs (Node l ax r)) {#m#} (3 * ?h) (3 * ?h) (Inr (q2, st2)) (fst (del_min (kvs (Node l ax r))))"
      using bl mk n(2) False by (simp add: ax add.commute case_prod_beta)
    moreover have "kv (tnodes st2 m) = snd (del_min (kvs (Node l ax r)))"
      using keep[OF mk] 1(3) False by (simp add: case_prod_beta)
    ultimately show ?thesis using 1(2) by blast
  qed
qed simp

lemma size_del: "size (del k t) \<le> size t"
proof (induction t)
  case (Node l y r)
  then show ?case using del_min_size[of r] by (auto simp: ins_size case_prod_beta)
qed simp

text \<open>The value that a deletion hands back.\<close>

fun del_value :: "nat \<Rightarrow> cb_kv tree \<Rightarrow> addr" where
  "del_value k Leaf = NULL"
| "del_value k (Node l y r) = (if k < key y then del_value k l else if key y < k then del_value k r else value y)"

text \<open>Removing the root of a tree that has two children.\<close>

lemma delete_root_spec:
  assumes o: "owns st (add_mset p (addrs l + addrs r))" and t: "tree_at (tnodes st) pl l" "tree_at (tnodes st) pr r"
    and rm: "room (3 * height r + 3) (3 * height r + 4) st" and sz: "size l + size r + 1 < 2 ^ 31"
    and f: "height r \<le> f" and nl: "r \<noteq> Leaf"
  obtains st1 q m st2 where "TreeBBFreeNode p st = Inr st1" "deleteMin f pr st1 = Inr (q, m, st2)"
    "built st (add_mset p (addrs l + addrs r)) {#} (3 * height r + 3) (3 * height r + 4)
      (mkBalanced m pl q 1 False st2) (case del_min (kvs r) of (r', y) \<Rightarrow> bal (kvs l) y r')"
proof -
  let ?h = "3 * height r"
  obtain st1 where 1: "TreeBBFreeNode p st = Inr st1" "moves st (add_mset p (addrs l + addrs r)) 0 1 st1 (addrs l + addrs r)"
    "owns st1 (addrs l + addrs r)" "room (?h + 3) (?h + 4 - 1) st1" "tnodes st1 = tnodes st"
    by (rule free_step[OF o rm]) simp_all
  have o1: "owns st1 (addrs r + addrs l)" using 1(3) by (simp add: union_commute)
  have rm1: "room (?h + 3) (?h + 3) st1" using 1(4) by (simp add: add.commute)
  obtain q m st2 where 2: "deleteMin f pr st1 = Inr (q, m, st2)" "m \<noteq> NULL" "kv (tnodes st2 m) = snd (del_min (kvs r))"
    "built st1 (addrs r) {#m#} ?h ?h (Inr (q, st2)) (fst (del_min (kvs r)))"
    using deleteMin_spec[OF owns_sub[OF o1], of pr f] t(2) room_mono[OF rm1, of ?h ?h] sz f nl by (auto simp: 1(5))
  obtain u where 3: "moves st1 (addrs r) ?h ?h st2 (add_mset m (addrs u))" "tree_at (tnodes st2) q u" "kvs u = fst (del_min (kvs r))"
    using 2(4) by (auto simp: built_def)
  have l2: "tree_at (tnodes st2) pl l" using moves_tree[OF 3(1) o1 _ t(1)[folded 1(5)]] by simp
  have o2: "owns st2 (add_mset m (addrs l + addrs u))" using moves_owns[OF 3(1) o1] by (simp add: ac_simps)
  have sz2: "size l + size u + 1 < 2 ^ 31" using del_min_size[of "kvs r"] nl sz 3(3)[THEN arg_cong[where f = size]] by (simp add: kvs_size)
  have b: "built st2 (add_mset m (addrs l + addrs u)) {#} 3 3 (mkBalanced m pl q 1 False st2) (bal (kvs l) (snd (del_min (kvs r))) (kvs u))"
    by (rule mkBalanced_spec[OF o2 refl moves_room[OF 3(1) rm1] l2 3(2) sz2 2(2,3)]) simp
  have "moves st1 (addrs l + addrs r) ?h ?h st2 (add_mset m (addrs l + addrs u) + {#})"
    using moves_frame[OF 3(1), of "addrs l"] by (simp add: ac_simps)
  from built_trans[OF moves_trans[OF 1(2) this] b] show thesis
    using that[OF 1(1) 2(1)] 3(3) by (simp add: case_prod_beta add.commute)
qed

lemma delete_node_spec:
  assumes "owns st (addrs t)" and "tree_at (tnodes st) p t" and "room (3 * height t) (3 * height t + 1) st"
    and "size t < 2 ^ 31" and "height t < f"
  shows "\<exists>q st'. delete_node f p k st = Inr (q, del_value k (kvs t), st') \<and>
    built st (addrs t) {#} (3 * height t) (3 * height t + 1) (Inr (q, st')) (del k (kvs t))"
  using assms
proof (induction t arbitrary: f p st)
  case Leaf
  then obtain f' where "f = Suc f'" by (cases f) auto
  then show ?case using Leaf by (auto simp: built_def moves_refl intro!: exI[of _ Leaf])
next
  case (Node l ax r)
  obtain y where ax: "ax = (p, y)" using Node.prems(2) by (cases ax) auto
  obtain f' where f: "f = Suc f'" using Node.prems(5) by (cases f) auto
  let ?n = "tnodes st p" and ?h = "height (Node l ax r)"
  have n: "p \<noteq> NULL" "kv ?n = y" "tree_at (tnodes st) (left ?n) l" "tree_at (tnodes st) (right ?n) r"
    using Node.prems(2) by (auto simp: ax)
  have o: "owns st (add_mset p (addrs l + addrs r))" using Node.prems(1) by (simp add: ax)
  note ol = owns_children(1)[OF o] and or = owns_children(2)[OF o]
  have hl: "3 * height l \<le> 3 * ?h" "3 * height l + 1 \<le> 3 * ?h + 1" and hr: "3 * height r \<le> 3 * ?h" "3 * height r + 1 \<le> 3 * ?h + 1"
    by auto
  have rm: "room (3 * (?h - 1) + 3) (3 * (?h - 1) + 1 + 3) st" by (rule room_mono[OF Node.prems(3)]) simp_all
  have szd: "size (del k (kvs l)) + size r + 1 < 2 ^ 31" "size l + size (del k (kvs r)) + 1 < 2 ^ 31"
    using size_del[of k "kvs l"] size_del[of k "kvs r"] Node.prems(4) by (simp_all add: kvs_size)
  consider "k < key y" | "key y < k" | "k = key y" by linarith
  then show ?case
  proof cases
    case 1
    obtain q st1 where d: "delete_node f' (left ?n) k st = Inr (q, del_value k (kvs l), st1)"
      "built st (addrs l) {#} (3 * height l) (3 * height l + 1) (Inr (q, st1)) (del k (kvs l))"
      using Node.IH(1)[OF ol n(3) room_mono[OF Node.prems(3) hl], of f'] Node.prems(4,5) f by auto
    have b: "built st (addrs l) {#} (3 * (?h - 1)) (3 * (?h - 1) + 1) (Inr (q, st1)) (del k (kvs l))"
      by (rule built_weaken[OF d(2)]) auto
    have bl: "built st (add_mset p (addrs l + addrs r)) {#} (3 * (?h - 1) + 3) (3 * (?h - 1) + 1 + 3)
        (mkBalanced p q (right ?n) 0 True st1) (bal (del k (kvs l)) (kv ?n) (kvs r))"
      by (rule balance_left[OF b o rm n(1,4) szd(1), of True]; simp)
    then obtain q2 st2 where mk: "mkBalanced p q (right ?n) 0 True st1 = Inr (q2, st2)" by (auto simp: built_def)
    show ?thesis using bl mk d(1) 1 n(1,2) f by (auto simp: ax Let_def add.commute)
  next
    case 2
    obtain q st1 where d: "delete_node f' (right ?n) k st = Inr (q, del_value k (kvs r), st1)"
      "built st (addrs r) {#} (3 * height r) (3 * height r + 1) (Inr (q, st1)) (del k (kvs r))"
      using Node.IH(2)[OF or n(4) room_mono[OF Node.prems(3) hr], of f'] Node.prems(4,5) f by auto
    have b: "built st (addrs r) {#} (3 * (?h - 1)) (3 * (?h - 1) + 1) (Inr (q, st1)) (del k (kvs r))"
      by (rule built_weaken[OF d(2)]) auto
    have bl: "built st (add_mset p (addrs l + addrs r)) {#} (3 * (?h - 1) + 3) (3 * (?h - 1) + 1 + 3)
        (mkBalanced p (left ?n) q 1 True st1) (bal (kvs l) (kv ?n) (del k (kvs r)))"
      by (rule balance_right[OF b o rm n(1,3) szd(2), of True]; simp)
    then obtain q2 st2 where mk: "mkBalanced p (left ?n) q 1 True st1 = Inr (q2, st2)" by (auto simp: built_def)
    show ?thesis using bl mk d(1) 2 n(1,2) f by (auto simp: ax Let_def add.commute)
  next
    case 3
    show ?thesis
    proof (cases "l = Leaf \<or> r = Leaf")
      case True
      obtain st1 where fr: "TreeBBFreeNode p st = Inr st1" "moves st (add_mset p (addrs l + addrs r)) 0 1 st1 (addrs l + addrs r)"
        "tnodes st1 = tnodes st" by (rule free_step[OF o Node.prems(3)]) simp_all
      have "built st (addrs (Node l ax r)) {#} (3 * ?h) (3 * ?h + 1) (Inr (if l = Leaf then right ?n else left ?n, st1)) (if l = Leaf then kvs r else kvs l)"
        by (rule builtI[of _ "if l = Leaf then right ?n else left ?n" st1 _ _ _ _ "if l = Leaf then r else l"])
          (use True n fr moves_weaken[OF fr(2), of "3 * ?h" "3 * ?h + 1"] in \<open>auto simp: ax\<close>)
      moreover have "left ?n = NULL \<longleftrightarrow> l = Leaf" "right ?n = NULL \<longleftrightarrow> r = Leaf"
        using n(3,4) by (metis tree_at_NULL tree_at.simps(1))+
      ultimately show ?thesis using True fr(1) 3 n(1,2) f by (auto simp: ax Let_def)
    next
      case False
      then have nn: "left ?n \<noteq> NULL" "right ?n \<noteq> NULL" using n(3,4) by (metis tree_at_NULL)+
      have rmr: "room (3 * height r + 3) (3 * height r + 4) st" by (rule room_mono[OF Node.prems(3)]) simp_all
      obtain st1 q m st2 where d: "TreeBBFreeNode p st = Inr st1" "deleteMin f' (right ?n) st1 = Inr (q, m, st2)"
        "built st (add_mset p (addrs l + addrs r)) {#} (3 * height r + 3) (3 * height r + 4)
          (mkBalanced m (left ?n) q 1 False st2) (case del_min (kvs r) of (r', y) \<Rightarrow> bal (kvs l) y r')"
        by (rule delete_root_spec[OF o n(3,4) rmr, of f']) (use Node.prems(4,5) False f in auto)
      obtain q2 st3 where mk: "mkBalanced m (left ?n) q 1 False st2 = Inr (q2, st3)" using d(3) by (auto simp: built_def)
      have "delete_node f p k st = Inr (q2, value y, st3)" using d(1,2) mk 3 n nn f by (simp add: Let_def)
      moreover have "built st (addrs (Node l ax r)) {#} (3 * ?h) (3 * ?h + 1) (Inr (q2, st3)) (del k (kvs (Node l ax r)))"
        using built_weaken[OF d(3)[unfolded mk], of "3 * ?h" "3 * ?h + 1"] 3 False by (simp add: ax case_prod_beta)
      ultimately show ?thesis using 3 by (simp add: ax)
    qed
  qed
qed

end
