(* ===== verification/Kv_Map.thy ===== *)
theory Kv_Map
  imports BI_Prelude
begin

text \<open>
  The contract that the two lookup structures of the repository share, the balanced tree of
  \<^verbatim>\<open>rb_tree/cbtree.c\<close> and the chained hash table of the key-value servers: adding a key that is
  not there, and removing one. The lemmas that follow from the contract are proved once.
\<close>

locale kv_map =
  fixes inv :: "'s \<Rightarrow> bool" and abs :: "'s \<Rightarrow> 'k \<Rightarrow> 'v option"
    and put :: "'k \<Rightarrow> 'v \<Rightarrow> 's \<Rightarrow> 's" and rem :: "'k \<Rightarrow> 's \<Rightarrow> 's"
  assumes put_inv: "inv s \<Longrightarrow> abs s k = None \<Longrightarrow> inv (put k v s)"
    and put_abs: "inv s \<Longrightarrow> abs s k = None \<Longrightarrow> abs (put k v s) = (abs s)(k \<mapsto> v)"
    and rem_inv: "inv s \<Longrightarrow> inv (rem k s)"
    and rem_abs: "inv s \<Longrightarrow> abs (rem k s) = (abs s)(k := None)"
begin

lemma put_rem: "inv s \<Longrightarrow> abs s k = None \<Longrightarrow> abs (rem k (put k v s)) = abs s"
  by (simp add: rem_abs put_abs put_inv fun_upd_idem)

lemma put_other: "inv s \<Longrightarrow> abs s k = None \<Longrightarrow> k' \<noteq> k \<Longrightarrow> abs (put k v s) k' = abs s k'"
  by (simp add: put_abs)

lemma put_put_commute:
  "inv s \<Longrightarrow> abs s k = None \<Longrightarrow> abs s k' = None \<Longrightarrow> k \<noteq> k' \<Longrightarrow>
    abs (put k v (put k' v' s)) = abs (put k' v' (put k v s))"
  by (simp add: put_abs put_inv fun_upd_twist)

text \<open>A batch of additions, as the benchmarks load their data.\<close>

lemma put_all:
  assumes "inv s" and "distinct (map fst kvs)" and "\<forall>k \<in> fst ` set kvs. abs s k = None"
  shows "inv (fold (\<lambda>(k, v). put k v) kvs s) \<and> abs (fold (\<lambda>(k, v). put k v) kvs s) = abs s ++ map_of kvs"
  using assms
proof (induction kvs arbitrary: s)
  case (Cons x kvs)
  obtain k v where x: "x = (k, v)" by (cases x)
  have k: "abs s k = None" "k \<notin> fst ` set kvs" using Cons.prems x by auto
  have "\<forall>k' \<in> fst ` set kvs. abs (put k v s) k' = None" using Cons.prems k by (auto simp: put_abs x)
  then have "inv (fold (\<lambda>(k, v). put k v) kvs (put k v s)) \<and>
      abs (fold (\<lambda>(k, v). put k v) kvs (put k v s)) = abs (put k v s) ++ map_of kvs"
    using Cons.IH[of "put k v s"] Cons.prems k put_inv by simp
  moreover have "(abs s)(k \<mapsto> v) ++ map_of kvs = abs s ++ (map_of kvs)(k \<mapsto> v)"
    using k(2) by (auto simp: fun_eq_iff map_add_def split: option.splits dest: map_of_SomeD intro: rev_image_eqI)
  ultimately show ?case using Cons.prems(1) k by (auto simp: x put_abs fun_eq_iff map_add_def)
qed simp

lemma rem_all: "inv s \<Longrightarrow> abs (fold rem ks s) = (abs s) |` (- set ks) \<and> inv (fold rem ks s)"
  by (induction ks arbitrary: s) (auto simp: rem_abs rem_inv restrict_map_def fun_eq_iff)

end

end
