(* ===== verification/Cbtree_Map.thy ===== *)
theory Cbtree_Map
  imports Cbtree Kv_Map
begin

text \<open>
  What the operations of \<^verbatim>\<open>rb_tree/cbtree.c\<close> mean: the functional reference of theory \<^verbatim>\<open>Cbtree\<close> is a
  search tree that implements a finite map, and the code on the store implements the reference.
\<close>

section \<open>The reference is a map\<close>

definition bst :: "cb_kv tree \<Rightarrow> bool" where
  "bst t \<longleftrightarrow> sorted_wrt (<) (map key (inorder t))"

definition tree_map :: "cb_kv tree \<Rightarrow> nat \<Rightarrow> addr option" where
  "tree_map t = map_of (map (\<lambda>x. (key x, value x)) (inorder t))"

fun ins_list :: "cb_kv \<Rightarrow> cb_kv list \<Rightarrow> cb_kv list" where
  "ins_list x [] = [x]"
| "ins_list x (y # ys) = (if key x < key y then x # y # ys else if key x = key y then y # ys else y # ins_list x ys)"

lemma inorder_bal: "inorder (bal l x r) = inorder l @ x # inorder r"
proof (cases l)
  case (Node ll y lr)
  then show ?thesis by (cases r; cases lr) (auto simp: bal_def split: tree.splits)
qed (cases r; auto simp: bal_def split: tree.splits)

lemma ins_list_mid:
  "sorted_wrt (<) (map key (xs @ y # ys)) \<Longrightarrow>
    ins_list x (xs @ y # ys) = (if key x < key y then ins_list x xs @ y # ys
      else if key x = key y then xs @ y # ys else xs @ y # ins_list x ys)"
  by (induction xs) auto

lemma inorder_ins: "bst t \<Longrightarrow> inorder (ins x t) = ins_list x (inorder t)"
proof (induction t)
  case (Node l y r)
  then have "bst l" "bst r" by (auto simp: bst_def sorted_wrt_append)
  with Node show ?case using ins_list_mid[of "inorder l" y "inorder r" x] by (auto simp: inorder_bal bst_def)
qed simp

lemma inorder_del_min: "t \<noteq> Leaf \<Longrightarrow> inorder t = snd (del_min t) # inorder (fst (del_min t))"
  by (induction t) (auto simp: inorder_bal case_prod_beta)

lemma filter_id: "(\<And>x. x \<in> set xs \<Longrightarrow> P x) \<Longrightarrow> filter P xs = xs"
  by (rule filter_True) blast

lemma inorder_del: "bst t \<Longrightarrow> inorder (del k t) = filter (\<lambda>x. key x \<noteq> k) (inorder t)"
proof (induction t)
  case (Node l y r)
  have b: "bst l" "bst r" and lt: "\<forall>x \<in> set (inorder l). key x < key y" "\<forall>x \<in> set (inorder r). key y < key x"
    using Node.prems by (auto simp: bst_def sorted_wrt_append)
  consider "k < key y" | "key y < k" | "k = key y" by linarith
  then show ?case
  proof cases
    case 1
    have "filter (\<lambda>x. key x \<noteq> k) (inorder r) = inorder r" using lt(2) 1 by (intro filter_id) fastforce
    then show ?thesis using 1 Node.IH(1)[OF b(1)] by (simp add: inorder_bal)
  next
    case 2
    have "filter (\<lambda>x. key x \<noteq> k) (inorder l) = inorder l" using lt(1) 2 by (intro filter_id) fastforce
    then show ?thesis using 2 Node.IH(2)[OF b(2)] by (simp add: inorder_bal)
  next
    case 3
    have "filter (\<lambda>x. key x \<noteq> k) (inorder l) = inorder l" "filter (\<lambda>x. key x \<noteq> k) (inorder r) = inorder r"
      using lt 3 by (intro filter_id; fastforce)+
    then show ?thesis using 3 inorder_del_min[of r] by (auto simp: inorder_bal case_prod_beta)
  qed
qed simp

lemma ins_list_sorted:
  "sorted_wrt (<) (map key xs) \<Longrightarrow> sorted_wrt (<) (map key (ins_list x xs)) \<and> key ` set (ins_list x xs) = insert (key x) (key ` set xs)"
  by (induction xs) auto

lemma bst_ins: "bst t \<Longrightarrow> bst (ins x t)"
  using ins_list_sorted by (auto simp: bst_def inorder_ins[unfolded bst_def])

lemma bst_del: "bst t \<Longrightarrow> bst (del k t)"
  by (simp add: bst_def inorder_del[unfolded bst_def] sorted_wrt_filter sorted_wrt_map)

lemma map_of_ins_list:
  "sorted_wrt (<) (map key xs) \<Longrightarrow>
    map_of (map (\<lambda>x. (key x, value x)) (ins_list x xs)) =
      (let m = map_of (map (\<lambda>x. (key x, value x)) xs) in if m (key x) = None then m(key x \<mapsto> value x) else m)"
proof (induction xs)
  case (Cons y ys)
  have "key x < key y \<Longrightarrow> map_of (map (\<lambda>x. (key x, value x)) (y # ys)) (key x) = None"
    using Cons.prems by (fastforce simp: map_of_eq_None_iff)
  with Cons show ?case by (auto simp: Let_def fun_upd_twist)
qed simp

text \<open>An insertion adds a key that is not there and leaves the value of an existing key alone.\<close>

lemma tree_map_ins:
  "bst t \<Longrightarrow> tree_map (ins x t) = (if tree_map t (key x) = None then (tree_map t)(key x \<mapsto> value x) else tree_map t)"
  using map_of_ins_list[of "inorder t" x] by (simp add: tree_map_def inorder_ins bst_def Let_def)

lemma tree_map_del: "bst t \<Longrightarrow> tree_map (del k t) = (tree_map t)(k := None)"
proof -
  have "map_of (map (\<lambda>x. (key x, value x)) (filter (\<lambda>x. key x \<noteq> k) xs)) = (map_of (map (\<lambda>x. (key x, value x)) xs))(k := None)" for xs
    by (induction xs) (auto simp: fun_upd_twist)
  then show "bst t \<Longrightarrow> tree_map (del k t) = (tree_map t)(k := None)" by (simp add: tree_map_def inorder_del)
qed

interpretation bb: kv_map bst tree_map "\<lambda>k v. ins \<lparr>key = k, value = v\<rparr>" del
  by unfold_locales (auto simp: tree_map_ins tree_map_del bst_ins bst_del)

lemma tree_map_Node:
  assumes "bst (Node l y r)"
  shows "tree_map (Node l y r) k = (if k < key y then tree_map l k else if k = key y then Some (value y) else tree_map r k)"
proof -
  have lt: "\<forall>x \<in> set (inorder l). key x < key y" "\<forall>x \<in> set (inorder r). key y < key x"
    using assms by (auto simp: bst_def sorted_wrt_append)
  have "k \<le> key y \<Longrightarrow> tree_map r k = None" "key y \<le> k \<Longrightarrow> tree_map l k = None"
    using lt by (fastforce simp: tree_map_def map_of_eq_None_iff)+
  then show ?thesis by (auto simp: tree_map_def map_add_def split: option.splits)
qed

lemma del_value_map: "bst t \<Longrightarrow> del_value k t = (case tree_map t k of None \<Rightarrow> NULL | Some v \<Rightarrow> v)"
proof (induction t)
  case (Node l y r)
  then have "bst l" "bst r" by (auto simp: bst_def sorted_wrt_append)
  with Node show ?case by (simp add: tree_map_Node)
qed (simp add: tree_map_def)

section \<open>The code on the store\<close>

text \<open>The tree at \<open>root\<close>: linked in the store, made of nodes the writer owns, and ordered.\<close>

definition bbtree :: "cb_st \<Rightarrow> addr \<Rightarrow> node_tree \<Rightarrow> bool" where
  "bbtree st root t \<longleftrightarrow> tree_at (tnodes st) root t \<and> owns st (addrs t) \<and> bst (kvs t) \<and> size t + 1 < 2 ^ 31"

lemma built_bbtree:
  assumes "built st (addrs t) {#} k j (Inr (q, st')) T" and "owns st (addrs t)" and "bst T" and "size T + 1 < 2 ^ 31"
  shows "\<exists>u. bbtree st' q u \<and> kvs u = T \<and> moves st (addrs t) k j st' (addrs u)"
proof -
  obtain u where u: "moves st (addrs t) k j st' (addrs u)" "tree_at (tnodes st') q u" "kvs u = T"
    using assms(1) by (auto simp: built_def)
  then have "size u + 1 < 2 ^ 31" using assms(4) kvs_size[of u] by simp
  moreover have "owns st' (addrs u)" using moves_owns[OF u(1), of "{#}"] assms(2) by simp
  ultimately show ?thesis using u assms(3) by (auto simp: bbtree_def)
qed

text \<open>Insertion refines the functional reference.\<close>

lemma insert_refines:
  assumes "bbtree st root t" and "room (3 * height t + 1) (3 * height t) st" and "height t < fuel" and "size t + 2 < 2 ^ 31"
  shows "\<exists>root' st' u. TreeBB_Insert fuel root k v st = Inr (root', st') \<and> bbtree st' root' u \<and>
    kvs u = ins \<lparr>key = k, value = v\<rparr> (kvs t) \<and> moves st (addrs t) (3 * height t + 1) (3 * height t) st' (addrs u)"
proof -
  let ?x = "\<lparr>key = k, value = v\<rparr>"
  have t: "tree_at (tnodes st) root t" "owns st (addrs t)" "bst (kvs t)" "size t + 1 < 2 ^ 31" using assms(1) by (auto simp: bbtree_def)
  have b: "built st (addrs t) {#} (3 * height t + 1) (3 * height t) (insert_node fuel root ?x st) (ins ?x (kvs t))"
    by (rule insert_node_spec[OF t(2,1) assms(2) t(4) assms(3)])
  then obtain q st' where i: "insert_node fuel root ?x st = Inr (q, st')" by (auto simp: built_def)
  have "size (ins ?x (kvs t)) + 1 < 2 ^ 31" using size_ins[of ?x "kvs t"] assms(4) by (simp add: kvs_size)
  with built_bbtree[OF b[unfolded i] t(2) bst_ins[OF t(3)]] i show ?thesis by (auto simp: TreeBB_Insert_def)
qed

text \<open>So does deletion, and what it frees is no longer linked.\<close>

lemma delete_refines:
  assumes "bbtree st root t" and "room (3 * height t) (3 * height t + 1) st" and "height t < fuel"
  shows "\<exists>root' st' u. TreeBB_Delete fuel root k st = Inr (root', case tree_map (kvs t) k of None \<Rightarrow> NULL | Some v \<Rightarrow> v, st') \<and>
    bbtree st' root' u \<and> tree_map (kvs u) = (tree_map (kvs t))(k := None) \<and> moves st (addrs t) (3 * height t) (3 * height t + 1) st' (addrs u)"
proof -
  have t: "tree_at (tnodes st) root t" "owns st (addrs t)" "bst (kvs t)" "size t < 2 ^ 31" "size t + 1 < 2 ^ 31"
    using assms(1) by (auto simp: bbtree_def)
  obtain q st' where d: "delete_node fuel root k st = Inr (q, del_value k (kvs t), st')"
    and b: "built st (addrs t) {#} (3 * height t) (3 * height t + 1) (Inr (q, st')) (del k (kvs t))"
    using delete_node_spec[OF t(2,1) assms(2) t(4) assms(3)] by blast
  have "size (del k (kvs t)) + 1 < 2 ^ 31" using size_del[of k "kvs t"] t(5) by (simp add: kvs_size)
  with built_bbtree[OF b t(2) bst_del[OF t(3)]] obtain u where
    u: "bbtree st' q u" "kvs u = del k (kvs t)" "moves st (addrs t) (3 * height t) (3 * height t + 1) st' (addrs u)" by blast
  have "tree_map (kvs u) = (tree_map (kvs t))(k := None)" unfolding u(2) by (rule tree_map_del[OF t(3)])
  with u(1,3) d show ?thesis by (auto simp: TreeBB_Delete_def del_value_map[OF t(3)])
qed

lemma moves_freed:
  assumes "moves st M k j st' M'" and "owns st M" and "free_buf st = []"
  shows "\<exists>U. mset (avail st) = U + mset (avail st') \<and> M' + mset (free_buf st') = M + U"
    "distinct (free_buf st')" "\<And>a. a \<in> set (free_buf st') \<Longrightarrow> a \<notin># M'"
proof -
  obtain U where U: "mset (avail st) = U + mset (avail st')" "M' + mset (free_buf st') = M + U"
    using assms(1,3) by (auto simp: moves_def)
  have "count (M' + mset (free_buf st')) a \<le> 1" for a
  proof -
    have "count (M + mset (avail st)) a \<le> 1" using assms(2) by (simp add: owns_def)
    then show ?thesis unfolding U by (simp add: U(1))
  qed
  then have c: "count M' a + count (mset (free_buf st')) a \<le> 1" for a by simp
  have one: "count (mset (free_buf st')) a = 1 \<and> a \<notin># M'" if "a \<in> set (free_buf st')" for a
  proof -
    have "0 < count (mset (free_buf st')) a" using that by simp
    with c[of a] have "count (mset (free_buf st')) a = 1" "count M' a = 0" by linarith+
    then show ?thesis by (simp only: not_in_iff simp_thms)
  qed
  show "\<exists>U. mset (avail st) = U + mset (avail st') \<and> M' + mset (free_buf st') = M + U" using U by blast
  show "distinct (free_buf st')" using one unfolding distinct_count_atmost_1 by (auto simp: count_eq_zero_iff)
  show "\<And>a. a \<in> set (free_buf st') \<Longrightarrow> a \<notin># M'" using one by blast
qed


text \<open>A deletion returns the value of the key, or \<^verbatim>\<open>NULL\<close> when the key is not there, and leaves a
  search tree whose map lacks the key and is otherwise unchanged.\<close>

theorem tree_delete_correct:
  assumes "bbtree st root t" and "room (3 * height t) (3 * height t + 1) st" and "height t < fuel"
  shows "\<exists>root' st' u. TreeBB_Delete fuel root k st = Inr (root', case tree_map (kvs t) k of None \<Rightarrow> NULL | Some v \<Rightarrow> v, st') \<and>
    bbtree st' root' u \<and> tree_map (kvs u) = (tree_map (kvs t))(k := None)"
  using delete_refines[OF assms] by blast



section \<open>Concrete instances\<close>

definition st_example :: cb_st where
  "st_example = \<lparr>tnodes = (\<lambda>_. \<lparr>left = 0, right = 0, nsize = 0, kv = \<lparr>key = 0, value = 0\<rparr>\<rparr>),
     avail = map (\<lambda>i. 64 * i) [1..<40], free_buf = []\<rparr>"

definition one_node :: cb_st where
  "one_node = st_example\<lparr>tnodes := (tnodes st_example)(64 := \<lparr>left = 0, right = 0, nsize = 1, kv = \<lparr>key = 5, value = 77\<rparr>\<rparr>),
     avail := map (\<lambda>i. 64 * i) [2..<40]\<rparr>"

lemma one_node_tree: "bbtree one_node 64 (Node Leaf (64, \<lparr>key = 5, value = 77\<rparr>) Leaf)"
  unfolding bbtree_def
proof (intro conjI)
  have "count (mset (avail one_node)) a \<le> 1" for a by (simp add: one_node_def upt_conv_Cons)
  moreover have "count (mset (avail one_node)) 64 = 0" by (simp add: one_node_def upt_conv_Cons)
  ultimately show "owns one_node (addrs (Node Leaf (64, \<lparr>key = 5, value = 77\<rparr>) Leaf))"
    by (auto simp: owns_def one_node_def)
qed (simp_all add: one_node_def bst_def)

lemma one_node_room: "k \<le> 38 \<Longrightarrow> j \<le> 1024 \<Longrightarrow> room k j one_node"
  by (simp add: room_def one_node_def st_example_def)


theorem tree_delete_correct_witness:
  "\<exists>root' st' u. TreeBB_Delete 3 64 5 one_node = Inr (root', 77, st') \<and> bbtree st' root' u \<and> tree_map (kvs u) = Map.empty"
  using tree_delete_correct[OF one_node_tree one_node_room, of 3 5] by (simp add: tree_map_def)



text \<open>The keys of \<open>xs\<close> inserted one after the other.\<close>

fun insert_all :: "nat list \<Rightarrow> addr \<Rightarrow> cb_st \<Rightarrow> (addr \<times> cb_st) result" where
  "insert_all [] root st = Inr (root, st)"
| "insert_all (k # ks) root st = bindE (TreeBB_Insert 10 root k k st) (\<lambda>(root, st). insert_all ks root st)"

lemma insert_all_refines:
  assumes "bbtree st root t" and "size t + length ks < 10" and "room (31 * length ks) (30 * length ks) st"
  shows "\<exists>root' st' u. insert_all ks root st = Inr (root', st') \<and> bbtree st' root' u \<and>
    kvs u = fold (\<lambda>k. ins \<lparr>key = k, value = k\<rparr>) ks (kvs t)"
  using assms
proof (induction ks arbitrary: st root t)
  case (Cons k ks)
  let ?x = "\<lparr>key = k, value = k\<rparr>"
  have h: "height t < 10" using height_le_size_tree[of t] Cons.prems(2) by linarith
  have rm: "room (3 * height t + 1) (3 * height t) st" by (rule room_mono[OF Cons.prems(3)]) (use h in auto)
  obtain q st' u where i: "TreeBB_Insert 10 root k k st = Inr (q, st')" "bbtree st' q u" "kvs u = ins ?x (kvs t)"
    "moves st (addrs t) (3 * height t + 1) (3 * height t) st' (addrs u)"
    using insert_refines[OF Cons.prems(1) rm h, of k k] Cons.prems(2) by auto
  have "room (3 * height t + 1 + 31 * length ks) (3 * height t + 30 * length ks) st"
    by (rule room_mono[OF Cons.prems(3)]) (use h in auto)
  then have "room (31 * length ks) (30 * length ks) st'" by (rule moves_room[OF i(4)])
  moreover have "size u + length ks < 10"
    using size_ins[of ?x "kvs t"] Cons.prems(2) kvs_size[of u] kvs_size[of t] i(3) by simp
  ultimately show ?case using Cons.IH[OF i(2)] i(1,3) by simp
qed auto

definition empty_example :: cb_st where
  "empty_example = st_example\<lparr>avail := [1..<400]\<rparr>"

lemma empty_tree: "bbtree empty_example 0 Leaf"
proof -
  have "distinct (avail empty_example)" by (simp add: empty_example_def)
  then have "count (mset (avail empty_example)) a \<le> 1" for a by (simp add: distinct_count_atmost_1)
  then show ?thesis by (simp add: bbtree_def owns_def bst_def) (simp add: empty_example_def)
qed

text \<open>C40: the rotations do not always restore the balance criterion of \<^verbatim>\<open>mkBalanced\<close>: after seven
  insertions into an empty tree there is a node with no left child and a right subtree of two
  nodes, although two nodes are more than four times none.\<close>

theorem insertion_unbalanced:
  "\<exists>root st p. insert_all [1, 2, 4, 5, 6, 3, 7] 0 empty_example = Inr (root, st) \<and> right (tnodes st root) = p \<and>
     nodeSize st (left (tnodes st p)) = 0 \<and> nodeSize st (right (tnodes st p)) = 2"
proof -
  obtain root st u where r: "insert_all [1, 2, 4, 5, 6, 3, 7] 0 empty_example = Inr (root, st)" "tree_at (tnodes st) root u"
    and u: "kvs u = fold (\<lambda>k. ins \<lparr>key = k, value = k\<rparr>) [1, 2, 4, 5, 6, 3, 7] Leaf"
    using insert_all_refines[OF empty_tree, of "[1, 2, 4, 5, 6, 3, 7]"]
    by (auto simp: room_def empty_example_def st_example_def bbtree_def)
  have "kvs u = Node (Node (Node Leaf \<lparr>key = 1, value = 1\<rparr> Leaf) \<lparr>key = 2, value = 2\<rparr> (Node Leaf \<lparr>key = 3, value = 3\<rparr> Leaf))
      \<lparr>key = 4, value = 4\<rparr> (Node Leaf \<lparr>key = 5, value = 5\<rparr> (Node Leaf \<lparr>key = 6, value = 6\<rparr> (Node Leaf \<lparr>key = 7, value = 7\<rparr> Leaf)))"
    unfolding u by (simp add: bal_def)
  then obtain l ax v where v: "u = Node l ax v" "kvs v = Node Leaf \<lparr>key = 5, value = 5\<rparr> (Node Leaf \<lparr>key = 6, value = 6\<rparr> (Node Leaf \<lparr>key = 7, value = 7\<rparr> Leaf))"
    by (cases u) auto
  from v(2) obtain by' w where w: "v = Node Leaf by' w" "kvs w = Node Leaf \<lparr>key = 6, value = 6\<rparr> (Node Leaf \<lparr>key = 7, value = 7\<rparr> Leaf)"
    by (cases v) auto
  have "size w = 2" using arg_cong[OF w(2), of size] by (simp add: kvs_size)
  with r show ?thesis using nodeSize_tree[of st _ w] unfolding v(1) w(1)
    by (cases ax; cases by') (auto simp: nodeSize_def)
qed

end
