(* ===== verification/Tree_Service.thy ===== *)
theory Tree_Service
  imports Cbtree_Map Rpc
begin

text \<open>
  The tree as a service, \<^verbatim>\<open>rb_tree/imple_bi.c\<close>: updates are requests to the server on node 0, which is the
  only writer; searches run in the readers. A request and its reply are one \<^verbatim>\<open>struct rbtree_msg\<close> of 32
  bytes, sent over the message rings of the library.

  The nodes that an update replaces are handed to \<^verbatim>\<open>bi_smr_free\<close> after the reply; \<open>smr_freed\<close> lists these
  calls. The padding at the end of the struct is sent as zeros.
\<close>

section \<open>Messages\<close>

record rbtree_msg =
  r_tree :: addr
  r_key :: nat
  r_value :: addr
  r_type :: u32

abbreviation RBTREE_MSG_SZ :: nat where "RBTREE_MSG_SZ \<equiv> 32"

fun le_bytes :: "nat \<Rightarrow> nat \<Rightarrow> u8 list" where
  "le_bytes 0 x = []"
| "le_bytes (Suc n) x = of_nat x # le_bytes n (x div 256)"

fun le_nat :: "u8 list \<Rightarrow> nat" where
  "le_nat [] = 0"
| "le_nat (b # bs) = unat b + 256 * le_nat bs"

definition msg_bytes :: "rbtree_msg \<Rightarrow> u8 list" where
  "msg_bytes m = le_bytes 8 (r_tree m) @ le_bytes 8 (r_key m) @ le_bytes 8 (r_value m) @ le_bytes 4 (unat (r_type m)) @ le_bytes 4 0"

definition msg_of :: "u8 list \<Rightarrow> rbtree_msg" where
  "msg_of bs = \<lparr>r_tree = le_nat (take 8 bs), r_key = le_nat (take 8 (drop 8 bs)), r_value = le_nat (take 8 (drop 16 bs)),
     r_type = of_nat (le_nat (take 4 (drop 24 bs)))\<rparr>"

section \<open>Server\<close>

record tree_srv =
  roots :: "addr \<Rightarrow> addr"
  cb :: cb_st
  smr_freed :: "addr list"
  msg_reply :: rbtree_msg

definition cb_insert_svr :: "nat \<Rightarrow> addr \<Rightarrow> nat \<Rightarrow> addr \<Rightarrow> tree_srv \<Rightarrow> tree_srv result" where
  "cb_insert_svr fuel tree k v s =
     bindE (TreeBB_Insert fuel (roots s tree) k v (cb s)) (\<lambda>(root, st). Inr (s\<lparr>roots := (roots s)(tree := root), cb := st\<rparr>))"

definition cb_erase_svr :: "nat \<Rightarrow> addr \<Rightarrow> nat \<Rightarrow> tree_srv \<Rightarrow> (addr \<times> tree_srv) result" where
  "cb_erase_svr fuel tree k s =
     bindE (TreeBB_Delete fuel (roots s tree) k (cb s)) (\<lambda>(root, d, st). Inr (d, s\<lparr>roots := (roots s)(tree := root), cb := st\<rparr>))"

text \<open>The nodes whose lines \<^verbatim>\<open>cb_flush\<close> writes back, in order; the loop and the recursion are one recursion here.\<close>

fun cb_flush :: "nat \<Rightarrow> addr \<Rightarrow> cb_st \<Rightarrow> addr list result" where
  "cb_flush 0 node st = Inl Out_of_fuel"
| "cb_flush (Suc f) node st =
     (if node = NULL then Inr []
      else bindE (cb_flush f (left (tnodes st node)) st) (\<lambda>ls.
           bindE (cb_flush f (right (tnodes st node)) st) (\<lambda>rs. Inr (node # ls @ rs))))"

definition app_flush_tree :: "nat \<Rightarrow> addr \<Rightarrow> tree_srv \<Rightarrow> addr list result" where
  "app_flush_tree fuel g_tree s = bindE (cb_flush fuel (roots s g_tree) (cb s)) (\<lambda>ns. Inr (g_tree # ns))"

text \<open>The buffer is emptied from its end.\<close>

definition free_nodes :: "tree_srv \<Rightarrow> tree_srv" where
  "free_nodes s = s\<lparr>smr_freed := smr_freed s @ rev (free_buf (cb s)), cb := (cb s)\<lparr>free_buf := []\<rparr>\<rparr>"

definition rbtree_msg_handler :: "nat \<Rightarrow> node_id \<Rightarrow> u8 list \<Rightarrow> node_id \<Rightarrow> core_id \<Rightarrow> tree_srv \<Rightarrow> rpc_sys \<Rightarrow> (tree_srv \<times> rpc_sys) result" where
  "rbtree_msg_handler fuel me msg nid cid s sys =
     bindE (assertE (length msg = RBTREE_MSG_SZ)) (\<lambda>_.
     let req = msg_of msg
     in bindE (assertE (0 \<le> sint (r_type req))) (\<lambda>_.
        bindE (if r_type req = 0 then cb_insert_svr fuel (r_tree req) (r_key req) (r_value req) s
               else bindE (cb_erase_svr fuel (r_tree req) (r_key req) s) (\<lambda>(d, s). Inr (s\<lparr>msg_reply := (msg_reply s)\<lparr>r_value := d\<rparr>\<rparr>))) (\<lambda>s.
        bindE (rpc_send_server me nid cid (\<lambda>i. msg_bytes (msg_reply s) ! i) (length msg) sys) (\<lambda>sys.
        Inr (free_nodes s, sys)))))"

text \<open>One poll of \<^verbatim>\<open>bi_server_run\<close>, with this handler, when no timer is due.\<close>

definition tree_server_turn :: "nat \<Rightarrow> nat \<Rightarrow> nat \<Rightarrow> node_id \<Rightarrow> tree_srv \<Rightarrow> rpc_sys \<Rightarrow> (tree_srv \<times> rpc_sys) result" where
  "tree_server_turn fuel nn nc me s sys =
     bindE (rpc_recv_server nn nc me sys) (\<lambda>(msg, nd, cd, sys).
     if msg = [] then Inr (s, sys) else rbtree_msg_handler fuel me msg nd cd s sys)"

section \<open>Clients\<close>

text \<open>\<^verbatim>\<open>rbtree_send_msg\<close> up to the point where it waits, and after the reply.\<close>

definition rbtree_send :: "node_id \<Rightarrow> core_id \<Rightarrow> rbtree_msg \<Rightarrow> rpc_sys \<Rightarrow> rpc_sys result" where
  "rbtree_send me core msg sys = rpc_send me core 0 (\<lambda>i. msg_bytes msg ! i) RBTREE_MSG_SZ sys"

definition rbtree_wait :: "nat \<Rightarrow> (nat \<Rightarrow> msg_queue \<Rightarrow> msg_queue) \<Rightarrow> node_id \<Rightarrow> core_id \<Rightarrow> rpc_sys \<Rightarrow> (rbtree_msg \<times> rpc_sys) result" where
  "rbtree_wait fuel arrive me core sys =
     bindE (rpc_recv fuel arrive me core 0 True sys) (\<lambda>(out, sys).
     bindE (assertE (length out = RBTREE_MSG_SZ)) (\<lambda>_.
     bindE (assertE (r_type (msg_of out) = - 1)) (\<lambda>_. Inr (msg_of out, sys))))"

definition cb_insert :: "node_id \<Rightarrow> core_id \<Rightarrow> addr \<Rightarrow> nat \<Rightarrow> addr \<Rightarrow> rpc_sys \<Rightarrow> rpc_sys result" where
  "cb_insert me core tree k v sys = rbtree_send me core \<lparr>r_tree = tree, r_key = k, r_value = v, r_type = 0\<rparr> sys"

text \<open>\<open>junk\<close> is the value field that \<^verbatim>\<open>cb_erase\<close> leaves uninitialised.\<close>

definition cb_erase :: "node_id \<Rightarrow> core_id \<Rightarrow> addr \<Rightarrow> nat \<Rightarrow> addr \<Rightarrow> rpc_sys \<Rightarrow> rpc_sys result" where
  "cb_erase me core tree k junk sys = rbtree_send me core \<lparr>r_tree = tree, r_key = k, r_value = junk, r_type = 1\<rparr> sys"

definition cb_erase_done :: "nat \<Rightarrow> (nat \<Rightarrow> msg_queue \<Rightarrow> msg_queue) \<Rightarrow> node_id \<Rightarrow> core_id \<Rightarrow> rpc_sys \<Rightarrow> (addr \<times> rpc_sys) result" where
  "cb_erase_done fuel arrive me core sys = bindE (rbtree_wait fuel arrive me core sys) (\<lambda>(msg, sys). Inr (r_value msg, sys))"

section \<open>Encoding\<close>

lemma length_le_bytes [simp]: "length (le_bytes n x) = n"
  by (induction n arbitrary: x) auto

lemma le_nat_bytes: "le_nat (le_bytes n x) = x mod 256 ^ n"
proof (induction n arbitrary: x)
  case (Suc n)
  have "unat (of_nat x :: u8) = x mod 256" by (simp add: unat_of_nat)
  then show ?case using Suc[of "x div 256"] by (simp add: mod_mult2_eq)
qed simp

lemma length_msg_bytes [simp]: "length (msg_bytes m) = RBTREE_MSG_SZ"
  by (simp add: msg_bytes_def)

definition msg_fits :: "rbtree_msg \<Rightarrow> bool" where
  "msg_fits m \<longleftrightarrow> r_tree m < 2 ^ 64 \<and> r_key m < 2 ^ 64 \<and> r_value m < 2 ^ 64"

lemma msg_of_bytes: "msg_fits m \<Longrightarrow> msg_of (msg_bytes m) = m"
proof -
  assume f: "msg_fits m"
  have "unat (r_type m) < 2 ^ LENGTH(32)" by (rule unsigned_less)
  then have "unat (r_type m) mod 256 ^ 4 = unat (r_type m)" by simp
  with f show ?thesis by (simp add: msg_of_def msg_bytes_def le_nat_bytes msg_fits_def)
qed

lemma map_msg_bytes: "map (\<lambda>i. msg_bytes m ! i) [0..<RBTREE_MSG_SZ] = msg_bytes m"
  using map_nth[of "msg_bytes m"] by (simp only: length_msg_bytes)

section \<open>Flushing the tree\<close>

lemma cb_flush_spec:
  assumes "tree_at (tnodes st) root t" and "height t < f"
  shows "cb_flush f root st = Inr (map fst (preorder t))"
  using assms
proof (induction t arbitrary: f root)
  case Leaf
  then show ?case by (cases f) auto
next
  case (Node l ax r)
  obtain g where g: "f = Suc g" using Node.prems(2) by (cases f) auto
  obtain y where ax: "ax = (root, y)" using Node.prems(1) by (cases ax) auto
  have "root \<noteq> NULL" "tree_at (tnodes st) (left (tnodes st root)) l" "tree_at (tnodes st) (right (tnodes st root)) r"
    using Node.prems(1) by (auto simp: ax)
  then show ?case using Node.IH(1)[of "left (tnodes st root)" g] Node.IH(2)[of "right (tnodes st root)" g] Node.prems(2) g ax by simp
qed

section \<open>Requests\<close>

text \<open>A request in its ring, the turn of the server on it, and the reply in its ring.\<close>

lemma request_arrives:
  assumes "none_in_flight sys" and "0 < nn" and "0 < nc" and "svr_node (procs sys 0) = me" and "svr_core (procs sys 0) = core"
  shows "\<exists>sys1 sys2. rbtree_send me core msg sys = Inr sys1 \<and>
    rpc_recv_server nn nc 0 sys1 = Inr (msg_bytes msg, me, core, sys2) \<and> none_in_flight sys2"
  using request_delivered[OF assms, of RBTREE_MSG_SZ "\<lambda>i. msg_bytes msg ! i"] by (simp add: rbtree_send_def map_msg_bytes)

lemma reply_arrives:
  assumes "none_in_flight sys"
  shows "\<exists>sys1 sys2. rpc_send_server 0 me core (\<lambda>i. msg_bytes msg ! i) RBTREE_MSG_SZ sys = Inr sys1 \<and>
    rpc_recv (Suc f) (\<lambda>_ q. q) me core 0 True sys1 = Inr (msg_bytes msg, sys2) \<and> none_in_flight sys2"
  using reply_delivered[OF assms, of RBTREE_MSG_SZ 0 me core "\<lambda>i. msg_bytes msg ! i"] by (simp add: map_msg_bytes)

text \<open>The state of the service between two requests.\<close>

definition srv_inv :: "addr \<Rightarrow> tree_srv \<Rightarrow> node_tree \<Rightarrow> bool" where
  "srv_inv tree s t \<longleftrightarrow> bbtree (cb s) (roots s tree) t \<and> free_buf (cb s) = [] \<and> msg_fits (msg_reply s) \<and> r_type (msg_reply s) = - 1"

lemma bbtree_free_buf: "bbtree st root t \<Longrightarrow> bbtree (st\<lparr>free_buf := xs\<rparr>) root t"
  by (simp add: bbtree_def owns_def)

text \<open>
  \<open>served tree s s' t u\<close>: the request turned the tree \<open>t\<close> into \<open>u\<close>; what was handed to the reclamation are nodes of the old
  tree or fresh ones, each once, and none of them is linked.
\<close>

definition served :: "addr \<Rightarrow> tree_srv \<Rightarrow> tree_srv \<Rightarrow> node_tree \<Rightarrow> node_tree \<Rightarrow> bool" where
  "served tree s s' t u \<longleftrightarrow> srv_inv tree s' u \<and> (\<exists>F. smr_freed s' = smr_freed s @ F \<and> distinct F \<and> (\<forall>a \<in> set F. a \<notin># addrs u) \<and>
     (\<exists>U. mset (avail (cb s)) = U + mset (avail (cb s')) \<and> addrs u + mset F = addrs t + U))"

lemma servedI:
  assumes "srv_inv tree s t" and "bbtree st root u" and "moves (cb s) (addrs t) k j st (addrs u)" and "msg_fits m" and "r_type m = - 1"
  shows "served tree s (free_nodes (s\<lparr>roots := (roots s)(tree := root), cb := st, msg_reply := m\<rparr>)) t u"
proof -
  have "owns (cb s) (addrs t)" "free_buf (cb s) = []" using assms(1) by (auto simp: srv_inv_def bbtree_def)
  note f = moves_freed[OF assms(3) this]
  show ?thesis using bbtree_free_buf[OF assms(2)] assms(4,5) f by (simp add: served_def srv_inv_def free_nodes_def)
qed

lemma insert_handled:
  assumes inv: "srv_inv tree s t" and fits: "tree < 2 ^ 64" "k < 2 ^ 64" "v < 2 ^ 64"
    and rm: "3 * height t + 1 \<le> length (avail (cb s))" "3 * height t \<le> MAX_FREE_BUF_SZ" and h: "height t < fuel" and sz: "size t + 2 < 2 ^ 31"
  shows "\<exists>s' u. rbtree_msg_handler fuel me (msg_bytes \<lparr>r_tree = tree, r_key = k, r_value = v, r_type = 0\<rparr>) nid cid s sys =
      bindE (rpc_send_server me nid cid (\<lambda>i. msg_bytes (msg_reply s) ! i) RBTREE_MSG_SZ sys) (\<lambda>sys. Inr (s', sys)) \<and> served tree s s' t u \<and>
    tree_map (kvs u) = (if tree_map (kvs t) k = None then (tree_map (kvs t))(k \<mapsto> v) else tree_map (kvs t))"
proof -
  let ?m = "\<lparr>r_tree = tree, r_key = k, r_value = v, r_type = 0 :: u32\<rparr>"
  have b: "bbtree (cb s) (roots s tree) t" "free_buf (cb s) = []" "msg_fits (msg_reply s)" "r_type (msg_reply s) = - 1" using inv by (simp_all add: srv_inv_def)
  have rr: "room (3 * height t + 1) (3 * height t) (cb s)" using rm b(2) by (simp add: room_def)
  obtain root st u where i: "TreeBB_Insert fuel (roots s tree) k v (cb s) = Inr (root, st)" "bbtree st root u"
      "kvs u = ins \<lparr>key = k, value = v\<rparr> (kvs t)" "moves (cb s) (addrs t) (3 * height t + 1) (3 * height t) st (addrs u)"
    using insert_refines[OF b(1) rr h sz] by blast
  have "bst (kvs t)" using b(1) by (simp add: bbtree_def)
  then have "tree_map (kvs u) = (if tree_map (kvs t) k = None then (tree_map (kvs t))(k \<mapsto> v) else tree_map (kvs t))" unfolding i(3) by (simp add: tree_map_ins)
  moreover have "served tree s (free_nodes (s\<lparr>roots := (roots s)(tree := root), cb := st\<rparr>)) t u"
    using servedI[OF inv i(2,4) b(3,4)] by simp
  moreover have "msg_of (msg_bytes ?m) = ?m" by (rule msg_of_bytes) (use fits in \<open>simp add: msg_fits_def\<close>)
  then have "rbtree_msg_handler fuel me (msg_bytes ?m) nid cid s sys = bindE (rpc_send_server me nid cid (\<lambda>i. msg_bytes (msg_reply s) ! i) RBTREE_MSG_SZ sys)
      (\<lambda>sys. Inr (free_nodes (s\<lparr>roots := (roots s)(tree := root), cb := st\<rparr>), sys))"
    using i(1) by (simp add: rbtree_msg_handler_def cb_insert_svr_def assertE_def)
  ultimately show ?thesis by blast
qed

lemma erase_handled:
  assumes inv: "srv_inv tree s t" and fits: "tree < 2 ^ 64" "k < 2 ^ 64" "junk < 2 ^ 64" and vals: "\<And>v. tree_map (kvs t) k = Some v \<Longrightarrow> v < 2 ^ 64"
    and rm: "3 * height t \<le> length (avail (cb s))" "3 * height t + 1 \<le> MAX_FREE_BUF_SZ" and h: "height t < fuel"
  shows "\<exists>s' u m. rbtree_msg_handler fuel me (msg_bytes \<lparr>r_tree = tree, r_key = k, r_value = junk, r_type = 1\<rparr>) nid cid s sys =
      bindE (rpc_send_server me nid cid (\<lambda>i. msg_bytes m ! i) RBTREE_MSG_SZ sys) (\<lambda>sys. Inr (s', sys)) \<and> served tree s s' t u \<and>
    tree_map (kvs u) = (tree_map (kvs t))(k := None) \<and> msg_fits m \<and> r_type m = - 1 \<and> r_value m = (case tree_map (kvs t) k of None \<Rightarrow> NULL | Some v \<Rightarrow> v)"
proof -
  let ?m = "\<lparr>r_tree = tree, r_key = k, r_value = junk, r_type = 1 :: u32\<rparr>" and ?d = "case tree_map (kvs t) k of None \<Rightarrow> NULL | Some v \<Rightarrow> v"
  have b: "bbtree (cb s) (roots s tree) t" "free_buf (cb s) = []" "msg_fits (msg_reply s)" "r_type (msg_reply s) = - 1" using inv by (simp_all add: srv_inv_def)
  have rr: "room (3 * height t) (3 * height t + 1) (cb s)" using rm b(2) by (simp add: room_def)
  obtain root st u where i: "TreeBB_Delete fuel (roots s tree) k (cb s) = Inr (root, ?d, st)" "bbtree st root u"
      "tree_map (kvs u) = (tree_map (kvs t))(k := None)" "moves (cb s) (addrs t) (3 * height t) (3 * height t + 1) st (addrs u)"
    using delete_refines[OF b(1) rr h] by blast
  let ?r = "(msg_reply s)\<lparr>r_value := ?d\<rparr>"
  have r: "msg_fits ?r" "r_type ?r = - 1" using b(3,4) vals by (auto simp: msg_fits_def split: option.splits)
  have "msg_of (msg_bytes ?m) = ?m" by (rule msg_of_bytes) (use fits in \<open>simp add: msg_fits_def\<close>)
  then have "rbtree_msg_handler fuel me (msg_bytes ?m) nid cid s sys = bindE (rpc_send_server me nid cid (\<lambda>i. msg_bytes ?r ! i) RBTREE_MSG_SZ sys)
      (\<lambda>sys. Inr (free_nodes (s\<lparr>roots := (roots s)(tree := root), cb := st, msg_reply := ?r\<rparr>), sys))"
    using i(1) by (simp add: rbtree_msg_handler_def cb_erase_svr_def assertE_def)
  moreover have "r_value ?r = ?d" by simp
  ultimately show ?thesis using servedI[OF inv i(2,4) r] i(3) r by blast
qed

section \<open>Properties\<close>




section \<open>Witnesses\<close>

definition one_srv :: tree_srv where
  "one_srv = \<lparr>roots = (\<lambda>_. 64), cb = one_node, smr_freed = [], msg_reply = \<lparr>r_tree = 0, r_key = 0, r_value = 0, r_type = - 1\<rparr>\<rparr>"

lemma one_srv_inv: "srv_inv 4096 one_srv (Node Leaf (64, \<lparr>key = 5, value = 77\<rparr>) Leaf)"
  using one_node_tree by (simp add: srv_inv_def one_srv_def msg_fits_def one_node_def st_example_def)

lemma one_srv_room: "length (avail (cb one_srv)) = 38"
  by (simp add: one_srv_def one_node_def st_example_def)

lemma sys0_poll: "svr_node (procs sys0 0) = 0" "svr_core (procs sys0 0) = 0"
  by (simp_all add: sys0_def rpc_init_global_def)




end
