(* ===== verification/Atomic_Obj.thy ===== *)
theory Atomic_Obj
  imports Bi_Server Tree_Service Noncc_Cache
begin

text \<open>
  Atomic objects on the library, \<^verbatim>\<open>atomic_obj/atomic_obj_bi.c\<close>: objects that are read as a whole and replaced as a
  whole. Every object has a home node, whose server is its only writer. To write an object, a core
  asks the home node of the object; the server puts the new contents into a fresh slab object,
  publishes it, turns the pointer of the object to it and hands the old slab object to the
  reclamation.

  The handler is a function that \<^verbatim>\<open>bi_server_run\<close> of \<^verbatim>\<open>Bi_Server\<close> is called with, so that a write passes
  through the message rings, the server loop, the slab allocator, the caches and the reclamation.
  The contents of objects are bytes of the non-coherent memory of \<^verbatim>\<open>Noncc_Cache\<close>. The pointers to them are kept
  by their value at the home node, which is the only writer, so that the lazy dereference gives the server the current
  one and the write-back of a pointer has no effect there; what a reader on another node gets from its
  dereference is an argument of \<^verbatim>\<open>atomic_obj_read\<close>.
\<close>

section \<open>Objects\<close>

record test_obj =
  t_data :: addr
  t_sz :: nat

record obj_app =
  test_objs :: "nat \<Rightarrow> test_obj"
  nc :: ncmem
  temp_obj :: "u8 list"
  start_id :: "nat \<Rightarrow> int"
  end_id :: "nat \<Rightarrow> int"
  slab_allocator :: addr

type_synonym obj_srv = "obj_app bi_srv"

abbreviation MAX_TEST_OBJ_NUM :: int where "MAX_TEST_OBJ_NUM \<equiv> 1024"
abbreviation OBJ_MSG_SZ :: nat where "OBJ_MSG_SZ \<equiv> 4"

definition obj_msg_bytes :: "u32 \<Rightarrow> u8 list" where
  "obj_msg_bytes v = le_bytes 4 (unat v)"

definition obj_msg_of :: "u8 list \<Rightarrow> u32" where
  "obj_msg_of bs = of_nat (le_nat bs)"

definition get_test_obj :: "gmem \<Rightarrow> nat \<Rightarrow> addr" where
  "get_test_obj g oid = test_obj_area (global_layout g) + CACHE_LINE * oid"

section \<open>Home nodes\<close>

definition id_to_node :: "nat \<Rightarrow> int \<Rightarrow> obj_app \<Rightarrow> nat" where
  "id_to_node num_node oid a = (case find (\<lambda>i. start_id a i \<le> oid \<and> oid < end_id a i) [0..<num_node] of None \<Rightarrow> num_node | Some i \<Rightarrow> i)"

definition set_range :: "int \<Rightarrow> int \<Rightarrow> nat \<Rightarrow> obj_app \<Rightarrow> obj_app" where
  "set_range s e i a = a\<lparr>start_id := (start_id a)(i := s), end_id := (end_id a)(i := e)\<rparr>"

definition init_ranges :: "nat \<Rightarrow> nat \<Rightarrow> obj_app \<Rightarrow> obj_app" where
  "init_ranges nn obj_num a =
     (let nc = obj_num div nn; q = obj_num mod nn;
          a = foldl (\<lambda>a i. set_range (int (i * (nc + 1))) (int (i * (nc + 1) + nc + 1)) i a) a [0..<q]
      in foldl (\<lambda>a i. set_range (int (i * nc + q)) (int (i * nc + q + nc)) i a) a [q..<nn])"

text \<open>The objects of this node get memory; \<open>now\<close> are the time stamps of the allocations.\<close>

fun init_objs_loop :: "nat list \<Rightarrow> nat \<Rightarrow> nat \<Rightarrow> node_id \<Rightarrow> addr \<Rightarrow> (nat \<Rightarrow> u64) \<Rightarrow> obj_srv \<Rightarrow> obj_srv result" where
  "init_objs_loop [] nn sz me head now s = Inr s"
| "init_objs_loop (i # is) nn sz me head now s =
     bindE (if id_to_node nn (int i) (sv_app s) = me
            then bindE (bi_slab_alloc head (int me) (now i) (slab_allocator (sv_app s)) (sv_slab s)) (\<lambda>(d, st).
                 Inr (s\<lparr>sv_slab := st, sv_app := (sv_app s)\<lparr>test_objs := (test_objs (sv_app s))(i := \<lparr>t_data = d, t_sz = sz\<rparr>)\<rparr>\<rparr>))
            else Inr s) (init_objs_loop is nn sz me head now)"

text \<open>The first check stands for the division by \<^verbatim>\<open>nn\<close>, which traps for 0.\<close>

definition atomic_obj_init :: "nat \<Rightarrow> nat \<Rightarrow> nat \<Rightarrow> nat \<Rightarrow> node_id \<Rightarrow> addr \<Rightarrow> (nat \<Rightarrow> u64) \<Rightarrow> obj_srv \<Rightarrow> obj_srv result" where
  "atomic_obj_init nn obj_num num sz me head now s =
     (let a = init_ranges nn obj_num (sv_app s)
      in bindE (assertE (nn \<noteq> 0)) (\<lambda>_.
         bindE (assertE (list_all (\<lambda>i. end_id a (i - 1) = start_id a i) [1..<nn])) (\<lambda>_.
         bindE (assertE (end_id a (nn - 1) = int obj_num)) (\<lambda>_.
         bindE (assertE (int num \<le> MAX_TEST_OBJ_NUM)) (\<lambda>_.
         init_objs_loop [0..<num] nn sz me head now (s\<lparr>sv_app := a\<rparr>))))))"

section \<open>Writing\<close>

text \<open>
  \<open>now\<close> is the time stamp of the allocation; \<open>clkw\<close> and \<open>clk\<close> are the readings of the clock if the local caches of
  the write log and of the freed objects are flushed.
\<close>

definition atomic_obj_write_svr :: "node_id \<Rightarrow> addr \<Rightarrow> u64 \<Rightarrow> (nat \<Rightarrow> u64) \<Rightarrow> (nat \<Rightarrow> u64) \<Rightarrow> int \<Rightarrow> obj_srv \<Rightarrow> obj_srv result" where
  "atomic_obj_write_svr me head now clkw clk oid s =
     (let a = sv_app s; i = nat oid; to = test_objs a i; old = t_data to
      in bindE (assertE (start_id a me \<le> oid)) (\<lambda>_.
         bindE (assertE (oid < end_id a me)) (\<lambda>_.
         bindE (bi_slab_alloc head (int me) now (slab_allocator a) (sv_slab s)) (\<lambda>(new_data, sl).
         bindE (assertE (t_data to \<noteq> NULL)) (\<lambda>_.
         let m = bi_publish_area me new_data (take (t_sz to) (temp_obj a)) (nc a)
         in bindE (bi_wlog_free me clkw (get_test_obj (sv_g s) i) CACHE_LINE 0 (sv_p s) (sv_g s)) (\<lambda>(p, g).
            bindE (bi_smr_free me clk old p g sl) (\<lambda>(p, g, sl).
            Inr (s\<lparr>sv_p := p, sv_g := g, sv_slab := sl, sv_app := a\<lparr>nc := m, test_objs := (test_objs a)(i := to\<lparr>t_data := new_data\<rparr>)\<rparr>\<rparr>))))))))"

definition bi_msg_handler :: "node_id \<Rightarrow> addr \<Rightarrow> u64 \<Rightarrow> (nat \<Rightarrow> u64) \<Rightarrow> (nat \<Rightarrow> u64) \<Rightarrow> obj_app update_fn" where
  "bi_msg_handler me head now clkw clk msg nid cid s =
     bindE (assertE (length msg = OBJ_MSG_SZ)) (\<lambda>_.
     bindE (atomic_obj_write_svr me head now clkw clk (sint (obj_msg_of msg)) s) (\<lambda>s.
     bindE (rpc_send_server me nid cid (\<lambda>i. obj_msg_bytes (- 1) ! i) (length msg) (sv_rpc s)) (\<lambda>sys.
     Inr (s\<lparr>sv_rpc := sys\<rparr>))))"

text \<open>\<^verbatim>\<open>atomic_obj_write\<close> up to the point where it waits, and after the reply.\<close>

definition atomic_obj_write :: "node_id \<Rightarrow> core_id \<Rightarrow> nat \<Rightarrow> obj_app \<Rightarrow> int \<Rightarrow> rpc_sys \<Rightarrow> rpc_sys result" where
  "atomic_obj_write me core num_node a oid sys = rpc_send me core (id_to_node num_node oid a) (\<lambda>i. obj_msg_bytes (of_int oid) ! i) OBJ_MSG_SZ sys"

definition atomic_obj_write_done :: "nat \<Rightarrow> (nat \<Rightarrow> msg_queue \<Rightarrow> msg_queue) \<Rightarrow> node_id \<Rightarrow> core_id \<Rightarrow> nat \<Rightarrow> obj_app \<Rightarrow> int \<Rightarrow> rpc_sys \<Rightarrow> rpc_sys result" where
  "atomic_obj_write_done fuel arrive me core num_node a oid sys =
     bindE (rpc_recv fuel arrive me core (id_to_node num_node oid a) True sys) (\<lambda>(out, sys).
     bindE (assertE (length out = OBJ_MSG_SZ)) (\<lambda>_.
     bindE (assertE (obj_msg_of out = - 1)) (\<lambda>_. Inr sys)))"

text \<open>
  A reader on node \<open>me\<close>: \<open>old\<close> is the pointer that the lazy dereference gives it, \<open>sz\<close> the size of the object.
\<close>

definition atomic_obj_read :: "node_id \<Rightarrow> core_id \<Rightarrow> u64 \<Rightarrow> addr \<Rightarrow> nat \<Rightarrow> smr_proc \<Rightarrow> ncmem \<Rightarrow> (u8 list \<times> smr_proc \<times> ncmem) result" where
  "atomic_obj_read me core now old sz p m =
     (let p = bi_enter core now p
      in bindE (assertE (old \<noteq> NULL)) (\<lambda>_.
         let (bs, m) = bi_dereference_area_lazy me old sz m in Inr (bs, bi_exit core p, m)))"

section \<open>The partition of the objects\<close>

lemma foldl_ranges:
  "(\<forall>i. start_id (foldl (\<lambda>a i. set_range (f i) (g i) i a) a xs) i = (if i \<in> set xs then f i else start_id a i)) \<and>
   (\<forall>i. end_id (foldl (\<lambda>a i. set_range (f i) (g i) i a) a xs) i = (if i \<in> set xs then g i else end_id a i))"
  by (induction xs arbitrary: a) (auto simp: set_range_def)

text \<open>The start of node \<open>i\<close>; the end of a node is the start of the next one.\<close>

definition range_start :: "nat \<Rightarrow> nat \<Rightarrow> nat \<Rightarrow> nat" where
  "range_start nn m i = i * (m div nn) + min i (m mod nn)"

lemma init_ranges_spec:
  assumes "i < nn"
  shows "start_id (init_ranges nn m a) i = int (range_start nn m i)" and "end_id (init_ranges nn m a) i = int (range_start nn m (Suc i))"
  using assms by (auto simp: init_ranges_def Let_def foldl_ranges range_start_def min_def algebra_simps)

lemma range_start_mono: "i \<le> j \<Longrightarrow> range_start nn m i \<le> range_start nn m j"
  unfolding range_start_def by (intro add_mono mult_right_mono) auto

lemma range_start_ends: "0 < nn \<Longrightarrow> range_start nn m 0 = 0 \<and> range_start nn m nn = m"
proof -
  assume "0 < nn"
  then have "m mod nn < nn" by simp
  then have "min nn (m mod nn) = m mod nn" by simp
  then show ?thesis by (simp add: range_start_def)
qed

text \<open>The checks at start-up hold, and every object has exactly one home node, the one that \<^verbatim>\<open>id_to_node\<close> finds.\<close>

theorem obj_partition:
  assumes "0 < nn" and "0 \<le> oid" and "oid < int obj_num" and a_def: "a = init_ranges nn obj_num b"
  shows "list_all (\<lambda>i. end_id a (i - 1) = start_id a i) [1..<nn] \<and> end_id a (nn - 1) = int obj_num \<and> id_to_node nn oid a < nn \<and>
    (\<forall>i < nn. start_id a i \<le> oid \<and> oid < end_id a i \<longleftrightarrow> i = id_to_node nn oid a)"
proof -
  let ?r = "range_start nn obj_num"
  have sp: "start_id a i = int (?r i)" "end_id a i = int (?r (Suc i))" if "i < nn" for i using init_ranges_spec[OF that] by (simp_all add: a_def)
  obtain k where k: "oid = int k" "k < obj_num" using assms(2,3) by (metis nonneg_int_cases of_nat_less_iff)
  define i where "i = Max {i. i < nn \<and> ?r i \<le> k}"
  have "0 \<in> {i. i < nn \<and> ?r i \<le> k}" using range_start_ends[OF assms(1)] assms(1) by simp
  then have "i \<in> {i. i < nn \<and> ?r i \<le> k}" unfolding i_def by (intro Max_in) auto
  then have i: "i < nn" "?r i \<le> k" by auto
  have "k < ?r (Suc i)"
  proof (rule ccontr)
    assume "\<not> k < ?r (Suc i)"
    then have "Suc i < nn" using i(1) k(2) range_start_ends[OF assms(1)] by (metis not_less Suc_leI le_neq_implies_less)
    then have "Suc i \<le> i" using \<open>\<not> k < ?r (Suc i)\<close> unfolding i_def by (intro Max_ge) auto
    then show False by simp
  qed
  have uniq: "start_id a j \<le> oid \<and> oid < end_id a j \<longleftrightarrow> j = i" if j: "j < nn" for j
  proof
    assume "start_id a j \<le> oid \<and> oid < end_id a j"
    then have "?r j \<le> k" "k < ?r (Suc j)" using sp[OF j] k(1) by auto
    then show "j = i" using range_start_mono[of "Suc j" i] range_start_mono[of "Suc i" j] i(2) \<open>k < ?r (Suc i)\<close> by (metis leD le_less_trans less_Suc_eq_le nat_neq_iff order.trans Suc_leI)
  qed (use sp[OF i(1)] i(2) \<open>k < ?r (Suc i)\<close> k(1) in auto)
  have "find (\<lambda>j. start_id a j \<le> oid \<and> oid < end_id a j) [0..<nn] = Some i"
  proof -
    have "start_id a i \<le> oid \<and> oid < end_id a i" using uniq[OF i(1)] by blast
    moreover have "\<not> (start_id a j \<le> oid \<and> oid < end_id a j)" if "j < i" for j using uniq[of j] that i(1) by (metis less_irrefl less_trans)
    ultimately show ?thesis unfolding find_Some_iff using i(1) by (intro exI[of _ i]) simp
  qed
  then have "id_to_node nn oid a = i" by (simp add: id_to_node_def)
  moreover have "list_all (\<lambda>i. end_id a (i - 1) = start_id a i) [1..<nn]" using sp by (auto simp: list_all_iff)
  moreover have "end_id a (nn - 1) = int obj_num" using sp(2)[of "nn - 1"] assms(1) range_start_ends[OF assms(1)] by simp
  ultimately show ?thesis using i(1) uniq by blast
qed

section \<open>One write at the home node\<close>

lemma cache_put_ok:
  assumes "ring_wf q" and "lc_wf lc" and "qsc_ring_len q + lc_cnt lc + 1 < MAX_QUI_RING_LEN"
  shows "\<exists>lc' q'. qsc_local_cache_put lc q clk buf k = Inr (lc', q') \<and> ring_wf q' \<and> lc_wf lc' \<and> ranges q' @ lc_pending lc' = ranges q @ lc_pending lc @ [(buf, k)]"
proof -
  let ?lc = "lc\<lparr>lc_m := (lc_m lc)(lc_cnt lc := buf), lc_sz := (lc_sz lc)(lc_cnt lc := k), lc_cnt := lc_cnt lc + 1\<rparr>"
  obtain q' where "qsc_local_cache_flush ?lc q clk = Inr (lc_cnt ?lc, qsc_local_cache_init ?lc, q')"
    using cache_flush_spec[of q ?lc clk] assms(1,3) by auto
  then obtain lc' q'' where "qsc_local_cache_put lc q clk buf k = Inr (lc', q'')"
    using assms(2) by (cases "lc_cnt lc + 1 = LOCAL_CACHE_QUEUE_SZ") (auto simp: qsc_local_cache_put_def Let_def lc_wf_def)
  then show ?thesis using local_cache_put_conserves[OF assms(1,2)] by blast
qed

lemma setfree_slab_inv:
  assumes "slab_inv head me si n sz st F E C A xs"
  shows "slab_inv head me si n sz (ps_mhead_setfree h st) F E C A xs"
proof -
  let ?st = "ps_mhead_setfree h st"
  have f: "slabs ?st = slabs st" "infos ?st = infos st" "slists ?st = slists st" "pgs ?st = pgs st"
      "\<And>a. h_next (hdrs ?st a) = h_next (hdrs st a)" "\<And>a. h_slab (hdrs ?st a) = h_slab (hdrs st a)"
    by (simp_all add: ps_mhead_setfree_def upd_hdr_def)
  have "fchain (hdrs ?st) p c = fchain (hdrs st) p c" for p c using f(5) by (intro fchain_cong) simp
  then have "objs_ok ?st si n sz S C A = objs_ok st si n sz S C A" for S by (simp add: objs_ok_def slab_ok_def f)
  moreover have "info_ok me si n sz ?st = info_ok me si n sz st" "rings_ok si ?st F E = rings_ok si st F E" "pages_ok head ?st S xs = pages_ok head st S xs" for S
    by (simp_all add: info_ok_def rings_ok_def pages_ok_def f)
  ultimately show ?thesis using assms by (auto simp only: slab_inv_def slab_inv0_def)
qed

lemma object_size:
  assumes "slab_inv head me si n sz st F E C A xs" and "h \<in> A"
  shows "bi_slab_objmem (s_si (slabs st (h_slab (hdrs st h)))) st = sz"
proof -
  have i: "slab_inv0 head me si n sz st F E C A xs" using assms(1) by (simp add: slab_inv_def)
  note D = slab_inv0D[OF i]
  obtain s where s: "s \<in> set F \<union> set E" "h \<in> cells n sz s" using D(3) assms(2) unfolding objs_ok_def by blast
  have "h_slab (hdrs st h) = s" "s_si (slabs st s) = si" using objs_okD[OF D(3) s(1)] s(2) by (auto simp: slab_ok_def)
  then show ?thesis using D(1) by (simp add: bi_slab_objmem_def info_ok_def)
qed

text \<open>The logs of the server can take one more entry each, and are different rings.\<close>

definition logs_ready :: "node_id \<Rightarrow> smr_proc \<Rightarrow> gmem \<Rightarrow> bool" where
  "logs_ready me p g \<longleftrightarrow> get_quies_ring g me \<noteq> get_wlog_ring g me 0 \<and>
     lc_wf (smr_cache p) \<and> ring_wf (rings g (get_quies_ring g me)) \<and> qsc_ring_len (rings g (get_quies_ring g me)) + lc_cnt (smr_cache p) + 1 < MAX_QUI_RING_LEN \<and>
     lc_wf (wlog_cache p 0) \<and> ring_wf (rings g (get_wlog_ring g me 0)) \<and> qsc_ring_len (rings g (get_wlog_ring g me 0)) + lc_cnt (wlog_cache p 0) + 1 < MAX_QUI_RING_LEN"

text \<open>What is waiting for reclamation at a node: its ring and its local cache.\<close>

definition awaiting :: "node_id \<Rightarrow> smr_proc \<Rightarrow> gmem \<Rightarrow> (addr \<times> nat) list" where
  "awaiting me p g = ranges (rings g (get_quies_ring g me)) @ lc_pending (smr_cache p)"

lemma write_svr_spec:
  assumes slab: "slab_inv head (int me) (slab_allocator (sv_app s)) n sz (sv_slab s) F E C A xs" and room: "F \<noteq> [] \<or> xs \<noteq> []"
    and oid: "start_id (sv_app s) me \<le> oid" "oid < end_id (sv_app s) me"
    and old: "t_data (test_objs (sv_app s) (nat oid)) = ps_mhead_mem h0" "h0 \<in> A" and logs: "logs_ready me (sv_p s) (sv_g s)" and g: "get_test_obj (sv_g s) (nat oid) \<noteq> NULL"
  shows "\<exists>h s' F' E' C' xs'. atomic_obj_write_svr me head now clkw clk oid s = Inr s' \<and> h \<notin> A \<and>
    slab_inv head (int me) (slab_allocator (sv_app s)) n sz (sv_slab s') F' E' C' (insert h A) xs' \<and> sv_rpc s' = sv_rpc s \<and>
    sv_app s' = (sv_app s)\<lparr>nc := bi_publish_area me (ps_mhead_mem h) (take (t_sz (test_objs (sv_app s) (nat oid))) (temp_obj (sv_app s))) (nc (sv_app s)),
      test_objs := (test_objs (sv_app s))(nat oid := (test_objs (sv_app s) (nat oid))\<lparr>t_data := ps_mhead_mem h\<rparr>)\<rparr> \<and>
    awaiting me (sv_p s') (sv_g s') = awaiting me (sv_p s) (sv_g s) @ [(h0, sz)]"
proof -
  let ?g = "sv_g s" and ?p = "sv_p s"
  note L = logs[unfolded logs_ready_def]
  obtain h sl F' E' C' xs' where a: "bi_slab_alloc head (int me) now (slab_allocator (sv_app s)) (sv_slab s) = Inr (ps_mhead_mem h, sl)" "h \<notin> A"
      "slab_inv head (int me) (slab_allocator (sv_app s)) n sz sl F' E' C' (insert h A) xs'"
    using slab_alloc_inv[OF slab room, of now] by (elim exE conjE) (rule that)
  obtain lw qw where w: "qsc_local_cache_put (wlog_cache ?p 0) (rings ?g (get_wlog_ring ?g me 0)) clkw (get_test_obj ?g (nat oid)) CACHE_LINE = Inr (lw, qw)"
    using cache_put_ok[of "rings ?g (get_wlog_ring ?g me 0)" "wlog_cache ?p 0"] L by blast
  obtain lc q where f: "qsc_local_cache_put (smr_cache ?p) (rings ?g (get_quies_ring ?g me)) clk h0 sz = Inr (lc, q)"
      "ranges q @ lc_pending lc = ranges (rings ?g (get_quies_ring ?g me)) @ lc_pending (smr_cache ?p) @ [(h0, sz)]"
    using cache_put_ok[of "rings ?g (get_quies_ring ?g me)" "smr_cache ?p"] L by blast
  define p1 where "p1 = ?p\<lparr>wlog_cache := (wlog_cache ?p)(0 := lw)\<rparr>"
  define g1 where "g1 = set_ring (get_wlog_ring ?g me 0) qw ?g"
  have w1: "bi_wlog_free me clkw (get_test_obj ?g (nat oid)) CACHE_LINE 0 ?p ?g = Inr (p1, g1)"
    using w g by (simp add: bi_wlog_free_def Let_def p1_def g1_def)
  have r1: "get_quies_ring g1 me = get_quies_ring ?g me" "rings g1 (get_quies_ring ?g me) = rings ?g (get_quies_ring ?g me)" "smr_cache p1 = smr_cache ?p"
    using L by (simp_all add: g1_def p1_def set_ring_def get_quies_ring_def)
  have nn: "ps_mhead_mem h0 \<noteq> NULL" "ps_mhead_get (ps_mhead_mem h0) = h0" by (simp_all add: ps_mhead_mem_def ps_mhead_get_def)
  have "bi_slab_objmem (s_si (slabs sl (h_slab (hdrs sl h0)))) sl = sz" by (rule object_size[OF a(3)]) (use old(2) in simp)
  then have w2: "bi_smr_free me clk (ps_mhead_mem h0) p1 g1 sl = Inr (p1\<lparr>smr_cache := lc\<rparr>, set_ring (get_quies_ring ?g me) q g1, ps_mhead_setfree h0 sl)"
    using f(1) r1 nn by (simp add: bi_smr_free_def Let_def)
  let ?s = "s\<lparr>sv_p := p1\<lparr>smr_cache := lc\<rparr>, sv_g := set_ring (get_quies_ring ?g me) q g1, sv_slab := ps_mhead_setfree h0 sl,
      sv_app := (sv_app s)\<lparr>nc := bi_publish_area me (ps_mhead_mem h) (take (t_sz (test_objs (sv_app s) (nat oid))) (temp_obj (sv_app s))) (nc (sv_app s)),
      test_objs := (test_objs (sv_app s))(nat oid := (test_objs (sv_app s) (nat oid))\<lparr>t_data := ps_mhead_mem h\<rparr>)\<rparr>\<rparr>"
  have "atomic_obj_write_svr me head now clkw clk oid s = Inr ?s"
    using oid old(1) a(1) w1 w2 nn(1) by (simp add: atomic_obj_write_svr_def Let_def)
  moreover have "awaiting me (sv_p ?s) (sv_g ?s) = awaiting me ?p ?g @ [(h0, sz)]"
    using f(2) r1(1) by (simp add: awaiting_def set_ring_def get_quies_ring_def)
  ultimately show ?thesis using a(2) setfree_slab_inv[OF a(3), of h0] by - (rule exI[of _ h], rule exI[of _ ?s], rule exI[of _ F'], rule exI[of _ E'], rule exI[of _ C'], rule exI[of _ xs'], simp)
qed

section \<open>Properties\<close>

lemma obj_msg_roundtrip: "obj_msg_of (obj_msg_bytes v) = v" "length (obj_msg_bytes v) = OBJ_MSG_SZ"
proof -
  have "unat v < 2 ^ LENGTH(32)" by (rule unsigned_less)
  then show "obj_msg_of (obj_msg_bytes v) = v" by (simp add: obj_msg_of_def obj_msg_bytes_def le_nat_bytes)
qed (simp add: obj_msg_bytes_def)

lemma map_obj_bytes: "map (\<lambda>i. obj_msg_bytes v ! i) [0..<OBJ_MSG_SZ] = obj_msg_bytes v"
  using map_nth[of "obj_msg_bytes v"] by (simp only: obj_msg_roundtrip(2))

lemma sint_of_id: "0 \<le> oid \<Longrightarrow> oid < MAX_TEST_OBJ_NUM \<Longrightarrow> sint (of_int oid :: u32) = oid"
  by (simp add: int_word_sint)

text \<open>The server has nothing else to do in this turn.\<close>

definition no_timer :: "u64 \<Rightarrow> 'u bi_srv \<Rightarrow> bool" where
  "no_timer time s \<longleftrightarrow> \<not> time - flush_prev s > 2000000 \<and> \<not> time - tsc_prev s > 500000"

text \<open>C10: a write of an atomic object runs to its end: the request reaches the home node of the object, one turn of the
  server loop there puts the new contents into a slab object that nobody uses, publishes it to
  all nodes, turns the pointer to it and puts the old slab object, which stays allocated, behind the objects that wait for
  reclamation; the core gets its answer and the rings are empty again.\<close>

theorem obj_write_round:
  assumes "slab_inv head (int me) (slab_allocator (sv_app s)) n sz (sv_slab s) F E C A xs" and "F \<noteq> [] \<or> xs \<noteq> []"
    and "id_to_node nn oid (sv_app s) = me" and "me < nn" and "0 < ncore" and "0 \<le> oid" and "oid < MAX_TEST_OBJ_NUM"
    and "to = test_objs (sv_app s) (nat oid)" and "t_data to = ps_mhead_mem h0" and "h0 \<in> A" and "logs_ready me (sv_p s) (sv_g s)"
    and "get_test_obj (sv_g s) (nat oid) \<noteq> NULL" and "none_in_flight (sv_rpc s)" and "svr_node (procs (sv_rpc s) me) = cn" and "svr_core (procs (sv_rpc s) me) = cc"
    and "no_timer time s" and "bs = take (t_sz to) (temp_obj (sv_app s))" and "bs \<noteq> []" and "\<And>k l. k \<noteq> me \<Longrightarrow> \<not> dirty k l (nc (sv_app s))"
  shows "\<exists>h sys1 s' sys2 F' E' C' xs'. atomic_obj_write cn cc nn (sv_app s) oid (sv_rpc s) = Inr sys1 \<and>
    server_turn me head nn ncore clkf tm time gt (Some (bi_msg_handler me head now clkw clk)) fl (s\<lparr>sv_rpc := sys1\<rparr>) = Inr s' \<and>
    atomic_obj_write_done 1 (\<lambda>_ q. q) cn cc nn (sv_app s) oid (sv_rpc s') = Inr sys2 \<and> none_in_flight sys2 \<and>
    h \<notin> A \<and> slab_inv head (int me) (slab_allocator (sv_app s)) n sz (sv_slab s') F' E' C' (insert h A) xs' \<and>
    test_objs (sv_app s') = (test_objs (sv_app s))(nat oid := to\<lparr>t_data := ps_mhead_mem h\<rparr>) \<and>
    (h + sz \<le> 2 ^ 64 \<and> MHEADER_SZ + length bs \<le> sz \<longrightarrow> published (ps_mhead_mem h) bs (nc (sv_app s'))) \<and>
    awaiting me (sv_p s') (sv_g s') = awaiting me (sv_p s) (sv_g s) @ [(h0, sz)]"
proof -
  let ?b = "obj_msg_bytes (of_int oid)"
  have owned: "start_id (sv_app s) me \<le> oid" "oid < end_id (sv_app s) me"
    using assms(3,4) by (auto simp: id_to_node_def find_Some_iff split: option.splits)
  obtain sys1 sysa where r1: "rpc_send cn cc me (\<lambda>i. ?b ! i) OBJ_MSG_SZ (sv_rpc s) = Inr sys1" "rpc_recv_server nn ncore me sys1 = Inr (?b, cn, cc, sysa)" "none_in_flight sysa"
    using request_delivered[OF assms(13) _ assms(5) assms(14,15), of nn OBJ_MSG_SZ "\<lambda>i. ?b ! i"] assms(4) unfolding map_obj_bytes by auto
  let ?s = "s\<lparr>sv_rpc := sysa\<rparr>"
  obtain h s1 F' E' C' xs' where w: "atomic_obj_write_svr me head now clkw clk oid ?s = Inr s1" "h \<notin> A"
      "slab_inv head (int me) (slab_allocator (sv_app s)) n sz (sv_slab s1) F' E' C' (insert h A) xs'" "sv_rpc s1 = sysa"
      "sv_app s1 = (sv_app s)\<lparr>nc := bi_publish_area me (ps_mhead_mem h) bs (nc (sv_app s)), test_objs := (test_objs (sv_app s))(nat oid := to\<lparr>t_data := ps_mhead_mem h\<rparr>)\<rparr>"
      "awaiting me (sv_p s1) (sv_g s1) = awaiting me (sv_p s) (sv_g s) @ [(h0, sz)]"
    using write_svr_spec[of head me ?s n sz F E C A xs oid h0 now clkw clk] assms(1,2,8-12,17) owned by auto
  obtain sysb sys2 where r2: "rpc_send_server me cn cc (\<lambda>i. obj_msg_bytes (- 1) ! i) OBJ_MSG_SZ sysa = Inr sysb"
      "rpc_recv 1 (\<lambda>_ q. q) cn cc me True sysb = Inr (obj_msg_bytes (- 1), sys2)" "none_in_flight sys2"
    using reply_delivered[OF r1(3), of OBJ_MSG_SZ me cn cc "\<lambda>i. obj_msg_bytes (- 1) ! i" 0] unfolding map_obj_bytes by auto
  have "bi_msg_handler me head now clkw clk ?b cn cc ?s = Inr (s1\<lparr>sv_rpc := sysb\<rparr>)"
    using w(1,4) r2(1) obj_msg_roundtrip sint_of_id[OF assms(6,7)] by (simp add: bi_msg_handler_def)
  moreover have "?b \<noteq> []" using obj_msg_roundtrip(2)[of "of_int oid"] by (metis list.size(3) zero_neq_numeral)
  ultimately have "server_turn me head nn ncore clkf tm time gt (Some (bi_msg_handler me head now clkw clk)) fl (s\<lparr>sv_rpc := sys1\<rparr>) = Inr (s1\<lparr>sv_rpc := sysb\<rparr>)"
    using assms(16) r1(2) by (simp add: server_turn_def no_timer_def)
  moreover have "atomic_obj_write cn cc nn (sv_app s) oid (sv_rpc s) = Inr sys1" using r1(1) assms(3) by (simp add: atomic_obj_write_def)
  moreover have "atomic_obj_write_done 1 (\<lambda>_ q. q) cn cc nn (sv_app s) oid sysb = Inr sys2"
    using r2(2) assms(3) obj_msg_roundtrip by (simp add: atomic_obj_write_done_def)
  moreover have "published (ps_mhead_mem h) bs (nc (sv_app s1))" if "h + sz \<le> 2 ^ 64 \<and> MHEADER_SZ + length bs \<le> sz"
    using that publish_published[OF assms(18), of "ps_mhead_mem h" me] assms(19) w(5) by (simp add: ps_mhead_mem_def)
  ultimately show ?thesis using w(2,3,5,6) r2(3)
    by - (rule exI[of _ h], rule exI[of _ sys1], rule exI[of _ "s1\<lparr>sv_rpc := sysb\<rparr>"], rule exI[of _ sys2], rule exI[of _ F'], rule exI[of _ E'], rule exI[of _ C'], rule exI[of _ xs'], simp)
qed

text \<open>A reader whose node has no copy of the lines of a published object reads the bytes that were published, and leaves the library again.\<close>

theorem obj_read_published:
  assumes "published a bs m" and "a \<noteq> NULL" and "\<And>l. l \<in> lines a (length bs) \<Longrightarrow> cch m r l = None"
  shows "\<exists>p' m'. atomic_obj_read r core now a (length bs) p m = Inr (bs, p', m') \<and> time_out (parsec_time_cache p' core) = now + 1 \<and> gm m' = gm m"
proof -
  have "view r m (a + i) = bs ! i" if "i < length bs" for i
  proof -
    have "line_of (a + i) \<in> lines a (length bs)" using that by (auto simp: lines_def)
    then show ?thesis using assms(1,3) that by (simp add: view_clean published_def)
  qed
  then have "map (view r m) [a..<a + length bs] = bs" by (intro nth_equalityI) auto
  then have "fst (loads r a (length bs) m) = bs" "gm (snd (loads r a (length bs) m)) = gm m" using loads_spec[of r a "length bs" m] by auto
  then show ?thesis using assms(2) by (cases "loads r a (length bs) m") (auto simp: atomic_obj_read_def bi_dereference_area_lazy_def bi_enter_def bi_exit_def Let_def)
qed

section \<open>Witnesses\<close>

definition obj_example :: "addr \<Rightarrow> slab_st \<Rightarrow> obj_srv" where
  "obj_example d st = \<lparr>sv_p = reader_example,
     sv_g = gmem_example\<lparr>global_layout := zero_layout\<lparr>quies_rings := (\<lambda>_. 64), test_obj_area := 8192\<rparr>, rings := (\<lambda>_. ring_example)\<rparr>,
     sv_slab = st, sv_rpc = sys0, sv_hw = \<lparr>local_node_id = 0, num_node_in_use = 1, num_core_in_use = 2, local_core_id = 0, tsc = 0\<rparr>,
     sv_app = init_ranges 1 4 \<lparr>test_objs = (\<lambda>_. \<lparr>t_data = d, t_sz = 3\<rparr>), nc = mem0, temp_obj = [7, 8, 9], start_id = (\<lambda>_. 0), end_id = (\<lambda>_. 0), slab_allocator = 512\<rparr>,
     flush_prev = 0, tsc_prev = 0, running_cores = 1\<rparr>"

text \<open>With one object in use there is room for another one.\<close>

lemma one_used_room:
  assumes "slab_inv head me si n sz st F E C {h} xs"
  shows "F \<noteq> [] \<or> xs \<noteq> []"
proof (rule ccontr)
  assume F: "\<not> (F \<noteq> [] \<or> xs \<noteq> [])"
  have i: "slab_inv0 head me si n sz st F E C {h} xs" using assms by (simp add: slab_inv_def)
  note D = slab_inv0D[OF i] and g = info_geo[OF slab_inv0D(1)[OF i]]
  obtain s where s: "s \<in> set E" "h \<in> cells n sz s" using D(3) F unfolding objs_ok_def by auto
  have "cells n sz s \<subseteq> {h}" using objs_okD[OF D(3), of s] s(1) D(6)[OF s(1)] by (auto simp: slab_ok_def)
  moreover have "s + SLAB_HDR_SZ + 0 * sz \<in> cells n sz s" "s + SLAB_HDR_SZ + 1 * sz \<in> cells n sz s"
    unfolding cells_def cell_list_def set_map using D(1) by (auto simp: info_ok_def image_iff intro!: bexI[of _ "0 :: nat"] bexI[of _ "1 :: nat"])
  ultimately have "s + SLAB_HDR_SZ + 0 * sz = s + SLAB_HDR_SZ + 1 * sz" by blast
  then show False using g(2) by simp
qed

theorem obj_write_round_witness:
  "\<exists>h0 st h s' sys1. bi_slab_alloc 64 0 7 512 slab_example = Inr (ps_mhead_mem h0, st) \<and>
    atomic_obj_write 0 0 1 (sv_app (obj_example (ps_mhead_mem h0) st)) 2 sys0 = Inr sys1 \<and>
    server_turn 0 64 1 2 (\<lambda>_. 9) 9 9 9 (Some (bi_msg_handler 0 64 8 (\<lambda>_. 9) (\<lambda>_. 9))) None ((obj_example (ps_mhead_mem h0) st)\<lparr>sv_rpc := sys1\<rparr>) = Inr s' \<and>
    t_data (test_objs (sv_app s') 2) = ps_mhead_mem h \<and> awaiting 0 (sv_p s') (sv_g s') = [(h0, 128)]"
proof -
  obtain h0 st F E C xs where a: "bi_slab_alloc 64 0 7 512 slab_example = Inr (ps_mhead_mem h0, st)" "slab_inv 64 0 512 8191 128 st F E C {h0} xs"
    using slab_alloc_inv[OF slab_example_inv, of 7] by auto
  let ?s = "obj_example (ps_mhead_mem h0) st"
  have r: "test_objs (sv_app ?s) = (\<lambda>_. \<lparr>t_data = ps_mhead_mem h0, t_sz = 3\<rparr>)" "nc (sv_app ?s) = mem0" "temp_obj (sv_app ?s) = [7, 8, 9]" "slab_allocator (sv_app ?s) = 512"
      "id_to_node 1 2 (sv_app ?s) = 0" by (simp_all add: obj_example_def init_ranges_def set_range_def id_to_node_def)
  have slab: "slab_inv 64 (int 0) (slab_allocator (sv_app ?s)) 8191 128 (sv_slab ?s) F E C {h0} xs" using a(2) r(4) by (simp add: obj_example_def)
  have logs: "logs_ready 0 (sv_p ?s) (sv_g ?s)"
    by (simp add: logs_ready_def obj_example_def reader_example_def cache_example_def ring_example_def ring_wf_def lc_wf_def qsc_ring_len_def get_quies_ring_def get_wlog_ring_def
        zero_layout_def)
  have aw: "awaiting 0 (sv_p ?s) (sv_g ?s) = []"
    by (simp add: awaiting_def obj_example_def reader_example_def cache_example_def ring_example_def ranges_def ring_items_def qsc_ring_len_def lc_pending_def)
  have misc: "get_test_obj (sv_g ?s) (nat 2) \<noteq> NULL" "no_timer 9 ?s" by (simp_all add: obj_example_def get_test_obj_def no_timer_def)
  have rpc: "none_in_flight (sv_rpc ?s)" "svr_node (procs (sv_rpc ?s) 0) = 0" "svr_core (procs (sv_rpc ?s) 0) = 0" "sv_rpc ?s = sys0"
    using sys0_inv sys0_poll by (simp_all add: obj_example_def)
  have n: "(0 :: nat) < 1" "(0 :: nat) < 2" "(0 :: int) \<le> 2" "2 < MAX_TEST_OBJ_NUM" by simp_all
  have d: "t_data (test_objs (sv_app ?s) (nat 2)) = ps_mhead_mem h0" "h0 \<in> {h0}" "[7, 8, 9] = take (t_sz (test_objs (sv_app ?s) (nat 2))) (temp_obj (sv_app ?s))" "[7, 8, 9 :: u8] \<noteq> []"
    using r by simp_all
  have clean: "\<And>k l. \<not> dirty k l (nc (sv_app ?s))" unfolding r(2) by (simp add: dirty_def mem0_def)
  from obj_write_round[OF slab one_used_room[OF a(2)] r(5) n refl d(1,2) logs misc(1) rpc(1-3) misc(2) d(3,4) clean, of "\<lambda>_. 9" 9 9 8 "\<lambda>_. 9" "\<lambda>_. 9" None]
  obtain h sys1 s' where w: "atomic_obj_write 0 0 1 (sv_app ?s) 2 (sv_rpc ?s) = Inr sys1"
      "server_turn 0 64 1 2 (\<lambda>_. 9) 9 9 9 (Some (bi_msg_handler 0 64 8 (\<lambda>_. 9) (\<lambda>_. 9))) None (?s\<lparr>sv_rpc := sys1\<rparr>) = Inr s'"
      "test_objs (sv_app s') = (test_objs (sv_app ?s))(nat 2 := (test_objs (sv_app ?s) (nat 2))\<lparr>t_data := ps_mhead_mem h\<rparr>)"
      "awaiting 0 (sv_p s') (sv_g s') = awaiting 0 (sv_p ?s) (sv_g ?s) @ [(h0, 128)]"
    by (elim exE conjE) (rule that)
  have "t_data (test_objs (sv_app s') 2) = ps_mhead_mem h" "awaiting 0 (sv_p s') (sv_g s') = [(h0, 128)]" using w(3,4) aw by simp_all
  with a(1) w(1,2) show ?thesis unfolding rpc(4) by blast
qed

end
