(* ===== verification/Jenkins.thy ===== *)
theory Jenkins
  imports BI_Prelude
begin

unbundle bit_operations_syntax

text \<open>
  The hash function of the key-value servers, \<^verbatim>\<open>mc_code/bi_mc/jenkins_hash.c\<close> (the copies of the other
  two servers differ only in an include). The code has one variant per byte order, and inside
  each it reads the key in words, in half words or in bytes, depending on the alignment of the
  pointer. Memory is a function from addresses to bytes; a word read is put together in the byte
  order of the machine.
\<close>

section \<open>Mixing\<close>

type_synonym abc = "u32 \<times> u32 \<times> u32"

definition rot :: "u32 \<Rightarrow> nat \<Rightarrow> u32" where
  "rot x k = push_bit k x XOR drop_bit (32 - k) x"

text \<open>The six lines of \<^verbatim>\<open>mix\<close> have one shape, \<^verbatim>\<open>x -= z; x ^= rot(z, k); z += y\<close>, on rotating variables.\<close>

definition mix_line :: "nat \<Rightarrow> u32 \<Rightarrow> u32 \<Rightarrow> u32 \<Rightarrow> u32 \<times> u32" where
  "mix_line k x y z = ((x - z) XOR rot z k, z + y)"

definition mix :: "abc \<Rightarrow> abc" where
  "mix = (\<lambda>(a, b, c).
     let (a, c) = mix_line 4 a b c;
         (b, a) = mix_line 6 b c a;
         (c, b) = mix_line 8 c a b;
         (a, c) = mix_line 16 a b c;
         (b, a) = mix_line 19 b c a;
         (c, b) = mix_line 4 c a b
     in (a, b, c))"

definition final :: "abc \<Rightarrow> abc" where
  "final = (\<lambda>(a, b, c).
     let c = c XOR b; c = c - rot b 14;
         a = a XOR c; a = a - rot c 11;
         b = b XOR a; b = b - rot a 25;
         c = c XOR b; c = c - rot b 16;
         a = a XOR c; a = a - rot c 4;
         b = b XOR a; b = b - rot a 14;
         c = c XOR b; c = c - rot b 24
     in (a, b, c))"

section \<open>Reads\<close>

type_synonym memory = "addr \<Rightarrow> u8"

definition rd8 :: "memory \<Rightarrow> addr \<Rightarrow> u32" where
  "rd8 m p = ucast (m p)"

definition rd16_le :: "memory \<Rightarrow> addr \<Rightarrow> u32" where
  "rd16_le m p = rd8 m p + push_bit 8 (rd8 m (p + 1))"

definition rd32_le :: "memory \<Rightarrow> addr \<Rightarrow> u32" where
  "rd32_le m p = rd8 m p + push_bit 8 (rd8 m (p + 1)) + push_bit 16 (rd8 m (p + 2)) + push_bit 24 (rd8 m (p + 3))"

definition rd32_be :: "memory \<Rightarrow> addr \<Rightarrow> u32" where
  "rd32_be m p = push_bit 24 (rd8 m p) + push_bit 16 (rd8 m (p + 1)) + push_bit 8 (rd8 m (p + 2)) + rd8 m (p + 3)"

text \<open>The loop over all blocks but the last: \<open>blk\<close> adds one block to the state.\<close>

function while12 :: "(addr \<Rightarrow> abc \<Rightarrow> abc) \<Rightarrow> addr \<Rightarrow> nat \<Rightarrow> abc \<Rightarrow> addr \<times> nat \<times> abc" where
  "while12 blk k len s = (if 12 < len then while12 blk (k + 12) (len - 12) (mix (blk k s)) else (k, len, s))"
  by pat_completeness auto
termination by (relation "measure (\<lambda>(_, _, len, _). len)") auto

declare while12.simps [simp del]

section \<open>Little-endian variant\<close>

definition blk32_le :: "memory \<Rightarrow> addr \<Rightarrow> abc \<Rightarrow> abc" where
  "blk32_le m k = (\<lambda>(a, b, c). (a + rd32_le m k, b + rd32_le m (k + 4), c + rd32_le m (k + 8)))"

definition tail32_le :: "memory \<Rightarrow> addr \<Rightarrow> nat \<Rightarrow> abc \<Rightarrow> abc" where
  "tail32_le m k len = (\<lambda>(a, b, c).
     let k0 = rd32_le m k; k1 = rd32_le m (k + 4); k2 = rd32_le m (k + 8)
     in if len = 12 then (a + k0, b + k1, c + k2)
        else if len = 11 then (a + k0, b + k1, c + (k2 AND 0xffffff))
        else if len = 10 then (a + k0, b + k1, c + (k2 AND 0xffff))
        else if len = 9 then (a + k0, b + k1, c + (k2 AND 0xff))
        else if len = 8 then (a + k0, b + k1, c)
        else if len = 7 then (a + k0, b + (k1 AND 0xffffff), c)
        else if len = 6 then (a + k0, b + (k1 AND 0xffff), c)
        else if len = 5 then (a + k0, b + (k1 AND 0xff), c)
        else if len = 4 then (a + k0, b, c)
        else if len = 3 then (a + (k0 AND 0xffffff), b, c)
        else if len = 2 then (a + (k0 AND 0xffff), b, c)
        else if len = 1 then (a + (k0 AND 0xff), b, c)
        else (a, b, c))"

definition blk16_le :: "memory \<Rightarrow> addr \<Rightarrow> abc \<Rightarrow> abc" where
  "blk16_le m k = (\<lambda>(a, b, c).
     (a + (rd16_le m k + push_bit 16 (rd16_le m (k + 2))),
      b + (rd16_le m (k + 4) + push_bit 16 (rd16_le m (k + 6))),
      c + (rd16_le m (k + 8) + push_bit 16 (rd16_le m (k + 10)))))"

text \<open>The cases of the switch that have no \<^verbatim>\<open>break\<close> continue with the next one.\<close>

definition tail16_le :: "memory \<Rightarrow> addr \<Rightarrow> nat \<Rightarrow> abc \<Rightarrow> abc" where
  "tail16_le m k len = (\<lambda>(a, b, c).
     let w0 = rd16_le m k + push_bit 16 (rd16_le m (k + 2));
         w1 = rd16_le m (k + 4) + push_bit 16 (rd16_le m (k + 6));
         w2 = rd16_le m (k + 8) + push_bit 16 (rd16_le m (k + 10))
     in if len = 12 then (a + w0, b + w1, c + w2)
        else if len = 11 then (a + w0, b + w1, c + push_bit 16 (rd8 m (k + 10)) + rd16_le m (k + 8))
        else if len = 10 then (a + w0, b + w1, c + rd16_le m (k + 8))
        else if len = 9 then (a + w0, b + w1, c + rd8 m (k + 8))
        else if len = 8 then (a + w0, b + w1, c)
        else if len = 7 then (a + w0, b + push_bit 16 (rd8 m (k + 6)) + rd16_le m (k + 4), c)
        else if len = 6 then (a + w0, b + rd16_le m (k + 4), c)
        else if len = 5 then (a + w0, b + rd8 m (k + 4), c)
        else if len = 4 then (a + w0, b, c)
        else if len = 3 then (a + push_bit 16 (rd8 m (k + 2)) + rd16_le m k, b, c)
        else if len = 2 then (a + rd16_le m k, b, c)
        else if len = 1 then (a + rd8 m k, b, c)
        else (a, b, c))"

definition blk8_le :: "memory \<Rightarrow> addr \<Rightarrow> abc \<Rightarrow> abc" where
  "blk8_le m k = (\<lambda>(a, b, c).
     (a + rd8 m k + push_bit 8 (rd8 m (k + 1)) + push_bit 16 (rd8 m (k + 2)) + push_bit 24 (rd8 m (k + 3)),
      b + rd8 m (k + 4) + push_bit 8 (rd8 m (k + 5)) + push_bit 16 (rd8 m (k + 6)) + push_bit 24 (rd8 m (k + 7)),
      c + rd8 m (k + 8) + push_bit 8 (rd8 m (k + 9)) + push_bit 16 (rd8 m (k + 10)) + push_bit 24 (rd8 m (k + 11))))"

text \<open>All cases of this switch fall through: byte \<open>i\<close> is added when the length is above \<open>i\<close>.\<close>

definition add_if :: "bool \<Rightarrow> u32 \<Rightarrow> u32 \<Rightarrow> u32" where
  "add_if t v x = (if t then x + v else x)"

definition tail8_le :: "memory \<Rightarrow> addr \<Rightarrow> nat \<Rightarrow> abc \<Rightarrow> abc" where
  "tail8_le m k len = (\<lambda>(a, b, c).
     let c = add_if (12 \<le> len) (push_bit 24 (rd8 m (k + 11))) c;
         c = add_if (11 \<le> len) (push_bit 16 (rd8 m (k + 10))) c;
         c = add_if (10 \<le> len) (push_bit 8 (rd8 m (k + 9))) c;
         c = add_if (9 \<le> len) (rd8 m (k + 8)) c;
         b = add_if (8 \<le> len) (push_bit 24 (rd8 m (k + 7))) b;
         b = add_if (7 \<le> len) (push_bit 16 (rd8 m (k + 6))) b;
         b = add_if (6 \<le> len) (push_bit 8 (rd8 m (k + 5))) b;
         b = add_if (5 \<le> len) (rd8 m (k + 4)) b;
         a = add_if (4 \<le> len) (push_bit 24 (rd8 m (k + 3))) a;
         a = add_if (3 \<le> len) (push_bit 16 (rd8 m (k + 2))) a;
         a = add_if (2 \<le> len) (push_bit 8 (rd8 m (k + 1))) a;
         a = add_if (1 \<le> len) (rd8 m k) a
     in (a, b, c))"

text \<open>The end of each branch: the last block is added and mixed, unless nothing is left.\<close>

definition finish :: "(addr \<Rightarrow> nat \<Rightarrow> abc \<Rightarrow> abc) \<Rightarrow> addr \<times> nat \<times> abc \<Rightarrow> u32" where
  "finish tail = (\<lambda>(k, len, s). if len = 0 then snd (snd s) else snd (snd (final (tail k len s))))"

definition hash_init_state :: "nat \<Rightarrow> abc" where
  "hash_init_state len = (let x = 0xdeadbeef + word_of_nat len in (x, x, x))"

definition jenkins_hash :: "memory \<Rightarrow> addr \<Rightarrow> nat \<Rightarrow> u32" where
  "jenkins_hash m key len =
     (let s = hash_init_state len
      in if key mod 4 = 0 then finish (tail32_le m) (while12 (blk32_le m) key len s)
         else if key mod 2 = 0 then finish (tail16_le m) (while12 (blk16_le m) key len s)
         else finish (tail8_le m) (while12 (blk8_le m) key len s))"

section \<open>Big-endian variant\<close>

definition blk32_be :: "memory \<Rightarrow> addr \<Rightarrow> abc \<Rightarrow> abc" where
  "blk32_be m k = (\<lambda>(a, b, c). (a + rd32_be m k, b + rd32_be m (k + 4), c + rd32_be m (k + 8)))"

definition tail32_be :: "memory \<Rightarrow> addr \<Rightarrow> nat \<Rightarrow> abc \<Rightarrow> abc" where
  "tail32_be m k len = (\<lambda>(a, b, c).
     let k0 = rd32_be m k; k1 = rd32_be m (k + 4); k2 = rd32_be m (k + 8)
     in if len = 12 then (a + k0, b + k1, c + k2)
        else if len = 11 then (a + k0, b + k1, c + (k2 AND 0xffffff00))
        else if len = 10 then (a + k0, b + k1, c + (k2 AND 0xffff0000))
        else if len = 9 then (a + k0, b + k1, c + (k2 AND 0xff000000))
        else if len = 8 then (a + k0, b + k1, c)
        else if len = 7 then (a + k0, b + (k1 AND 0xffffff00), c)
        else if len = 6 then (a + k0, b + (k1 AND 0xffff0000), c)
        else if len = 5 then (a + k0, b + (k1 AND 0xff000000), c)
        else if len = 4 then (a + k0, b, c)
        else if len = 3 then (a + (k0 AND 0xffffff00), b, c)
        else if len = 2 then (a + (k0 AND 0xffff0000), b, c)
        else if len = 1 then (a + (k0 AND 0xff000000), b, c)
        else (a, b, c))"

definition blk8_be :: "memory \<Rightarrow> addr \<Rightarrow> abc \<Rightarrow> abc" where
  "blk8_be m k = (\<lambda>(a, b, c).
     (a + push_bit 24 (rd8 m k) + push_bit 16 (rd8 m (k + 1)) + push_bit 8 (rd8 m (k + 2)) + rd8 m (k + 3),
      b + push_bit 24 (rd8 m (k + 4)) + push_bit 16 (rd8 m (k + 5)) + push_bit 8 (rd8 m (k + 6)) + rd8 m (k + 7),
      c + push_bit 24 (rd8 m (k + 8)) + push_bit 16 (rd8 m (k + 9)) + push_bit 8 (rd8 m (k + 10)) + rd8 m (k + 11)))"

definition tail8_be :: "memory \<Rightarrow> addr \<Rightarrow> nat \<Rightarrow> abc \<Rightarrow> abc" where
  "tail8_be m k len = (\<lambda>(a, b, c).
     let c = add_if (12 \<le> len) (rd8 m (k + 11)) c;
         c = add_if (11 \<le> len) (push_bit 8 (rd8 m (k + 10))) c;
         c = add_if (10 \<le> len) (push_bit 16 (rd8 m (k + 9))) c;
         c = add_if (9 \<le> len) (push_bit 24 (rd8 m (k + 8))) c;
         b = add_if (8 \<le> len) (rd8 m (k + 7)) b;
         b = add_if (7 \<le> len) (push_bit 8 (rd8 m (k + 6))) b;
         b = add_if (6 \<le> len) (push_bit 16 (rd8 m (k + 5))) b;
         b = add_if (5 \<le> len) (push_bit 24 (rd8 m (k + 4))) b;
         a = add_if (4 \<le> len) (rd8 m (k + 3)) a;
         a = add_if (3 \<le> len) (push_bit 8 (rd8 m (k + 2))) a;
         a = add_if (2 \<le> len) (push_bit 16 (rd8 m (k + 1))) a;
         a = add_if (1 \<le> len) (push_bit 24 (rd8 m k)) a
     in (a, b, c))"

definition jenkins_hash_big :: "memory \<Rightarrow> addr \<Rightarrow> nat \<Rightarrow> u32" where
  "jenkins_hash_big m key len =
     (let s = hash_init_state len
      in if key mod 4 = 0 then finish (tail32_be m) (while12 (blk32_be m) key len s)
         else finish (tail8_be m) (while12 (blk8_be m) key len s))"

section \<open>Words and bytes\<close>

text \<open>Every word that is read is the image of a natural number below \<open>2 ^ 32\<close>.\<close>

abbreviation byte :: "memory \<Rightarrow> addr \<Rightarrow> nat" where
  "byte m p \<equiv> unat (m p)"

lemma rd8_nat: "rd8 m p = word_of_nat (byte m p)"
  by (simp add: rd8_def)

lemma byte_less: "byte m p < 256"
  using unsigned_less[of "m p"] by simp

lemma push_nat: "push_bit n (word_of_nat x :: u32) = word_of_nat (x * 2 ^ n)"
  by (simp add: push_bit_eq_mult)

lemma rd32_le_nat: "rd32_le m p = word_of_nat (byte m p + 256 * byte m (p + 1) + 65536 * byte m (p + 2) + 16777216 * byte m (p + 3))"
  by (simp add: rd32_le_def rd8_def push_bit_eq_mult mult.commute)

lemma rd32_be_nat: "rd32_be m p = word_of_nat (16777216 * byte m p + 65536 * byte m (p + 1) + 256 * byte m (p + 2) + byte m (p + 3))"
  by (simp add: rd32_be_def rd8_def push_bit_eq_mult mult.commute)

lemma mask_nat:
  "(word_of_nat N :: u32) AND 0xff = word_of_nat (N mod 2 ^ 8)"
  "(word_of_nat N :: u32) AND 0xffff = word_of_nat (N mod 2 ^ 16)"
  "(word_of_nat N :: u32) AND 0xffffff = word_of_nat (N mod 2 ^ 24)"
proof -
  have "(0xff :: u32) = mask 8" "(0xffff :: u32) = mask 16" "(0xffffff :: u32) = mask 24" by (simp_all add: mask_eq_exp_minus_1)
  moreover have "(word_of_nat N :: u32) AND mask k = word_of_nat (N mod 2 ^ k)" for k
    by (simp only: take_bit_eq_mask[symmetric] of_nat_take_bit[symmetric] take_bit_eq_mod[of k N])
  ultimately show "(word_of_nat N :: u32) AND 0xff = word_of_nat (N mod 2 ^ 8)"
    "(word_of_nat N :: u32) AND 0xffff = word_of_nat (N mod 2 ^ 16)"
    "(word_of_nat N :: u32) AND 0xffffff = word_of_nat (N mod 2 ^ 24)" by (simp_all only:)
qed

lemma and_push: "(x :: u32) AND push_bit n M = push_bit n (drop_bit n x AND M)"
  by (rule bit_eqI) (auto simp: bit_simps)

lemma drop_nat:
  assumes "N < 2 ^ 32"
  shows "drop_bit 8 (word_of_nat N :: u32) = word_of_nat (N div 2 ^ 8)" "drop_bit 16 (word_of_nat N :: u32) = word_of_nat (N div 2 ^ 16)"
    "drop_bit 24 (word_of_nat N :: u32) = word_of_nat (N div 2 ^ 24)"
  using assms by (simp_all add: drop_bit_eq_div word_arith_nat_div unat_of_nat)

lemma high_mask_nat:
  assumes "N < 2 ^ 32"
  shows "(word_of_nat N :: u32) AND 0xffffff00 = word_of_nat (N div 2 ^ 8 mod 2 ^ 24 * 2 ^ 8)"
    "(word_of_nat N :: u32) AND 0xffff0000 = word_of_nat (N div 2 ^ 16 mod 2 ^ 16 * 2 ^ 16)"
    "(word_of_nat N :: u32) AND 0xff000000 = word_of_nat (N div 2 ^ 24 mod 2 ^ 8 * 2 ^ 24)"
proof -
  have "(0xffffff00 :: u32) = push_bit 8 0xffffff" "(0xffff0000 :: u32) = push_bit 16 0xffff" "(0xff000000 :: u32) = push_bit 24 0xff"
    by (simp_all add: push_bit_eq_mult)
  then show "(word_of_nat N :: u32) AND 0xffffff00 = word_of_nat (N div 2 ^ 8 mod 2 ^ 24 * 2 ^ 8)"
    "(word_of_nat N :: u32) AND 0xffff0000 = word_of_nat (N div 2 ^ 16 mod 2 ^ 16 * 2 ^ 16)"
    "(word_of_nat N :: u32) AND 0xff000000 = word_of_nat (N div 2 ^ 24 mod 2 ^ 8 * 2 ^ 24)"
    by (simp_all only: and_push drop_nat[OF assms] mask_nat push_nat)
qed

lemma low_part: "x < M \<Longrightarrow> (x + M * y) mod M = (x :: nat)"
  by simp

lemma high_part: "x < M \<Longrightarrow> y < K \<Longrightarrow> (M * y + x) div M mod K * M = M * (y :: nat)"
  by simp

lemma rd32_le_masks:
  "rd32_le m p AND 0xff = rd8 m p" "rd32_le m p AND 0xffff = rd8 m p + push_bit 8 (rd8 m (p + 1))"
  "rd32_le m p AND 0xffffff = rd8 m p + push_bit 8 (rd8 m (p + 1)) + push_bit 16 (rd8 m (p + 2))"
proof -
  let ?b = "\<lambda>i. byte m (p + i)"
  let ?N = "byte m p + 256 * ?b 1 + 65536 * ?b 2 + 16777216 * ?b 3"
  have b: "byte m p < 256" "?b 1 < 256" "?b 2 < 256" by (rule byte_less)+
  have "?N mod 2 ^ 8 = byte m p" "?N mod 2 ^ 16 = byte m p + 256 * ?b 1" "?N mod 2 ^ 24 = byte m p + 256 * ?b 1 + 65536 * ?b 2"
    using low_part[of "byte m p" 256 "?b 1 + 256 * ?b 2 + 65536 * ?b 3"] low_part[of "byte m p + 256 * ?b 1" 65536 "?b 2 + 256 * ?b 3"]
      low_part[of "byte m p + 256 * ?b 1 + 65536 * ?b 2" 16777216 "?b 3"] b by (simp_all add: algebra_simps)
  then show "rd32_le m p AND 0xff = rd8 m p" "rd32_le m p AND 0xffff = rd8 m p + push_bit 8 (rd8 m (p + 1))"
    "rd32_le m p AND 0xffffff = rd8 m p + push_bit 8 (rd8 m (p + 1)) + push_bit 16 (rd8 m (p + 2))"
    unfolding rd32_le_nat mask_nat by (simp_all add: rd8_def push_bit_eq_mult mult.commute)
qed

lemma rd32_be_masks:
  "rd32_be m p AND 0xff000000 = push_bit 24 (rd8 m p)"
  "rd32_be m p AND 0xffff0000 = push_bit 24 (rd8 m p) + push_bit 16 (rd8 m (p + 1))"
  "rd32_be m p AND 0xffffff00 = push_bit 24 (rd8 m p) + push_bit 16 (rd8 m (p + 1)) + push_bit 8 (rd8 m (p + 2))"
proof -
  let ?b = "\<lambda>i. byte m (p + i)"
  let ?N = "16777216 * byte m p + 65536 * ?b 1 + 256 * ?b 2 + ?b 3"
  have b: "byte m p < 256" "?b 1 < 256" "?b 2 < 256" "?b 3 < 256" by (rule byte_less)+
  then have n: "?N < 2 ^ 32" by simp
  have "?N div 2 ^ 24 mod 2 ^ 8 * 2 ^ 24 = 16777216 * byte m p"
    "?N div 2 ^ 16 mod 2 ^ 16 * 2 ^ 16 = 16777216 * byte m p + 65536 * ?b 1"
    "?N div 2 ^ 8 mod 2 ^ 24 * 2 ^ 8 = 16777216 * byte m p + 65536 * ?b 1 + 256 * ?b 2"
    using high_part[of "65536 * ?b 1 + 256 * ?b 2 + ?b 3" 16777216 "byte m p" 256]
      high_part[of "256 * ?b 2 + ?b 3" 65536 "256 * byte m p + ?b 1" 65536]
      high_part[of "?b 3" 256 "65536 * byte m p + 256 * ?b 1 + ?b 2" 16777216] b by (simp_all add: algebra_simps)
  then show "rd32_be m p AND 0xff000000 = push_bit 24 (rd8 m p)"
    "rd32_be m p AND 0xffff0000 = push_bit 24 (rd8 m p) + push_bit 16 (rd8 m (p + 1))"
    "rd32_be m p AND 0xffffff00 = push_bit 24 (rd8 m p) + push_bit 16 (rd8 m (p + 1)) + push_bit 8 (rd8 m (p + 2))"
    unfolding rd32_be_nat high_mask_nat[OF n] by (simp_all add: rd8_def push_bit_eq_mult mult.commute)
qed

section \<open>All branches agree\<close>

lemma blk_le: "blk32_le m = blk8_le m" "blk16_le m = blk8_le m"
  by (auto simp: fun_eq_iff blk32_le_def blk16_le_def blk8_le_def rd32_le_def rd16_le_def push_bit_add Suc3_eq_add_3 algebra_simps)

lemma blk_be: "blk32_be m = blk8_be m"
  by (auto simp: fun_eq_iff blk32_be_def blk8_be_def rd32_be_def algebra_simps)

lemma upto12: "n \<le> (12 :: nat) \<Longrightarrow> n \<in> {12, 11, 10, 9, 8, 7} \<or> n \<in> {6, 5, 4, 3, 2, 1, 0}"
  by (simp only: insert_iff empty_iff) presburger

lemma tail_le:
  assumes "len \<le> 12"
  shows "tail32_le m k len s = tail8_le m k len s" "tail16_le m k len s = tail8_le m k len s"
proof -
  obtain a b c where s: "s = (a, b, c)" by (cases s)
  note w = rd32_le_def rd16_le_def push_bit_add add_if_def Suc3_eq_add_3 algebra_simps
  from upto12[OF assms, unfolded insert_iff empty_iff] show "tail32_le m k len s = tail8_le m k len s" unfolding s tail32_le_def tail8_le_def
    by (elim disjE; simp add: Let_def rd32_le_masks add_if_def; simp add: w)
  from upto12[OF assms, unfolded insert_iff empty_iff] show "tail16_le m k len s = tail8_le m k len s" unfolding s tail16_le_def tail8_le_def
    by (elim disjE) (simp_all add: w)
qed

lemma tail_be:
  assumes "len \<le> 12"
  shows "tail32_be m k len s = tail8_be m k len s"
proof -
  obtain a b c where s: "s = (a, b, c)" by (cases s)
  from upto12[OF assms, unfolded insert_iff empty_iff] show ?thesis unfolding s tail32_be_def tail8_be_def
    by (elim disjE; simp add: Let_def rd32_be_masks add_if_def; simp add: rd32_be_def Suc3_eq_add_3 algebra_simps)
qed

lemma while12_len: "while12 blk k len s = (k', len', s') \<Longrightarrow> len' \<le> 12"
proof (induction blk k len s rule: while12.induct)
  case (1 blk k len s)
  then show ?case by (cases "12 < len") (auto simp: while12.simps[of blk k len s])
qed

lemma finish_cong:
  assumes "\<And>k len s. len \<le> 12 \<Longrightarrow> tail k len s = tail' k len s"
  shows "finish tail (while12 blk k len s) = finish tail' (while12 blk k len s)"
  using assms while12_len[of blk k len s] by (cases "while12 blk k len s") (simp add: finish_def)

lemma jenkins_bytes: "jenkins_hash m key len = finish (tail8_le m) (while12 (blk8_le m) key len (hash_init_state len))"
  unfolding jenkins_hash_def Let_def blk_le
  using finish_cong[of "tail32_le m" "tail8_le m"] finish_cong[of "tail16_le m" "tail8_le m"] tail_le by simp

lemma jenkins_big_bytes: "jenkins_hash_big m key len = finish (tail8_be m) (while12 (blk8_be m) key len (hash_init_state len))"
  unfolding jenkins_hash_big_def Let_def blk_be using finish_cong[of "tail32_be m" "tail8_be m"] tail_be by simp

text \<open>The byte-wise variants look at the bytes of the key only.\<close>

lemma while12_cong:
  assumes "\<And>i s. i + 12 \<le> len \<Longrightarrow> blk (k + i) s = blk' (k' + i) s"
    and "\<And>i n s. i + n = len \<Longrightarrow> n \<le> 12 \<Longrightarrow> tail (k + i) n s = tail' (k' + i) n s"
  shows "finish tail (while12 blk k len s) = finish tail' (while12 blk' k' len s)"
  using assms
proof (induction len arbitrary: k k' s rule: less_induct)
  case (less len)
  show ?case
  proof (cases "12 < len")
    case True
    have "finish tail (while12 blk (k + 12) (len - 12) (mix (blk k s))) = finish tail' (while12 blk' (k' + 12) (len - 12) (mix (blk k s)))"
    proof (rule less.IH)
      show "blk (k + 12 + i) t = blk' (k' + 12 + i) t" if "i + 12 \<le> len - 12" for i t
        using less.prems(1)[of "12 + i" t] that True by (simp add: add.assoc)
      show "tail (k + 12 + i) n t = tail' (k' + 12 + i) n t" if "i + n = len - 12" "n \<le> 12" for i n t
        using less.prems(2)[of "12 + i" n t] that True by (simp add: add.assoc)
    qed (use True in simp)
    moreover have "blk k s = blk' k' s" using less.prems(1)[of 0 s] True by simp
    ultimately show ?thesis using True by (simp add: while12.simps[of _ _ len])
  next
    case False
    then show ?thesis using less.prems(2)[of 0 len s] by (simp add: while12.simps[of _ _ len] finish_def)
  qed
qed

lemma add_if_cong: "t = t' \<Longrightarrow> (t' \<Longrightarrow> v = v') \<Longrightarrow> x = x' \<Longrightarrow> add_if t v x = add_if t' v' x'"
  by (simp add: add_if_def)

lemma tail8_cong:
  assumes "\<And>i. i < len \<Longrightarrow> m (k + i) = m' (k' + i)"
  shows "tail8_le m k len s = tail8_le m' k' len s" "tail8_be m k len s = tail8_be m' k' len s"
proof -
  have r: "i < len \<Longrightarrow> rd8 m (k + i) = rd8 m' (k' + i)" for i using assms by (simp add: rd8_def)
  have r0: "0 < len \<Longrightarrow> rd8 m k = rd8 m' k'" "1 < len \<Longrightarrow> rd8 m (Suc k) = rd8 m' (Suc k')"
    "2 < len \<Longrightarrow> rd8 m (Suc (Suc k)) = rd8 m' (Suc (Suc k'))" using r[of 0] r[of 1] r[of 2] by simp_all
  show "tail8_le m k len s = tail8_le m' k' len s" unfolding tail8_le_def Let_def
    by (cases s) (simp add: r r0 cong: add_if_cong)
  show "tail8_be m k len s = tail8_be m' k' len s" unfolding tail8_be_def Let_def
    by (cases s) (simp add: r r0 cong: add_if_cong)
qed

lemma blk8_cong:
  assumes "\<And>i. i < 12 \<Longrightarrow> m (k + i) = m' (k' + i)"
  shows "blk8_le m k s = blk8_le m' k' s" "blk8_be m k s = blk8_be m' k' s"
proof -
  have r: "i < 12 \<Longrightarrow> rd8 m (k + i) = rd8 m' (k' + i)" for i using assms by (simp add: rd8_def)
  have r0: "rd8 m k = rd8 m' k'" "rd8 m (Suc k) = rd8 m' (Suc k')" "rd8 m (Suc (Suc k)) = rd8 m' (Suc (Suc k'))"
    using r[of 0] r[of 1] r[of 2] by simp_all
  show "blk8_le m k s = blk8_le m' k' s" "blk8_be m k s = blk8_be m' k' s"
    by (cases s; simp add: blk8_le_def blk8_be_def r r0)+
qed

text \<open>C35: the hash of a key depends only on its length and its bytes, in both variants: not on where the
  key lies, on its alignment, which decides how the code reads it, or on the bytes behind its end,
  which the word reads touch.\<close>

theorem jenkins_hash_content:
  assumes "\<And>i. i < len \<Longrightarrow> m (key + i) = m' (key' + i)"
  shows "jenkins_hash m key len = jenkins_hash m' key' len \<and> jenkins_hash_big m key len = jenkins_hash_big m' key' len"
proof -
  have b: "blk8_le m (key + i) s = blk8_le m' (key' + i) s" "blk8_be m (key + i) s = blk8_be m' (key' + i) s" if "i + 12 \<le> len" for i s
    using blk8_cong[of m "key + i" m' "key' + i"] assms that by (simp_all add: add.assoc)
  have t: "tail8_le m (key + i) n s = tail8_le m' (key' + i) n s" "tail8_be m (key + i) n s = tail8_be m' (key' + i) n s" if "i + n = len" for i n s
    using tail8_cong[of n m "key + i" m' "key' + i"] assms that by (simp_all add: add.assoc)
  show ?thesis unfolding jenkins_bytes jenkins_big_bytes using b t by (auto intro!: while12_cong)
qed

theorem jenkins_hash_content_witness:
  "jenkins_hash (\<lambda>p. word_of_nat (p mod 16)) 32 5 = jenkins_hash (\<lambda>p. if p < 38 then word_of_nat ((p - 1) mod 16) else 255) 33 5"
  using jenkins_hash_content[of 5 "\<lambda>p. word_of_nat (p mod 16)" 32 "\<lambda>p. if p < 38 then word_of_nat ((p - 1) mod 16) else 255" 33]
  by (simp add: add.commute)

section \<open>Mixing is reversible\<close>

definition unmix_line :: "nat \<Rightarrow> u32 \<Rightarrow> u32 \<Rightarrow> u32 \<Rightarrow> u32 \<times> u32" where
  "unmix_line k x y z = (let z = z - y in ((x XOR rot z k) + z, z))"

definition unmix :: "abc \<Rightarrow> abc" where
  "unmix = (\<lambda>(a, b, c).
     let (c, b) = unmix_line 4 c a b;
         (b, a) = unmix_line 19 b c a;
         (a, c) = unmix_line 16 a b c;
         (c, b) = unmix_line 8 c a b;
         (b, a) = unmix_line 6 b c a;
         (a, c) = unmix_line 4 a b c
     in (a, b, c))"

lemma unmix_mix_line: "mix_line k x y z = (x', z') \<longleftrightarrow> unmix_line k x' y z' = (x, z)"
  by (auto simp: mix_line_def unmix_line_def Let_def xor.assoc)

lemma unmix_mix: "unmix (mix s) = s"
proof -
  obtain a b c where s: "s = (a, b, c)" by (cases s)
  obtain a1 c1 where 1: "mix_line 4 a b c = (a1, c1)" by fastforce
  obtain b1 a2 where 2: "mix_line 6 b c1 a1 = (b1, a2)" by fastforce
  obtain c2 b2 where 3: "mix_line 8 c1 a2 b1 = (c2, b2)" by fastforce
  obtain a3 c3 where 4: "mix_line 16 a2 b2 c2 = (a3, c3)" by fastforce
  obtain b3 a4 where 5: "mix_line 19 b2 c3 a3 = (b3, a4)" by fastforce
  obtain c4 b4 where 6: "mix_line 4 c3 a4 b3 = (c4, b4)" by fastforce
  have "mix s = (a4, b4, c4)" by (simp add: s mix_def 1 2 3 4 5 6)
  moreover have "unmix (a4, b4, c4) = s" using 1 2 3 4 5 6 by (simp add: s unmix_def unmix_mix_line)
  ultimately show ?thesis by simp
qed

text \<open>Mixing loses nothing: it is a bijection on the three state words, as its comment says.\<close>

theorem mix_reversible: "bij mix \<and> unmix (mix s) = s"
proof -
  have "inj mix" by (rule inj_on_inverseI[of _ unmix]) (rule unmix_mix)
  then show ?thesis using finite_UNIV_inj_surj[of mix] unmix_mix by (simp add: bij_def)
qed

end
