(* ===== verification/Mc_Rpc.thy ===== *)
theory Mc_Rpc
  imports Fifo Hw_Util
begin

text \<open>
  The transport of the message-passing and two-phase servers, \<^verbatim>\<open>mc_code/2pc_mc/share/rpc.h\<close>: one
  ring per ordered pair of nodes with a single producer and a single consumer. A message stays in
  a page of its own; the ring carries its size and its offset in the shared mapping.

  Both sides first look at their cached copy of the other side's index (\<^verbatim>\<open>cc_load_int\<close>) and read
  the shared one (\<^verbatim>\<open>non_cc_load_int\<close>) only when the cached one shows no progress. The cached value
  is an argument of the operations here; it may be any earlier value of the index.
\<close>

section \<open>Data\<close>

abbreviation NUM_NODE :: nat where "NUM_NODE \<equiv> 4"

record msg_meta =
  m_size :: nat
  m_off :: nat

record spsc_queue =
  sq_head :: nat
  sq_tail :: nat
  sq_ring :: "nat \<Rightarrow> msg_meta"

section \<open>The queue\<close>

definition msg_enqueue :: "nat \<Rightarrow> spsc_queue \<Rightarrow> msg_meta \<Rightarrow> spsc_queue option" where
  "msg_enqueue cached_head q entry =
     (let producer = sq_tail q; delta = (producer + 1) mod MSG_NUM
      in if delta = cached_head \<and> delta = sq_head q then None
         else Some (q\<lparr>sq_ring := (sq_ring q)(producer := entry), sq_tail := delta\<rparr>))"

definition msg_dequeue :: "nat \<Rightarrow> spsc_queue \<Rightarrow> (msg_meta \<times> spsc_queue) option" where
  "msg_dequeue cached_tail q =
     (let consumer = sq_head q
      in if consumer = cached_tail \<and> consumer = sq_tail q then None
         else Some (sq_ring q consumer, q\<lparr>sq_head := (consumer + 1) mod MSG_NUM\<rparr>))"

definition sq_wf :: "spsc_queue \<Rightarrow> bool" where
  "sq_wf q \<longleftrightarrow> sq_head q < MSG_NUM \<and> sq_tail q < MSG_NUM"

definition sq_len :: "spsc_queue \<Rightarrow> nat" where
  "sq_len q = ring_dist MSG_NUM (sq_head q) (sq_tail q)"

definition sq_items :: "spsc_queue \<Rightarrow> msg_meta list" where
  "sq_items q = map (sq_ring q) (ring_slots MSG_NUM (sq_head q) (sq_len q))"

text \<open>A cached index: an earlier position of the consumer is further from the tail, an earlier
  position of the producer is closer to the head.\<close>

definition stale_head :: "spsc_queue \<Rightarrow> nat \<Rightarrow> bool" where
  "stale_head q h \<longleftrightarrow> h < MSG_NUM \<and> sq_len q \<le> ring_dist MSG_NUM h (sq_tail q)"

definition stale_tail :: "spsc_queue \<Rightarrow> nat \<Rightarrow> bool" where
  "stale_tail q t \<longleftrightarrow> t < MSG_NUM \<and> ring_dist MSG_NUM (sq_head q) t \<le> sq_len q"

lemma sq_len_less: "sq_len q < MSG_NUM"
  by (simp add: sq_len_def ring_dist_less)

text \<open>Stale indices are harmless: whatever earlier value of the other side's index a cache holds,
  insertion and removal do what they do with the current value, so nothing is overwritten and
  nothing is read that was not written.\<close>

theorem stale_index_harmless:
  assumes "sq_wf q" and "stale_head q h" and "stale_tail q t"
  shows "msg_enqueue h q x = msg_enqueue (sq_head q) q x \<and> msg_dequeue t q = msg_dequeue (sq_tail q) q"
proof -
  have "(sq_tail q + 1) mod MSG_NUM = h" if "(sq_tail q + 1) mod MSG_NUM = sq_head q"
  proof -
    have "sq_len q = MSG_NUM - 1" using that assms(1) ring_full_iff[of "sq_head q" MSG_NUM "sq_tail q"] by (simp add: sq_wf_def sq_len_def)
    then have "ring_dist MSG_NUM h (sq_tail q) = MSG_NUM - 1"
      using assms(2) ring_dist_less[of MSG_NUM h "sq_tail q"] by (simp add: stale_head_def)
    then show ?thesis using assms ring_full_iff[of h MSG_NUM "sq_tail q"] by (simp add: stale_head_def sq_wf_def)
  qed
  moreover have "sq_head q = t" if "sq_head q = sq_tail q"
    using that assms ring_dist_eq_0[of "sq_head q" MSG_NUM t] by (simp add: stale_tail_def sq_len_def sq_wf_def)
  ultimately show ?thesis by (auto simp: msg_enqueue_def msg_dequeue_def Let_def)
qed

text \<open>With the current indices the queue is a bounded first-in first-out queue of seven messages.\<close>

interpretation spsc: bounded_fifo sq_wf sq_items "MSG_NUM - 1" "\<lambda>q. msg_enqueue (sq_head q) q" "\<lambda>q. msg_dequeue (sq_tail q) q"
proof
  fix q x assume w: "sq_wf q"
  then have h: "sq_head q < MSG_NUM" and t: "sq_tail q < MSG_NUM" by (auto simp: sq_wf_def)
  show "length (sq_items q) \<le> MSG_NUM - 1" using sq_len_less[of q] by (simp add: sq_items_def)
  show "\<exists>q'. msg_enqueue (sq_head q) q x = Some q' \<and> sq_wf q' \<and> sq_items q' = sq_items q @ [x]" if "length (sq_items q) < MSG_NUM - 1"
  proof -
    have n: "sq_head q \<noteq> (sq_tail q + 1) mod MSG_NUM"
      using that ring_full_iff[OF h t] by (simp add: sq_items_def sq_len_def)
    let ?q = "q\<lparr>sq_ring := (sq_ring q)(sq_tail q := x), sq_tail := (sq_tail q + 1) mod MSG_NUM\<rparr>"
    have l: "sq_len ?q = Suc (sq_len q)" using ring_dist_Suc_tail[OF h t n] by (simp add: sq_len_def)
    have e: "(sq_head q + sq_len q) mod MSG_NUM = sq_tail q" using ring_dist_end[OF h t] by (simp add: sq_len_def)
    have "sq_tail q \<notin> set (ring_slots MSG_NUM (sq_head q) (sq_len q))"
      using ring_tail_not_in_slots[OF h sq_len_less[of q]] e by simp
    then have "sq_items ?q = sq_items q @ [x]" unfolding sq_items_def l by (simp add: ring_slots_snoc e)
    then show ?thesis using n h by (auto simp: msg_enqueue_def Let_def sq_wf_def)
  qed
  show "msg_enqueue (sq_head q) q x = None" if "length (sq_items q) = MSG_NUM - 1"
    using that ring_full_iff[OF h t] by (simp add: sq_items_def sq_len_def msg_enqueue_def Let_def)
  show "msg_dequeue (sq_tail q) q = None" if "sq_items q = []"
    using that ring_dist_eq_0[OF h t] by (simp add: sq_items_def sq_len_def ring_slots_def msg_dequeue_def)
  show "\<exists>q'. msg_dequeue (sq_tail q) q = Some (y, q') \<and> sq_wf q' \<and> sq_items q' = ys" if "sq_items q = y # ys" for y ys
  proof -
    have ne: "sq_head q \<noteq> sq_tail q" using that ring_dist_eq_0[OF h t] by (auto simp: sq_items_def sq_len_def)
    let ?q = "q\<lparr>sq_head := (sq_head q + 1) mod MSG_NUM\<rparr>"
    have l: "sq_len q = Suc (sq_len ?q)" using ring_dist_Suc_head[OF h t ne] by (simp add: sq_len_def)
    have "y = sq_ring q (sq_head q)" "ys = sq_items ?q" using that h unfolding sq_items_def l ring_slots_Cons by auto
    then show ?thesis using ne t by (auto simp: msg_dequeue_def Let_def sq_wf_def)
  qed
qed

theorem stale_index_harmless_witness:
  "msg_enqueue 0 \<lparr>sq_head = 2, sq_tail = 5, sq_ring = (\<lambda>_. \<lparr>m_size = 0, m_off = 0\<rparr>)\<rparr> \<lparr>m_size = 64, m_off = 4096\<rparr> =
     msg_enqueue 2 \<lparr>sq_head = 2, sq_tail = 5, sq_ring = (\<lambda>_. \<lparr>m_size = 0, m_off = 0\<rparr>)\<rparr> \<lparr>m_size = 64, m_off = 4096\<rparr>"
  using stale_index_harmless[of "\<lparr>sq_head = 2, sq_tail = 5, sq_ring = (\<lambda>_. \<lparr>m_size = 0, m_off = 0\<rparr>)\<rparr>" 0 4 "\<lparr>m_size = 64, m_off = 4096\<rparr>"]
  by (simp add: sq_wf_def stale_head_def stale_tail_def sq_len_def ring_dist_def)

section \<open>Messages between nodes\<close>

datatype mc_message_t = MC_MSG_GET | MC_MSG_SET | MC_MSG_GET_OK | MC_MSG_GET_FAIL | MC_MSG_SET_OK | MC_MSG_SET_FAIL
  | MC_MSG_PREPARE | MC_MSG_PREPARE_OK | MC_MSG_COMMIT | MC_MSG_COMMIT_OK | MC_MEM_REQ | MC_MEM_REPLY | MC_BEGIN | MC_EXIT

text \<open>
  A message with the bytes that follow the structure, which \<^verbatim>\<open>key_off\<close> and \<^verbatim>\<open>data_off\<close> locate:
  \<open>m_key\<close> is \<^verbatim>\<open>nkey\<close> bytes long, \<open>m_data\<close> holds \<^verbatim>\<open>nbytes\<close> bytes, and \<open>has_data\<close> says that the
  pointer \<^verbatim>\<open>data\<close> is not null.
\<close>

record mc_msg =
  mtype :: mc_message_t
  m_id :: nat
  m_hv :: u32
  m_key :: "u8 list"
  m_data :: "u8 list"
  m_nbytes :: nat
  has_data :: bool
  m_evict :: u32

record mc_net =
  recv_q :: "nat \<Rightarrow> nat \<Rightarrow> spsc_queue"
  msg_page :: "addr \<Rightarrow> mc_msg"

definition rpc_send_mc :: "nat \<Rightarrow> nat \<Rightarrow> nat \<Rightarrow> addr \<Rightarrow> mc_net \<Rightarrow> int \<times> mc_net" where
  "rpc_send_mc caller recv_node sz addr net =
     (let q = recv_q net recv_node caller
      in case msg_enqueue (sq_head q) q \<lparr>m_size = sz, m_off = addr\<rparr> of
           None \<Rightarrow> (- 1, net)
         | Some q' \<Rightarrow> (0, net\<lparr>recv_q := (recv_q net)(recv_node := (recv_q net recv_node)(caller := q'))\<rparr>))"

definition rpc_recv_ext_mc :: "nat \<Rightarrow> nat \<Rightarrow> mc_net \<Rightarrow> (addr \<times> mc_net) option" where
  "rpc_recv_ext_mc caller rcv net =
     (let q = recv_q net caller rcv
      in case msg_dequeue (sq_tail q) q of
           None \<Rightarrow> None
         | Some (meta, q') \<Rightarrow> Some (m_off meta, net\<lparr>recv_q := (recv_q net)(caller := (recv_q net caller)(rcv := q'))\<rparr>))"

text \<open>
  One round of polling, from the next node on around to the caller itself. \<open>None\<close> means that the
  round found nothing: a spinning receiver then polls again, one that does not spin returns \<^verbatim>\<open>NULL\<close>.
\<close>

fun poll_loop :: "nat list \<Rightarrow> nat \<Rightarrow> mc_net \<Rightarrow> (addr \<times> mc_net) option" where
  "poll_loop [] caller net = None"
| "poll_loop (i # is) caller net =
     (case rpc_recv_ext_mc caller i net of Some r \<Rightarrow> Some r | None \<Rightarrow> poll_loop is caller net)"

definition rpc_recv_mc :: "nat \<Rightarrow> mc_net \<Rightarrow> (addr \<times> mc_net) option" where
  "rpc_recv_mc caller net = poll_loop (map (\<lambda>k. (caller + k) mod NUM_NODE) [1..<NUM_NODE]) caller net"

text \<open>The pages of the messages: two per ordered pair of nodes, handed out in the order of the loops.\<close>

definition msg_buf_row :: "nat \<Rightarrow> (nat \<Rightarrow> nat \<Rightarrow> nat \<Rightarrow> addr) \<times> addr \<Rightarrow> (nat \<Rightarrow> nat \<Rightarrow> nat \<Rightarrow> addr) \<times> addr" where
  "msg_buf_row i = fold (\<lambda>j (buf, pos).
     (buf(i := (buf i)(j := ((buf i j)(0 := pos))(1 := pos + PAGE_SIZE))), pos + PAGE_SIZE + PAGE_SIZE)) [0..<NUM_NODE]"

definition rpc_init :: "nat \<Rightarrow> addr \<Rightarrow> (nat \<Rightarrow> nat \<Rightarrow> nat \<Rightarrow> addr) \<times> addr" where
  "rpc_init pool_sz addr = fold msg_buf_row [0..<NUM_NODE] (\<lambda>_ _ _. NULL, addr + round_up_to_page pool_sz)"

definition rpc_addr :: "(nat \<Rightarrow> nat \<Rightarrow> nat \<Rightarrow> addr) \<Rightarrow> nat \<Rightarrow> nat \<Rightarrow> nat \<Rightarrow> addr" where
  "rpc_addr msg_buf snd_node rcv idx = msg_buf rcv snd_node (idx mod 2)"

section \<open>Lemmas on the transport\<close>

lemma msg_buf_row_fold:
  "fold (\<lambda>j (buf, pos). (buf(i := (buf i)(j := ((buf i j)(0 := pos))(1 := pos + PAGE_SIZE))), pos + PAGE_SIZE + PAGE_SIZE)) [0..<n] (buf, pos) =
    ((\<lambda>i' j b. if i' = i \<and> j < n \<and> b < 2 then pos + PAGE_SIZE * (2 * j + b) else buf i' j b), pos + 2 * PAGE_SIZE * n)"
  by (induction n) (auto simp: fun_eq_iff less_Suc_eq numeral_2_eq_2)

lemma msg_buf_row_eq:
  "msg_buf_row i (buf, pos) =
    ((\<lambda>i' j b. if i' = i \<and> j < NUM_NODE \<and> b < 2 then pos + PAGE_SIZE * (2 * j + b) else buf i' j b), pos + 8 * PAGE_SIZE)"
  unfolding msg_buf_row_def msg_buf_row_fold by simp

lemma msg_buf_rows_fold:
  "fold msg_buf_row [0..<n] (buf, pos) =
    ((\<lambda>i j b. if i < n \<and> j < NUM_NODE \<and> b < 2 then pos + PAGE_SIZE * (2 * (NUM_NODE * i + j) + b) else buf i j b), pos + 8 * PAGE_SIZE * n)"
  by (induction n) (auto simp: msg_buf_row_eq fun_eq_iff less_Suc_eq)

lemma rpc_init_pages:
  assumes "i < NUM_NODE" and "j < NUM_NODE" and "b < 2"
  shows "fst (rpc_init psz addr) i j b = addr + round_up_to_page psz + PAGE_SIZE * (2 * (NUM_NODE * i + j) + b)"
  using assms by (simp add: rpc_init_def msg_buf_rows_fold)

text \<open>No two pages of messages overlap, and none overlaps the pool of rings before them.\<close>

theorem msg_pages_disjoint:
  assumes "psz < 2 ^ 32" and "i < NUM_NODE" "j < NUM_NODE" "b < 2" and "i' < NUM_NODE" "j' < NUM_NODE" "b' < 2"
    and "x < PAGE_SIZE" "x' < PAGE_SIZE" and "(i, j, b) \<noteq> (i', j', b')"
  shows "rpc_addr (fst (rpc_init psz addr)) j i b + x \<noteq> rpc_addr (fst (rpc_init psz addr)) j' i' b' + x' \<and>
    addr + psz \<le> rpc_addr (fst (rpc_init psz addr)) j i b"
proof -
  have "(i * NUM_NODE + j) * 2 + b \<noteq> (i' * NUM_NODE + j') * 2 + b'"
    using assms(10) unfolding radix_inj[OF assms(4,7)] radix_inj[OF assms(3,6)] by auto
  then have n: "((i * NUM_NODE + j) * 2 + b) * PAGE_SIZE + x \<noteq> ((i' * NUM_NODE + j') * 2 + b') * PAGE_SIZE + x'"
    unfolding radix_inj[OF assms(8,9)] by blast
  have p: "rpc_addr (fst (rpc_init psz addr)) l k c = addr + round_up_to_page psz + ((k * NUM_NODE + l) * 2 + c) * PAGE_SIZE"
    if "k < NUM_NODE" "l < NUM_NODE" "c < 2" for k l c
    using rpc_init_pages[OF that, of psz addr] that by (simp add: rpc_addr_def algebra_simps)
  have "psz \<le> round_up_to_page psz" by (rule round_up_to_page_bounds) (use assms(1) in simp)
  then show ?thesis unfolding p[OF assms(2-4)] p[OF assms(5-7)] using n by linarith
qed

theorem msg_pages_disjoint_witness:
  "rpc_addr (fst (rpc_init 40000 65536)) 1 0 1 + 4000 \<noteq> rpc_addr (fst (rpc_init 40000 65536)) 0 1 0 + 7 \<and>
   105536 \<le> rpc_addr (fst (rpc_init 40000 65536)) 1 0 1"
  using msg_pages_disjoint[of 40000 0 1 1 1 0 0 4000 7 65536] by simp

text \<open>A message sent over an empty transport is the next one that its receiver polls.\<close>

definition net_wf :: "mc_net \<Rightarrow> bool" where
  "net_wf net \<longleftrightarrow> (\<forall>r s. sq_wf (recv_q net r s))"

definition pending :: "mc_net \<Rightarrow> nat \<Rightarrow> nat \<Rightarrow> addr list" where
  "pending net r s = map m_off (sq_items (recv_q net r s))"

lemma rpc_send_mc_spec:
  assumes "net_wf net" and "length (pending net r s) < MSG_NUM - 1"
  obtains net' where "rpc_send_mc s r sz a net = (0, net')" "net_wf net'" "msg_page net' = msg_page net"
    "pending net' = (pending net)(r := (pending net r)(s := pending net r s @ [a]))"
proof -
  have "sq_wf (recv_q net r s)" "length (sq_items (recv_q net r s)) < MSG_NUM - 1" using assms by (auto simp: net_wf_def pending_def)
  then obtain q' where q: "msg_enqueue (sq_head (recv_q net r s)) (recv_q net r s) \<lparr>m_size = sz, m_off = a\<rparr> = Some q'"
      "sq_wf q'" "sq_items q' = sq_items (recv_q net r s) @ [\<lparr>m_size = sz, m_off = a\<rparr>]"
    using spsc.enq_room by blast
  show thesis
    by (rule that[of "net\<lparr>recv_q := (recv_q net)(r := (recv_q net r)(s := q'))\<rparr>"])
      (use q assms(1) in \<open>auto simp: rpc_send_mc_def net_wf_def pending_def fun_eq_iff\<close>)
qed

lemma rpc_recv_ext_none: "net_wf net \<Longrightarrow> pending net r s = [] \<Longrightarrow> rpc_recv_ext_mc r s net = None"
  using spsc.deq_empty[of "recv_q net r s"] by (simp add: rpc_recv_ext_mc_def net_wf_def pending_def)

lemma rpc_recv_ext_some:
  assumes "net_wf net" and "pending net r s = a # as"
  obtains net' where "rpc_recv_ext_mc r s net = Some (a, net')" "net_wf net'" "msg_page net' = msg_page net"
    "pending net' = (pending net)(r := (pending net r)(s := as))"
proof -
  obtain y ys where y: "sq_items (recv_q net r s) = y # ys" "a = m_off y" "as = map m_off ys" using assms(2) by (auto simp: pending_def)
  have "sq_wf (recv_q net r s)" using assms(1) by (simp add: net_wf_def)
  with y(1) obtain q' where q: "msg_dequeue (sq_tail (recv_q net r s)) (recv_q net r s) = Some (y, q')" "sq_wf q'" "sq_items q' = ys"
    using spsc.deq_front by blast
  show thesis
    by (rule that[of "net\<lparr>recv_q := (recv_q net)(r := (recv_q net r)(s := q'))\<rparr>"])
      (use q y assms(1) in \<open>auto simp: rpc_recv_ext_mc_def net_wf_def pending_def fun_eq_iff\<close>)
qed

lemma poll_loop_first:
  assumes "net_wf net" and "xs = us @ s # vs" and "\<And>u. u \<in> set us \<Longrightarrow> pending net r u = []" and "pending net r s = a # as"
  obtains net' where "poll_loop xs r net = Some (a, net')" "net_wf net'" "msg_page net' = msg_page net"
    "pending net' = (pending net)(r := (pending net r)(s := as))"
proof -
  obtain net' where n: "rpc_recv_ext_mc r s net = Some (a, net')" "net_wf net'" "msg_page net' = msg_page net"
    "pending net' = (pending net)(r := (pending net r)(s := as))" by (rule rpc_recv_ext_some[OF assms(1,4)])
  have "poll_loop (us @ s # vs) r net = Some (a, net')"
    using assms(3) n(1) rpc_recv_ext_none[OF assms(1)] by (induction us) auto
  then show thesis using that n assms(2) by blast
qed

lemma rpc_recv_mc_only:
  assumes "net_wf net" and "r < NUM_NODE" "s < NUM_NODE" "r \<noteq> s" and "pending net r s = a # as" and "\<And>u. u \<noteq> s \<Longrightarrow> pending net r u = []"
  obtains net' where "rpc_recv_mc r net = Some (a, net')" "net_wf net'" "msg_page net' = msg_page net"
    "pending net' = (pending net)(r := (pending net r)(s := as))"
proof -
  have "s \<in> set (map (\<lambda>k. (r + k) mod NUM_NODE) [1..<NUM_NODE])"
  proof -
    have "s = (r + (s + NUM_NODE - r) mod NUM_NODE) mod NUM_NODE" "(s + NUM_NODE - r) mod NUM_NODE \<in> {1..<NUM_NODE}"
      using assms(2-4) ring_dist_end[of r NUM_NODE s] ring_dist_eq_0[of r NUM_NODE s] ring_dist_less[of NUM_NODE r s]
      by (auto simp: ring_dist_def)
    then show ?thesis by auto
  qed
  then obtain us vs where d: "map (\<lambda>k. (r + k) mod NUM_NODE) [1..<NUM_NODE] = us @ s # vs" "s \<notin> set us"
    by (meson split_list_first)
  have e: "pending net r u = []" if "u \<in> set us" for u using that d(2) by (intro assms(6)) auto
  show thesis by (rule poll_loop_first[OF assms(1) d(1) e assms(5)]) (use that in \<open>auto simp: rpc_recv_mc_def\<close>)
qed

text \<open>A transport with no message under way, and one with a single message.\<close>

definition quiet :: "mc_net \<Rightarrow> bool" where
  "quiet net \<longleftrightarrow> net_wf net \<and> (\<forall>r s. pending net r s = [])"

definition only_msg :: "mc_net \<Rightarrow> nat \<Rightarrow> nat \<Rightarrow> addr \<Rightarrow> bool" where
  "only_msg net r s a \<longleftrightarrow> net_wf net \<and> (\<forall>r' s'. pending net r' s' = (if r' = r \<and> s' = s then [a] else []))"

lemma quiet_send:
  assumes "quiet net"
  obtains net' where "rpc_send_mc s r sz a net = (0, net')" "only_msg net' r s a" "msg_page net' = msg_page net"
proof -
  have "net_wf net" "length (pending net r s) < MSG_NUM - 1" using assms by (auto simp: quiet_def)
  then obtain net' where n: "rpc_send_mc s r sz a net = (0, net')" "net_wf net'" "msg_page net' = msg_page net"
      "pending net' = (pending net)(r := (pending net r)(s := pending net r s @ [a]))"
    using rpc_send_mc_spec by metis
  then have "only_msg net' r s a" using assms by (auto simp: only_msg_def quiet_def)
  with n that show thesis by blast
qed

lemma only_recv:
  assumes "only_msg net r s a" and "r < NUM_NODE" "s < NUM_NODE" "r \<noteq> s"
  obtains net' where "rpc_recv_mc r net = Some (a, net')" "quiet net'" "msg_page net' = msg_page net"
proof -
  have p: "net_wf net" "pending net r s = [a]" "\<And>u. u \<noteq> s \<Longrightarrow> pending net r u = []"
    using assms(1) by (auto simp: only_msg_def)
  obtain net' where n: "rpc_recv_mc r net = Some (a, net')" "net_wf net'" "msg_page net' = msg_page net"
      "pending net' = (pending net)(r := (pending net r)(s := []))"
    by (rule rpc_recv_mc_only[OF p(1) assms(2-4) p(2,3)])
  then have "quiet net'" using assms(1) by (auto simp: only_msg_def quiet_def)
  with n that show thesis by blast
qed

text \<open>The zeroed shared memory at the start.\<close>

definition blank_msg :: mc_msg where
  "blank_msg = \<lparr>mtype = MC_MSG_GET, m_id = 0, m_hv = 0, m_key = [], m_data = [], m_nbytes = 0, has_data = False, m_evict = 0\<rparr>"

definition zero_net :: mc_net where
  "zero_net = \<lparr>recv_q = (\<lambda>_ _. \<lparr>sq_head = 0, sq_tail = 0, sq_ring = (\<lambda>_. \<lparr>m_size = 0, m_off = 0\<rparr>)\<rparr>), msg_page = (\<lambda>_. blank_msg)\<rparr>"

lemma quiet_zero_net: "quiet zero_net"
  by (simp add: quiet_def zero_net_def net_wf_def sq_wf_def pending_def sq_items_def sq_len_def)

end
