(* ===== verification/Mc_Store.thy ===== *)
theory Mc_Store
  imports Kv_Map
begin

unbundle bit_operations_syntax

text \<open>
  The item store of the key-value servers: the chained hash table of
  \<^verbatim>\<open>mc_code/2pc_mc/servers/assoc.c\<close> and the items of \<^verbatim>\<open>mc_code/2pc_mc/servers/items.c\<close>. Items are
  records in a store indexed by address; the key, the suffix line and the value lie one after
  the other in the byte array \<open>body\<close> behind the header, where the macros \<^verbatim>\<open>ITEM_key\<close>,
  \<^verbatim>\<open>ITEM_suffix\<close> and \<^verbatim>\<open>ITEM_data\<close> find them.

  The slab allocator behind the items enters with its contract: \<open>pool\<close> holds the objects it will
  hand out next, and a freed object returns to it. A key is the list of its bytes, so that its
  length is the argument \<^verbatim>\<open>nkey\<close> of the code; the field \<^verbatim>\<open>nkey\<close> of an item has eight bits.
\<close>

section \<open>Data\<close>

abbreviation HASHPOWER_DEFAULT :: nat where "HASHPOWER_DEFAULT \<equiv> 22"
abbreviation KEY_LENGTH :: nat where "KEY_LENGTH \<equiv> 16"
abbreviation V_LENGTH :: nat where "V_LENGTH \<equiv> 32"

record item =
  it_next :: addr
  it_prev :: addr
  h_next :: addr
  recency :: nat
  it_hv :: u32
  exptime :: nat
  nbytes :: nat
  refcount :: nat
  nsuffix :: nat
  it_flags :: u8
  slabs_clsid :: nat
  nkey :: nat
  body :: "nat \<Rightarrow> u8"

record mc_store =
  htable :: "nat \<Rightarrow> addr"
  items :: "addr \<Rightarrow> item"
  pool :: "addr list"

abbreviation ITEM_LINKED :: u8 where "ITEM_LINKED \<equiv> 1"
abbreviation ITEM_CAS :: u8 where "ITEM_CAS \<equiv> 2"
abbreviation ITEM_SLABBED :: u8 where "ITEM_SLABBED \<equiv> 4"

definition bucket :: "u32 \<Rightarrow> nat" where
  "bucket hv = unat (hv AND mask HASHPOWER_DEFAULT)"

definition ITEM_key :: "item \<Rightarrow> nat" where
  "ITEM_key it = (if it_flags it AND ITEM_CAS \<noteq> 0 then 8 else 0)"

definition ITEM_suffix :: "item \<Rightarrow> nat" where
  "ITEM_suffix it = nkey it + 1 + (if it_flags it AND ITEM_CAS \<noteq> 0 then 8 else 0)"

definition ITEM_data :: "item \<Rightarrow> nat" where
  "ITEM_data it = nkey it + 1 + nsuffix it + (if it_flags it AND ITEM_CAS \<noteq> 0 then 8 else 0)"

definition read_bytes :: "(nat \<Rightarrow> u8) \<Rightarrow> nat \<Rightarrow> nat \<Rightarrow> u8 list" where
  "read_bytes f off n = map (\<lambda>i. f (off + i)) [0..<n]"

definition write_bytes :: "(nat \<Rightarrow> u8) \<Rightarrow> nat \<Rightarrow> u8 list \<Rightarrow> nat \<Rightarrow> u8" where
  "write_bytes f off bs = (\<lambda>i. if off \<le> i \<and> i < off + length bs then bs ! (i - off) else f i)"

definition upd_item :: "addr \<Rightarrow> (item \<Rightarrow> item) \<Rightarrow> mc_store \<Rightarrow> mc_store" where
  "upd_item a f st = st\<lparr>items := (items st)(a := f (items st a))\<rparr>"

section \<open>Hash table\<close>

definition assoc_init :: "mc_store \<Rightarrow> mc_store" where
  "assoc_init st = st\<lparr>htable := (\<lambda>_. NULL)\<rparr>"

definition key_eq :: "u8 list \<Rightarrow> item \<Rightarrow> bool" where
  "key_eq key it \<longleftrightarrow> length key = nkey it \<and> read_bytes (body it) (ITEM_key it) (length key) = key"

fun find_loop :: "nat \<Rightarrow> addr \<Rightarrow> u8 list \<Rightarrow> mc_store \<Rightarrow> addr result" where
  "find_loop 0 it key st = Inl Out_of_fuel"
| "find_loop (Suc f) it key st =
     (if it = NULL then Inr NULL
      else if key_eq key (items st it) then Inr it
      else find_loop f (h_next (items st it)) key st)"

definition assoc_find :: "nat \<Rightarrow> u8 list \<Rightarrow> u32 \<Rightarrow> mc_store \<Rightarrow> addr result" where
  "assoc_find fuel key hv st = find_loop fuel (htable st (bucket hv)) key st"

text \<open>The address of a link: the head of a bucket or the chain field of an item.\<close>

datatype link = Head nat | Chain addr

fun link_get :: "link \<Rightarrow> mc_store \<Rightarrow> addr" where
  "link_get (Head b) st = htable st b"
| "link_get (Chain a) st = h_next (items st a)"

fun link_set :: "link \<Rightarrow> addr \<Rightarrow> mc_store \<Rightarrow> mc_store" where
  "link_set (Head b) v st = st\<lparr>htable := (htable st)(b := v)\<rparr>"
| "link_set (Chain a) v st = upd_item a (\<lambda>it. it\<lparr>h_next := v\<rparr>) st"

fun before_loop :: "nat \<Rightarrow> link \<Rightarrow> u8 list \<Rightarrow> mc_store \<Rightarrow> link result" where
  "before_loop 0 pos key st = Inl Out_of_fuel"
| "before_loop (Suc f) pos key st =
     (let a = link_get pos st
      in if a \<noteq> NULL \<and> \<not> key_eq key (items st a) then before_loop f (Chain a) key st else Inr pos)"

definition hashitem_before :: "nat \<Rightarrow> u8 list \<Rightarrow> u32 \<Rightarrow> mc_store \<Rightarrow> link result" where
  "hashitem_before fuel key hv st = before_loop fuel (Head (bucket hv)) key st"

definition assoc_insert :: "addr \<Rightarrow> u32 \<Rightarrow> mc_store \<Rightarrow> mc_store" where
  "assoc_insert it hv st =
     (let st = upd_item it (\<lambda>i. i\<lparr>h_next := htable st (bucket hv)\<rparr>) st
      in st\<lparr>htable := (htable st)(bucket hv := it)\<rparr>)"

definition assoc_delete :: "nat \<Rightarrow> u8 list \<Rightarrow> u32 \<Rightarrow> mc_store \<Rightarrow> mc_store result" where
  "assoc_delete fuel key hv st =
     bindE (hashitem_before fuel key hv st) (\<lambda>before.
     let a = link_get before st
     in bindE (assertE (a \<noteq> NULL)) (\<lambda>_. Inr (link_set before (h_next (items st a)) st)))"

text \<open>
  The search for a bucket to evict from steps through the buckets 1 to \<open>2 ^ 22 - 1\<close>; \<^verbatim>\<open>hv + 1\<close>
  wraps at 32 bits before the remainder is taken.
\<close>

definition evict_next :: "nat \<Rightarrow> nat" where
  "evict_next i = ((i + 1) mod 2 ^ 32) mod (2 ^ HASHPOWER_DEFAULT - 1) + 1"

fun evict_loop :: "nat \<Rightarrow> nat \<Rightarrow> nat \<Rightarrow> mc_store \<Rightarrow> nat result" where
  "evict_loop 0 i hv st = Inl Out_of_fuel"
| "evict_loop (Suc f) i hv st =
     (if i = hv \<or> htable st i \<noteq> NULL then Inr i else evict_loop f (evict_next i) hv st)"

definition assoc_evict :: "nat \<Rightarrow> nat \<Rightarrow> mc_store \<Rightarrow> nat result" where
  "assoc_evict fuel hv st = evict_loop fuel (evict_next hv) hv st"

definition assoc_hv2it :: "nat \<Rightarrow> mc_store \<Rightarrow> addr" where
  "assoc_hv2it hv st = htable st hv"

section \<open>Items\<close>

text \<open>\<^verbatim>\<open>snprintf\<close> with the format of two decimal numbers.\<close>

fun dec_digits :: "nat \<Rightarrow> nat \<Rightarrow> u8 list" where
  "dec_digits 0 n = []"
| "dec_digits (Suc f) n = (if n < 10 then [of_nat (48 + n)] else dec_digits f (n div 10) @ [of_nat (48 + n mod 10)])"

definition dec :: "int \<Rightarrow> u8 list" where
  "dec z = (if z < 0 then 45 # dec_digits 11 (nat (- z)) else dec_digits 11 (nat z))"

definition item_make_header :: "nat \<Rightarrow> nat \<Rightarrow> int \<Rightarrow> nat \<Rightarrow> u8 list \<times> nat \<times> nat" where
  "item_make_header sizeof_item nk flags nb =
     (let suffix = 32 # dec flags @ 32 # dec (int nb - 2) @ [13, 10]; nsuffix = length suffix mod 256
      in (suffix, nsuffix, sizeof_item + nk + nsuffix + nb))"

definition ps_slab_alloc_item :: "mc_store \<Rightarrow> addr \<times> mc_store" where
  "ps_slab_alloc_item st = (case pool st of [] \<Rightarrow> (NULL, st) | a # as \<Rightarrow> (a, st\<lparr>pool := as\<rparr>))"

definition ps_slab_free_item :: "addr \<Rightarrow> mc_store \<Rightarrow> mc_store" where
  "ps_slab_free_item a st = st\<lparr>pool := a # pool st\<rparr>"

definition init_item :: "u8 list \<Rightarrow> int \<Rightarrow> nat \<Rightarrow> item \<Rightarrow> item" where
  "init_item key flags nb it =
     (let (suffix, ns, ntotal) = item_make_header 0 (length key + 1) flags nb;
          it = it\<lparr>it_next := 0, it_prev := 0, h_next := 0, slabs_clsid := 0, it_flags := 0,
                  nkey := length key mod 256, nbytes := nb\<rparr>;
          it = it\<lparr>body := write_bytes (body it) (ITEM_key it) key, exptime := 0\<rparr>;
          it = it\<lparr>body := write_bytes (body it) (ITEM_suffix it) (take ns suffix)\<rparr>
      in it\<lparr>nsuffix := ns\<rparr>)"

definition do_item_alloc :: "u8 list \<Rightarrow> int \<Rightarrow> nat \<Rightarrow> mc_store \<Rightarrow> (addr \<times> mc_store) result" where
  "do_item_alloc key flags nb st =
     (let (it, st) = ps_slab_alloc_item st
      in if it = NULL then Inr (NULL, st)
         else bindE (assertE (slabs_clsid (items st it) = 0)) (\<lambda>_. Inr (it, upd_item it (init_item key flags nb) st)))"

definition item_free :: "addr \<Rightarrow> mc_store \<Rightarrow> mc_store" where
  "item_free it st = ps_slab_free_item it (upd_item it (\<lambda>i. i\<lparr>slabs_clsid := 0\<rparr>) st)"

definition do_item_link :: "addr \<Rightarrow> u32 \<Rightarrow> mc_store \<Rightarrow> mc_store result" where
  "do_item_link it hv st =
     bindE (assertE (it_flags (items st it) AND (ITEM_LINKED OR ITEM_SLABBED) = 0)) (\<lambda>_.
     Inr (assoc_insert it hv (upd_item it (\<lambda>i. i\<lparr>it_flags := it_flags i OR ITEM_LINKED\<rparr>) st)))"

definition do_item_remove_free :: "addr \<Rightarrow> mc_store \<Rightarrow> mc_store result" where
  "do_item_remove_free it st =
     bindE (assertE (it_flags (items st it) AND ITEM_SLABBED = 0)) (\<lambda>_. Inr (item_free it st))"

definition do_item_remove :: "addr \<Rightarrow> mc_store \<Rightarrow> mc_store result" where
  "do_item_remove it st =
     bindE (assertE (it_flags (items st it) AND ITEM_SLABBED = 0)) (\<lambda>_.
     bindE (assertE (refcount (items st it) = 0)) (\<lambda>_. Inr (item_free it st)))"

definition item_key_bytes :: "item \<Rightarrow> u8 list" where
  "item_key_bytes it = read_bytes (body it) (ITEM_key it) (nkey it)"

definition do_item_unlink :: "nat \<Rightarrow> addr \<Rightarrow> u32 \<Rightarrow> mc_store \<Rightarrow> mc_store result" where
  "do_item_unlink fuel it hv st =
     bindE (assertE (it_flags (items st it) AND ITEM_LINKED \<noteq> 0)) (\<lambda>_.
     let st = upd_item it (\<lambda>i. i\<lparr>it_flags := it_flags i AND NOT ITEM_LINKED\<rparr>) st
     in bindE (assoc_delete fuel (item_key_bytes (items st it)) hv st) (\<lambda>st. do_item_remove_free it st))"

definition do_item_replace :: "nat \<Rightarrow> addr \<Rightarrow> addr \<Rightarrow> u32 \<Rightarrow> mc_store \<Rightarrow> mc_store result" where
  "do_item_replace fuel old new hv st =
     bindE (assertE (it_flags (items st old) AND ITEM_LINKED \<noteq> 0)) (\<lambda>_.
     let st = upd_item old (\<lambda>i. i\<lparr>it_flags := it_flags i AND NOT ITEM_LINKED\<rparr>) st
     in bindE (assoc_delete fuel (item_key_bytes (items st old)) hv st) (\<lambda>st.
        bindE (do_item_link new hv st) (\<lambda>st. do_item_remove_free old st)))"

text \<open>\<^verbatim>\<open>do_item_update\<close> returns at once: the headers define \<^verbatim>\<open>NO_REPLACEMENT\<close>.\<close>

definition do_item_update :: "addr \<Rightarrow> mc_store \<Rightarrow> mc_store" where
  "do_item_update it st = st"

definition do_item_get :: "nat \<Rightarrow> u8 list \<Rightarrow> u32 \<Rightarrow> mc_store \<Rightarrow> addr result" where
  "do_item_get fuel key hv st = assoc_find fuel key hv st"

definition do_item_touch :: "nat \<Rightarrow> u8 list \<Rightarrow> nat \<Rightarrow> u32 \<Rightarrow> mc_store \<Rightarrow> (addr \<times> mc_store) result" where
  "do_item_touch fuel key expt hv st =
     bindE (do_item_get fuel key hv st) (\<lambda>it.
     Inr (it, if it = NULL then st else upd_item it (\<lambda>i. i\<lparr>exptime := expt\<rparr>) st))"

text \<open>\<^verbatim>\<open>memcpy(ITEM_data(it), data, nbytes)\<close>, and the bytes that a reply copies out.\<close>

definition set_data :: "addr \<Rightarrow> u8 list \<Rightarrow> mc_store \<Rightarrow> mc_store" where
  "set_data a data st = upd_item a (\<lambda>i. i\<lparr>body := write_bytes (body i) (ITEM_data i) data\<rparr>) st"

definition item_value :: "item \<Rightarrow> u8 list" where
  "item_value it = read_bytes (body it) (ITEM_data it) (nbytes it - 2)"

section \<open>The table behind the chains\<close>

text \<open>
  The meaning of the hash table: every bucket is a list of keys with the address of their item. As
  a map it is indexed by bucket and key.
\<close>

type_synonym tbl = "nat \<Rightarrow> (u8 list \<times> addr) list"

definition tbl_ok :: "tbl \<Rightarrow> bool" where
  "tbl_ok t \<longleftrightarrow> (\<forall>b. distinct (map fst (t b)))"

definition tbl_map :: "tbl \<Rightarrow> nat \<times> u8 list \<Rightarrow> addr option" where
  "tbl_map t bk = map_of (t (fst bk)) (snd bk)"

definition tbl_put :: "nat \<times> u8 list \<Rightarrow> addr \<Rightarrow> tbl \<Rightarrow> tbl" where
  "tbl_put bk a t = t(fst bk := (snd bk, a) # t (fst bk))"

definition tbl_rem :: "nat \<times> u8 list \<Rightarrow> tbl \<Rightarrow> tbl" where
  "tbl_rem bk t = t(fst bk := filter (\<lambda>x. fst x \<noteq> snd bk) (t (fst bk)))"

lemma map_of_filter_key: "map_of (filter (\<lambda>x. fst x \<noteq> k) xs) = (map_of xs)(k := None)"
  by (induction xs) auto

interpretation ht: kv_map tbl_ok tbl_map tbl_put tbl_rem
proof unfold_locales
  fix t :: tbl and bk v
  assume "tbl_ok t"
  then show "tbl_ok (tbl_rem bk t)"
    by (auto simp: tbl_ok_def tbl_rem_def distinct_map_filter)
  show "tbl_map (tbl_rem bk t) = (tbl_map t)(bk := None)"
    by (cases bk) (auto simp: tbl_map_def tbl_rem_def fun_eq_iff map_of_filter_key)
  assume "tbl_map t bk = None"
  with \<open>tbl_ok t\<close> show "tbl_ok (tbl_put bk v t)"
    by (auto simp: tbl_ok_def tbl_put_def tbl_map_def map_of_eq_None_iff)
  show "tbl_map (tbl_put bk v t) = (tbl_map t)(bk \<mapsto> v)"
    by (cases bk) (auto simp: tbl_map_def tbl_put_def fun_eq_iff)
qed

fun chain :: "mc_store \<Rightarrow> addr \<Rightarrow> addr list \<Rightarrow> bool" where
  "chain st a [] \<longleftrightarrow> a = NULL"
| "chain st a (x # xs) \<longleftrightarrow> a = x \<and> x \<noteq> NULL \<and> chain st (h_next (items st x)) xs"

definition linked :: "tbl \<Rightarrow> addr set" where
  "linked t = (\<Union>b. snd ` set (t b))"

definition table_inv :: "tbl \<Rightarrow> mc_store \<Rightarrow> bool" where
  "table_inv t st \<longleftrightarrow> tbl_ok t \<and>
     (\<forall>b. chain st (htable st b) (map snd (t b))) \<and>
     (\<forall>b k a. (k, a) \<in> set (t b) \<longrightarrow> item_key_bytes (items st a) = k) \<and>
     (\<forall>b b'. b \<noteq> b' \<longrightarrow> snd ` set (t b) \<inter> snd ` set (t b') = {})"

definition store_inv :: "tbl \<Rightarrow> mc_store \<Rightarrow> bool" where
  "store_inv t st \<longleftrightarrow> table_inv t st \<and> (\<forall>a \<in> linked t. it_flags (items st a) = ITEM_LINKED) \<and>
     distinct (pool st) \<and> NULL \<notin> set (pool st) \<and> set (pool st) \<inter> linked t = {} \<and>
     (\<forall>a \<in> set (pool st). slabs_clsid (items st a) = 0)"

lemma table_invD:
  assumes "table_inv t st"
  shows "tbl_ok t" "chain st (htable st b) (map snd (t b))"
    "(k, a) \<in> set (t b) \<Longrightarrow> item_key_bytes (items st a) = k"
    "a \<in> snd ` set (t b) \<Longrightarrow> a \<in> snd ` set (t b') \<Longrightarrow> b = b'"
  using assms unfolding table_inv_def by (blast, blast, blast, meson disjoint_iff)

lemma store_invD:
  assumes "store_inv t st"
  shows "table_inv t st" "a \<in> linked t \<Longrightarrow> it_flags (items st a) = ITEM_LINKED"
    "distinct (pool st)" "NULL \<notin> set (pool st)" "set (pool st) \<inter> linked t = {}"
    "a \<in> set (pool st) \<Longrightarrow> slabs_clsid (items st a) = 0"
  using assms unfolding store_inv_def by blast+

lemma key_eq_iff: "key_eq key it \<longleftrightarrow> item_key_bytes it = key"
  by (auto simp: key_eq_def item_key_bytes_def read_bytes_def)

lemma items_upd_item [simp]: "items (upd_item a f st) = (items st)(a := f (items st a))"
  by (simp add: upd_item_def)

lemma htable_upd_item [simp]: "htable (upd_item a f st) = htable st"
  by (simp add: upd_item_def)

lemma pool_upd_item [simp]: "pool (upd_item a f st) = pool st"
  by (simp add: upd_item_def)

lemma chain_cong:
  "(\<And>x. x \<in> set xs \<Longrightarrow> h_next (items st x) = h_next (items st' x)) \<Longrightarrow> chain st a xs = chain st' a xs"
  by (induction xs arbitrary: a) auto

lemma chain_pool [simp]: "chain (st\<lparr>pool := p\<rparr>) a xs = chain st a xs"
  by (rule chain_cong) simp

lemma chain_htable [simp]: "chain (st\<lparr>htable := h\<rparr>) a xs = chain st a xs"
  by (rule chain_cong) simp

lemma upd_item_cong: "f (items st a) = g (items st a) \<Longrightarrow> upd_item a f st = upd_item a g st"
  by (simp add: upd_item_def)

lemma chain_not_null: "chain st a xs \<Longrightarrow> NULL \<notin> set xs"
  by (induction xs arbitrary: a) auto

lemma distinct_addrs:
  assumes "table_inv t st"
  shows "distinct (map snd (t b))"
proof -
  have "inj_on snd (set (t b))"
  proof (rule inj_onI)
    fix x y assume xy: "x \<in> set (t b)" "y \<in> set (t b)" "snd x = snd y"
    then have "fst x = fst y"
      using table_invD(3)[OF assms, of "fst x" "snd x"] table_invD(3)[OF assms, of "fst y" "snd y"]
      by (metis prod.collapse)
    with xy(3) show "x = y" by (simp add: prod_eq_iff)
  qed
  moreover have "distinct (t b)" using table_invD(1)[OF assms] by (auto simp: tbl_ok_def distinct_map)
  ultimately show ?thesis by (simp add: distinct_map)
qed

section \<open>Refinement of the table operations\<close>

lemma find_loop_spec:
  assumes "chain st a (map snd kas)" and "length kas < f"
    and "\<And>k a. (k, a) \<in> set kas \<Longrightarrow> item_key_bytes (items st a) = k"
  shows "find_loop f a key st = Inr (case map_of kas key of None \<Rightarrow> NULL | Some a \<Rightarrow> a)"
  using assms
proof (induction kas arbitrary: a f)
  case Nil
  then show ?case by (cases f) auto
next
  case (Cons ka kas)
  obtain k x where ka: "ka = (k, x)" by (cases ka)
  obtain g where f: "f = Suc g" using Cons.prems(2) by (cases f) auto
  have "item_key_bytes (items st x) = k" using Cons.prems(3) ka by simp
  moreover have "find_loop g (h_next (items st x)) key st = Inr (case map_of kas key of None \<Rightarrow> NULL | Some a \<Rightarrow> a)"
    using Cons.prems ka f by (intro Cons.IH) auto
  ultimately show ?case using Cons.prems(1) by (auto simp: ka f key_eq_iff)
qed

lemma assoc_find_spec:
  assumes "table_inv t st" and "length (t (bucket hv)) < fuel"
  shows "assoc_find fuel key hv st = Inr (case tbl_map t (bucket hv, key) of None \<Rightarrow> NULL | Some a \<Rightarrow> a)"
  using find_loop_spec[OF table_invD(2)[OF assms(1)] assms(2) table_invD(3)[OF assms(1)]]
  by (simp add: assoc_find_def tbl_map_def)

lemma found_linked:
  assumes "table_inv t st" and "tbl_map t (b, key) = Some a"
  shows "(key, a) \<in> set (t b)" "a \<in> linked t" "a \<noteq> NULL"
proof -
  show m: "(key, a) \<in> set (t b)" using assms(2) by (auto simp: tbl_map_def dest: map_of_SomeD)
  then show "a \<in> linked t" by (force simp: linked_def)
  have "a \<in> set (map snd (t b))" using m by force
  then show "a \<noteq> NULL" using chain_not_null[OF table_invD(2)[OF assms(1)]] by metis
qed

lemma before_loop_spec:
  assumes "chain st (link_get pos st) (map snd kas)" and "length kas < f"
    and "\<And>k a. (k, a) \<in> set kas \<Longrightarrow> item_key_bytes (items st a) = k"
    and "kas = xs @ (key, x) # ys" and "key \<notin> fst ` set xs"
  shows "before_loop f pos key st = Inr (if xs = [] then pos else Chain (snd (last xs)))"
  using assms
proof (induction xs arbitrary: pos kas f)
  case Nil
  then have "item_key_bytes (items st x) = key" "link_get pos st = x" by auto
  then show ?case using Nil.prems(2) by (cases f) (auto simp: key_eq_iff Let_def)
next
  case (Cons kx xs)
  obtain k y where kx: "kx = (k, y)" by (cases kx)
  obtain g where f: "f = Suc g" using Cons.prems(2) by (cases f) auto
  have y: "link_get pos st = y" "y \<noteq> NULL" "item_key_bytes (items st y) = k" "k \<noteq> key"
    using Cons.prems kx by auto
  have "before_loop g (Chain y) key st = Inr (if xs = [] then Chain y else Chain (snd (last xs)))"
    using Cons.prems kx f by (intro Cons.IH[of "Chain y" "xs @ (key, x) # ys"]) auto
  then show ?case by (simp add: f y key_eq_iff kx)
qed

text \<open>Cutting an item out of a chain.\<close>

lemma chain_cut:
  assumes "chain st a (xs @ x # ys)" and "distinct (xs @ x # ys)" and "xs \<noteq> []"
  shows "chain (upd_item (last xs) (\<lambda>i. i\<lparr>h_next := h_next (items st x)\<rparr>) st) a (xs @ ys)"
  using assms
proof (induction xs arbitrary: a)
  case (Cons y zs)
  let ?st = "upd_item (last (y # zs)) (\<lambda>i. i\<lparr>h_next := h_next (items st x)\<rparr>) st"
  show ?case
  proof (cases "zs = []")
    case True
    with Cons.prems have c: "chain st (h_next (items st x)) ys" "y \<notin> set ys" by auto
    have "chain ?st (h_next (items st x)) ys = chain st (h_next (items st x)) ys"
      using c(2) True by (intro chain_cong) auto
    with c True Cons.prems show ?thesis by simp
  next
    case False
    then have "chain ?st (h_next (items st y)) (zs @ ys)" "last zs \<noteq> y"
      using Cons.IH[of "h_next (items st y)"] Cons.prems by (auto dest: last_in_set)
    with False Cons.prems show ?thesis by simp
  qed
qed simp

lemma chain_last: "chain st a (xs @ x # ys) \<Longrightarrow> xs \<noteq> [] \<Longrightarrow> h_next (items st (last xs)) = x"
  by (induction xs arbitrary: a) (auto split: if_splits)

lemma chain_mid_not_null: "chain st a (xs @ x # ys) \<Longrightarrow> x \<noteq> NULL"
  using chain_not_null by fastforce

lemma filter_out_key:
  assumes "distinct (map fst (xs @ (k, x) # ys))"
  shows "filter (\<lambda>z. fst z \<noteq> k) (xs @ (k, x) # ys) = xs @ ys"
proof -
  have "filter (\<lambda>z. fst z \<noteq> k) xs = xs" "filter (\<lambda>z. fst z \<noteq> k) ys = ys"
    using assms by (auto simp: filter_id_conv)
  then show ?thesis by simp
qed

lemma linkedI: "(k, a) \<in> set (t b) \<Longrightarrow> a \<in> linked t"
  by (force simp: linked_def)

lemma linked_alt: "linked t = {a. \<exists>b k. (k, a) \<in> set (t b)}"
  by (force simp: linked_def)

lemma set_tbl_rem: "(k, a) \<in> set (tbl_rem bk t b) \<longleftrightarrow> (k, a) \<in> set (t b) \<and> (b, k) \<noteq> bk"
  by (cases bk) (auto simp: tbl_rem_def)

lemma linked_rem:
  assumes "table_inv t st" and "tbl_map t bk = Some x"
  shows "linked (tbl_rem bk t) = linked t - {x}"
proof -
  obtain b k where bk: "bk = (b, k)" by (cases bk)
  have x: "(k, x) \<in> set (t b)" using found_linked(1) assms bk by blast
  have only: "b' = b \<and> k' = k" if m: "(k', x) \<in> set (t b')" for b' k'
  proof
    show "b' = b" using table_invD(4)[OF assms(1), of x b' b] m x by (metis image_eqI snd_conv)
    show "k' = k" using table_invD(3)[OF assms(1)] m x by metis
  qed
  have "a = x" if "(k, a) \<in> set (t b)" for a
    using that x table_invD(1)[OF assms(1)] by (metis eq_key_imp_eq_value tbl_ok_def)
  then have "(k', a) \<in> set (tbl_rem bk t b') \<longleftrightarrow> (k', a) \<in> set (t b') \<and> a \<noteq> x" for k' a b'
    using only[of k' b'] unfolding set_tbl_rem bk by (metis prod.inject)
  then show ?thesis by (simp add: linked_alt set_eq_iff)
qed

lemma assoc_delete_spec:
  assumes inv: "table_inv t st" and len: "length (t (bucket hv)) < fuel"
    and found: "tbl_map t (bucket hv, key) = Some x"
  shows "\<exists>st'. assoc_delete fuel key hv st = Inr st' \<and>
    (\<forall>b. chain st' (htable st' b) (map snd (tbl_rem (bucket hv, key) t b))) \<and> pool st' = pool st \<and>
    (\<forall>a. \<exists>n. items st' a = items st a\<lparr>h_next := n\<rparr>) \<and> (\<forall>a. a \<notin> linked t \<longrightarrow> items st' a = items st a)"
proof -
  let ?b = "bucket hv"
  obtain xs ys where split: "t ?b = xs @ (key, x) # ys"
    using found_linked(1)[OF inv found] by (meson split_list)
  have dk: "distinct (map fst (t ?b))" using table_invD(1)[OF inv] by (simp add: tbl_ok_def)
  have new: "tbl_rem (?b, key) t ?b = xs @ ys"
    using filter_out_key[of xs key x ys] dk by (simp add: tbl_rem_def split)
  have old: "tbl_rem (?b, key) t b = t b" if "b \<noteq> ?b" for b using that by (simp add: tbl_rem_def)
  let ?pos = "if xs = [] then Head ?b else Chain (snd (last xs))"
  have bef: "hashitem_before fuel key hv st = Inr ?pos"
    unfolding hashitem_before_def
    using table_invD(2)[OF inv, of ?b] dk
    by (intro before_loop_spec[OF _ len table_invD(3)[OF inv, where b = ?b] split]) (auto simp: split)
  have c: "chain st (htable st ?b) (map snd xs @ x # map snd ys)"
    using table_invD(2)[OF inv, of ?b] by (simp add: split)
  have d: "distinct (map snd xs @ x # map snd ys)" using distinct_addrs[OF inv, of ?b] by (simp add: split)
  have get: "link_get ?pos st = x" "x \<noteq> NULL"
    using chain_last[OF c] chain_mid_not_null[OF c] c by (auto simp: last_map)
  let ?st = "link_set ?pos (h_next (items st x)) st"
  have run: "assoc_delete fuel key hv st = Inr ?st"
    using get by (simp add: assoc_delete_def bef)
  have lastin: "snd (last xs) \<in> snd ` set (t ?b)" if "xs \<noteq> []" using that by (auto simp: split)
  have "chain ?st (htable ?st b) (map snd (tbl_rem (?b, key) t b))" for b
  proof (cases "b = ?b")
    case True
    then show ?thesis
      using chain_cut[OF c d] c True by (cases "xs = []") (simp_all add: new last_map)
  next
    case False
    have "snd (last xs) \<notin> snd ` set (t b)" if "xs \<noteq> []"
      using lastin[OF that] table_invD(4)[OF inv] False by blast
    then have "h_next (items ?st a) = h_next (items st a)" if "a \<in> set (map snd (t b))" for a
      using that by (cases "xs = []") (simp_all add: fun_upd_def split: if_splits, blast)
    then have "chain ?st (htable st b) (map snd (t b)) = chain st (htable st b) (map snd (t b))"
      by (rule chain_cong)
    then have "chain ?st (htable st b) (map snd (t b))" using table_invD(2)[OF inv] by blast
    moreover have "htable ?st b = htable st b" using False by simp
    ultimately show ?thesis by (simp only: old[OF False])
  qed
  moreover have "\<exists>n. items ?st a = items st a\<lparr>h_next := n\<rparr>" for a
    by (cases "xs = []") (auto intro: exI[of _ "h_next (items st a)"])
  moreover have "items ?st a = items st a" if "a \<notin> linked t" for a
    using that lastin by (auto simp: linked_def)
  moreover have "pool ?st = pool st" by simp
  ultimately show ?thesis using run by blast
qed

lemma item_key_bytes_h_next [simp]: "item_key_bytes (i\<lparr>h_next := n\<rparr>) = item_key_bytes i"
  by (simp add: item_key_bytes_def ITEM_key_def)

lemma item_key_bytes_flags:
  "f AND ITEM_CAS = it_flags i AND ITEM_CAS \<Longrightarrow> item_key_bytes (i\<lparr>it_flags := f\<rparr>) = item_key_bytes i"
  by (simp add: item_key_bytes_def ITEM_key_def)

lemma item_key_bytes_clsid [simp]: "item_key_bytes (i\<lparr>slabs_clsid := n\<rparr>) = item_key_bytes i"
  by (simp add: item_key_bytes_def ITEM_key_def)

text \<open>An update of one item that keeps its key and its chain field keeps the table.\<close>

lemma table_inv_upd:
  assumes "table_inv t st" and "h_next (f (items st a)) = h_next (items st a)"
    and "item_key_bytes (f (items st a)) = item_key_bytes (items st a)"
  shows "table_inv t (upd_item a f st)"
proof -
  have "chain (upd_item a f st) c xs = chain st c xs" for c xs
    using assms(2) by (intro chain_cong) simp
  with assms show ?thesis by (simp add: table_inv_def)
qed

lemma table_inv_upd_unlinked:
  assumes "table_inv t st" and "a \<notin> linked t"
  shows "table_inv t (upd_item a f st)"
proof -
  have no: "a \<notin> snd ` set (t b)" "(k, a) \<notin> set (t b)" for b k using assms(2) by (force simp: linked_def)+
  have "chain (upd_item a f st) c (map snd (t b)) = chain st c (map snd (t b))" for c b
    using no(1)[of b] by (intro chain_cong) force
  with assms(1) no(2) show ?thesis unfolding table_inv_def by (auto simp: fun_upd_apply)
qed

lemma table_inv_rem:
  assumes "table_inv t st" and "\<And>b. chain st' (htable st' b) (map snd (tbl_rem bk t b))"
    and "\<And>a. \<exists>n. items st' a = items st a\<lparr>h_next := n\<rparr>"
  shows "table_inv (tbl_rem bk t) st'"
proof -
  have k: "item_key_bytes (items st' a) = item_key_bytes (items st a)" for a
    using assms(3)[of a] by auto
  have d: "snd ` set (t b) \<inter> snd ` set (t b') = {}" if "b \<noteq> b'" for b b'
    using assms(1) that by (simp add: table_inv_def)
  have sub: "snd ` set (tbl_rem bk t b) \<subseteq> snd ` set (t b)" for b by (auto simp: tbl_rem_def)
  have "snd ` set (tbl_rem bk t b) \<inter> snd ` set (tbl_rem bk t b') = {}" if "b \<noteq> b'" for b b'
    using sub[of b] sub[of b'] d[OF that] by blast
  then show ?thesis
    using assms(2) ht.rem_inv[OF table_invD(1)[OF assms(1)]] table_invD(3)[OF assms(1)]
    by (auto simp: table_inv_def set_tbl_rem k)
qed

lemma assoc_insert_spec:
  assumes inv: "table_inv t st" and new: "a \<notin> linked t" "a \<noteq> NULL"
    and none: "tbl_map t (bucket hv, item_key_bytes (items st a)) = None"
  shows "table_inv (tbl_put (bucket hv, item_key_bytes (items st a)) a t) (assoc_insert a hv st)"
proof -
  let ?st = "assoc_insert a hv st" and ?k = "item_key_bytes (items st a)" and ?b = "bucket hv"
  have no: "a \<notin> snd ` set (t b)" for b using new(1) by (simp add: linked_def)
  have h: "htable ?st = (htable st)(?b := a)" "items ?st = (items st)(a := items st a\<lparr>h_next := htable st ?b\<rparr>)"
    by (simp_all add: assoc_insert_def)
  have c: "chain ?st x (map snd (t b)) = chain st x (map snd (t b))" for x b
    using no[of b] by (intro chain_cong) (auto simp: h)
  have "chain ?st (htable ?st b) (map snd (tbl_put (?b, ?k) a t b))" for b
    using table_invD(2)[OF inv, of b] new(2) by (auto simp: tbl_put_def c h)
  moreover have "item_key_bytes (items ?st x) = item_key_bytes (items st x)" for x by (simp add: h)
  moreover have "tbl_ok (tbl_put (?b, ?k) a t)" using ht.put_inv table_invD(1)[OF inv] none by blast
  moreover have "snd ` set (tbl_put (?b, ?k) a t b) \<inter> snd ` set (tbl_put (?b, ?k) a t b') = {}" if "b \<noteq> b'" for b b'
  proof -
    have "snd ` set (t b) \<inter> snd ` set (t b') = {}" using inv that by (simp add: table_inv_def)
    then show ?thesis using no[of b] no[of b'] that by (auto simp: tbl_put_def)
  qed
  ultimately show ?thesis
    using table_invD(3)[OF inv] unfolding table_inv_def by (auto simp: tbl_put_def split: if_splits)
qed

lemma set_tbl_put: "(k, x) \<in> set (tbl_put bk a t b) \<longleftrightarrow> (k, x) \<in> set (t b) \<or> (b, k) = bk \<and> x = a"
  by (cases bk) (auto simp: tbl_put_def)

lemma linked_put: "linked (tbl_put bk a t) = insert a (linked t)"
  by (cases bk) (auto simp: linked_alt set_tbl_put)

section \<open>Items in the table\<close>

lemma flag_bits: "(0::u8) AND x = 0" "ITEM_LINKED AND NOT ITEM_LINKED = 0" "(0::u8) OR ITEM_LINKED = ITEM_LINKED"
    "ITEM_LINKED AND ITEM_LINKED = ITEM_LINKED" "ITEM_LINKED AND ITEM_CAS = 0" "ITEM_LINKED AND ITEM_SLABBED = 0"
  by simp_all

lemma do_item_link_spec:
  assumes inv: "store_inv t st" and new: "a \<notin> linked t" "a \<notin> set (pool st)" "a \<noteq> NULL" "it_flags (items st a) = 0"
    and none: "tbl_map t (bucket hv, item_key_bytes (items st a)) = None"
  shows "\<exists>st'. do_item_link a hv st = Inr st' \<and>
    store_inv (tbl_put (bucket hv, item_key_bytes (items st a)) a t) st' \<and> pool st' = pool st \<and>
    (\<exists>n. items st' = (items st)(a := items st a\<lparr>it_flags := ITEM_LINKED, h_next := n\<rparr>))"
proof -
  let ?st = "upd_item a (\<lambda>i. i\<lparr>it_flags := ITEM_LINKED\<rparr>) st" and ?k = "item_key_bytes (items st a)"
  have k: "item_key_bytes (items ?st a) = ?k" using new(4) by (simp add: item_key_bytes_flags)
  have "table_inv t ?st" using table_inv_upd_unlinked store_invD(1)[OF inv] new(1) by blast
  then have t: "table_inv (tbl_put (bucket hv, ?k) a t) (assoc_insert a hv ?st)"
    using assoc_insert_spec[of t ?st a hv, unfolded k] new(1,3) none by blast
  have i: "items (assoc_insert a hv ?st) = (items st)(a := items st a\<lparr>it_flags := ITEM_LINKED, h_next := htable st (bucket hv)\<rparr>)"
    and p: "pool (assoc_insert a hv ?st) = pool st" by (simp_all add: assoc_insert_def)
  have run: "do_item_link a hv st = Inr (assoc_insert a hv ?st)"
    using new(4) by (simp add: do_item_link_def upd_item_def)
  have "store_inv (tbl_put (bucket hv, ?k) a t) (assoc_insert a hv ?st)"
    using inv t new(2) unfolding store_inv_def linked_put p i by auto
  with run p i show ?thesis by blast
qed

lemma do_item_remove_free_spec:
  assumes inv: "store_inv t st" and a: "a \<notin> linked t" "a \<notin> set (pool st)" "a \<noteq> NULL" "it_flags (items st a) = 0"
  shows "\<exists>st'. do_item_remove_free a st = Inr st' \<and> store_inv t st' \<and> pool st' = a # pool st \<and>
    (\<forall>x. x \<noteq> a \<longrightarrow> items st' x = items st x)"
proof -
  let ?st = "upd_item a (\<lambda>i. i\<lparr>slabs_clsid := 0\<rparr>) st"
  have "table_inv t ?st" using store_invD(1)[OF inv] a(1) by (rule table_inv_upd_unlinked)
  then have "table_inv t (item_free a st)"
    by (simp add: item_free_def ps_slab_free_item_def table_inv_def)
  then have "store_inv t (item_free a st)"
    using a store_invD(2-)[OF inv] by (auto simp: store_inv_def item_free_def ps_slab_free_item_def)
  moreover have "do_item_remove_free a st = Inr (item_free a st)"
    using a(4) by (simp add: do_item_remove_free_def)
  ultimately show ?thesis by (simp add: item_free_def ps_slab_free_item_def)
qed

text \<open>Clearing the flag of an item and cutting it out, which unlinking and replacing have in common.\<close>

lemma cut_out_spec:
  assumes inv: "store_inv t st" and len: "length (t (bucket hv)) < fuel"
    and found: "tbl_map t (bucket hv, key) = Some a"
  defines "st0 \<equiv> upd_item a (\<lambda>i. i\<lparr>it_flags := it_flags i AND NOT ITEM_LINKED\<rparr>) st"
  shows "it_flags (items st a) = ITEM_LINKED \<and> (\<exists>st1. assoc_delete fuel (item_key_bytes (items st0 a)) hv st0 = Inr st1 \<and>
    store_inv (tbl_rem (bucket hv, key) t) st1 \<and> a \<notin> linked (tbl_rem (bucket hv, key) t) \<and> a \<notin> set (pool st) \<and>
    pool st1 = pool st \<and> it_flags (items st1 a) = 0 \<and> (\<forall>x. x \<noteq> a \<longrightarrow> (\<exists>n. items st1 x = items st x\<lparr>h_next := n\<rparr>)) \<and>
    (\<forall>x. x \<notin> linked t \<longrightarrow> items st1 x = items st x) \<and> (\<exists>n. items st1 a = items st a\<lparr>it_flags := 0, h_next := n\<rparr>))"
proof -
  let ?st = "upd_item a (\<lambda>i. i\<lparr>it_flags := 0\<rparr>) st" and ?t = "tbl_rem (bucket hv, key) t"
  have tab: "table_inv t st" using inv by (rule store_invD)
  note a = found_linked[OF tab found]
  have fl: "it_flags (items st a) = ITEM_LINKED" using store_invD(2)[OF inv a(2)] .
  have st0: "st0 = ?st" unfolding st0_def by (rule upd_item_cong) (simp add: fl)
  have ky: "item_key_bytes (items ?st a) = key"
    using table_invD(3)[OF tab a(1)] fl by (simp add: item_key_bytes_flags)
  have "table_inv t ?st" using tab fl by (intro table_inv_upd) (simp_all add: item_key_bytes_flags)
  from assoc_delete_spec[OF this len found] obtain st1 where
    s1: "assoc_delete fuel key hv ?st = Inr st1" "\<And>b. chain st1 (htable st1 b) (map snd (?t b))"
      "pool st1 = pool st" "\<And>x. \<exists>n. items st1 x = items ?st x\<lparr>h_next := n\<rparr>"
      "\<And>x. x \<notin> linked t \<Longrightarrow> items st1 x = items ?st x" by auto
  have t1: "table_inv ?t st1" by (rule table_inv_rem[OF \<open>table_inv t ?st\<close> s1(2,4)])
  have "it_flags (items st1 a) = 0" using s1(4)[of a] by auto
  moreover have oth: "\<exists>n. items st1 x = items st x\<lparr>h_next := n\<rparr>" if "x \<noteq> a" for x
    using s1(4)[of x] that by simp
  moreover have l: "linked ?t = linked t - {a}" by (rule linked_rem[OF tab found])
  moreover have same: "it_flags (items st1 x) = it_flags (items st x)" "slabs_clsid (items st1 x) = slabs_clsid (items st x)"
    if "x \<noteq> a" for x using oth[OF that] by auto
  moreover have np: "a \<notin> set (pool st)" using store_invD(5)[OF inv] a(2) by blast
  moreover have "store_inv ?t st1"
  proof -
    have "\<forall>x \<in> set (pool st). x \<noteq> a" using np by blast
    then show ?thesis using t1 store_invD(2-)[OF inv] by (auto simp: store_inv_def l s1(3) same)
  qed
  moreover have "items st1 x = items st x" if "x \<notin> linked t" for x
    using s1(5)[OF that] that a(2) by auto
  moreover have "\<exists>n. items st1 a = items st a\<lparr>it_flags := 0, h_next := n\<rparr>" using s1(4)[of a] by simp
  ultimately show ?thesis using s1(1,3) fl unfolding st0 ky by blast
qed

lemma do_item_unlink_spec:
  assumes inv: "store_inv t st" and len: "length (t (bucket hv)) < fuel"
    and found: "tbl_map t (bucket hv, key) = Some a"
  shows "\<exists>st'. do_item_unlink fuel a hv st = Inr st' \<and> store_inv (tbl_rem (bucket hv, key) t) st' \<and>
    pool st' = a # pool st \<and> (\<forall>x. x \<noteq> a \<longrightarrow> (\<exists>n. items st' x = items st x\<lparr>h_next := n\<rparr>))"
proof -
  let ?t = "tbl_rem (bucket hv, key) t"
  from cut_out_spec[OF inv len found] obtain st1 where
    s1: "do_item_unlink fuel a hv st = do_item_remove_free a st1" "store_inv ?t st1" "a \<notin> linked ?t"
      "a \<notin> set (pool st1)" "it_flags (items st1 a) = 0" "pool st1 = pool st"
      "\<And>x. x \<noteq> a \<Longrightarrow> \<exists>n. items st1 x = items st x\<lparr>h_next := n\<rparr>"
    by (auto simp: do_item_unlink_def Let_def)
  show ?thesis
    using do_item_remove_free_spec[OF s1(2-4) found_linked(3)[OF store_invD(1)[OF inv] found] s1(5)] s1(1,6,7) by metis
qed

lemma do_item_replace_spec:
  assumes inv: "store_inv t st" and len: "length (t (bucket hv)) < fuel"
    and found: "tbl_map t (bucket hv, key) = Some old"
    and new: "new \<notin> linked t" "new \<notin> set (pool st)" "new \<noteq> NULL" "it_flags (items st new) = 0"
      "item_key_bytes (items st new) = key"
  shows "\<exists>st'. do_item_replace fuel old new hv st = Inr st' \<and>
    store_inv (tbl_put (bucket hv, key) new (tbl_rem (bucket hv, key) t)) st' \<and> pool st' = old # pool st \<and>
    (\<forall>x. x \<noteq> old \<longrightarrow> x \<noteq> new \<longrightarrow> (\<exists>n. items st' x = items st x\<lparr>h_next := n\<rparr>)) \<and>
    (\<exists>n. items st' new = items st new\<lparr>it_flags := ITEM_LINKED, h_next := n\<rparr>)"
proof -
  let ?t = "tbl_rem (bucket hv, key) t"
  note tab = store_invD(1)[OF inv] and old = found_linked[OF store_invD(1)[OF inv] found]
  from cut_out_spec[OF inv len found] obtain st1 where
    s1: "do_item_replace fuel old new hv st = bindE (do_item_link new hv st1) (\<lambda>st. do_item_remove_free old st)"
      "store_inv ?t st1" "old \<notin> linked ?t" "old \<notin> set (pool st1)" "it_flags (items st1 old) = 0" "pool st1 = pool st"
      "\<And>x. x \<noteq> old \<Longrightarrow> \<exists>n. items st1 x = items st x\<lparr>h_next := n\<rparr>" "\<And>x. x \<notin> linked t \<Longrightarrow> items st1 x = items st x"
    by (auto simp: do_item_replace_def Let_def)
  have ne: "old \<noteq> new" using old(2) new(1) by blast
  have n1: "items st1 new = items st new" using s1(8) new(1) by blast
  have "new \<notin> linked ?t" using new(1) linked_rem[OF tab found] by blast
  moreover have "tbl_map ?t (bucket hv, key) = None" using ht.rem_abs table_invD(1)[OF tab] by simp
  ultimately obtain st2 n where s2: "do_item_link new hv st1 = Inr st2" "store_inv (tbl_put (bucket hv, key) new ?t) st2"
      "pool st2 = pool st" "items st2 = (items st1)(new := items st new\<lparr>it_flags := ITEM_LINKED, h_next := n\<rparr>)"
    using do_item_link_spec[OF s1(2), of new hv] new s1(6) n1 by auto
  have "\<exists>st'. do_item_remove_free old st2 = Inr st' \<and> store_inv (tbl_put (bucket hv, key) new ?t) st' \<and>
      pool st' = old # pool st2 \<and> (\<forall>x. x \<noteq> old \<longrightarrow> items st' x = items st2 x)"
    using s2 s1(3-6) ne old(3) by (intro do_item_remove_free_spec) (auto simp: linked_put)
  then obtain st3 where s3: "do_item_remove_free old st2 = Inr st3" "store_inv (tbl_put (bucket hv, key) new ?t) st3"
      "pool st3 = old # pool st" "\<And>x. x \<noteq> old \<Longrightarrow> items st3 x = items st2 x" using s2(3) by auto
  have "\<exists>n. items st3 x = items st x\<lparr>h_next := n\<rparr>" if "x \<noteq> old" "x \<noteq> new" for x
    using s1(7)[OF that(1)] s3(4)[OF that(1)] s2(4) that(2) by simp
  moreover have "items st3 new = items st new\<lparr>it_flags := ITEM_LINKED, h_next := n\<rparr>"
    using s3(4)[of new] ne s2(4) by simp
  ultimately show ?thesis using s1(1) s2(1) s3(1-3) by auto
qed

section \<open>Values\<close>

lemma read_write_same [simp]: "read_bytes (write_bytes f off bs) off (length bs) = bs"
  by (auto simp: read_bytes_def write_bytes_def intro: nth_equalityI)

lemma read_write_before: "off + n \<le> off' \<Longrightarrow> read_bytes (write_bytes f off' bs) off n = read_bytes f off n"
  by (auto simp: read_bytes_def write_bytes_def)

lemma length_read_bytes [simp]: "length (read_bytes f off n) = n"
  by (simp add: read_bytes_def)

definition store_map :: "tbl \<Rightarrow> mc_store \<Rightarrow> nat \<times> u8 list \<Rightarrow> u8 list option" where
  "store_map t st bk = map_option (\<lambda>a. item_value (items st a)) (tbl_map t bk)"

lemma item_value_h_next [simp]: "item_value (i\<lparr>h_next := n\<rparr>) = item_value i"
  by (simp add: item_value_def ITEM_data_def)

lemma item_value_linked: "it_flags i = 0 \<Longrightarrow> item_value (i\<lparr>it_flags := ITEM_LINKED\<rparr>) = item_value i"
  by (simp add: item_value_def ITEM_data_def)

lemma key_before_data:
  "item_key_bytes (i\<lparr>body := write_bytes (body i) (ITEM_data i) bs\<rparr>) = item_key_bytes i"
  by (simp add: item_key_bytes_def ITEM_key_def ITEM_data_def read_write_before)

lemma value_of_written:
  "length bs = nbytes i - 2 \<Longrightarrow> item_value (i\<lparr>body := write_bytes (body i) (ITEM_data i) bs\<rparr>) = bs"
  using read_write_same[of "body i" "ITEM_data i" bs] by (simp add: item_value_def ITEM_data_def)

lemma store_inv_upd:
  assumes "store_inv t st" and "h_next (f (items st a)) = h_next (items st a)"
    and "item_key_bytes (f (items st a)) = item_key_bytes (items st a)"
    and "it_flags (f (items st a)) = it_flags (items st a)" "slabs_clsid (f (items st a)) = slabs_clsid (items st a)"
  shows "store_inv t (upd_item a f st)"
proof -
  have "table_inv t (upd_item a f st)" using store_invD(1)[OF assms(1)] assms(2,3) by (rule table_inv_upd)
  then show ?thesis using assms(4,5) store_invD(2-)[OF assms(1)] by (auto simp: store_inv_def)
qed

lemma store_inv_set_data: "store_inv t st \<Longrightarrow> store_inv t (set_data a bs st)"
  unfolding set_data_def by (rule store_inv_upd) (simp_all add: key_before_data)

lemma tbl_map_inj:
  assumes "table_inv t st" and "tbl_map t bk = Some a" and "tbl_map t bk' = Some a"
  shows "bk' = bk"
proof -
  have "linked (tbl_rem bk t) = linked t - {a}" by (rule linked_rem[OF assms(1,2)])
  moreover have "a \<in> linked (tbl_rem bk t)" if "bk' \<noteq> bk"
  proof -
    have "(snd bk', a) \<in> set (t (fst bk'))"
      using assms(3) by (auto simp: tbl_map_def dest: map_of_SomeD)
    then show ?thesis using that by (intro linkedI[of "snd bk'" _ _ "fst bk'"]) (simp add: set_tbl_rem)
  qed
  ultimately show ?thesis by blast
qed

lemma set_data_spec:
  assumes "store_inv t st" and "tbl_map t bk = Some a" and "length bs = nbytes (items st a) - 2"
  shows "store_map t (set_data a bs st) = (store_map t st)(bk \<mapsto> bs)"
proof
  fix bk'
  show "store_map t (set_data a bs st) bk' = ((store_map t st)(bk \<mapsto> bs)) bk'"
  proof (cases "bk' = bk")
    case True
    then show ?thesis using assms(2,3) by (simp add: store_map_def set_data_def value_of_written)
  next
    case False
    then have "tbl_map t bk' \<noteq> Some a" using tbl_map_inj[OF store_invD(1)[OF assms(1)] assms(2)] by blast
    then show ?thesis using False by (cases "tbl_map t bk'") (auto simp: store_map_def set_data_def)
  qed
qed

section \<open>New items\<close>

lemma init_item_fields:
  fixes key :: "u8 list"
  assumes "length key < 256"
  shows "it_flags (init_item key fl nb i) = 0" "nbytes (init_item key fl nb i) = nb"
    "slabs_clsid (init_item key fl nb i) = 0" "item_key_bytes (init_item key fl nb i) = key"
  using assms read_write_before[of 0 "length key" "Suc (length key)"] read_write_same[of "body i" 0 key]
  by (simp_all add: init_item_def Let_def case_prod_beta item_key_bytes_def ITEM_key_def ITEM_suffix_def)

lemma do_item_alloc_empty: "pool st = [] \<Longrightarrow> do_item_alloc key fl nb st = Inr (NULL, st)"
  by (simp add: do_item_alloc_def ps_slab_alloc_item_def)

lemma do_item_alloc_spec:
  assumes inv: "store_inv t st" and p: "pool st = a # p" and len: "length key < 256"
  shows "\<exists>st'. do_item_alloc key fl nb st = Inr (a, st') \<and> store_inv t st' \<and> pool st' = p \<and>
    items st' = (items st)(a := init_item key fl nb (items st a)) \<and> a \<notin> linked t \<and> a \<notin> set p \<and> a \<noteq> NULL"
proof -
  let ?st = "upd_item a (init_item key fl nb) (st\<lparr>pool := p\<rparr>)"
  have a: "a \<noteq> NULL" "a \<notin> set p" "a \<notin> linked t" "slabs_clsid (items st a) = 0"
    using store_invD(3-6)[OF inv] p by auto
  have "table_inv t (st\<lparr>pool := p\<rparr>)" using store_invD(1)[OF inv] by (simp add: table_inv_def)
  then have "table_inv t ?st" using a(3) by (rule table_inv_upd_unlinked)
  then have "store_inv t ?st"
    using a store_invD(2-)[OF inv] p by (auto simp: store_inv_def)
  moreover have "do_item_alloc key fl nb st = Inr (a, ?st)"
    using a p by (simp add: do_item_alloc_def ps_slab_alloc_item_def)
  ultimately show ?thesis using a by simp
qed

text \<open>The sequence by which the servers enter a new key: allocate, copy the value, remember the hash, link.\<close>

lemma new_item_spec:
  assumes inv: "store_inv t st" and p: "pool st = a # p" and len: "length key < 256"
    and none: "tbl_map t (bucket hv, key) = None"
  shows "\<exists>st1 st2. do_item_alloc key fl (length bs + 2) st = Inr (a, st1) \<and> a \<noteq> NULL \<and>
    do_item_link a hv (upd_item a (\<lambda>i. i\<lparr>it_hv := hv\<rparr>) (set_data a bs st1)) = Inr st2 \<and>
    store_inv (tbl_put (bucket hv, key) a t) st2 \<and> pool st2 = p \<and>
    store_map (tbl_put (bucket hv, key) a t) st2 = (store_map t st)((bucket hv, key) \<mapsto> bs) \<and>
    nbytes (items st2 a) = length bs + 2 \<and> it_hv (items st2 a) = hv \<and> (\<forall>x. x \<noteq> a \<longrightarrow> items st2 x = items st x)"
proof -
  obtain st1 where s1: "do_item_alloc key fl (length bs + 2) st = Inr (a, st1)" "store_inv t st1" "pool st1 = p"
      "items st1 = (items st)(a := init_item key fl (length bs + 2) (items st a))" "a \<notin> linked t" "a \<notin> set p" "a \<noteq> NULL"
    using do_item_alloc_spec[OF inv p len] by blast
  let ?st = "upd_item a (\<lambda>i. i\<lparr>it_hv := hv\<rparr>) (set_data a bs st1)" and ?bk = "(bucket hv, key)"
  have hv: "item_key_bytes (i\<lparr>it_hv := hv\<rparr>) = item_key_bytes i" "item_value (i\<lparr>it_hv := hv\<rparr>) = item_value i" for i
    by (simp_all add: item_key_bytes_def ITEM_key_def item_value_def ITEM_data_def)
  note fld = init_item_fields[OF len, of fl "length bs + 2" "items st a"]
  have inv': "store_inv t ?st" using store_inv_set_data[OF s1(2)] by (intro store_inv_upd) (simp_all add: hv)
  have i: "it_flags (items ?st a) = 0" "item_key_bytes (items ?st a) = key" "item_value (items ?st a) = bs"
      "nbytes (items ?st a) = length bs + 2" "pool ?st = p" "\<And>x. x \<noteq> a \<Longrightarrow> items ?st x = items st x"
    using fld s1(3,4) by (simp_all add: set_data_def hv key_before_data value_of_written)
  obtain st2 n where s2: "do_item_link a hv ?st = Inr st2" "store_inv (tbl_put ?bk a t) st2" "pool st2 = p"
      "items st2 = (items ?st)(a := items ?st a\<lparr>it_flags := ITEM_LINKED, h_next := n\<rparr>)"
    using do_item_link_spec[OF inv' s1(5) _ s1(7) i(1), of hv] none s1(6) by (auto simp only: i)
  have va: "item_value (items st2 a) = bs" using i(1,3) s2(4) by (simp add: item_value_linked)
  have vx: "items st2 x = items st x" if "x \<noteq> a" for x using s2(4) i(6)[OF that] that by simp
  have "store_map (tbl_put ?bk a t) st2 bk = ((store_map t st)(?bk \<mapsto> bs)) bk" for bk
  proof -
    have "tbl_map t bk \<noteq> Some a" using found_linked(2)[OF store_invD(1)[OF inv], of "fst bk" "snd bk" a] s1(5) by auto
    then show ?thesis
      using ht.put_abs[OF table_invD(1)[OF store_invD(1)[OF inv]] none] va vx
      by (cases "tbl_map t bk") (auto simp: store_map_def)
  qed
  moreover have "nbytes (items st2 a) = length bs + 2" "it_hv (items st2 a) = hv" using s2(4) i(4) by simp_all
  ultimately show ?thesis using s1(1,7) s2(1-3) vx by blast
qed

section \<open>Representation of a store by a map\<close>

text \<open>
  The store holds the map \<open>m\<close> from bucket and key to value, all values have the length that the
  clients use, no chain is longer than \<open>n\<close>, and \<open>f\<close> items are left in the pool.
\<close>

definition rep :: "nat \<Rightarrow> nat \<Rightarrow> (nat \<times> u8 list \<Rightarrow> u8 list option) \<Rightarrow> mc_store \<Rightarrow> bool" where
  "rep n f m st \<longleftrightarrow> (\<exists>t. store_inv t st \<and> (\<forall>b. length (t b) \<le> n) \<and> store_map t st = m \<and>
     (\<forall>a \<in> linked t. nbytes (items st a) = V_LENGTH + 2) \<and> length (pool st) = f)"

lemma do_item_get_rep:
  assumes "rep n f m st" and "n < fuel"
  shows "\<exists>a. do_item_get fuel key hv st = Inr a \<and> (a = NULL \<longleftrightarrow> m (bucket hv, key) = None) \<and>
    (a \<noteq> NULL \<longrightarrow> m (bucket hv, key) = Some (item_value (items st a)) \<and> nbytes (items st a) = V_LENGTH + 2)"
proof -
  obtain t where t: "store_inv t st" "\<And>b. length (t b) \<le> n" "store_map t st = m"
      "\<And>a. a \<in> linked t \<Longrightarrow> nbytes (items st a) = V_LENGTH + 2" using assms(1) unfolding rep_def by blast
  have "length (t (bucket hv)) < fuel" using t(2)[of "bucket hv"] assms(2) by simp
  note f = assoc_find_spec[OF store_invD(1)[OF t(1)] this, of key] and fl = found_linked[OF store_invD(1)[OF t(1)], of "bucket hv" key]
  show ?thesis
  proof (cases "tbl_map t (bucket hv, key)")
    case None
    then show ?thesis using f t(3) by (auto simp: do_item_get_def store_map_def)
  next
    case (Some a)
    then show ?thesis using f t(3,4) fl by (auto simp: do_item_get_def store_map_def)
  qed
qed

lemma rep_overwrite:
  assumes "rep n f m st" and "n < fuel" and "do_item_get fuel key hv st = Inr a" "a \<noteq> NULL" "length data = V_LENGTH"
  shows "rep n f (m((bucket hv, key) \<mapsto> data)) (set_data a data st)"
proof -
  obtain t where t: "store_inv t st" "\<And>b. length (t b) \<le> n" "store_map t st = m"
      "\<And>a. a \<in> linked t \<Longrightarrow> nbytes (items st a) = V_LENGTH + 2" "length (pool st) = f" using assms(1) unfolding rep_def by blast
  have "length (t (bucket hv)) < fuel" using t(2)[of "bucket hv"] assms(2) by simp
  from assoc_find_spec[OF store_invD(1)[OF t(1)] this, of key] assms(3,4)
  have a: "tbl_map t (bucket hv, key) = Some a" by (auto simp: do_item_get_def split: option.splits)
  have "a \<in> linked t" using found_linked(2)[OF store_invD(1)[OF t(1)] a] .
  then have "store_map t (set_data a data st) = m((bucket hv, key) \<mapsto> data)"
    using set_data_spec[OF t(1) a] t(3,4) assms(5) by simp
  moreover have "\<forall>x \<in> linked t. nbytes (items (set_data a data st) x) = V_LENGTH + 2" "length (pool (set_data a data st)) = f"
    using t(4,5) by (auto simp: set_data_def)
  ultimately show ?thesis unfolding rep_def using store_inv_set_data[OF t(1)] t(2) by blast
qed

lemma rep_new:
  assumes "rep n (Suc f) m st" and "m (bucket hv, key) = None" and "length key < 256" "length data = V_LENGTH"
  obtains a st1 st2 where "do_item_alloc key fl (V_LENGTH + 2) st = Inr (a, st1)" "a \<noteq> NULL"
    "do_item_link a hv (upd_item a (\<lambda>i. i\<lparr>it_hv := hv\<rparr>) (set_data a data st1)) = Inr st2"
    "rep (Suc n) f (m((bucket hv, key) \<mapsto> data)) st2"
proof -
  obtain t where t: "store_inv t st" "\<And>b. length (t b) \<le> n" "store_map t st = m"
      "\<And>a. a \<in> linked t \<Longrightarrow> nbytes (items st a) = V_LENGTH + 2" "length (pool st) = Suc f" using assms(1) unfolding rep_def by blast
  obtain a p where p: "pool st = a # p" "length p = f" using t(5) by (auto simp: length_Suc_conv)
  have "tbl_map t (bucket hv, key) = None" using assms(2) t(3) by (auto simp: store_map_def)
  from new_item_spec[OF t(1) p(1) assms(3) this, of fl data] obtain st1 st2 where
    s: "do_item_alloc key fl (V_LENGTH + 2) st = Inr (a, st1)" "a \<noteq> NULL"
      "do_item_link a hv (upd_item a (\<lambda>i. i\<lparr>it_hv := hv\<rparr>) (set_data a data st1)) = Inr st2"
      "store_inv (tbl_put (bucket hv, key) a t) st2" "pool st2 = p"
      "store_map (tbl_put (bucket hv, key) a t) st2 = m((bucket hv, key) \<mapsto> data)"
      "nbytes (items st2 a) = V_LENGTH + 2" "\<And>x. x \<noteq> a \<Longrightarrow> items st2 x = items st x"
    unfolding assms(4) t(3) by blast
  have "length (tbl_put (bucket hv, key) a t b) \<le> Suc n" for b using t(2)[of b] by (auto simp: tbl_put_def)
  moreover have "nbytes (items st2 x) = V_LENGTH + 2" if "x \<in> linked (tbl_put (bucket hv, key) a t)" for x
    using that s(7,8) t(4) by (cases "x = a") (auto simp: linked_put)
  ultimately have "rep (Suc n) f (m((bucket hv, key) \<mapsto> data)) st2"
    unfolding rep_def using s(4-6) p(2) by blast
  with s(1-3) show thesis by (rule that)
qed

lemma rep_mono:
  assumes "rep n f m st" and "n \<le> n'"
  shows "rep n' f m st"
proof -
  obtain t where "store_inv t st \<and> (\<forall>b. length (t b) \<le> n) \<and> store_map t st = m \<and>
     (\<forall>a \<in> linked t. nbytes (items st a) = V_LENGTH + 2) \<and> length (pool st) = f" using assms(1) by (auto simp: rep_def)
  moreover from this assms(2) have "\<forall>b. length (t b) \<le> n'" by (meson order_trans)
  ultimately show ?thesis unfolding rep_def by (intro exI[of _ t]) simp
qed

lemma rep_init:
  assumes "distinct (pool st)" and "NULL \<notin> set (pool st)" and "\<forall>a \<in> set (pool st). slabs_clsid (items st a) = 0"
  shows "rep 0 (length (pool st)) (\<lambda>_. None) (assoc_init st)"
proof -
  let ?t = "\<lambda>_. [] :: (u8 list \<times> addr) list"
  have "store_inv ?t (assoc_init st)"
    using assms by (simp add: store_inv_def table_inv_def tbl_ok_def linked_def assoc_init_def)
  moreover have "store_map ?t (assoc_init st) = (\<lambda>_. None)" by (simp add: store_map_def tbl_map_def fun_eq_iff)
  ultimately show ?thesis
    unfolding rep_def by (intro exI[of _ ?t]) (simp add: linked_def assoc_init_def)
qed

end
