(* ===== verification/Mc_2pc.thy ===== *)
theory Mc_2pc
  imports Mc_Rpc Mc_Store
begin

unbundle bit_operations_syntax

text \<open>
  The two-phase key-value service: the server of \<^verbatim>\<open>mc_code/2pc_mc/servers/server.c\<close> and the requests of
  \<^verbatim>\<open>mc_code/2pc_mc/clients/client.c\<close>. Nodes 0 and 1 are servers, each with a full copy of the store;
  nodes 2 and 3 are their clients. The server that receives a SET prepares it at its peer, both enter
  the key into their commit logs, and both apply it before the client hears back.

  \<^verbatim>\<open>KEY_SKEW\<close> is not defined in \<^verbatim>\<open>share/constant.h\<close>, so that the parts under it (eviction, failed
  SETs) are not in the program. Counters for latencies are left out.
\<close>

section \<open>State of a server\<close>

abbreviation MC_MSG_SZ :: nat where "MC_MSG_SZ \<equiv> 56"

record mc_status =
  st_set :: int
  st_get :: int
  st_alloc :: int
  st_free :: int
  st_confict :: int
  st_evict :: int

record commit_log =
  log_k :: "u8 list"
  log_it :: addr

record mc_server =
  cur_node :: nat
  client_id :: nat
  msg_idx :: "nat \<Rightarrow> nat"
  loading :: bool
  running :: bool
  status :: mc_status
  log_key :: "commit_log list"
  store :: mc_store

type_synonym pages = "nat \<Rightarrow> nat \<Rightarrow> nat \<Rightarrow> addr"

text \<open>\<^verbatim>\<open>strncmp(a, b, n) == 0\<close> and \<^verbatim>\<open>strncpy(dst, src, n)\<close>.\<close>

fun strneq :: "nat \<Rightarrow> u8 list \<Rightarrow> u8 list \<Rightarrow> bool" where
  "strneq 0 xs ys \<longleftrightarrow> True"
| "strneq (Suc n) (x # xs) (y # ys) \<longleftrightarrow> x = y \<and> (x = 0 \<or> strneq n xs ys)"
| "strneq (Suc n) xs ys \<longleftrightarrow> False"

definition strncpy :: "nat \<Rightarrow> u8 list \<Rightarrow> u8 list \<Rightarrow> u8 list" where
  "strncpy n src dst = (let s = takeWhile (\<lambda>c. c \<noteq> 0) (take n src) in s @ replicate (n - length s) 0 @ drop n dst)"

section \<open>Commit log\<close>

definition log_empty :: "commit_log \<Rightarrow> bool" where
  "log_empty e \<longleftrightarrow> log_k e ! 0 = 0"

text \<open>The loop of \<^verbatim>\<open>mc_commit\<close>: \<open>None\<close> is the early return of 1, otherwise the last empty entry.\<close>

fun commit_scan :: "u8 list \<Rightarrow> nat \<Rightarrow> nat option \<Rightarrow> commit_log list \<Rightarrow> nat option option" where
  "commit_scan key i w [] = Some w"
| "commit_scan key i w (e # es) =
     (if log_empty e then commit_scan key (Suc i) (Some i) es
      else if strneq (length key) key (log_k e) then None
      else commit_scan key (Suc i) w es)"

definition mc_commit :: "u8 list \<Rightarrow> mc_server \<Rightarrow> (int \<times> mc_server) result" where
  "mc_commit key srv =
     (case commit_scan key 0 None (log_key srv) of
        None \<Rightarrow> Inr (1, srv)
      | Some w \<Rightarrow> bindE (assertE (w \<noteq> None)) (\<lambda>_.
          let e = log_key srv ! the w
          in Inr (0, srv\<lparr>log_key := (log_key srv)[the w := \<lparr>log_k = strncpy (length key) key (log_k e), log_it = NULL\<rparr>]\<rparr>)))"

fun update_scan :: "u8 list \<Rightarrow> nat \<Rightarrow> commit_log list \<Rightarrow> nat" where
  "update_scan key i [] = i"
| "update_scan key i (e # es) = (if strneq (length key) key (log_k e) then i else update_scan key (Suc i) es)"

section \<open>Keys\<close>

definition item_alloc :: "u8 list \<Rightarrow> int \<Rightarrow> nat \<Rightarrow> mc_server \<Rightarrow> (addr \<times> mc_server) result" where
  "item_alloc key flags nb srv =
     (let srv = srv\<lparr>status := (status srv)\<lparr>st_alloc := st_alloc (status srv) + 1\<rparr>\<rparr>
      in bindE (do_item_alloc key flags nb (store srv)) (\<lambda>(it, st). Inr (it, srv\<lparr>store := st\<rparr>)))"

definition mc_set_key_ext :: "nat \<Rightarrow> u8 list \<Rightarrow> u8 list \<Rightarrow> u32 \<Rightarrow> mc_server \<Rightarrow> (int \<times> mc_server) result" where
  "mc_set_key_ext fuel key data hv srv =
     bindE (do_item_get fuel key hv (store srv)) (\<lambda>old_it.
     if old_it \<noteq> NULL
     then Inr (0, srv\<lparr>store := set_data old_it data (store srv), status := (status srv)\<lparr>st_confict := st_confict (status srv) + 1\<rparr>\<rparr>)
     else bindE (item_alloc key 0 (length data + 2) srv) (\<lambda>(it, srv).
       if it = NULL then Inl Spins
       else let st = upd_item it (\<lambda>i. i\<lparr>it_hv := hv\<rparr>) (set_data it data (store srv))
            in bindE (do_item_link it hv st) (\<lambda>st. Inr (0, srv\<lparr>store := st\<rparr>))))"

definition mc_update :: "nat \<Rightarrow> u8 list \<Rightarrow> u8 list \<Rightarrow> u32 \<Rightarrow> mc_server \<Rightarrow> (int \<times> mc_server) result" where
  "mc_update fuel key data hv srv =
     (let i = update_scan key 0 (log_key srv)
      in bindE (assertE (i < length (log_key srv))) (\<lambda>_.
         let e = log_key srv ! i; srv = srv\<lparr>log_key := (log_key srv)[i := e\<lparr>log_k := (log_k e)[0 := 0]\<rparr>]\<rparr>
         in bindE (mc_set_key_ext fuel key data hv srv) (\<lambda>(_, srv). Inr (0, srv))))"

definition mc_get_key_ext :: "nat \<Rightarrow> u8 list \<Rightarrow> u32 \<Rightarrow> mc_server \<Rightarrow> (addr \<times> mc_server) result" where
  "mc_get_key_ext fuel key hv srv =
     (let srv = srv\<lparr>status := (status srv)\<lparr>st_get := st_get (status srv) + 1\<rparr>\<rparr>
      in bindE (do_item_get fuel key hv (store srv)) (\<lambda>it.
         Inr (it, if it \<noteq> NULL then srv\<lparr>store := do_item_update it (store srv)\<rparr> else srv)))"

section \<open>Messages\<close>

text \<open>
  Filling the next page for a node and sending it: \<^verbatim>\<open>rpc_addr\<close> with the running index, the changes
  \<open>f\<close> to the message in that page, \<^verbatim>\<open>rpc_send\<close> and the assertion on its result.
\<close>

definition post :: "pages \<Rightarrow> nat \<Rightarrow> nat \<Rightarrow> (mc_msg \<Rightarrow> mc_msg) \<Rightarrow> mc_server \<Rightarrow> mc_net \<Rightarrow> (mc_server \<times> mc_net) result" where
  "post pg dst sz f srv net =
     (let a = rpc_addr pg (cur_node srv) dst (msg_idx srv dst);
          srv = srv\<lparr>msg_idx := (msg_idx srv)(dst := Suc (msg_idx srv dst))\<rparr>;
          net = net\<lparr>msg_page := (msg_page net)(a := f (msg_page net a))\<rparr>;
          (r, net) = rpc_send_mc (cur_node srv) dst sz a net
      in bindE (assertE (r = 0)) (\<lambda>_. Inr (srv, net)))"

definition on_get :: "nat \<Rightarrow> pages \<Rightarrow> mc_msg \<Rightarrow> mc_server \<Rightarrow> mc_net \<Rightarrow> (mc_server \<times> mc_net) result" where
  "on_get fuel pg msg srv net =
     bindE (assertE (m_id msg \<ge> NUM_NODE div 2)) (\<lambda>_.
     bindE (mc_get_key_ext fuel (m_key msg) (m_hv msg) srv) (\<lambda>(it, srv).
     if it \<noteq> NULL
     then let i = items (store srv) it in
       post pg (m_id msg) (nbytes i - 2 + MC_MSG_SZ)
         (\<lambda>ret. ret\<lparr>m_id := cur_node srv, mtype := MC_MSG_GET_OK, m_nbytes := nbytes i - 2, has_data := True, m_data := item_value i\<rparr>) srv net
     else
       post pg (m_id msg) MC_MSG_SZ
         (\<lambda>ret. ret\<lparr>m_id := cur_node srv, mtype := MC_MSG_GET_FAIL, m_nbytes := 0, has_data := False\<rparr>) srv net))"

definition msg_bytes :: "mc_msg \<Rightarrow> nat" where
  "msg_bytes msg = MC_MSG_SZ + length (m_key msg) + m_nbytes msg"

definition on_set :: "pages \<Rightarrow> mc_msg \<Rightarrow> mc_server \<Rightarrow> mc_net \<Rightarrow> (mc_server \<times> mc_net) result" where
  "on_set pg msg srv net =
     bindE (assertE (m_id msg \<ge> NUM_NODE div 2)) (\<lambda>_.
     let srv = srv\<lparr>client_id := m_id msg\<rparr>
     in bindE (mc_commit (m_key msg) srv) (\<lambda>(r, srv).
        bindE (assertE (r = 0)) (\<lambda>_.
        bindE (post pg (1 - cur_node srv) (msg_bytes msg)
          (\<lambda>_. msg\<lparr>mtype := MC_MSG_PREPARE, m_id := cur_node srv, has_data := True\<rparr>) srv net) (\<lambda>(srv, net).
        Inr (srv\<lparr>status := (status srv)\<lparr>st_set := st_set (status srv) + 1\<rparr>\<rparr>, net)))))"

definition on_prepare :: "pages \<Rightarrow> mc_msg \<Rightarrow> mc_server \<Rightarrow> mc_net \<Rightarrow> (mc_server \<times> mc_net) result" where
  "on_prepare pg msg srv net =
     bindE (assertE (m_id msg = 1 - cur_node srv)) (\<lambda>_.
     bindE (mc_commit (m_key msg) srv) (\<lambda>(r, srv).
     bindE (assertE (r = 0)) (\<lambda>_.
     post pg (m_id msg) (msg_bytes msg)
       (\<lambda>_. msg\<lparr>mtype := MC_MSG_PREPARE_OK, m_id := cur_node srv, has_data := True\<rparr>) srv net)))"

definition on_prepare_ok :: "nat \<Rightarrow> pages \<Rightarrow> mc_msg \<Rightarrow> mc_server \<Rightarrow> mc_net \<Rightarrow> (mc_server \<times> mc_net) result" where
  "on_prepare_ok fuel pg msg srv net =
     bindE (assertE (m_id msg = 1 - cur_node srv)) (\<lambda>_.
     bindE (mc_update fuel (m_key msg) (m_data msg) (m_hv msg) srv) (\<lambda>(r, srv).
     bindE (assertE (r = 0)) (\<lambda>_.
     post pg (m_id msg) (msg_bytes msg)
       (\<lambda>_. msg\<lparr>mtype := MC_MSG_COMMIT, m_id := cur_node srv, has_data := True\<rparr>) srv net)))"

definition on_commit :: "nat \<Rightarrow> pages \<Rightarrow> mc_msg \<Rightarrow> mc_server \<Rightarrow> mc_net \<Rightarrow> (mc_server \<times> mc_net) result" where
  "on_commit fuel pg msg srv net =
     bindE (assertE (m_id msg = 1 - cur_node srv)) (\<lambda>_.
     bindE (mc_update fuel (m_key msg) (m_data msg) (m_hv msg) srv) (\<lambda>(r, srv).
     bindE (assertE (r = 0)) (\<lambda>_.
     post pg (m_id msg) MC_MSG_SZ (\<lambda>ret. ret\<lparr>mtype := MC_MSG_COMMIT_OK, m_id := cur_node srv\<rparr>) srv net)))"

definition on_commit_ok :: "pages \<Rightarrow> mc_msg \<Rightarrow> mc_server \<Rightarrow> mc_net \<Rightarrow> (mc_server \<times> mc_net) result" where
  "on_commit_ok pg msg srv net =
     bindE (assertE (m_id msg = 1 - cur_node srv)) (\<lambda>_.
     bindE (assertE (client_id srv = cur_node srv + NUM_NODE div 2)) (\<lambda>_.
     post pg (client_id srv) MC_MSG_SZ (\<lambda>ret. ret\<lparr>mtype := MC_MSG_SET_OK, m_id := cur_node srv\<rparr>) srv net))"

definition handle :: "nat \<Rightarrow> pages \<Rightarrow> mc_msg \<Rightarrow> mc_server \<Rightarrow> mc_net \<Rightarrow> (mc_server \<times> mc_net) result" where
  "handle fuel pg msg srv net =
     (case mtype msg of
        MC_MSG_GET \<Rightarrow> on_get fuel pg msg srv net
      | MC_MSG_SET \<Rightarrow> on_set pg msg srv net
      | MC_MSG_PREPARE \<Rightarrow> on_prepare pg msg srv net
      | MC_MSG_PREPARE_OK \<Rightarrow> on_prepare_ok fuel pg msg srv net
      | MC_MSG_COMMIT \<Rightarrow> on_commit fuel pg msg srv net
      | MC_MSG_COMMIT_OK \<Rightarrow> on_commit_ok pg msg srv net
      | MC_BEGIN \<Rightarrow> Inr (srv\<lparr>loading := False\<rparr>, net)
      | MC_EXIT \<Rightarrow> Inr (srv\<lparr>running := False\<rparr>, net)
      | _ \<Rightarrow> Inr (srv, net))"

text \<open>
  One turn of the loop. With no message waiting the receiver polls on, which changes nothing.
\<close>

definition event_step :: "nat \<Rightarrow> pages \<Rightarrow> mc_server \<Rightarrow> mc_net \<Rightarrow> (mc_server \<times> mc_net) result" where
  "event_step fuel pg srv net =
     (if \<not> running srv then Inr (srv, net)
      else case rpc_recv_mc (cur_node srv) net of
             None \<Rightarrow> Inr (srv, net)
           | Some (a, net) \<Rightarrow> handle fuel pg (msg_page net a) srv net)"

fun event_loop :: "nat \<Rightarrow> nat \<Rightarrow> pages \<Rightarrow> mc_server \<Rightarrow> mc_net \<Rightarrow> (mc_server \<times> mc_net) result" where
  "event_loop 0 fuel pg srv net = Inr (srv, net)"
| "event_loop (Suc n) fuel pg srv net =
     bindE (event_step fuel pg srv net) (\<lambda>(srv, net). event_loop n fuel pg srv net)"

definition server_init :: "mc_server \<Rightarrow> mc_server" where
  "server_init srv = srv\<lparr>store := assoc_init (store srv),
     status := \<lparr>st_set = 0, st_get = 0, st_alloc = 0, st_free = 0, st_confict = 0, st_evict = 0\<rparr>,
     log_key := replicate (NUM_NODE div 2) \<lparr>log_k = replicate KEY_LENGTH 0, log_it = NULL\<rparr>, loading := True\<rparr>"

section \<open>Client\<close>

record mc_client =
  me :: nat
  cl_idx :: "nat \<Rightarrow> nat"

definition client_post :: "pages \<Rightarrow> nat \<Rightarrow> nat \<Rightarrow> (mc_msg \<Rightarrow> mc_msg) \<Rightarrow> mc_client \<Rightarrow> mc_net \<Rightarrow> int \<times> mc_client \<times> mc_net" where
  "client_post pg dst sz f cl net =
     (let a = rpc_addr pg (me cl) dst (cl_idx cl dst);
          net = net\<lparr>msg_page := (msg_page net)(a := f (msg_page net a))\<rparr>;
          (r, net) = rpc_send_mc (me cl) dst sz a net
      in (r, cl\<lparr>cl_idx := (cl_idx cl)(dst := Suc (cl_idx cl dst))\<rparr>, net))"

definition disconnect_mc_server :: "pages \<Rightarrow> nat \<Rightarrow> mc_message_t \<Rightarrow> mc_client \<Rightarrow> mc_net \<Rightarrow> mc_client \<times> mc_net" where
  "disconnect_mc_server pg server ty cl net =
     snd (client_post pg server MC_MSG_SZ (\<lambda>m. m\<lparr>mtype := ty, m_id := me cl\<rparr>) cl net)"

text \<open>A request is sent first; the reply is read when the server has posted it.\<close>

definition client_get_send :: "(u8 list \<Rightarrow> u32) \<Rightarrow> pages \<Rightarrow> u8 list \<Rightarrow> mc_client \<Rightarrow> mc_net \<Rightarrow> (mc_client \<times> mc_net) result" where
  "client_get_send hash pg key cl net =
     (let node = me cl - NUM_NODE div 2; msg_sz = MC_MSG_SZ + length key
      in bindE (assertE (msg_sz < PAGE_SIZE)) (\<lambda>_.
         let (r, cl, net) = client_post pg node msg_sz
               (\<lambda>m. m\<lparr>mtype := MC_MSG_GET, m_id := me cl, m_hv := hash key, m_key := key\<rparr>) cl net
         in bindE (assertE (r = 0)) (\<lambda>_. Inr (cl, net))))"

definition client_get_reply :: "nat \<Rightarrow> mc_msg \<Rightarrow> int result" where
  "client_get_reply node msg =
     bindE (assertE (m_id msg = node)) (\<lambda>_.
     if mtype msg = MC_MSG_GET_OK
     then bindE (assertE (m_nbytes msg = V_LENGTH)) (\<lambda>_. bindE (assertE (has_data msg)) (\<lambda>_.
          bindE (assertE (m_data msg ! 0 = 36)) (\<lambda>_. Inr 0)))
     else if mtype msg = MC_MSG_GET_FAIL
     then bindE (assertE (m_nbytes msg = 0)) (\<lambda>_. bindE (assertE (\<not> has_data msg)) (\<lambda>_. Inr (- 1)))
     else Inl Assert_fail)"

definition client_set_send :: "(u8 list \<Rightarrow> u32) \<Rightarrow> pages \<Rightarrow> u8 list \<Rightarrow> u8 list \<Rightarrow> mc_client \<Rightarrow> mc_net \<Rightarrow> (mc_client \<times> mc_net) result" where
  "client_set_send hash pg key data cl net =
     (let node = me cl - NUM_NODE div 2; msg_sz = MC_MSG_SZ + length key + length data
      in bindE (assertE (msg_sz < PAGE_SIZE)) (\<lambda>_.
         let (r, cl, net) = client_post pg node msg_sz
               (\<lambda>m. m\<lparr>mtype := MC_MSG_SET, m_id := me cl, m_hv := hash (take KEY_LENGTH key), m_key := key,
                      m_nbytes := length data, has_data := True, m_data := data\<rparr>) cl net
         in bindE (assertE (r = 0)) (\<lambda>_. Inr (cl, net))))"

definition client_set_reply :: "nat \<Rightarrow> mc_msg \<Rightarrow> int result" where
  "client_set_reply node msg =
     bindE (assertE (m_id msg = node)) (\<lambda>_. bindE (assertE (mtype msg = MC_MSG_SET_OK)) (\<lambda>_. Inr 0))"

section \<open>Commit log\<close>

lemma strneq_refl: "n \<le> length xs \<Longrightarrow> strneq n xs xs"
proof (induction n arbitrary: xs)
  case (Suc n)
  then show ?case by (cases xs) auto
qed simp

lemma strneq_zeros: "strneq n (0 # xs) (0 # ys)"
  by (cases n) auto

lemma strneq_strncpy: "strneq (length key) key (strncpy (length key) key d)"
proof -
  have "strneq (length key) key (takeWhile (\<lambda>c. c \<noteq> 0) key @ replicate (length key - length (takeWhile (\<lambda>c. c \<noteq> 0) key)) 0 @ ys)" for ys
    by (induction key) (auto simp: Suc_diff_le length_takeWhile_le)
  then show ?thesis by (simp add: strncpy_def Let_def)
qed

lemma length_strncpy: "n \<le> length src \<Longrightarrow> length (strncpy n src d) = max n (length d)"
proof -
  assume "n \<le> length src"
  then have "length (takeWhile (\<lambda>c. c \<noteq> 0) (take n src)) \<le> n"
    using length_takeWhile_le[of "\<lambda>c. c \<noteq> 0" "take n src"] by simp
  then show ?thesis by (simp add: strncpy_def Let_def)
qed

lemma strneq_empty_entry:
  "key \<noteq> [] \<Longrightarrow> key ! 0 \<noteq> 0 \<Longrightarrow> log_empty e \<Longrightarrow> \<not> strneq (length key) key (log_k e)"
  by (cases key; cases "log_k e") (auto simp: log_empty_def)

lemma strneq_first:
  "key \<noteq> [] \<Longrightarrow> strneq (length key) key ys \<Longrightarrow> ys \<noteq> [] \<and> ys ! 0 = key ! 0"
  by (cases key; cases ys) auto

definition log_wf :: "mc_server \<Rightarrow> bool" where
  "log_wf srv \<longleftrightarrow> length (log_key srv) = NUM_NODE div 2 \<and> (\<forall>e \<in> set (log_key srv). length (log_k e) = KEY_LENGTH)"

definition log_idle :: "mc_server \<Rightarrow> bool" where
  "log_idle srv \<longleftrightarrow> log_wf srv \<and> (\<forall>e \<in> set (log_key srv). log_empty e)"

definition logged :: "u8 list \<Rightarrow> mc_server \<Rightarrow> bool" where
  "logged key srv \<longleftrightarrow> log_wf srv \<and> log_empty (log_key srv ! 0) \<and> strneq (length key) key (log_k (log_key srv ! 1))"

definition good_key :: "u8 list \<Rightarrow> bool" where
  "good_key key \<longleftrightarrow> length key = KEY_LENGTH \<and> key ! 0 \<noteq> 0"

lemma log_wf_two:
  assumes "log_wf srv"
  obtains e0 e1 where "log_key srv = [e0, e1]" "length (log_k e0) = KEY_LENGTH" "length (log_k e1) = KEY_LENGTH"
proof -
  have "length (log_key srv) = Suc (Suc 0)" using assms by (simp add: log_wf_def)
  then obtain e0 e1 where "log_key srv = [e0, e1]" by (auto simp: length_Suc_conv)
  with assms that show thesis by (simp add: log_wf_def)
qed

lemma mc_commit_idle:
  assumes "log_idle srv" and "good_key key"
  obtains es where "mc_commit key srv = Inr (0, srv\<lparr>log_key := es\<rparr>)" "logged key (srv\<lparr>log_key := es\<rparr>)"
proof -
  obtain e0 e1 where e: "log_key srv = [e0, e1]" "length (log_k e0) = KEY_LENGTH" "length (log_k e1) = KEY_LENGTH"
    using assms(1) log_wf_two by (metis log_idle_def)
  have emp: "log_empty e0" "log_empty e1" using assms(1) e by (auto simp: log_idle_def)
  let ?es = "[e0, \<lparr>log_k = strncpy (length key) key (log_k e1), log_it = NULL\<rparr>]"
  have "mc_commit key srv = Inr (0, srv\<lparr>log_key := ?es\<rparr>)" using e emp by (simp add: mc_commit_def Let_def)
  moreover have "logged key (srv\<lparr>log_key := ?es\<rparr>)"
    using e emp assms(2) strneq_strncpy[of key "log_k e1"]
    by (auto simp: logged_def log_wf_def length_strncpy good_key_def)
  ultimately show thesis by (rule that)
qed

lemma mc_commit_conflict:
  assumes "logged key srv" and "good_key key"
  shows "mc_commit key srv = Inr (1, srv)"
proof -
  obtain e0 e1 where e: "log_key srv = [e0, e1]" "length (log_k e0) = KEY_LENGTH" "length (log_k e1) = KEY_LENGTH"
    using assms(1) log_wf_two by (metis logged_def)
  have "key \<noteq> []" using assms(2) by (auto simp: good_key_def)
  then have "\<not> log_empty e1" using assms e strneq_first[of key "log_k e1"] by (auto simp: logged_def log_empty_def good_key_def)
  then show ?thesis using assms(1) e by (simp add: mc_commit_def logged_def)
qed

section \<open>Setting and reading a key\<close>

text \<open>The part of a server's state that an update of the store leaves alone.\<close>

definition shell :: "mc_server \<Rightarrow> nat \<times> nat \<times> (nat \<Rightarrow> nat) \<times> bool \<times> bool" where
  "shell srv = (cur_node srv, client_id srv, msg_idx srv, running srv, loading srv)"

definition room :: "nat \<Rightarrow> (nat \<times> u8 list \<Rightarrow> u8 list option) \<Rightarrow> nat \<times> u8 list \<Rightarrow> bool" where
  "room f m bk \<longleftrightarrow> 0 < f \<or> m bk \<noteq> None"

lemma mc_set_key_ext_spec:
  assumes r: "rep n f m (store srv)" and "n < fuel" and k: "length key < 256" and d: "length data = V_LENGTH"
    and rm: "room f m (bucket hv, key)"
  obtains srv' f' where "mc_set_key_ext fuel key data hv srv = Inr (0, srv')"
    "rep (Suc n) f' (m((bucket hv, key) \<mapsto> data)) (store srv')" "f \<le> Suc f'"
    "shell srv' = shell srv" "log_key srv' = log_key srv"
proof -
  obtain a where a: "do_item_get fuel key hv (store srv) = Inr a" "a = NULL \<longleftrightarrow> m (bucket hv, key) = None"
    using do_item_get_rep[OF r assms(2)] by metis
  show thesis
  proof (cases "a = NULL")
    case False
    let ?s = "srv\<lparr>store := set_data a data (store srv), status := (status srv)\<lparr>st_confict := st_confict (status srv) + 1\<rparr>\<rparr>"
    have "rep (Suc n) f (m((bucket hv, key) \<mapsto> data)) (store ?s)"
      using rep_overwrite[OF r assms(2) a(1) False d] rep_mono by force
    moreover have "mc_set_key_ext fuel key data hv srv = Inr (0, ?s)"
      using a(1) False by (simp add: mc_set_key_ext_def)
    ultimately show ?thesis by (intro that[of ?s f]) (auto simp: shell_def)
  next
    case True
    then have none: "m (bucket hv, key) = None" using a(2) by simp
    then obtain f' where f: "f = Suc f'" using rm by (cases f) (auto simp: room_def)
    from rep_new[OF r[unfolded f] none k d, of 0] obtain x st1 st2 where
      x: "do_item_alloc key 0 (V_LENGTH + 2) (store srv) = Inr (x, st1)" "x \<noteq> NULL"
        "do_item_link x hv (upd_item x (\<lambda>i. i\<lparr>it_hv := hv\<rparr>) (set_data x data st1)) = Inr st2"
        "rep (Suc n) f' (m((bucket hv, key) \<mapsto> data)) st2" by blast
    let ?s = "srv\<lparr>status := (status srv)\<lparr>st_alloc := st_alloc (status srv) + 1\<rparr>, store := st2\<rparr>"
    have "mc_set_key_ext fuel key data hv srv = Inr (0, ?s)"
      using a(1) True x(1-3) by (simp add: mc_set_key_ext_def item_alloc_def d Let_def)
    with x(4) f show ?thesis by (intro that[of ?s f']) (auto simp: shell_def)
  qed
qed

lemma mc_update_spec:
  assumes l: "logged key srv" and gk: "good_key key" and r: "rep n f m (store srv)" and fu: "n < fuel"
    and d: "length data = V_LENGTH" and rm: "room f m (bucket hv, key)"
  obtains srv' f' where "mc_update fuel key data hv srv = Inr (0, srv')" "log_idle srv'"
    "rep (Suc n) f' (m((bucket hv, key) \<mapsto> data)) (store srv')" "f \<le> Suc f'"
    "shell srv' = shell srv"
proof -
  obtain e0 e1 where e: "log_key srv = [e0, e1]" "length (log_k e0) = KEY_LENGTH" "length (log_k e1) = KEY_LENGTH"
    using l log_wf_two by (metis logged_def)
  have ne: "key \<noteq> []" using gk by (auto simp: good_key_def)
  have scan: "update_scan key 0 (log_key srv) = 1"
    using l e strneq_empty_entry[OF ne, of e0] gk by (auto simp: logged_def good_key_def)
  let ?l = "[e0, e1\<lparr>log_k := (log_k e1)[0 := 0]\<rparr>]"
  let ?s = "srv\<lparr>log_key := ?l\<rparr>"
  have k: "length key < 256" using gk by (simp add: good_key_def)
  from mc_set_key_ext_spec[of n f m ?s fuel key data hv] r fu k d rm obtain srv' f' where
    s: "mc_set_key_ext fuel key data hv ?s = Inr (0, srv')" "rep (Suc n) f' (m((bucket hv, key) \<mapsto> data)) (store srv')"
      "f \<le> Suc f'" "shell srv' = shell ?s" "log_key srv' = ?l" by auto
  have "log_idle srv'" using e l s(5) by (auto simp: log_idle_def log_wf_def log_empty_def logged_def)
  moreover have "mc_update fuel key data hv srv = Inr (0, srv')"
    using scan e s(1) by (simp add: mc_update_def)
  moreover have "shell srv' = shell srv" using s(4) by (simp add: shell_def)
  ultimately show thesis using s(2,3) that by blast
qed

lemma post_quiet:
  assumes "quiet net"
  shows "\<exists>a net'. post pg dst sz g srv net = Inr (srv\<lparr>msg_idx := (msg_idx srv)(dst := Suc (msg_idx srv dst))\<rparr>, net') \<and>
    only_msg net' dst (cur_node srv) a \<and> msg_page net' a = g (msg_page net a)"
proof -
  let ?a = "rpc_addr pg (cur_node srv) dst (msg_idx srv dst)"
  let ?net = "net\<lparr>msg_page := (msg_page net)(?a := g (msg_page net ?a))\<rparr>"
  have "quiet ?net" using assms by (simp add: quiet_def net_wf_def pending_def)
  then obtain net' where n: "rpc_send_mc (cur_node srv) dst sz ?a ?net = (0, net')" "only_msg net' dst (cur_node srv) ?a"
      "msg_page net' = msg_page ?net" by (rule quiet_send)
  then have "post pg dst sz g srv net = Inr (srv\<lparr>msg_idx := (msg_idx srv)(dst := Suc (msg_idx srv dst))\<rparr>, net')"
    by (simp add: post_def Let_def)
  with n show ?thesis by (intro exI[of _ ?a] exI[of _ net']) simp
qed

lemma event_step_recv:
  assumes "only_msg net n s a" and "cur_node srv = n" "n < 2" "running srv" and "s < NUM_NODE" "n \<noteq> s"
  shows "\<exists>net'. quiet net' \<and> event_step fuel pg srv net = handle fuel pg (msg_page net a) srv net'"
proof -
  obtain net' where n: "rpc_recv_mc n net = Some (a, net')" "quiet net'" "msg_page net' = msg_page net"
    using only_recv[OF assms(1) _ assms(5,6)] assms(3) by auto
  then show ?thesis using assms(2,4) by (auto simp: event_step_def)
qed

lemma peer: "n < 2 \<Longrightarrow> 1 - n < NUM_NODE \<and> n \<noteq> 1 - n \<and> 1 - (1 - n) = n \<and> 1 - n < (2::nat)"
  by presburger

section \<open>One round of a SET\<close>

text \<open>
  The request that a client sends, as the servers forward it: key, hash and value stay, type and
  sender change from phase to phase.
\<close>

definition carries :: "mc_msg \<Rightarrow> mc_message_t \<Rightarrow> nat \<Rightarrow> u8 list \<Rightarrow> u32 \<Rightarrow> u8 list \<Rightarrow> bool" where
  "carries msg ty n key hv data \<longleftrightarrow> mtype msg = ty \<and> m_id msg = n \<and> m_key msg = key \<and> m_hv msg = hv \<and> m_data msg = data"

definition up :: "nat \<Rightarrow> mc_server \<Rightarrow> bool" where
  "up n srv \<longleftrightarrow> cur_node srv = n \<and> n < 2 \<and> running srv"

lemma up_shell: "shell srv' = shell srv \<Longrightarrow> up n srv' = up n srv"
  by (auto simp: up_def shell_def)

lemma step_set:
  assumes u: "up n s" and i: "log_idle s" and net: "only_msg net n c a" and c: "c = n + 2"
    and msg: "carries (msg_page net a) MC_MSG_SET c key hv data" and gk: "good_key key"
  obtains s' net' a' where "event_step fuel pg s net = Inr (s', net')" "up n s'" "logged key s'" "client_id s' = c"
    "store s' = store s" "only_msg net' (1 - n) n a'" "carries (msg_page net' a') MC_MSG_PREPARE n key hv data"
proof -
  let ?m = "msg_page net a" and ?s = "s\<lparr>client_id := c\<rparr>"
  have n: "cur_node s = n" "n < 2" "running s" using u unfolding up_def by blast+
  obtain net1 where n1: "quiet net1" "event_step fuel pg s net = handle fuel pg ?m s net1"
    using event_step_recv[OF net n, of fuel pg] c n(2) by auto
  have "log_idle ?s" using i by (simp add: log_idle_def log_wf_def)
  then obtain es where co: "mc_commit key ?s = Inr (0, ?s\<lparr>log_key := es\<rparr>)" "logged key (?s\<lparr>log_key := es\<rparr>)"
    by (rule mc_commit_idle[OF _ gk])
  let ?f = "\<lambda>_. ?m\<lparr>mtype := MC_MSG_PREPARE, m_id := n, has_data := True\<rparr>"
  obtain net2 a' where p: "post pg (1 - n) (msg_bytes ?m) ?f (?s\<lparr>log_key := es\<rparr>) net1 =
      Inr (?s\<lparr>log_key := es, msg_idx := (msg_idx s)(1 - n := Suc (msg_idx s (1 - n)))\<rparr>, net2)"
      "only_msg net2 (1 - n) n a'" "msg_page net2 a' = ?f (msg_page net1 a')"
    using post_quiet[OF n1(1), of pg "1 - n" "msg_bytes ?m" ?f "?s\<lparr>log_key := es\<rparr>"] n(1) by auto
  show thesis
  proof (rule that)
    show "event_step fuel pg s net = Inr (?s\<lparr>log_key := es, msg_idx := (msg_idx s)(1 - n := Suc (msg_idx s (1 - n))),
        status := (status s)\<lparr>st_set := st_set (status s) + 1\<rparr>\<rparr>, net2)"
      using n1(2) msg co(1) p(1) n c by (simp add: handle_def on_set_def carries_def)
    show "logged key (?s\<lparr>log_key := es, msg_idx := (msg_idx s)(1 - n := Suc (msg_idx s (1 - n))),
        status := (status s)\<lparr>st_set := st_set (status s) + 1\<rparr>\<rparr>)" using co(2) by (simp add: logged_def log_wf_def)
  qed (use p(2,3) msg n in \<open>auto simp: up_def carries_def\<close>)
qed

lemma step_prepare:
  assumes u: "up n s" and i: "log_idle s" and net: "only_msg net n (1 - n) a"
    and msg: "carries (msg_page net a) MC_MSG_PREPARE (1 - n) key hv data" and gk: "good_key key"
  obtains s' net' a' where "event_step fuel pg s net = Inr (s', net')" "up n s'" "logged key s'" "client_id s' = client_id s"
    "store s' = store s" "only_msg net' (1 - n) n a'" "carries (msg_page net' a') MC_MSG_PREPARE_OK n key hv data"
proof -
  let ?m = "msg_page net a"
  have n: "cur_node s = n" "n < 2" "running s" using u unfolding up_def by blast+
  obtain net1 where n1: "quiet net1" "event_step fuel pg s net = handle fuel pg ?m s net1"
    using event_step_recv[OF net n, of fuel pg] peer[OF n(2)] by blast
  obtain es where co: "mc_commit key s = Inr (0, s\<lparr>log_key := es\<rparr>)" "logged key (s\<lparr>log_key := es\<rparr>)"
    by (rule mc_commit_idle[OF i gk])
  let ?f = "\<lambda>_. ?m\<lparr>mtype := MC_MSG_PREPARE_OK, m_id := n, has_data := True\<rparr>"
  obtain net2 a' where p: "post pg (1 - n) (msg_bytes ?m) ?f (s\<lparr>log_key := es\<rparr>) net1 =
      Inr (s\<lparr>log_key := es, msg_idx := (msg_idx s)(1 - n := Suc (msg_idx s (1 - n)))\<rparr>, net2)"
      "only_msg net2 (1 - n) n a'" "msg_page net2 a' = ?f (msg_page net1 a')"
    using post_quiet[OF n1(1), of pg "1 - n" "msg_bytes ?m" ?f "s\<lparr>log_key := es\<rparr>"] n(1) by auto
  show thesis
  proof (rule that)
    show "event_step fuel pg s net = Inr (s\<lparr>log_key := es, msg_idx := (msg_idx s)(1 - n := Suc (msg_idx s (1 - n)))\<rparr>, net2)"
      using n1(2) msg co(1) p(1) n by (simp add: handle_def on_prepare_def carries_def)
    show "logged key (s\<lparr>log_key := es, msg_idx := (msg_idx s)(1 - n := Suc (msg_idx s (1 - n)))\<rparr>)"
      using co(2) by (simp add: logged_def log_wf_def)
  qed (use p(2,3) msg n in \<open>auto simp: up_def carries_def\<close>)
qed

text \<open>The two phases that apply the value have the same effect on the store; they differ in the message they post.\<close>

lemma step_apply:
  assumes u: "up n s" and lg: "logged key s" and net: "only_msg net n (1 - n) a"
    and msg: "carries (msg_page net a) ty (1 - n) key hv data" and gk: "good_key key"
    and r: "rep k f m (store s)" "k < fuel" "length data = V_LENGTH" "room f m (bucket hv, key)"
    and ty: "ty = MC_MSG_PREPARE_OK \<and> g = (\<lambda>_. (msg_page net a)\<lparr>mtype := MC_MSG_COMMIT, m_id := n, has_data := True\<rparr>) \<and> sz = msg_bytes (msg_page net a) \<or>
      ty = MC_MSG_COMMIT \<and> g = (\<lambda>ret. ret\<lparr>mtype := MC_MSG_COMMIT_OK, m_id := n\<rparr>) \<and> sz = MC_MSG_SZ"
  shows "\<exists>s' net' a' f' x. event_step fuel pg s net = Inr (s', net') \<and> up n s' \<and> log_idle s' \<and> client_id s' = client_id s \<and>
    rep (Suc k) f' (m((bucket hv, key) \<mapsto> data)) (store s') \<and> f \<le> Suc f' \<and>
    only_msg net' (1 - n) n a' \<and> msg_page net' a' = g x"
proof -
  let ?m = "msg_page net a"
  have n: "cur_node s = n" "n < 2" "running s" using u unfolding up_def by blast+
  obtain net1 where n1: "quiet net1" "event_step fuel pg s net = handle fuel pg ?m s net1"
    using event_step_recv[OF net n, of fuel pg] peer[OF n(2)] by blast
  obtain s1 f' where s1: "mc_update fuel key data hv s = Inr (0, s1)" "log_idle s1"
      "rep (Suc k) f' (m((bucket hv, key) \<mapsto> data)) (store s1)" "f \<le> Suc f'" "shell s1 = shell s"
    by (rule mc_update_spec[OF lg gk r])
  have sh: "cur_node s1 = n" "client_id s1 = client_id s" "running s1" using s1(5) n by (auto simp: shell_def)
  obtain net2 a' where p: "post pg (1 - n) sz g s1 net1 = Inr (s1\<lparr>msg_idx := (msg_idx s1)(1 - n := Suc (msg_idx s1 (1 - n)))\<rparr>, net2)"
      "only_msg net2 (1 - n) n a'" "msg_page net2 a' = g (msg_page net1 a')"
    using post_quiet[OF n1(1), of pg "1 - n" sz g s1] sh(1) by auto
  let ?s = "s1\<lparr>msg_idx := (msg_idx s1)(1 - n := Suc (msg_idx s1 (1 - n)))\<rparr>"
  have "event_step fuel pg s net = Inr (?s, net2)"
    using ty n1(2) msg s1(1) p(1) n sh by (auto simp: handle_def on_prepare_ok_def on_commit_def carries_def)
  moreover have "log_idle ?s" using s1(2) by (simp add: log_idle_def log_wf_def)
  moreover have "rep (Suc k) f' (m((bucket hv, key) \<mapsto> data)) (store ?s)" using s1(3) by simp
  moreover have "up n ?s" "client_id ?s = client_id s" using sh n by (auto simp: up_def)
  ultimately show ?thesis using p(2,3) s1(4) by blast
qed

lemma step_commit_ok:
  assumes u: "up n s" and net: "only_msg net n (1 - n) a" and c: "client_id s = n + 2"
    and msg: "mtype (msg_page net a) = MC_MSG_COMMIT_OK" "m_id (msg_page net a) = 1 - n"
  shows "\<exists>s' net' a'. event_step fuel pg s net = Inr (s', net') \<and> up n s' \<and> log_key s' = log_key s \<and> store s' = store s \<and>
    only_msg net' (n + 2) n a' \<and> mtype (msg_page net' a') = MC_MSG_SET_OK \<and> m_id (msg_page net' a') = n"
proof -
  have n: "cur_node s = n" "n < 2" "running s" using u unfolding up_def by blast+
  obtain net1 where n1: "quiet net1" "event_step fuel pg s net = handle fuel pg (msg_page net a) s net1"
    using event_step_recv[OF net n, of fuel pg] peer[OF n(2)] by blast
  let ?f = "\<lambda>ret. ret\<lparr>mtype := MC_MSG_SET_OK, m_id := n\<rparr>"
  obtain net2 a' where p: "post pg (n + 2) MC_MSG_SZ ?f s net1 = Inr (s\<lparr>msg_idx := (msg_idx s)(n + 2 := Suc (msg_idx s (n + 2)))\<rparr>, net2)"
      "only_msg net2 (n + 2) n a'" "msg_page net2 a' = ?f (msg_page net1 a')"
    using post_quiet[OF n1(1), of pg "n + 2" MC_MSG_SZ ?f s] n(1) by auto
  have "event_step fuel pg s net = Inr (s\<lparr>msg_idx := (msg_idx s)(n + 2 := Suc (msg_idx s (n + 2)))\<rparr>, net2)"
    using n1(2) msg p(1) n c by (simp add: handle_def on_commit_ok_def)
  with p(2,3) n show ?thesis by (intro exI) (auto simp: up_def)
qed

lemma client_set_send_spec:
  assumes "quiet net" and "me cl = n + 2" and "good_key key" "length data = V_LENGTH"
  shows "\<exists>cl' net' a. client_set_send hash pg key data cl net = Inr (cl', net') \<and> me cl' = me cl \<and>
    only_msg net' n (n + 2) a \<and> carries (msg_page net' a) MC_MSG_SET (n + 2) key (hash key) data"
proof -
  let ?a = "rpc_addr pg (n + 2) n (cl_idx cl n)"
  let ?g = "\<lambda>m. m\<lparr>mtype := MC_MSG_SET, m_id := n + 2, m_hv := hash key, m_key := key,
              m_nbytes := length data, has_data := True, m_data := data\<rparr>"
  let ?net = "net\<lparr>msg_page := (msg_page net)(?a := ?g (msg_page net ?a))\<rparr>"
  have "quiet ?net" using assms(1) by (simp add: quiet_def net_wf_def pending_def)
  then obtain net' where n: "rpc_send_mc (n + 2) n (MC_MSG_SZ + length key + length data) ?a ?net = (0, net')" "only_msg net' n (n + 2) ?a"
      "msg_page net' = msg_page ?net" by (rule quiet_send)
  have "client_set_send hash pg key data cl net = Inr (cl\<lparr>cl_idx := (cl_idx cl)(n := Suc (cl_idx cl n))\<rparr>, net')"
    using n(1) assms(2-4) by (simp add: client_set_send_def client_post_def good_key_def Let_def)
  with n(2,3) show ?thesis by (intro exI) (auto simp: carries_def)
qed

text \<open>The messages of a round, in the only order in which they can be delivered on an idle transport.\<close>

definition set_round :: "nat \<Rightarrow> (u8 list \<Rightarrow> u32) \<Rightarrow> pages \<Rightarrow> u8 list \<Rightarrow> u8 list \<Rightarrow> mc_client \<Rightarrow> mc_server \<Rightarrow> mc_server \<Rightarrow> mc_net \<Rightarrow>
    (int \<times> mc_client \<times> mc_server \<times> mc_server \<times> mc_net) result" where
  "set_round fuel hash pg key data cl s p net =
     bindE (client_set_send hash pg key data cl net) (\<lambda>(cl, net).
     bindE (event_step fuel pg s net) (\<lambda>(s, net). bindE (event_step fuel pg p net) (\<lambda>(p, net).
     bindE (event_step fuel pg s net) (\<lambda>(s, net). bindE (event_step fuel pg p net) (\<lambda>(p, net).
     bindE (event_step fuel pg s net) (\<lambda>(s, net).
     case rpc_recv_mc (me cl) net of
       None \<Rightarrow> Inl Spins
     | Some (a, net) \<Rightarrow> bindE (client_set_reply (me cl - NUM_NODE div 2) (msg_page net a)) (\<lambda>r. Inr (r, cl, s, p, net))))))))"

lemma set_round_spec:
  assumes u: "up n s" "up (1 - n) p" and i: "log_idle s" "log_idle p" and net: "quiet net" and cl: "me cl = n + 2"
    and gk: "good_key key" and d: "length data = V_LENGTH"
    and rs: "rep k f m (store s)" "k < fuel" "room f m (bucket (hash key), key)"
    and rp: "rep k' f' m' (store p)" "k' < fuel" "room f' m' (bucket (hash key), key)"
  shows "\<exists>cl' s' p' net' g g'. set_round fuel hash pg key data cl s p net = Inr (0, cl', s', p', net') \<and> me cl' = n + 2 \<and> up n s' \<and> up (1 - n) p' \<and>
    log_idle s' \<and> log_idle p' \<and> quiet net' \<and>
    rep (Suc k) g (m((bucket (hash key), key) \<mapsto> data)) (store s') \<and> f \<le> Suc g \<and>
    rep (Suc k') g' (m'((bucket (hash key), key) \<mapsto> data)) (store p') \<and> f' \<le> Suc g'"
proof -
  have n: "n < 2" using u(1) by (simp add: up_def)
  note pr = peer[OF n]
  obtain cl1 net1 a1 where s1: "client_set_send hash pg key data cl net = Inr (cl1, net1)" "me cl1 = n + 2" "only_msg net1 n (n + 2) a1"
      "carries (msg_page net1 a1) MC_MSG_SET (n + 2) key (hash key) data"
    using client_set_send_spec[OF net cl gk d, of hash pg] cl by auto
  obtain sA net2 a2 where s2: "event_step fuel pg s net1 = Inr (sA, net2)" "up n sA" "logged key sA" "client_id sA = n + 2"
      "store sA = store s" "only_msg net2 (1 - n) n a2" "carries (msg_page net2 a2) MC_MSG_PREPARE n key (hash key) data"
    by (rule step_set[OF u(1) i(1) s1(3) refl s1(4) gk])
  have "only_msg net2 (1 - n) (1 - (1 - n)) a2" "carries (msg_page net2 a2) MC_MSG_PREPARE (1 - (1 - n)) key (hash key) data"
    using s2(6,7) pr by simp_all
  then obtain pA net3 a3 where s3: "event_step fuel pg p net2 = Inr (pA, net3)" "up (1 - n) pA" "logged key pA"
      "store pA = store p" "only_msg net3 (1 - (1 - n)) (1 - n) a3" "carries (msg_page net3 a3) MC_MSG_PREPARE_OK (1 - n) key (hash key) data"
    by (rule step_prepare[OF u(2) i(2) _ _ gk])
  have m3: "only_msg net3 n (1 - n) a3" using s3(5) pr by simp
  obtain sB net4 a4 g where s4: "event_step fuel pg sA net3 = Inr (sB, net4)" "up n sB" "log_idle sB" "client_id sB = client_id sA"
      "rep (Suc k) g (m((bucket (hash key), key) \<mapsto> data)) (store sB)" "f \<le> Suc g" "only_msg net4 (1 - n) n a4"
      "msg_page net4 a4 = (msg_page net3 a3)\<lparr>mtype := MC_MSG_COMMIT, m_id := n, has_data := True\<rparr>"
    using step_apply[OF s2(2,3) m3 s3(6) gk rs(1)[folded s2(5)] rs(2) d rs(3), of
        "\<lambda>_. (msg_page net3 a3)\<lparr>mtype := MC_MSG_COMMIT, m_id := n, has_data := True\<rparr>" "msg_bytes (msg_page net3 a3)" pg] by blast
  have m4: "only_msg net4 (1 - n) (1 - (1 - n)) a4" "carries (msg_page net4 a4) MC_MSG_COMMIT (1 - (1 - n)) key (hash key) data"
    using s4(7,8) s3(6) pr by (simp_all add: carries_def)
  obtain pB net5 a5 g' y where s5: "event_step fuel pg pA net4 = Inr (pB, net5)" "up (1 - n) pB" "log_idle pB"
      "rep (Suc k') g' (m'((bucket (hash key), key) \<mapsto> data)) (store pB)" "f' \<le> Suc g'" "only_msg net5 (1 - (1 - n)) (1 - n) a5"
      "msg_page net5 a5 = y\<lparr>mtype := MC_MSG_COMMIT_OK, m_id := 1 - n\<rparr>"
    using step_apply[OF s3(2,3) m4 gk rp(1)[folded s3(4)] rp(2) d rp(3), of
        "\<lambda>ret. ret\<lparr>mtype := MC_MSG_COMMIT_OK, m_id := 1 - n\<rparr>" MC_MSG_SZ pg] by blast
  have "only_msg net5 n (1 - n) a5" using s5(6) pr by simp
  then obtain sC net6 a6 where s6: "event_step fuel pg sB net5 = Inr (sC, net6)" "up n sC" "log_key sC = log_key sB" "store sC = store sB"
      "only_msg net6 (n + 2) n a6" "mtype (msg_page net6 a6) = MC_MSG_SET_OK" "m_id (msg_page net6 a6) = n"
    using step_commit_ok[OF s4(2), of net5 a5 fuel pg] s4(4) s2(4) s5(7) by auto
  obtain net7 where s7: "rpc_recv_mc (n + 2) net6 = Some (a6, net7)" "quiet net7" "msg_page net7 = msg_page net6"
    using only_recv[OF s6(5)] n by auto
  have "set_round fuel hash pg key data cl s p net = Inr (0, cl1, sC, pB, net7)"
    using s1(1,2) s2(1) s3(1) s4(1) s5(1) s6(1,6,7) s7(1,3) by (simp add: set_round_def client_set_reply_def)
  moreover have "log_idle sC" using s4(3) s6(3) by (simp add: log_idle_def log_wf_def)
  ultimately show ?thesis using s1(2) s6(2) s5(2,3,4,5) s7(2) s4(5,6) unfolding s6(4)[symmetric] by blast
qed

section \<open>The service\<close>

record mc_sys =
  servers :: "nat \<Rightarrow> mc_server"
  clients :: "nat \<Rightarrow> mc_client"
  network :: mc_net

definition sys_set :: "nat \<Rightarrow> (u8 list \<Rightarrow> u32) \<Rightarrow> pages \<Rightarrow> nat \<Rightarrow> u8 list \<Rightarrow> u8 list \<Rightarrow> mc_sys \<Rightarrow> mc_sys result" where
  "sys_set fuel hash pg n key data sys =
     bindE (set_round fuel hash pg key data (clients sys n) (servers sys n) (servers sys (1 - n)) (network sys)) (\<lambda>(r, cl, s, p, net).
     bindE (assertE (r = 0)) (\<lambda>_.
     Inr \<lparr>servers = (servers sys)(n := s, 1 - n := p), clients = (clients sys)(n := cl), network = net\<rparr>))"

fun sys_sets :: "nat \<Rightarrow> (u8 list \<Rightarrow> u32) \<Rightarrow> pages \<Rightarrow> (nat \<times> u8 list \<times> u8 list) list \<Rightarrow> mc_sys \<Rightarrow> mc_sys result" where
  "sys_sets fuel hash pg [] sys = Inr sys"
| "sys_sets fuel hash pg ((n, key, data) # reqs) sys =
     bindE (sys_set fuel hash pg n key data sys) (\<lambda>sys. sys_sets fuel hash pg reqs sys)"

text \<open>Both replicas hold the map \<open>m\<close>, nothing is under way, and at least \<open>f\<close> items are left.\<close>

definition sys_ok :: "nat \<Rightarrow> nat \<Rightarrow> (nat \<times> u8 list \<Rightarrow> u8 list option) \<Rightarrow> mc_sys \<Rightarrow> bool" where
  "sys_ok k f m sys \<longleftrightarrow> quiet (network sys) \<and> (\<forall>n < 2. up n (servers sys n) \<and> log_idle (servers sys n) \<and>
     me (clients sys n) = n + 2 \<and> (\<exists>g \<ge> f. rep k g m (store (servers sys n))))"

definition good_req :: "nat \<times> u8 list \<times> u8 list \<Rightarrow> bool" where
  "good_req r \<longleftrightarrow> fst r < 2 \<and> good_key (fst (snd r)) \<and> length (snd (snd r)) = V_LENGTH"

definition apply_req :: "(u8 list \<Rightarrow> u32) \<Rightarrow> nat \<times> u8 list \<times> u8 list \<Rightarrow> (nat \<times> u8 list \<Rightarrow> u8 list option) \<Rightarrow> nat \<times> u8 list \<Rightarrow> u8 list option" where
  "apply_req hash r m = m((bucket (hash (fst (snd r))), fst (snd r)) \<mapsto> snd (snd r))"

lemma sys_set_ok:
  assumes ok: "sys_ok k (Suc f) m sys" and r: "good_req (n, key, data)" and "k < fuel"
  shows "\<exists>sys'. sys_set fuel hash pg n key data sys = Inr sys' \<and> sys_ok (Suc k) f (apply_req hash (n, key, data) m) sys'"
proof -
  have n: "n < 2" "good_key key" "length data = V_LENGTH" using r by (auto simp: good_req_def)
  have pr: "1 - n < 2" "n \<noteq> 1 - n" using peer[OF n(1)] by auto
  have q: "quiet (network sys)" using ok unfolding sys_ok_def by blast
  have a: "up i (servers sys i)" "log_idle (servers sys i)" "me (clients sys i) = i + 2"
    "\<exists>g \<ge> Suc f. rep k g m (store (servers sys i))" if "i < 2" for i using ok that unfolding sys_ok_def by blast+
  obtain g where g: "g \<ge> Suc f" "rep k g m (store (servers sys n))" using a(4)[OF n(1)] by blast
  obtain g' where g': "g' \<ge> Suc f" "rep k g' m (store (servers sys (1 - n)))" using a(4)[OF pr(1)] by blast
  have rm: "room g m bk" "room g' m bk" for bk using g(1) g'(1) by (auto simp: room_def)
  from set_round_spec[OF a(1)[OF n(1)] a(1)[OF pr(1)] a(2)[OF n(1)] a(2)[OF pr(1)] q a(3)[OF n(1)] n(2,3) g(2) assms(3) rm(1) g'(2) assms(3) rm(2),
      of hash pg] obtain cl s p net' h h' where
    run: "set_round fuel hash pg key data (clients sys n) (servers sys n) (servers sys (1 - n)) (network sys) = Inr (0, cl, s, p, net')"
    and st: "me cl = n + 2" "up n s" "up (1 - n) p" "log_idle s" "log_idle p" "quiet net'"
      "rep (Suc k) h (m((bucket (hash key), key) \<mapsto> data)) (store s)" "g \<le> Suc h"
      "rep (Suc k) h' (m((bucket (hash key), key) \<mapsto> data)) (store p)" "g' \<le> Suc h'" by blast
  let ?sys = "\<lparr>servers = (servers sys)(n := s, 1 - n := p), clients = (clients sys)(n := cl), network = net'\<rparr>"
  have cover: "i = n \<or> i = 1 - n" if "i < 2" for i using that n(1) by presburger
  have "sys_ok (Suc k) f (apply_req hash (n, key, data) m) ?sys"
    unfolding sys_ok_def
  proof (intro conjI allI impI)
    fix i :: nat assume i: "i < 2"
    have h: "h \<ge> f" "h' \<ge> f" using st(8,10) g(1) g'(1) by auto
    note c = cover[OF i]
    show "up i (servers ?sys i)" "log_idle (servers ?sys i)" using c st pr(2) by auto
    show "me (clients ?sys i) = i + 2" using c st(1) a(3)[OF i] by auto
    show "\<exists>g \<ge> f. rep (Suc k) g (apply_req hash (n, key, data) m) (store (servers ?sys i))"
      using c st(7,9) h pr(2) by (auto simp: apply_req_def)
  qed (use st(6) in simp)
  moreover have "sys_set fuel hash pg n key data sys = Inr ?sys" using run by (simp add: sys_set_def)
  ultimately show ?thesis by blast
qed

text \<open>C19: the replicas stay equal: after any sequence of SETs by the two clients, each handled to its end, both
  servers hold the same map, in which every key has the value of its last SET; no assertion fails and
  every request is acknowledged.\<close>

theorem sets_replicate:
  assumes "sys_ok k f m sys" and "\<forall>r \<in> set reqs. good_req r" and "length reqs \<le> f" and "k + length reqs \<le> fuel"
  shows "\<exists>sys'. sys_sets fuel hash pg reqs sys = Inr sys' \<and>
    sys_ok (k + length reqs) (f - length reqs) (fold (apply_req hash) reqs m) sys'"
  using assms
proof (induction reqs arbitrary: k f m sys)
  case (Cons r reqs)
  obtain n key data where r: "r = (n, key, data)" by (cases r)
  obtain f' where f: "f = Suc f'" using Cons.prems(3) by (cases f) auto
  have "sys_ok k (Suc f') m sys" "good_req (n, key, data)" "k < fuel" using Cons.prems f r by auto
  then obtain sys' where s: "sys_set fuel hash pg n key data sys = Inr sys'" "sys_ok (Suc k) f' (apply_req hash (n, key, data) m) sys'"
    using sys_set_ok[of k f' m sys n key data fuel hash pg] by blast
  have "\<forall>r \<in> set reqs. good_req r" "length reqs \<le> f'" "Suc k + length reqs \<le> fuel" using Cons.prems f by auto
  from Cons.IH[OF s(2) this] s(1) show ?case by (simp add: r f)
qed simp

section \<open>Start\<close>

text \<open>The zeroed item memory of a slab allocator that will hand out the objects \<open>p\<close>.\<close>

definition zero_store :: "addr list \<Rightarrow> mc_store" where
  "zero_store p = \<lparr>htable = (\<lambda>_. NULL), items = (\<lambda>_. \<lparr>it_next = 0, it_prev = 0, h_next = 0, recency = 0, it_hv = 0, exptime = 0,
     nbytes = 0, refcount = 0, nsuffix = 0, it_flags = 0, slabs_clsid = 0, nkey = 0, body = (\<lambda>_. 0)\<rparr>), pool = p\<rparr>"

definition start_server :: "nat \<Rightarrow> addr list \<Rightarrow> mc_server" where
  "start_server n p = server_init \<lparr>cur_node = n, client_id = 0, msg_idx = (\<lambda>_. 0), loading = False, running = True,
     status = \<lparr>st_set = 7, st_get = 7, st_alloc = 7, st_free = 7, st_confict = 7, st_evict = 7\<rparr>, log_key = [], store = zero_store p\<rparr>"

definition start_sys :: "addr list \<Rightarrow> mc_sys" where
  "start_sys p = \<lparr>servers = (\<lambda>n. start_server n p), clients = (\<lambda>n. \<lparr>me = n + 2, cl_idx = (\<lambda>_. 0)\<rparr>), network = zero_net\<rparr>"

lemma start_sys_ok:
  assumes "distinct p" and "NULL \<notin> set p"
  shows "sys_ok 0 (length p) (\<lambda>_. None) (start_sys p)"
proof -
  have "rep 0 (length p) (\<lambda>_. None) (assoc_init (zero_store p))"
    using rep_init[of "zero_store p"] assms by (simp add: zero_store_def)
  then show ?thesis
    by (auto simp: sys_ok_def start_sys_def quiet_zero_net start_server_def server_init_def up_def log_idle_def log_wf_def
        log_empty_def intro!: exI[of _ "length p"])
qed

lemma bucket_16: "bucket 16 = 16"
  by (simp add: bucket_def mask_eq_exp_minus_1)

theorem sets_replicate_witness:
  "\<exists>sys'. sys_sets 3 (\<lambda>key. of_nat (length key)) (\<lambda>r s i. 8192 * r + 4096 * s + i)
       [(0, replicate 16 65, replicate 32 36), (1, replicate 16 66, replicate 32 36), (1, replicate 16 65, replicate 32 37)]
       (start_sys [1000, 2000, 3000]) = Inr sys' \<and>
     sys_ok 3 0 ((\<lambda>_. None)((16, replicate 16 65) \<mapsto> replicate 32 37, (16, replicate 16 66) \<mapsto> replicate 32 36)) sys'"
proof -
  define rs :: "(nat \<times> u8 list \<times> u8 list) list" where
    "rs = [(0, replicate 16 65, replicate 32 36), (1, replicate 16 66, replicate 32 36), (1, replicate 16 65, replicate 32 37)]"
  define h :: "u8 list \<Rightarrow> u32" where "h = (\<lambda>key. of_nat (length key))"
  have "\<forall>r \<in> set rs. good_req r" by (simp add: good_req_def good_key_def rs_def)
  moreover have n: "length rs = 3" by (simp add: rs_def)
  moreover have "sys_ok 0 3 (\<lambda>_. None) (start_sys [1000, 2000, 3000])" using start_sys_ok[of "[1000, 2000, 3000]"] by (simp add: numeral_3_eq_3)
  ultimately have "\<exists>sys'. sys_sets 3 h (\<lambda>r s i. 8192 * r + 4096 * s + i) rs (start_sys [1000, 2000, 3000]) = Inr sys' \<and>
      sys_ok (0 + length rs) (3 - length rs) (fold (apply_req h) rs (\<lambda>_. None)) sys'"
    by (intro sets_replicate) simp_all
  moreover have "fold (apply_req h) rs (\<lambda>_. None) =
      ((\<lambda>_. None)((16, replicate 16 65) \<mapsto> replicate 32 37, (16, replicate 16 66) \<mapsto> replicate 32 36))"
    by (simp add: apply_req_def fun_eq_iff rs_def h_def bucket_16)
  ultimately show ?thesis by (simp only: n) (simp add: rs_def h_def)
qed

section \<open>Reading\<close>

definition get_round :: "nat \<Rightarrow> (u8 list \<Rightarrow> u32) \<Rightarrow> pages \<Rightarrow> u8 list \<Rightarrow> mc_client \<Rightarrow> mc_server \<Rightarrow> mc_net \<Rightarrow>
    (int \<times> mc_msg \<times> mc_server \<times> mc_net) result" where
  "get_round fuel hash pg key cl s net =
     bindE (client_get_send hash pg key cl net) (\<lambda>(cl, net).
     bindE (event_step fuel pg s net) (\<lambda>(s, net).
     case rpc_recv_mc (me cl) net of
       None \<Rightarrow> Inl Spins
     | Some (a, net) \<Rightarrow> bindE (client_get_reply (me cl - NUM_NODE div 2) (msg_page net a)) (\<lambda>r. Inr (r, msg_page net a, s, net))))"

lemma client_get_send_spec:
  assumes "quiet net" and "me cl = n + 2" and "good_key key"
  shows "\<exists>cl' net' a. client_get_send hash pg key cl net = Inr (cl', net') \<and> me cl' = me cl \<and>
    only_msg net' n (n + 2) a \<and> mtype (msg_page net' a) = MC_MSG_GET \<and> m_id (msg_page net' a) = n + 2 \<and>
    m_key (msg_page net' a) = key \<and> m_hv (msg_page net' a) = hash key"
proof -
  let ?a = "rpc_addr pg (n + 2) n (cl_idx cl n)"
  let ?g = "\<lambda>m. m\<lparr>mtype := MC_MSG_GET, m_id := n + 2, m_hv := hash key, m_key := key\<rparr>"
  let ?net = "net\<lparr>msg_page := (msg_page net)(?a := ?g (msg_page net ?a))\<rparr>"
  have "quiet ?net" using assms(1) by (simp add: quiet_def net_wf_def pending_def)
  then obtain net' where n: "rpc_send_mc (n + 2) n (MC_MSG_SZ + length key) ?a ?net = (0, net')" "only_msg net' n (n + 2) ?a"
      "msg_page net' = msg_page ?net" by (rule quiet_send)
  have "client_get_send hash pg key cl net = Inr (cl\<lparr>cl_idx := (cl_idx cl)(n := Suc (cl_idx cl n))\<rparr>, net')"
    using n(1) assms(2,3) by (simp add: client_get_send_def client_post_def good_key_def Let_def)
  with n(2,3) show ?thesis by (intro exI) auto
qed

lemma on_get_spec:
  assumes "quiet net" and n: "cur_node s = n" and c: "m_id msg = n + 2" and r: "rep k f m (store s)" "k < fuel"
    and bk: "bk = (bucket (m_hv msg), m_key msg)"
  shows "\<exists>s' net' a. on_get fuel pg msg s net = Inr (s', net') \<and> store s' = store s \<and> log_key s' = log_key s \<and> cur_node s' = n \<and> running s' = running s \<and>
    only_msg net' (n + 2) n a \<and> m_id (msg_page net' a) = n \<and>
    (case m bk of None \<Rightarrow> mtype (msg_page net' a) = MC_MSG_GET_FAIL \<and> m_nbytes (msg_page net' a) = 0 \<and> \<not> has_data (msg_page net' a)
     | Some v \<Rightarrow> mtype (msg_page net' a) = MC_MSG_GET_OK \<and> m_nbytes (msg_page net' a) = V_LENGTH \<and> has_data (msg_page net' a) \<and>
         m_data (msg_page net' a) = v)"
proof -
  obtain it where "do_item_get fuel (m_key msg) (m_hv msg) (store s) = Inr it \<and> (it = NULL \<longleftrightarrow> m bk = None) \<and>
    (it \<noteq> NULL \<longrightarrow> m bk = Some (item_value (items (store s) it)) \<and> nbytes (items (store s) it) = V_LENGTH + 2)"
    using do_item_get_rep[OF r, of "m_key msg" "m_hv msg"] unfolding bk ..
  then have it: "do_item_get fuel (m_key msg) (m_hv msg) (store s) = Inr it" "it = NULL \<longleftrightarrow> m bk = None"
    "it \<noteq> NULL \<Longrightarrow> m bk = Some (item_value (items (store s) it)) \<and> nbytes (items (store s) it) = V_LENGTH + 2" by blast+
  let ?s = "s\<lparr>status := (status s)\<lparr>st_get := st_get (status s) + 1\<rparr>\<rparr>"
  have g: "mc_get_key_ext fuel (m_key msg) (m_hv msg) s = Inr (it, ?s)"
    using it(1) by (simp add: mc_get_key_ext_def do_item_update_def Let_def)
  let ?ok = "\<lambda>ret. ret\<lparr>m_id := n, mtype := MC_MSG_GET_OK, m_nbytes := V_LENGTH, has_data := True, m_data := item_value (items (store s) it)\<rparr>"
  let ?no = "\<lambda>ret. ret\<lparr>m_id := n, mtype := MC_MSG_GET_FAIL, m_nbytes := 0, has_data := False\<rparr>"
  have run: "on_get fuel pg msg s net = (if it = NULL then post pg (n + 2) MC_MSG_SZ ?no ?s net else post pg (n + 2) (V_LENGTH + MC_MSG_SZ) ?ok ?s net)"
    using g it(3) n c by (simp add: on_get_def Let_def)
  show ?thesis
  proof (cases "it = NULL")
    case True
    then show ?thesis using post_quiet[OF assms(1), of pg "n + 2" MC_MSG_SZ ?no ?s] run it(2) n by fastforce
  next
    case False
    then show ?thesis using post_quiet[OF assms(1), of pg "n + 2" "V_LENGTH + MC_MSG_SZ" ?ok ?s] run it(3)[OF False] n by fastforce
  qed
qed



section \<open>Concurrent requests\<close>

text \<open>C36: two SETs of one key at the same time bring a server down: once a server has accepted a SET from its client,
  the PREPARE of the other server for the same key fails its assertion, whatever value it carries.\<close>

theorem concurrent_sets_abort:
  assumes "up n s" and "log_idle s" and "only_msg net n (n + 2) a" and "good_key key"
    and "carries (msg_page net a) MC_MSG_SET (n + 2) key hv data"
  shows "\<exists>s' net'. event_step fuel pg s net = Inr (s', net') \<and>
    (\<forall>msg hv' data' net''. carries msg MC_MSG_PREPARE (1 - n) key hv' data' \<longrightarrow> handle fuel pg msg s' net'' = Inl Assert_fail)"
proof -
  obtain s' net' a' where s: "event_step fuel pg s net = Inr (s', net')" "up n s'" "logged key s'"
    by (rule step_set[OF assms(1-3) refl assms(5,4)])
  have "handle fuel pg msg s' net'' = Inl Assert_fail" if "carries msg MC_MSG_PREPARE (1 - n) key hv' data'" for msg hv' data' net''
    using that s(2) mc_commit_conflict[OF s(3) assms(4)] by (simp add: handle_def on_prepare_def carries_def up_def)
  with s(1) show ?thesis by blast
qed

theorem concurrent_sets_abort_witness:
  "\<exists>net a s' net' msg. only_msg net 0 2 a \<and> event_step 1 (\<lambda>_ _ _. 0) (start_server 0 []) net = Inr (s', net') \<and>
     mtype msg = MC_MSG_PREPARE \<and> handle 1 (\<lambda>_ _ _. 0) msg s' net' = Inl Assert_fail"
proof -
  have k: "good_key (replicate 16 65)" by (simp add: good_key_def)
  have "\<exists>cl' net' a. client_set_send (\<lambda>_. 0) (\<lambda>_ _ _. 0) (replicate 16 65) (replicate 32 36) \<lparr>me = 0 + 2, cl_idx = (\<lambda>_. 0)\<rparr> zero_net = Inr (cl', net') \<and>
      me cl' = me \<lparr>me = 0 + 2, cl_idx = (\<lambda>_. 0)\<rparr> \<and> only_msg net' 0 (0 + 2) a \<and>
      carries (msg_page net' a) MC_MSG_SET (0 + 2) (replicate 16 65) 0 (replicate 32 36)"
    using client_set_send_spec[OF quiet_zero_net _ k, of "\<lparr>me = 0 + 2, cl_idx = (\<lambda>_. 0)\<rparr>" 0 "replicate 32 36" "\<lambda>_. 0" "\<lambda>_ _ _. 0"] by simp
  then obtain net a where n: "only_msg net 0 (0 + 2) a" "carries (msg_page net a) MC_MSG_SET (0 + 2) (replicate 16 65) 0 (replicate 32 36)" by blast
  have s: "up 0 (start_server 0 [])" "log_idle (start_server 0 [])"
    by (simp_all add: up_def start_server_def server_init_def log_idle_def log_wf_def log_empty_def)
  have "carries (blank_msg\<lparr>mtype := MC_MSG_PREPARE, m_id := 1, m_key := replicate 16 65\<rparr>) MC_MSG_PREPARE (1 - 0) (replicate 16 65) 0 []"
    by (simp add: carries_def blank_msg_def)
  with concurrent_sets_abort[OF s n(1) k n(2), of 1 "\<lambda>_ _ _. 0"] n(1)
  obtain s' net' where "event_step 1 (\<lambda>_ _ _. 0) (start_server 0 []) net = Inr (s', net')"
      "handle 1 (\<lambda>_ _ _. 0) (blank_msg\<lparr>mtype := MC_MSG_PREPARE, m_id := 1, m_key := replicate 16 65\<rparr>) s' net' = Inl Assert_fail" by blast
  moreover have "only_msg net 0 2 a" using n(1) unfolding add_0 .
  moreover have "mtype (blank_msg\<lparr>mtype := MC_MSG_PREPARE, m_id := 1, m_key := replicate 16 65\<rparr>) = MC_MSG_PREPARE" by simp
  ultimately show ?thesis by blast
qed

end
