(* ===== verification/Mp_Mc.thy ===== *)
theory Mp_Mc
  imports Mc_Rpc Mc_Store
begin

unbundle bit_operations_syntax

text \<open>
  The message-passing key-value service: the server of \<^verbatim>\<open>mc_code/mp_mc/servers/server.c\<close> and the
  requests of \<^verbatim>\<open>mc_code/mp_mc/clients/client.c\<close>. Every key lives on one of the servers 0 and 1,
  which the hash of the key selects. \<^verbatim>\<open>KEY_SKEW\<close> is defined in \<^verbatim>\<open>share/constant.h\<close>: the items come
  from a single slab, and when it is used up after the loading phase, the first \<^verbatim>\<open>EVICT_NUM\<close>
  objects of the slab are evicted from the table.

  The table and the items are those of the theory on the item store. The slab is the list of its
  objects in the order of their addresses; the free ones are the pool of the store, so that the
  number of free objects, which the code keeps in \<^verbatim>\<open>nfree\<close>, is the length of the pool.
\<close>

section \<open>State of a server\<close>

abbreviation EVICT_NUM :: nat where "EVICT_NUM \<equiv> 30"
abbreviation MP_MSG_SZ :: nat where "MP_MSG_SZ \<equiv> 48"

record mp_status =
  mp_set :: int
  mp_get :: int
  mp_alloc :: int
  mp_free :: int
  mp_confict :: int
  mp_evict :: int

record mp_server =
  mp_node :: nat
  mp_loading :: bool
  mp_running :: bool
  mp_stat :: mp_status
  slab_first :: bool
  slab_objs :: "addr list"
  mp_store :: mc_store

definition hv2node :: "u32 \<Rightarrow> nat" where
  "hv2node hv = (let tot = mask HASHPOWER_DEFAULT :: u32 in if hv AND tot > tot div 2 then 1 else 0)"

section \<open>Memory\<close>

text \<open>
  Freeing an object may make the whole slab free: the slab allocator then returns the slab, and
  \<^verbatim>\<open>mc_free_pages\<close> aborts.
\<close>

definition mc_free_pages :: "mp_server \<Rightarrow> mp_server result" where
  "mc_free_pages srv = Inl Assert_fail"

definition mp_unlink :: "nat \<Rightarrow> addr \<Rightarrow> mp_server \<Rightarrow> mp_server result" where
  "mp_unlink fuel it srv =
     bindE (do_item_unlink fuel it (it_hv (items (mp_store srv) it)) (mp_store srv)) (\<lambda>st.
     let srv = srv\<lparr>mp_store := st\<rparr>
     in if length (pool st) = length (slab_objs srv) then mc_free_pages srv else Inr srv)"

fun mc_evict_loop :: "nat \<Rightarrow> nat \<Rightarrow> nat \<Rightarrow> mp_server \<Rightarrow> mp_server result" where
  "mc_evict_loop fuel i 0 srv = Inr srv"
| "mc_evict_loop fuel i (Suc n) srv =
     (if length (slab_objs srv) \<le> i then Inl Null_deref
      else bindE (mp_unlink fuel (slab_objs srv ! i) srv) (\<lambda>srv. mc_evict_loop fuel (Suc i) n srv))"

definition mc_evict :: "nat \<Rightarrow> mp_server \<Rightarrow> mp_server result" where
  "mc_evict fuel srv =
     bindE (assertE (pool (mp_store srv) = [])) (\<lambda>_.
     bindE (mc_evict_loop fuel 0 EVICT_NUM srv) (\<lambda>srv.
     Inr (srv\<lparr>mp_stat := (mp_stat srv)\<lparr>mp_evict := mp_evict (mp_stat srv) + int EVICT_NUM,
                                        mp_alloc := mp_alloc (mp_stat srv) - int EVICT_NUM\<rparr>\<rparr>)))"

text \<open>The first call maps the slab, whose objects are all free then; later calls return \<^verbatim>\<open>NULL\<close>.\<close>

definition mc_alloc_pages :: "nat \<Rightarrow> mp_server \<Rightarrow> (bool \<times> mp_server) result" where
  "mc_alloc_pages fuel srv =
     (if \<not> slab_first srv
      then Inr (True, srv\<lparr>slab_first := True, mp_store := (mp_store srv)\<lparr>pool := slab_objs srv\<rparr>\<rparr>)
      else if \<not> mp_loading srv then bindE (mc_evict fuel srv) (\<lambda>srv. Inr (False, srv))
      else Inr (False, srv))"

definition mp_slab_alloc :: "nat \<Rightarrow> mp_server \<Rightarrow> (addr \<times> mp_server) result" where
  "mp_slab_alloc fuel srv =
     (case pool (mp_store srv) of
        a # p \<Rightarrow> Inr (a, srv\<lparr>mp_store := (mp_store srv)\<lparr>pool := p\<rparr>\<rparr>)
      | [] \<Rightarrow> bindE (mc_alloc_pages fuel srv) (\<lambda>(got, srv).
          if got then (case pool (mp_store srv) of
                         [] \<Rightarrow> Inl Assert_fail
                       | a # p \<Rightarrow> Inr (a, srv\<lparr>mp_store := (mp_store srv)\<lparr>pool := p\<rparr>\<rparr>))
          else Inr (NULL, srv)))"

definition mp_do_item_alloc :: "nat \<Rightarrow> u8 list \<Rightarrow> int \<Rightarrow> nat \<Rightarrow> mp_server \<Rightarrow> (addr \<times> mp_server) result" where
  "mp_do_item_alloc fuel key flags nb srv =
     bindE (mp_slab_alloc fuel srv) (\<lambda>(it, srv).
     bindE (if it = NULL then mp_slab_alloc fuel srv else Inr (it, srv)) (\<lambda>(it, srv).
     if it = NULL then Inr (NULL, srv)
     else bindE (assertE (slabs_clsid (items (mp_store srv) it) = 0)) (\<lambda>_.
       Inr (it, srv\<lparr>mp_store := upd_item it (init_item key flags nb) (mp_store srv)\<rparr>))))"

definition mp_item_alloc :: "nat \<Rightarrow> u8 list \<Rightarrow> int \<Rightarrow> nat \<Rightarrow> mp_server \<Rightarrow> (addr \<times> mp_server) result" where
  "mp_item_alloc fuel key flags nb srv =
     mp_do_item_alloc fuel key flags nb (srv\<lparr>mp_stat := (mp_stat srv)\<lparr>mp_alloc := mp_alloc (mp_stat srv) + 1\<rparr>\<rparr>)"

section \<open>Keys\<close>

definition mp_set_key_ext :: "nat \<Rightarrow> u8 list \<Rightarrow> u8 list \<Rightarrow> u32 \<Rightarrow> mp_server \<Rightarrow> (int \<times> mp_server) result" where
  "mp_set_key_ext fuel key data hv srv =
     (let srv = srv\<lparr>mp_stat := (mp_stat srv)\<lparr>mp_set := mp_set (mp_stat srv) + 1\<rparr>\<rparr>
      in bindE (do_item_get fuel key hv (mp_store srv)) (\<lambda>old_it.
         if old_it \<noteq> NULL
         then Inr (0, srv\<lparr>mp_store := set_data old_it data (mp_store srv),
                          mp_stat := (mp_stat srv)\<lparr>mp_confict := mp_confict (mp_stat srv) + 1\<rparr>\<rparr>)
         else bindE (mp_item_alloc fuel key 0 (length data + 2) srv) (\<lambda>(it, srv).
           if it = NULL then Inr (- 1, srv)
           else let st = upd_item it (\<lambda>i. i\<lparr>it_hv := hv\<rparr>) (set_data it data (mp_store srv))
                in bindE (do_item_link it hv st) (\<lambda>st. Inr (0, srv\<lparr>mp_store := st\<rparr>)))))"

definition mp_get_key_ext :: "nat \<Rightarrow> u8 list \<Rightarrow> u32 \<Rightarrow> mp_server \<Rightarrow> (addr \<times> mp_server) result" where
  "mp_get_key_ext fuel key hv srv =
     (let srv = srv\<lparr>mp_stat := (mp_stat srv)\<lparr>mp_get := mp_get (mp_stat srv) + 1\<rparr>\<rparr>
      in bindE (do_item_get fuel key hv (mp_store srv)) (\<lambda>it.
         Inr (it, if it \<noteq> NULL then srv\<lparr>mp_store := do_item_update it (mp_store srv)\<rparr> else srv)))"

section \<open>Messages\<close>

text \<open>One page per ordered pair of nodes.\<close>

definition mp_buf_row :: "nat \<Rightarrow> (nat \<Rightarrow> nat \<Rightarrow> addr) \<times> addr \<Rightarrow> (nat \<Rightarrow> nat \<Rightarrow> addr) \<times> addr" where
  "mp_buf_row i = fold (\<lambda>j (buf, pos). (buf(i := (buf i)(j := pos)), pos + PAGE_SIZE)) [0..<NUM_NODE]"

definition mp_rpc_init :: "nat \<Rightarrow> addr \<Rightarrow> (nat \<Rightarrow> nat \<Rightarrow> addr) \<times> addr" where
  "mp_rpc_init pool_sz addr = fold mp_buf_row [0..<NUM_NODE] (\<lambda>_ _. NULL, addr + round_up_to_page pool_sz)"

definition mp_rpc_addr :: "(nat \<Rightarrow> nat \<Rightarrow> addr) \<Rightarrow> nat \<Rightarrow> nat \<Rightarrow> addr" where
  "mp_rpc_addr msg_buf snd_node rcv = msg_buf rcv snd_node"

definition mp_send :: "addr \<Rightarrow> nat \<Rightarrow> nat \<Rightarrow> (mc_msg \<Rightarrow> mc_msg) \<Rightarrow> mp_server \<Rightarrow> mc_net \<Rightarrow> (mp_server \<times> mc_net) result" where
  "mp_send a dst sz f srv net =
     (let net = net\<lparr>msg_page := (msg_page net)(a := f (msg_page net a))\<rparr>;
          (r, net) = rpc_send_mc (mp_node srv) dst sz a net
      in bindE (assertE (r = 0)) (\<lambda>_. Inr (srv, net)))"

definition mp_on_set :: "nat \<Rightarrow> addr \<Rightarrow> mc_msg \<Rightarrow> mp_server \<Rightarrow> mc_net \<Rightarrow> (mp_server \<times> mc_net) result" where
  "mp_on_set fuel ret msg srv net =
     bindE (assertE (m_id msg \<ge> NUM_NODE div 2)) (\<lambda>_.
     bindE (mp_set_key_ext fuel (m_key msg) (m_data msg) (m_hv msg) srv) (\<lambda>(r, srv).
     if r < 0
     then bindE (assertE (mp_loading srv)) (\<lambda>_. mp_send ret (m_id msg) MP_MSG_SZ (\<lambda>m. m\<lparr>mtype := MC_MSG_SET_FAIL\<rparr>) srv net)
     else mp_send ret (m_id msg) MP_MSG_SZ (\<lambda>m. m\<lparr>mtype := MC_MSG_SET_OK\<rparr>) srv net))"

definition mp_on_get :: "nat \<Rightarrow> addr \<Rightarrow> mc_msg \<Rightarrow> mp_server \<Rightarrow> mc_net \<Rightarrow> (mp_server \<times> mc_net) result" where
  "mp_on_get fuel ret msg srv net =
     bindE (assertE (m_id msg \<ge> NUM_NODE div 2)) (\<lambda>_.
     bindE (mp_get_key_ext fuel (m_key msg) (m_hv msg) srv) (\<lambda>(it, srv).
     if it \<noteq> NULL
     then let i = items (mp_store srv) it in
       mp_send ret (m_id msg) (nbytes i - 2 + MP_MSG_SZ)
         (\<lambda>m. m\<lparr>mtype := MC_MSG_GET_OK, m_nbytes := nbytes i - 2, has_data := True, m_data := item_value i\<rparr>) srv net
     else
       mp_send ret (m_id msg) MP_MSG_SZ (\<lambda>m. m\<lparr>mtype := MC_MSG_GET_FAIL, m_nbytes := 0, has_data := False\<rparr>) srv net))"

definition mp_handle :: "nat \<Rightarrow> (nat \<Rightarrow> nat \<Rightarrow> addr) \<Rightarrow> mc_msg \<Rightarrow> mp_server \<Rightarrow> mc_net \<Rightarrow> (mp_server \<times> mc_net) result" where
  "mp_handle fuel pg msg srv net =
     (let ret = mp_rpc_addr pg (mp_node srv) (m_id msg);
          net = net\<lparr>msg_page := (msg_page net)(ret := (msg_page net ret)\<lparr>m_id := mp_node srv\<rparr>)\<rparr>
      in case mtype msg of
           MC_MSG_SET \<Rightarrow> mp_on_set fuel ret msg srv net
         | MC_MSG_GET \<Rightarrow> mp_on_get fuel ret msg srv net
         | MC_BEGIN \<Rightarrow> Inr (srv\<lparr>mp_loading := False\<rparr>, net)
         | MC_EXIT \<Rightarrow> Inr (srv\<lparr>mp_running := False\<rparr>, net)
         | _ \<Rightarrow> Inr (srv, net))"

definition mp_event_step :: "nat \<Rightarrow> (nat \<Rightarrow> nat \<Rightarrow> addr) \<Rightarrow> mp_server \<Rightarrow> mc_net \<Rightarrow> (mp_server \<times> mc_net) result" where
  "mp_event_step fuel pg srv net =
     (if \<not> mp_running srv then Inr (srv, net)
      else case rpc_recv_mc (mp_node srv) net of
             None \<Rightarrow> Inr (srv, net)
           | Some (a, net) \<Rightarrow> mp_handle fuel pg (msg_page net a) srv net)"

definition mp_server_init :: "mp_server \<Rightarrow> mp_server" where
  "mp_server_init srv = srv\<lparr>mp_store := assoc_init (mp_store srv),
     mp_stat := \<lparr>mp_set = 0, mp_get = 0, mp_alloc = 0, mp_free = 0, mp_confict = 0, mp_evict = 0\<rparr>, mp_loading := True\<rparr>"

section \<open>Client\<close>

definition mp_client_send :: "(nat \<Rightarrow> nat \<Rightarrow> addr) \<Rightarrow> nat \<Rightarrow> nat \<Rightarrow> nat \<Rightarrow> (mc_msg \<Rightarrow> mc_msg) \<Rightarrow> mc_net \<Rightarrow> int \<times> mc_net" where
  "mp_client_send pg me dst sz f net =
     (let a = mp_rpc_addr pg me dst
      in rpc_send_mc me dst sz a (net\<lparr>msg_page := (msg_page net)(a := f (msg_page net a))\<rparr>))"

definition mp_disconnect :: "(nat \<Rightarrow> nat \<Rightarrow> addr) \<Rightarrow> nat \<Rightarrow> nat \<Rightarrow> mc_message_t \<Rightarrow> mc_net \<Rightarrow> mc_net" where
  "mp_disconnect pg me server ty net = snd (mp_client_send pg me server MP_MSG_SZ (\<lambda>m. m\<lparr>mtype := ty, m_id := me\<rparr>) net)"

definition mp_client_get_send :: "(u8 list \<Rightarrow> u32) \<Rightarrow> (nat \<Rightarrow> nat \<Rightarrow> addr) \<Rightarrow> nat \<Rightarrow> u8 list \<Rightarrow> mc_net \<Rightarrow> mc_net result" where
  "mp_client_get_send hash pg me key net =
     (let node = hv2node (hash key); msg_sz = MP_MSG_SZ + length key
      in bindE (assertE (msg_sz < PAGE_SIZE)) (\<lambda>_.
         let (r, net) = mp_client_send pg me node msg_sz
               (\<lambda>m. m\<lparr>mtype := MC_MSG_GET, m_id := me, m_hv := hash key, m_key := key\<rparr>) net
         in bindE (assertE (r = 0)) (\<lambda>_. Inr net)))"

definition mp_client_get_reply :: "nat \<Rightarrow> mc_msg \<Rightarrow> int result" where
  "mp_client_get_reply node msg =
     bindE (assertE (m_id msg = node)) (\<lambda>_.
     if mtype msg = MC_MSG_GET_OK
     then bindE (assertE (m_nbytes msg = V_LENGTH)) (\<lambda>_. bindE (assertE (has_data msg)) (\<lambda>_.
          bindE (assertE (m_data msg ! 0 = 36)) (\<lambda>_. Inr 0)))
     else if mtype msg = MC_MSG_GET_FAIL
     then bindE (assertE (m_nbytes msg = 0)) (\<lambda>_. bindE (assertE (\<not> has_data msg)) (\<lambda>_. Inr (- 1)))
     else Inl Assert_fail)"

definition mp_client_set_send :: "(u8 list \<Rightarrow> u32) \<Rightarrow> (nat \<Rightarrow> nat \<Rightarrow> addr) \<Rightarrow> nat \<Rightarrow> u8 list \<Rightarrow> u8 list \<Rightarrow> mc_net \<Rightarrow> mc_net result" where
  "mp_client_set_send hash pg me key data net =
     (let hv = hash (take KEY_LENGTH key); node = hv2node hv; msg_sz = MP_MSG_SZ + length key + length data
      in bindE (assertE (msg_sz < PAGE_SIZE)) (\<lambda>_.
         let (r, net) = mp_client_send pg me node msg_sz
               (\<lambda>m. m\<lparr>mtype := MC_MSG_SET, m_id := me, m_hv := hv, m_key := key,
                      m_nbytes := length data, has_data := True, m_data := data\<rparr>) net
         in bindE (assertE (r = 0)) (\<lambda>_. Inr net)))"

definition mp_client_set_reply :: "nat \<Rightarrow> mc_msg \<Rightarrow> int result" where
  "mp_client_set_reply node msg =
     bindE (assertE (m_id msg = node)) (\<lambda>_.
     if mtype msg = MC_MSG_SET_OK then Inr 0 else if mtype msg = MC_MSG_SET_FAIL then Inr (- 1) else Inl Assert_fail)"

section \<open>Invariant and eviction\<close>

definition mp_inv :: "tbl \<Rightarrow> mp_server \<Rightarrow> bool" where
  "mp_inv t srv \<longleftrightarrow> store_inv t (mp_store srv) \<and> distinct (slab_objs srv) \<and> NULL \<notin> set (slab_objs srv) \<and>
     EVICT_NUM < length (slab_objs srv) \<and>
     (if slab_first srv then set (slab_objs srv) = set (pool (mp_store srv)) \<union> linked t
      else pool (mp_store srv) = [] \<and> linked t = {} \<and> (\<forall>a \<in> set (slab_objs srv). slabs_clsid (items (mp_store srv) a) = 0)) \<and>
     (\<forall>b k a. (k, a) \<in> set (t b) \<longrightarrow> bucket (it_hv (items (mp_store srv) a)) = b \<and> nbytes (items (mp_store srv) a) = V_LENGTH + 2)"

lemma mp_invD:
  assumes "mp_inv t srv"
  shows "store_inv t (mp_store srv)" "distinct (slab_objs srv)" "NULL \<notin> set (slab_objs srv)" "EVICT_NUM < length (slab_objs srv)"
    "slab_first srv \<Longrightarrow> set (slab_objs srv) = set (pool (mp_store srv)) \<union> linked t"
    "\<not> slab_first srv \<Longrightarrow> pool (mp_store srv) = [] \<and> linked t = {} \<and> (\<forall>a \<in> set (slab_objs srv). slabs_clsid (items (mp_store srv) a) = 0)"
    "(k, a) \<in> set (t b) \<Longrightarrow> bucket (it_hv (items (mp_store srv) a)) = b \<and> nbytes (items (mp_store srv) a) = V_LENGTH + 2"
  using assms unfolding mp_inv_def by (simp_all split: if_splits)

text \<open>The table without the items of a set of objects.\<close>

definition tbl_evict :: "addr set \<Rightarrow> tbl \<Rightarrow> tbl" where
  "tbl_evict A t = (\<lambda>b. filter (\<lambda>x. snd x \<notin> A) (t b))"

lemma tbl_evict_empty: "tbl_evict {} t = t"
  by (simp add: tbl_evict_def)

lemma tbl_evict_evict: "tbl_evict B (tbl_evict A t) = tbl_evict (A \<union> B) t"
  by (simp add: tbl_evict_def conj_commute)

lemma linked_evict: "linked (tbl_evict A t) = linked t - A"
  by (auto simp: linked_alt tbl_evict_def)

lemma set_tbl_evict: "(k, a) \<in> set (tbl_evict A t b) \<longleftrightarrow> (k, a) \<in> set (t b) \<and> a \<notin> A"
  by (auto simp: tbl_evict_def)

lemma tbl_rem_evict:
  assumes "table_inv t st" and "tbl_map t bk = Some a"
  shows "tbl_rem bk t = tbl_evict {a} t"
proof
  fix b
  have e: "snd x \<noteq> a \<longleftrightarrow> (b, fst x) \<noteq> bk" if "x \<in> set (t b)" for x
  proof -
    have "(fst x, snd x) \<in> set (t b)" using that by simp
    then have "tbl_map t (b, fst x) = Some (snd x)"
      using table_invD(1)[OF assms(1)] by (simp add: tbl_map_def tbl_ok_def)
    then show ?thesis using tbl_map_inj[OF assms, of "(b, fst x)"] assms(2) by (metis option.inject)
  qed
  show "tbl_rem bk t b = tbl_evict {a} t b"
  proof (cases "b = fst bk")
    case True
    then have "(b, fst x) \<noteq> bk \<longleftrightarrow> fst x \<noteq> snd bk" for x :: "u8 list \<times> addr" by (cases bk) simp
    then have "filter (\<lambda>x. fst x \<noteq> snd bk) (t b) = filter (\<lambda>x. snd x \<notin> {a}) (t b)"
      using e by (intro filter_cong) simp_all
    with True show ?thesis by (simp add: tbl_rem_def tbl_evict_def)
  next
    case False
    then have "(b, fst x) \<noteq> bk" for x :: "u8 list \<times> addr" by auto
    then have "filter (\<lambda>x. snd x \<notin> {a}) (t b) = t b" using e by (intro filter_True) simp
    with False show ?thesis by (simp add: tbl_rem_def tbl_evict_def)
  qed
qed

text \<open>What eviction keeps of the remaining items.\<close>

definition keeps :: "addr set \<Rightarrow> mc_store \<Rightarrow> mc_store \<Rightarrow> bool" where
  "keeps A st st' \<longleftrightarrow> (\<forall>x. x \<notin> A \<longrightarrow> (\<exists>n. items st' x = items st x\<lparr>h_next := n\<rparr>))"

lemma keeps_refl: "keeps A st st"
proof (unfold keeps_def, intro allI impI)
  fix x show "\<exists>n. items st x = items st x\<lparr>h_next := n\<rparr>" by (rule exI[of _ "h_next (items st x)"]) simp
qed

lemma keeps_trans: "keeps A st st' \<Longrightarrow> keeps B st' st'' \<Longrightarrow> keeps (A \<union> B) st st''"
proof (unfold keeps_def, intro allI impI)
  fix x assume k: "\<forall>x. x \<notin> A \<longrightarrow> (\<exists>n. items st' x = items st x\<lparr>h_next := n\<rparr>)"
    "\<forall>x. x \<notin> B \<longrightarrow> (\<exists>n. items st'' x = items st' x\<lparr>h_next := n\<rparr>)" "x \<notin> A \<union> B"
  then obtain m n where "items st' x = items st x\<lparr>h_next := m\<rparr>" "items st'' x = items st' x\<lparr>h_next := n\<rparr>" by blast
  then have "items st'' x = items st x\<lparr>h_next := n\<rparr>" by simp
  then show "\<exists>n. items st'' x = items st x\<lparr>h_next := n\<rparr>" by blast
qed

lemma mp_unlink_spec:
  assumes inv: "mp_inv t srv" and f: "slab_first srv" and a: "a \<in> linked t" and len: "\<And>b. length (t b) < fuel"
    and np: "Suc (length (pool (mp_store srv))) < length (slab_objs srv)"
  shows "\<exists>st. mp_unlink fuel a srv = Inr (srv\<lparr>mp_store := st\<rparr>) \<and> mp_inv (tbl_evict {a} t) (srv\<lparr>mp_store := st\<rparr>) \<and>
    pool st = a # pool (mp_store srv) \<and> keeps {a} (mp_store srv) st"
proof -
  obtain b k where m: "(k, a) \<in> set (t b)" using a by (auto simp: linked_alt)
  note st = mp_invD(1)[OF inv] and tab = store_invD(1)[OF mp_invD(1)[OF inv]]
  have hv: "bucket (it_hv (items (mp_store srv) a)) = b" using mp_invD(7)[OF inv m] by blast
  have map: "tbl_map t (b, k) = Some a" using m table_invD(1)[OF tab] by (simp add: tbl_map_def tbl_ok_def)
  obtain st' where s: "do_item_unlink fuel a (it_hv (items (mp_store srv) a)) (mp_store srv) = Inr st'"
      "store_inv (tbl_evict {a} t) st'" "pool st' = a # pool (mp_store srv)" "keeps {a} (mp_store srv) st'"
    using do_item_unlink_spec[OF st, of "it_hv (items (mp_store srv) a)" fuel k a] len map tbl_rem_evict[OF tab map]
    by (auto simp: hv keeps_def)
  have "bucket (it_hv (items st' x)) = c \<and> nbytes (items st' x) = V_LENGTH + 2" if "(l, x) \<in> set (tbl_evict {a} t c)" for c l x
  proof -
    have "(l, x) \<in> set (t c)" "x \<noteq> a" using that by (auto simp: set_tbl_evict)
    moreover obtain n where "items st' x = items (mp_store srv) x\<lparr>h_next := n\<rparr>" using s(4) \<open>x \<noteq> a\<close> by (auto simp: keeps_def)
    ultimately show ?thesis using mp_invD(7)[OF inv] by simp
  qed
  then have "mp_inv (tbl_evict {a} t) (srv\<lparr>mp_store := st'\<rparr>)"
    using s(2,3) mp_invD(2-5)[OF inv] f a by (auto simp: mp_inv_def linked_evict)
  moreover have "mp_unlink fuel a srv = Inr (srv\<lparr>mp_store := st'\<rparr>)"
    using s(1,3) np by (simp add: mp_unlink_def Let_def)
  ultimately show ?thesis using s(3,4) by blast
qed

lemma mc_evict_loop_spec:
  assumes "mp_inv t srv" and "slab_first srv" and "\<And>b. length (t b) < fuel"
    and "i + n \<le> length (slab_objs srv)" and "set (take n (drop i (slab_objs srv))) \<subseteq> linked t"
    and "n + length (pool (mp_store srv)) < length (slab_objs srv)"
  shows "\<exists>st. mc_evict_loop fuel i n srv = Inr (srv\<lparr>mp_store := st\<rparr>) \<and>
    mp_inv (tbl_evict (set (take n (drop i (slab_objs srv)))) t) (srv\<lparr>mp_store := st\<rparr>) \<and>
    pool st = rev (take n (drop i (slab_objs srv))) @ pool (mp_store srv) \<and>
    keeps (set (take n (drop i (slab_objs srv)))) (mp_store srv) st"
  using assms
proof (induction n arbitrary: i t srv)
  case 0
  have "keeps {} (mp_store srv) (mp_store srv)" by (rule keeps_refl)
  then show ?case using "0.prems"(1) by (intro exI[of _ "mp_store srv"]) (simp add: tbl_evict_empty)
next
  case (Suc n)
  let ?o = "slab_objs srv"
  have i: "i < length ?o" using Suc.prems(4) by simp
  have tk: "take (Suc n) (drop i ?o) = ?o ! i # take n (drop (Suc i) ?o)" using i by (simp add: Cons_nth_drop_Suc[symmetric])
  have l: "?o ! i \<in> linked t" "set (take n (drop (Suc i) ?o)) \<subseteq> linked t" using Suc.prems(5) unfolding tk by auto
  obtain st where u: "mp_unlink fuel (?o ! i) srv = Inr (srv\<lparr>mp_store := st\<rparr>)" "mp_inv (tbl_evict {?o ! i} t) (srv\<lparr>mp_store := st\<rparr>)"
      "pool st = ?o ! i # pool (mp_store srv)" "keeps {?o ! i} (mp_store srv) st"
    using mp_unlink_spec[OF Suc.prems(1,2) l(1) Suc.prems(3)] Suc.prems(6) by auto
  have nd: "?o ! i \<notin> set (take n (drop (Suc i) ?o))"
  proof -
    have "distinct (take (Suc n) (drop i ?o))" using mp_invD(2)[OF Suc.prems(1)] by simp
    then show ?thesis unfolding tk by simp
  qed
  have len: "length (tbl_evict {?o ! i} t b) < fuel" for b
    using Suc.prems(3)[of b] length_filter_le[of "\<lambda>x. snd x \<notin> {?o ! i}" "t b"] by (simp only: tbl_evict_def)
  have "\<exists>st'. mc_evict_loop fuel (Suc i) n (srv\<lparr>mp_store := st\<rparr>) = Inr (srv\<lparr>mp_store := st\<rparr>\<lparr>mp_store := st'\<rparr>) \<and>
      mp_inv (tbl_evict (set (take n (drop (Suc i) ?o))) (tbl_evict {?o ! i} t)) (srv\<lparr>mp_store := st\<rparr>\<lparr>mp_store := st'\<rparr>) \<and>
      pool st' = rev (take n (drop (Suc i) ?o)) @ pool st \<and> keeps (set (take n (drop (Suc i) ?o))) st st'"
    using Suc.IH[OF u(2) _ len, of "Suc i"] Suc.prems l(2) nd u(3) by (auto simp: linked_evict)
  then obtain st' where r: "mc_evict_loop fuel (Suc i) n (srv\<lparr>mp_store := st\<rparr>) = Inr (srv\<lparr>mp_store := st'\<rparr>)"
      "mp_inv (tbl_evict (set (take (Suc n) (drop i ?o))) t) (srv\<lparr>mp_store := st'\<rparr>)"
      "pool st' = rev (take (Suc n) (drop i ?o)) @ pool (mp_store srv)" "keeps (set (take n (drop (Suc i) ?o))) st st'"
    using u(3) by (auto simp: tbl_evict_evict tk)
  have "keeps (set (take (Suc n) (drop i ?o))) (mp_store srv) st'" using keeps_trans[OF u(4) r(4)] by (simp add: tk)
  with r u(1) i show ?case by auto
qed

section \<open>Setting a key\<close>

lemma mp_alloc_pool:
  assumes "pool (mp_store srv) = a # p" and "a \<noteq> NULL"
  shows "mp_do_item_alloc fuel key fl nb srv =
    bindE (do_item_alloc key fl nb (mp_store srv)) (\<lambda>(it, st). Inr (it, srv\<lparr>mp_store := st\<rparr>))"
proof (cases "slabs_clsid (items (mp_store srv) a) = 0")
  case True
  with assms show ?thesis
    by (simp add: mp_do_item_alloc_def mp_slab_alloc_def do_item_alloc_def ps_slab_alloc_item_def)
next
  case False
  with assms show ?thesis
    by (simp add: mp_do_item_alloc_def mp_slab_alloc_def do_item_alloc_def ps_slab_alloc_item_def)
qed

lemma mp_new_spec:
  assumes inv: "mp_inv t srv" and f: "slab_first srv" and p: "pool (mp_store srv) = a # p"
    and k: "length key < 256" "length data = V_LENGTH" and none: "tbl_map t (bucket hv, key) = None"
  shows "\<exists>st1 st2. mp_do_item_alloc fuel key fl (length data + 2) srv = Inr (a, srv\<lparr>mp_store := st1\<rparr>) \<and> a \<noteq> NULL \<and>
    do_item_link a hv (upd_item a (\<lambda>i. i\<lparr>it_hv := hv\<rparr>) (set_data a data st1)) = Inr st2 \<and>
    mp_inv (tbl_put (bucket hv, key) a t) (srv\<lparr>mp_store := st2\<rparr>) \<and>
    store_map (tbl_put (bucket hv, key) a t) st2 = (store_map t (mp_store srv))((bucket hv, key) \<mapsto> data)"
proof -
  from new_item_spec[OF mp_invD(1)[OF inv] p k(1) none, of fl data] obtain st1 st2 where
    s: "do_item_alloc key fl (length data + 2) (mp_store srv) = Inr (a, st1)" "a \<noteq> NULL"
      "do_item_link a hv (upd_item a (\<lambda>i. i\<lparr>it_hv := hv\<rparr>) (set_data a data st1)) = Inr st2"
      "store_inv (tbl_put (bucket hv, key) a t) st2" "pool st2 = p"
      "store_map (tbl_put (bucket hv, key) a t) st2 = (store_map t (mp_store srv))((bucket hv, key) \<mapsto> data)"
      "nbytes (items st2 a) = V_LENGTH + 2" "it_hv (items st2 a) = hv" "\<And>x. x \<noteq> a \<Longrightarrow> items st2 x = items (mp_store srv) x"
    unfolding k(2) by blast
  have fld: "bucket (it_hv (items st2 x)) = b \<and> nbytes (items st2 x) = V_LENGTH + 2" if m: "(l, x) \<in> set (tbl_put (bucket hv, key) a t b)" for b l x
  proof (cases "x = a")
    case True
    have "a \<notin> linked t" using store_invD(5)[OF mp_invD(1)[OF inv]] p by auto
    then have "(l, a) \<notin> set (t b)" using linkedI by blast
    then show ?thesis using m True s(7,8) by (auto simp: set_tbl_put)
  next
    case False
    then show ?thesis using m s(9)[OF False] mp_invD(7)[OF inv] by (simp add: set_tbl_put)
  qed
  have "mp_inv (tbl_put (bucket hv, key) a t) (srv\<lparr>mp_store := st2\<rparr>)"
    using s(4,5) fld mp_invD(2-5)[OF inv] f p by (auto simp: mp_inv_def linked_put)
  moreover have "mp_do_item_alloc fuel key fl (length data + 2) srv = Inr (a, srv\<lparr>mp_store := st1\<rparr>)"
    using mp_alloc_pool[OF p s(2)] s(1) by simp
  ultimately show ?thesis using s(2,3,6) by blast
qed

text \<open>The three ways in which an allocation finds a free object.\<close>

lemma mp_inv_stat [simp]: "mp_inv t (srv\<lparr>mp_stat := x\<rparr>) = mp_inv t srv"
  by (simp add: mp_inv_def)

lemma mp_first_slab:
  assumes inv: "mp_inv t srv" and f: "\<not> slab_first srv"
  defines "srv0 \<equiv> srv\<lparr>slab_first := True, mp_store := (mp_store srv)\<lparr>pool := slab_objs srv\<rparr>\<rparr>"
  shows "mp_inv t srv0 \<and> store_map t (mp_store srv0) = store_map t (mp_store srv) \<and>
    mp_do_item_alloc fuel key fl nb srv = mp_do_item_alloc fuel key fl nb srv0"
proof -
  note i = mp_invD(6)[OF inv f]
  obtain a p where o: "slab_objs srv = a # p" using mp_invD(4)[OF inv] by (cases "slab_objs srv") auto
  have "store_inv t (mp_store srv0)"
    using mp_invD(1-3)[OF inv] i by (auto simp: srv0_def store_inv_def table_inv_def)
  then have "mp_inv t srv0" using mp_invD(2-4,7)[OF inv] i by (auto simp: mp_inv_def srv0_def)
  moreover have "mp_slab_alloc fuel srv = mp_slab_alloc fuel srv0"
    using i f o by (simp add: mp_slab_alloc_def mc_alloc_pages_def srv0_def)
  then have "mp_do_item_alloc fuel key fl nb srv = mp_do_item_alloc fuel key fl nb srv0"
    by (simp add: mp_do_item_alloc_def)
  ultimately show ?thesis by (simp add: store_map_def srv0_def fun_eq_iff)
qed

definition evicted :: "mp_server \<Rightarrow> addr set" where
  "evicted srv = set (take EVICT_NUM (slab_objs srv))"

lemma mp_evict_spec:
  assumes inv: "mp_inv t srv" and f: "slab_first srv" and p: "pool (mp_store srv) = []" and nl: "\<not> mp_loading srv"
    and len: "\<And>b. length (t b) < fuel"
  shows "\<exists>srv0. mp_inv (tbl_evict (evicted srv) t) srv0 \<and> slab_first srv0 \<and> length (pool (mp_store srv0)) = EVICT_NUM \<and>
    keeps (evicted srv) (mp_store srv) (mp_store srv0) \<and>
    mp_do_item_alloc fuel key fl nb srv = mp_do_item_alloc fuel key fl nb srv0"
proof -
  have lk: "set (take EVICT_NUM (slab_objs srv)) \<subseteq> linked t"
    using mp_invD(5)[OF inv f] p set_take_subset[of EVICT_NUM "slab_objs srv"] by auto
  obtain st where s: "mc_evict_loop fuel 0 EVICT_NUM srv = Inr (srv\<lparr>mp_store := st\<rparr>)"
      "mp_inv (tbl_evict (evicted srv) t) (srv\<lparr>mp_store := st\<rparr>)" "pool st = rev (take EVICT_NUM (slab_objs srv))"
      "keeps (evicted srv) (mp_store srv) st"
    using mc_evict_loop_spec[OF inv f len, of 0 EVICT_NUM] lk p mp_invD(4)[OF inv] unfolding evicted_def drop_0 by auto
  let ?x = "(mp_stat srv)\<lparr>mp_evict := mp_evict (mp_stat srv) + int EVICT_NUM, mp_alloc := mp_alloc (mp_stat srv) - int EVICT_NUM\<rparr>"
  let ?s = "srv\<lparr>mp_store := st, mp_stat := ?x\<rparr>"
  have ev: "mc_evict fuel srv = Inr ?s" using s(1) p by (simp add: mc_evict_def)
  have lp: "length (pool st) = EVICT_NUM" using s(3) mp_invD(4)[OF inv] by simp
  have inv0: "mp_inv (tbl_evict (evicted srv) t) ?s" using s(2) by simp
  obtain a q where q: "pool st = a # q" using lp by (cases "pool st") auto
  have a0: "a \<noteq> NULL" using store_invD(4)[OF mp_invD(1)[OF inv0]] q by auto
  have "mp_slab_alloc fuel srv = Inr (NULL, ?s)"
    using p f nl ev by (simp add: mp_slab_alloc_def mc_alloc_pages_def)
  then have "mp_do_item_alloc fuel key fl nb srv = mp_do_item_alloc fuel key fl nb ?s"
    using q a0 by (simp add: mp_do_item_alloc_def mp_slab_alloc_def)
  with inv0 lp s(4) f show ?thesis by (intro exI[of _ ?s]) simp
qed

text \<open>The values that are left after an eviction.\<close>

definition survivors :: "addr set \<Rightarrow> tbl \<Rightarrow> mc_store \<Rightarrow> nat \<times> u8 list \<Rightarrow> u8 list option" where
  "survivors A t st bk = (case tbl_map t bk of None \<Rightarrow> None | Some a \<Rightarrow> if a \<in> A then None else Some (item_value (items st a)))"

lemma tbl_map_evict:
  assumes "tbl_ok t"
  shows "tbl_map (tbl_evict A t) bk = (case tbl_map t bk of None \<Rightarrow> None | Some a \<Rightarrow> if a \<in> A then None else Some a)"
proof -
  have "distinct (map fst xs) \<Longrightarrow> map_of (filter (\<lambda>x. snd x \<notin> A) xs) k = (case map_of xs k of None \<Rightarrow> None | Some a \<Rightarrow> if a \<in> A then None else Some a)"
    for xs :: "(u8 list \<times> addr) list" and k
  proof (induction xs)
    case (Cons x xs)
    then show ?case by (cases "fst x = k") (auto split: option.splits dest: map_of_SomeD simp: rev_image_eqI)
  qed simp
  with assms show ?thesis by (simp add: tbl_map_def tbl_evict_def tbl_ok_def)
qed

lemma store_map_evict:
  assumes "tbl_ok t" and "keeps A st st'"
  shows "store_map (tbl_evict A t) st' = survivors A t st"
proof
  fix bk
  have "item_value (items st' a) = item_value (items st a)" if "a \<notin> A" for a
    using assms(2) that by (auto simp: keeps_def)
  then show "store_map (tbl_evict A t) st' bk = survivors A t st bk"
    using tbl_map_evict[OF assms(1)] by (auto simp: store_map_def survivors_def split: option.splits)
qed

lemma evicted_stat [simp]: "evicted (srv\<lparr>mp_stat := x\<rparr>) = evicted srv"
  by (simp add: evicted_def)

text \<open>Unless the slab is used up while keys are loaded, an allocation finds a free object in the end.\<close>

lemma mp_object_found:
  assumes inv: "mp_inv t srv" and len: "\<And>b. length (t b) < fuel" and nl: "slab_first srv \<Longrightarrow> pool (mp_store srv) = [] \<Longrightarrow> \<not> mp_loading srv"
    and none: "tbl_map t bk = None"
  shows "\<exists>s0 t0 a p. mp_do_item_alloc fuel key fl nb srv = mp_do_item_alloc fuel key fl nb s0 \<and>
    mp_inv t0 s0 \<and> slab_first s0 \<and> pool (mp_store s0) = a # p \<and> tbl_map t0 bk = None \<and>
    store_map t0 (mp_store s0) = (if slab_first srv \<and> pool (mp_store srv) = [] then survivors (evicted srv) t (mp_store srv) else store_map t (mp_store srv))"
proof (cases "slab_first srv")
  case False
  let ?s0 = "srv\<lparr>slab_first := True, mp_store := (mp_store srv)\<lparr>pool := slab_objs srv\<rparr>\<rparr>"
  obtain a p where "slab_objs srv = a # p" using mp_invD(4)[OF inv] by (cases "slab_objs srv") auto
  with mp_first_slab[OF inv False, of fuel key fl nb] False none show ?thesis
    by (intro exI[of _ ?s0] exI[of _ t] exI[of _ a] exI[of _ p]) simp
next
  case True
  show ?thesis
  proof (cases "pool (mp_store srv)")
    case (Cons a p)
    then show ?thesis using inv True none by (intro exI[of _ srv] exI[of _ t] exI[of _ a] exI[of _ p]) simp
  next
    case Nil
    have tok: "tbl_ok t" by (rule table_invD(1)[OF store_invD(1)[OF mp_invD(1)[OF inv]]])
    obtain s0 where s0: "mp_inv (tbl_evict (evicted srv) t) s0" "slab_first s0" "length (pool (mp_store s0)) = EVICT_NUM"
        "keeps (evicted srv) (mp_store srv) (mp_store s0)" "mp_do_item_alloc fuel key fl nb srv = mp_do_item_alloc fuel key fl nb s0"
      using mp_evict_spec[OF inv True Nil nl[OF True Nil] len] by blast
    obtain a p where "pool (mp_store s0) = a # p" using s0(3) by (cases "pool (mp_store s0)") auto
    moreover have "tbl_map (tbl_evict (evicted srv) t) bk = None" using tbl_map_evict[OF tok] none by simp
    ultimately show ?thesis using s0(1,2,5) True Nil store_map_evict[OF tok s0(4)]
      by (intro exI[of _ s0] exI[of _ "tbl_evict (evicted srv) t"] exI[of _ a] exI[of _ p]) simp
  qed
qed

lemma mp_set_key_found:
  assumes inv: "mp_inv t srv" and len: "\<forall>b. length (t b) < fuel" and a: "tbl_map t (bucket hv, key) = Some a" and d: "length data = V_LENGTH"
  shows "\<exists>srv'. mp_set_key_ext fuel key data hv srv = Inr (0, srv') \<and> mp_inv t srv' \<and>
    store_map t (mp_store srv') = (store_map t (mp_store srv))((bucket hv, key) \<mapsto> data)"
proof -
  let ?s = "srv\<lparr>mp_stat := (mp_stat srv)\<lparr>mp_set := mp_set (mp_stat srv) + 1\<rparr>\<rparr>"
  let ?r = "?s\<lparr>mp_store := set_data a data (mp_store srv), mp_stat := (mp_stat ?s)\<lparr>mp_confict := mp_confict (mp_stat ?s) + 1\<rparr>\<rparr>"
  note st = mp_invD(1)[OF inv] and l = found_linked[OF store_invD(1)[OF mp_invD(1)[OF inv]] a]
  have "do_item_get fuel key hv (mp_store srv) = Inr a"
    using assoc_find_spec[OF store_invD(1)[OF st], of hv fuel key] len a by (simp add: do_item_get_def)
  then have "mp_set_key_ext fuel key data hv srv = Inr (0, ?r)" using l(3) by (simp add: mp_set_key_ext_def)
  moreover have "mp_inv t ?r" using inv store_inv_set_data[OF st] by (auto simp: mp_inv_def set_data_def)
  moreover have "store_map t (mp_store ?r) = (store_map t (mp_store srv))((bucket hv, key) \<mapsto> data)"
    using set_data_spec[OF st a] mp_invD(7)[OF inv l(1)] d by simp
  ultimately show ?thesis by blast
qed

lemma mp_set_key_spec:
  assumes inv: "mp_inv t srv" and len: "\<forall>b. length (t b) < fuel" and k: "length key < 256" "length data = V_LENGTH"
    and nl: "slab_first srv \<Longrightarrow> pool (mp_store srv) = [] \<Longrightarrow> \<not> mp_loading srv"
  shows "\<exists>srv' t'. mp_set_key_ext fuel key data hv srv = Inr (0, srv') \<and> mp_inv t' srv' \<and>
    store_map t' (mp_store srv') =
      (if tbl_map t (bucket hv, key) = None \<and> slab_first srv \<and> pool (mp_store srv) = []
       then survivors (evicted srv) t (mp_store srv) else store_map t (mp_store srv))((bucket hv, key) \<mapsto> data)"
proof -
  let ?bk = "(bucket hv, key)"
  let ?s = "srv\<lparr>mp_stat := (mp_stat srv)\<lparr>mp_set := mp_set (mp_stat srv) + 1\<rparr>\<rparr>"
  let ?s1 = "?s\<lparr>mp_stat := (mp_stat ?s)\<lparr>mp_alloc := mp_alloc (mp_stat ?s) + 1\<rparr>\<rparr>"
  note st = mp_invD(1)[OF inv]
  have fd: "do_item_get fuel key hv (mp_store srv) = Inr (case tbl_map t ?bk of None \<Rightarrow> NULL | Some a \<Rightarrow> a)"
    using assoc_find_spec[OF store_invD(1)[OF st]] len by (simp add: do_item_get_def)
  have inv1: "mp_inv t ?s1" using inv by simp
  show ?thesis
  proof (cases "tbl_map t ?bk")
    case (Some a)
    obtain srv' where "mp_set_key_ext fuel key data hv srv = Inr (0, srv')" "mp_inv t srv'"
        "store_map t (mp_store srv') = (store_map t (mp_store srv))(?bk \<mapsto> data)"
      using mp_set_key_found[OF inv len Some k(2)] by blast
    with Some show ?thesis by (intro exI[of _ srv'] exI[of _ t]) simp
  next
    case None
    define evict where "evict \<longleftrightarrow> slab_first srv \<and> pool (mp_store srv) = []"
    obtain s0 t0 a p where al: "mp_do_item_alloc fuel key 0 (length data + 2) ?s1 = mp_do_item_alloc fuel key 0 (length data + 2) s0"
        "mp_inv t0 s0" "slab_first s0" "pool (mp_store s0) = a # p" "tbl_map t0 ?bk = None"
        "store_map t0 (mp_store s0) = (if evict then survivors (evicted srv) t (mp_store srv) else store_map t (mp_store srv))"
      using mp_object_found[OF inv1, of fuel ?bk key 0 "length data + 2"] len nl None by (auto simp: evict_def)
    from mp_new_spec[OF al(2-4) k al(5), of fuel 0] obtain st1 st2 where
      s: "mp_do_item_alloc fuel key 0 (length data + 2) s0 = Inr (a, s0\<lparr>mp_store := st1\<rparr>)" "a \<noteq> NULL"
        "do_item_link a hv (upd_item a (\<lambda>i. i\<lparr>it_hv := hv\<rparr>) (set_data a data st1)) = Inr st2"
        "mp_inv (tbl_put ?bk a t0) (s0\<lparr>mp_store := st2\<rparr>)" "store_map (tbl_put ?bk a t0) st2 = (store_map t0 (mp_store s0))(?bk \<mapsto> data)"
      by blast
    have "mp_set_key_ext fuel key data hv srv = Inr (0, s0\<lparr>mp_store := st2\<rparr>)"
      using fd None al(1) s(1-3) by (simp add: mp_set_key_ext_def mp_item_alloc_def Let_def)
    with s(4,5) al(6) None show ?thesis
      by (intro exI[of _ "s0\<lparr>mp_store := st2\<rparr>"] exI[of _ "tbl_put ?bk a t0"]) (simp add: evict_def)
  qed
qed


definition mp_start :: "nat \<Rightarrow> addr list \<Rightarrow> mc_store \<Rightarrow> mp_server" where
  "mp_start n objs st = mp_server_init \<lparr>mp_node = n, mp_loading = False, mp_running = True,
     mp_stat = \<lparr>mp_set = 1, mp_get = 1, mp_alloc = 1, mp_free = 1, mp_confict = 1, mp_evict = 1\<rparr>,
     slab_first = False, slab_objs = objs, mp_store = st\<rparr>"

lemma mp_start_inv:
  assumes "distinct objs" and "NULL \<notin> set objs" and "EVICT_NUM < length objs"
    and "pool st = []" and "\<forall>a \<in> set objs. slabs_clsid (items st a) = 0"
  shows "mp_inv (\<lambda>_. []) (mp_start n objs st)"
  using assms by (simp add: mp_inv_def mp_start_def mp_server_init_def store_inv_def table_inv_def tbl_ok_def linked_def assoc_init_def)

definition mp_zero_store :: mc_store where
  "mp_zero_store = \<lparr>htable = (\<lambda>_. 99), items = (\<lambda>_. \<lparr>it_next = 0, it_prev = 0, h_next = 0, recency = 0, it_hv = 0, exptime = 0,
     nbytes = 0, refcount = 0, nsuffix = 0, it_flags = 0, slabs_clsid = 0, nkey = 0, body = (\<lambda>_. 0)\<rparr>), pool = []\<rparr>"


text \<open>While the keys are loaded a SET of a new key is refused once the slab is used up, and nothing changes but the counters.\<close>

lemma mp_set_refused:
  assumes inv: "mp_inv t srv" and len: "\<And>b. length (t b) < fuel" and none: "tbl_map t (bucket hv, key) = None"
    and full: "slab_first srv" "pool (mp_store srv) = []" and ld: "mp_loading srv"
  shows "\<exists>x. mp_set_key_ext fuel key data hv srv = Inr (- 1, srv\<lparr>mp_stat := x\<rparr>)"
proof -
  have "do_item_get fuel key hv (mp_store srv) = Inr NULL"
    using assoc_find_spec[OF store_invD(1)[OF mp_invD(1)[OF inv]], of hv fuel key] len none by (simp add: do_item_get_def)
  moreover have "mp_do_item_alloc fuel key fl nb s = Inr (NULL, s)" if "slab_first s" "pool (mp_store s) = []" "mp_loading s" for s fl nb
    using that by (simp add: mp_do_item_alloc_def mp_slab_alloc_def mc_alloc_pages_def)
  ultimately show ?thesis
    using full ld by (auto simp: mp_set_key_ext_def mp_item_alloc_def Let_def)
qed

section \<open>Rounds of requests\<close>

definition mp_set_round :: "nat \<Rightarrow> (u8 list \<Rightarrow> u32) \<Rightarrow> (nat \<Rightarrow> nat \<Rightarrow> addr) \<Rightarrow> nat \<Rightarrow> u8 list \<Rightarrow> u8 list \<Rightarrow> mp_server \<Rightarrow> mc_net \<Rightarrow>
    (int \<times> mp_server \<times> mc_net) result" where
  "mp_set_round fuel hash pg me key data srv net =
     bindE (mp_client_set_send hash pg me key data net) (\<lambda>net.
     bindE (mp_event_step fuel pg srv net) (\<lambda>(srv, net).
     case rpc_recv_mc me net of
       None \<Rightarrow> Inl Spins
     | Some (a, net) \<Rightarrow> bindE (mp_client_set_reply (hv2node (hash (take KEY_LENGTH key))) (msg_page net a)) (\<lambda>r. Inr (r, srv, net))))"

lemma mp_send_quiet:
  assumes "quiet net"
  shows "\<exists>net'. mp_send a dst sz g srv net = Inr (srv, net') \<and> only_msg net' dst (mp_node srv) a \<and> msg_page net' a = g (msg_page net a)"
proof -
  let ?net = "net\<lparr>msg_page := (msg_page net)(a := g (msg_page net a))\<rparr>"
  have "quiet ?net" using assms by (simp add: quiet_def net_wf_def pending_def)
  then obtain net' where "rpc_send_mc (mp_node srv) dst sz a ?net = (0, net')" "only_msg net' dst (mp_node srv) a"
      "msg_page net' = msg_page ?net" by (rule quiet_send)
  then show ?thesis by (simp add: mp_send_def Let_def)
qed

lemma hv2node_less: "hv2node hv < 2"
  by (simp add: hv2node_def Let_def)

lemma mp_client_set_send_spec:
  assumes "quiet net" and "length key = KEY_LENGTH" "length data = V_LENGTH"
  shows "\<exists>net' a. mp_client_set_send hash pg me key data net = Inr net' \<and> only_msg net' (hv2node (hash key)) me a \<and>
    mtype (msg_page net' a) = MC_MSG_SET \<and> m_id (msg_page net' a) = me \<and> m_key (msg_page net' a) = key \<and>
    m_data (msg_page net' a) = data \<and> m_hv (msg_page net' a) = hash key"
proof -
  let ?n = "hv2node (hash key)"
  let ?a = "mp_rpc_addr pg me ?n"
  let ?g = "\<lambda>m. m\<lparr>mtype := MC_MSG_SET, m_id := me, m_hv := hash key, m_key := key, m_nbytes := length data, has_data := True, m_data := data\<rparr>"
  let ?net = "net\<lparr>msg_page := (msg_page net)(?a := ?g (msg_page net ?a))\<rparr>"
  have "quiet ?net" using assms(1) by (simp add: quiet_def net_wf_def pending_def)
  then obtain net' where n: "rpc_send_mc me ?n (MP_MSG_SZ + length key + length data) ?a ?net = (0, net')" "only_msg net' ?n me ?a"
      "msg_page net' = msg_page ?net" by (rule quiet_send)
  have "mp_client_set_send hash pg me key data net = Inr net'"
    using n(1) assms(2,3) by (simp add: mp_client_set_send_def mp_client_send_def Let_def)
  with n(2,3) show ?thesis by (intro exI[of _ net'] exI[of _ ?a]) simp
qed

lemma mp_handle_set:
  assumes "quiet net" and "mtype msg = MC_MSG_SET" "m_id msg \<ge> 2" and "mp_set_key_ext fuel (m_key msg) (m_data msg) (m_hv msg) srv = Inr (r, srv')"
    and "r < 0 \<Longrightarrow> mp_loading srv'" and "mp_node srv' = mp_node srv"
  shows "\<exists>a net'. mp_handle fuel pg msg srv net = Inr (srv', net') \<and> only_msg net' (m_id msg) (mp_node srv) a \<and>
    m_id (msg_page net' a) = mp_node srv \<and> mtype (msg_page net' a) = (if r < 0 then MC_MSG_SET_FAIL else MC_MSG_SET_OK)"
proof -
  let ?a = "mp_rpc_addr pg (mp_node srv) (m_id msg)"
  let ?net = "net\<lparr>msg_page := (msg_page net)(?a := (msg_page net ?a)\<lparr>m_id := mp_node srv\<rparr>)\<rparr>"
  let ?g = "\<lambda>m. m\<lparr>mtype := if r < 0 then MC_MSG_SET_FAIL else MC_MSG_SET_OK\<rparr>"
  have "quiet ?net" using assms(1) by (simp add: quiet_def net_wf_def pending_def)
  from mp_send_quiet[OF this, of ?a "m_id msg" MP_MSG_SZ ?g srv'] assms(6) obtain net' where
    n: "mp_send ?a (m_id msg) MP_MSG_SZ ?g srv' ?net = Inr (srv', net')" "only_msg net' (m_id msg) (mp_node srv) ?a"
      "msg_page net' ?a = ?g (msg_page ?net ?a)" by auto
  have "mp_handle fuel pg msg srv net = Inr (srv', net')"
    using assms(2-5) n(1) by (cases "r < 0") (simp_all add: mp_handle_def mp_on_set_def Let_def)
  with n(2,3) show ?thesis by (intro exI[of _ ?a] exI[of _ net']) simp
qed

text \<open>Setting a key leaves the identity and the phase of the server alone.\<close>

definition mp_id :: "mp_server \<Rightarrow> nat \<times> bool \<times> bool" where
  "mp_id srv = (mp_node srv, mp_loading srv, mp_running srv)"

lemma mp_id_upd [simp]:
  "mp_id (srv\<lparr>mp_store := st\<rparr>) = mp_id srv" "mp_id (srv\<lparr>mp_stat := x\<rparr>) = mp_id srv" "mp_id (srv\<lparr>slab_first := f\<rparr>) = mp_id srv"
  by (simp_all add: mp_id_def)

lemma mp_id_unlink: "mp_unlink fuel x s = Inr s' \<Longrightarrow> mp_id s' = mp_id s"
  by (auto simp: mp_unlink_def result_simps Let_def mc_free_pages_def split: if_splits)

lemma mp_id_loop: "mc_evict_loop fuel i n s = Inr s' \<Longrightarrow> mp_id s' = mp_id s"
  by (induction n arbitrary: i s) (auto simp: result_simps split: if_splits dest!: mp_id_unlink)

lemma mp_id_pages: "mc_alloc_pages fuel s = Inr (x, s') \<Longrightarrow> mp_id s' = mp_id s"
  by (auto simp: mc_alloc_pages_def mc_evict_def result_simps split: if_splits dest!: mp_id_loop)

lemma mp_id_slab:
  assumes "mp_slab_alloc fuel s = Inr (x, s')"
  shows "mp_id s' = mp_id s"
proof (cases "pool (mp_store s)")
  case Nil
  with assms obtain got s1 where g: "mc_alloc_pages fuel s = Inr (got, s1)"
    by (auto simp: mp_slab_alloc_def result_simps)
  with assms Nil have "s' = s1 \<or> (\<exists>st. s' = s1\<lparr>mp_store := st\<rparr>)"
    by (cases got; cases "pool (mp_store s1)") (auto simp: mp_slab_alloc_def)
  then show ?thesis using mp_id_pages[OF g] by auto
qed (use assms in \<open>auto simp: mp_slab_alloc_def\<close>)

lemma mp_id_alloc: "mp_do_item_alloc fuel k fl nb s = Inr (x, s') \<Longrightarrow> mp_id s' = mp_id s"
  by (auto simp: mp_do_item_alloc_def result_simps split: if_split_asm dest!: mp_id_slab)

lemma mp_id_item_alloc: "mp_item_alloc fuel k fl nb s = Inr (x, s') \<Longrightarrow> mp_id s' = mp_id s"
  by (auto simp: mp_item_alloc_def dest!: mp_id_alloc)

lemma mp_id_set:
  assumes "mp_set_key_ext fuel key data hv s = Inr (r, s')"
  shows "mp_id s' = mp_id s"
proof -
  let ?s = "s\<lparr>mp_stat := (mp_stat s)\<lparr>mp_set := mp_set (mp_stat s) + 1\<rparr>\<rparr>"
  from assms obtain it where "do_item_get fuel key hv (mp_store s) = Inr it"
    by (auto simp: mp_set_key_ext_def Let_def result_simps)
  with assms consider "it \<noteq> NULL" "\<exists>st x. s' = ?s\<lparr>mp_store := st, mp_stat := x\<rparr>"
    | y s1 where "mp_item_alloc fuel key 0 (length data + 2) ?s = Inr (y, s1)" "s' = s1 \<or> (\<exists>st. s' = s1\<lparr>mp_store := st\<rparr>)"
    by (auto simp: mp_set_key_ext_def Let_def result_simps split: if_split_asm)
  then show ?thesis by cases (auto dest!: mp_id_item_alloc)
qed

lemma mp_set_outcome:
  fixes hv :: u32
  assumes inv: "mp_inv t srv" and len: "\<forall>b. length (t b) < fuel" and k: "length key < 256" "length data = V_LENGTH"
  defines "full \<equiv> mp_loading srv \<and> slab_first srv \<and> pool (mp_store srv) = [] \<and> tbl_map t (bucket hv, key) = None"
  shows "\<exists>r srv' t'. mp_set_key_ext fuel key data hv srv = Inr (r, srv') \<and> mp_inv t' srv' \<and>
      (if full then r = - 1 \<and> t' = t \<and> mp_store srv' = mp_store srv else r = 0 \<and> store_map t' (mp_store srv') (bucket hv, key) = Some data)"
proof (cases full)
  case True
  then obtain x where "mp_set_key_ext fuel key data hv srv = Inr (- 1, srv\<lparr>mp_stat := x\<rparr>)"
    using mp_set_refused[OF inv] len unfolding full_def by blast
  with True inv show ?thesis by (intro exI[of _ "- 1"] exI[of _ "srv\<lparr>mp_stat := x\<rparr>"] exI[of _ t]) simp
next
  case False
  show ?thesis
  proof (cases "mp_loading srv \<and> slab_first srv \<and> pool (mp_store srv) = []")
    case True
    then obtain v where "tbl_map t (bucket hv, key) = Some v" using False by (auto simp: full_def)
    then obtain srv' t' where "mp_set_key_ext fuel key data hv srv = Inr (0, srv')" "mp_inv t' srv'" "store_map t' (mp_store srv') (bucket hv, key) = Some data"
      using mp_set_key_found[OF inv len _ k(2), of hv key v] by auto
    with False show ?thesis by auto
  next
    case nf: False
    obtain srv' t' where "mp_set_key_ext fuel key data hv srv = Inr (0, srv')" "mp_inv t' srv'" "store_map t' (mp_store srv') (bucket hv, key) = Some data"
      using mp_set_key_spec[OF inv len _ k(2), of key hv] nf k(1) by force
    with False show ?thesis by auto
  qed
qed

text \<open>C21: a SET round always ends: the client sends the request to the server that its hash selects and gets 0 with the
  value stored, or, exactly when the key is new and the slab is used up while keys are loaded, -1 with
  the table unchanged.\<close>

theorem mp_set_round_ends:
  assumes net: "quiet net" and inv: "mp_inv t srv" and len: "\<forall>b. length (t b) < fuel" and k: "length key = KEY_LENGTH" "length data = V_LENGTH"
    and srv: "mp_node srv = hv2node (hash key)" "mp_running srv" and me: "me = 2 \<or> me = 3"
  shows "\<exists>r srv' net' t'. mp_set_round fuel hash pg me key data srv net = Inr (r, srv', net') \<and> quiet net' \<and> mp_inv t' srv' \<and>
    (if mp_loading srv \<and> slab_first srv \<and> pool (mp_store srv) = [] \<and> tbl_map t (bucket (hash key), key) = None
     then r = - 1 \<and> t' = t \<and> mp_store srv' = mp_store srv
     else r = 0 \<and> store_map t' (mp_store srv') (bucket (hash key), key) = Some data)"
proof -
  let ?bk = "(bucket (hash key), key)" and ?n = "hv2node (hash key)"
  define full where "full \<longleftrightarrow> mp_loading srv \<and> slab_first srv \<and> pool (mp_store srv) = [] \<and> tbl_map t ?bk = None"
  obtain net1 a where s1: "mp_client_set_send hash pg me key data net = Inr net1" "only_msg net1 ?n me a"
      "mtype (msg_page net1 a) = MC_MSG_SET" "m_id (msg_page net1 a) = me" "m_key (msg_page net1 a) = key"
      "m_data (msg_page net1 a) = data" "m_hv (msg_page net1 a) = hash key"
    using mp_client_set_send_spec[OF net k, of hash pg me] by blast
  have nm: "?n < NUM_NODE" "me < NUM_NODE" "?n \<noteq> me" using hv2node_less[of "hash key"] me by auto
  obtain net2 where n2: "rpc_recv_mc ?n net1 = Some (a, net2)" "quiet net2" "msg_page net2 = msg_page net1"
    by (rule only_recv[OF s1(2) nm])
  obtain r srv' t' where s: "mp_set_key_ext fuel key data (hash key) srv = Inr (r, srv')" "mp_inv t' srv'"
      "if full then r = - 1 \<and> t' = t \<and> mp_store srv' = mp_store srv else r = 0 \<and> store_map t' (mp_store srv') ?bk = Some data"
    using mp_set_outcome[OF inv len _ k(2), of key "hash key"] k(1) unfolding full_def by force
  have id: "mp_node srv' = ?n" "mp_loading srv' = mp_loading srv" using mp_id_set[OF s(1)] srv(1) by (auto simp: mp_id_def)
  have "r < 0 \<Longrightarrow> mp_loading srv'" using s(3) id(2) by (auto simp: full_def split: if_splits)
  then obtain a' net3 where s3: "mp_handle fuel pg (msg_page net1 a) srv net2 = Inr (srv', net3)" "only_msg net3 me ?n a'"
      "m_id (msg_page net3 a') = ?n" "mtype (msg_page net3 a') = (if r < 0 then MC_MSG_SET_FAIL else MC_MSG_SET_OK)"
    using mp_handle_set[OF n2(2) s1(3), of fuel srv r srv' pg] s(1) s1(4-7) id(1) srv(1) me by auto
  obtain net4 where n4: "rpc_recv_mc me net3 = Some (a', net4)" "quiet net4" "msg_page net4 = msg_page net3"
    using only_recv[OF s3(2) nm(2,1)] nm(3) by metis
  have "mp_set_round fuel hash pg me key data srv net = Inr (r, srv', net4)"
    using s1(1) n2 s3(1,3,4) n4(1,3) srv k s(3)
    by (auto simp: mp_set_round_def mp_event_step_def mp_client_set_reply_def split: if_splits)
  with n4(2) s(2,3) show ?thesis unfolding full_def by blast
qed

theorem mp_set_round_ends_witness:
  "\<exists>r srv' net' t'. mp_set_round 1 (\<lambda>_. 7) (\<lambda>r s. 16384 * r + 4096 * s) 2 (replicate 16 65) (replicate 32 36)
       (mp_start 0 (map (\<lambda>i. 128 * Suc i) [0..<31]) mp_zero_store)
       zero_net = Inr (r, srv', net') \<and>
     r = 0 \<and> mp_inv t' srv' \<and> store_map t' (mp_store srv') (bucket 7, replicate 16 65) = Some (replicate 32 36)"
proof -
  let ?s = "mp_start 0 (map (\<lambda>i. 128 * Suc i) [0..<31]) mp_zero_store"
  have "distinct (map (\<lambda>i. 128 * Suc i) [0..<31])" by (simp add: distinct_map inj_on_def del: upt_Suc)
  then have inv: "mp_inv (\<lambda>_. []) ?s" by (intro mp_start_inv) (auto simp: mp_zero_store_def)
  have f: "slab_first ?s = False" "mp_node ?s = 0" "mp_running ?s" by (simp_all add: mp_start_def mp_server_init_def)
  have h: "hv2node 7 = 0" by (simp add: hv2node_def mask_eq_exp_minus_1)
  from mp_set_round_ends[OF quiet_zero_net inv, of 1 "replicate 16 65" "replicate 32 36" "\<lambda>_. 7" 2 "\<lambda>r s. 16384 * r + 4096 * s"] f h
  obtain r srv' net' t' where "mp_set_round 1 (\<lambda>_. 7) (\<lambda>r s. 16384 * r + 4096 * s) 2 (replicate 16 65) (replicate 32 36) ?s zero_net = Inr (r, srv', net')"
      "mp_inv t' srv'" "r = 0" "store_map t' (mp_store srv') (bucket 7, replicate 16 65) = Some (replicate 32 36)" by auto
  then show ?thesis by blast
qed

end
