(* ===== verification/Bi_Mc.thy ===== *)
theory Bi_Mc
  imports Mc_Store Fifo
begin

unbundle bit_operations_syntax

text \<open>
  The key-value service on non-coherent memory, \<^verbatim>\<open>mc_code/bi_mc\<close>: one hash table in shared memory that
  all nodes read, where each half of the buckets is written by one of the two server nodes. A SET
  links a new item and hands the old one to the quiescence ring of the node; the ring gives the
  memory back when the grace period has passed.

  The slab allocator and the bitmaps that this program is linked with are not part of the
  repository: they are the functions of the record \<open>mc_env\<close> over a state of any type, and
  \<open>mem_contract\<close> is what the program relies on. An object header is named by the address of its
  item. The table and the items are those of the theory on the item store, whose list of free
  objects is not used here. Write-backs do not change the contents of the memory, so that the
  calls of \<^verbatim>\<open>clwb_range\<close> have no counterpart; what other nodes see through their caches is the
  subject of the theory on cached views. Within one request the time stamp counter has one value.
\<close>

section \<open>State\<close>

abbreviation QUIS_NUM :: nat where "QUIS_NUM \<equiv> 11264"
abbreviation MC_SLAB_AOC_SZ :: nat where "MC_SLAB_AOC_SZ \<equiv> 4 * PAGE_SIZE"
abbreviation MC_SLAB_OBJ_SZ :: nat where "MC_SLAB_OBJ_SZ \<equiv> 94"
abbreviation SIZEOF_ITEM :: nat where "SIZEOF_ITEM \<equiv> 36"
abbreviation MC_MEM_EVICT_THOLD :: u64 where "MC_MEM_EVICT_THOLD \<equiv> 99"
abbreviation MC_HASH_FLUSH_PEROID :: u64 where "MC_HASH_FLUSH_PEROID \<equiv> 90000000"
abbreviation MC_MEM_BALANCE_PEROID :: u64 where "MC_MEM_BALANCE_PEROID \<equiv> 10000000"
abbreviation MAX_MC_HASH_TIME :: u64 where "MAX_MC_HASH_TIME \<equiv> 1054438 * 2"
abbreviation MC_SERVERS :: nat where "MC_SERVERS \<equiv> 2"

text \<open>\<^verbatim>\<open>MAP_MAX * 32\<close>: the bits of the map of a node, for 580 megabytes.\<close>

abbreviation MAP_BITS :: nat where "MAP_BITS \<equiv> 163840"

record mc_ring =
  qhead :: nat
  qtail :: nat
  qslot :: "nat \<Rightarrow> addr"

record mc_status =
  st_target :: u64
  st_used :: u64
  st_quiesce :: u64
  st_get :: int
  st_set :: int
  st_alloc :: int
  st_free :: int
  st_confict :: int
  st_evict :: int

text \<open>
  The code outside the repository. \<open>sl_alloc\<close> takes a free object of a node, \<open>sl_init\<close> carves a new
  slab, \<open>sl_free\<close> takes an object back and names the slab if it is free as a whole, \<open>sl_el\<close> and
  \<open>sl_fl\<close> are the first slab without and with free objects; \<open>bm_find\<close> is \<^verbatim>\<open>bitmap_extent_find_set\<close> and
  \<open>bm_set\<close> is \<^verbatim>\<open>bitmap_set_contig\<close>.
\<close>

record 'm mc_env =
  obj_mem :: nat
  obj_num :: nat
  in_use :: u64
  trac_base :: addr
  obj_core :: "addr \<Rightarrow> nat"
  sl_alloc :: "nat \<Rightarrow> 'm \<Rightarrow> (addr \<times> 'm) option"
  sl_init :: "nat \<Rightarrow> addr \<Rightarrow> 'm \<Rightarrow> 'm"
  sl_free :: "nat \<Rightarrow> addr \<Rightarrow> 'm \<Rightarrow> addr option \<times> 'm"
  sl_el :: "nat \<Rightarrow> 'm \<Rightarrow> addr"
  sl_fl :: "nat \<Rightarrow> 'm \<Rightarrow> addr"
  sl_next :: "'m \<Rightarrow> addr \<Rightarrow> addr"
  sl_core :: "addr \<Rightarrow> nat"
  sl_nfree :: "'m \<Rightarrow> addr \<Rightarrow> nat"
  sl_objs :: "addr \<Rightarrow> addr list"
  bm_find :: "nat \<Rightarrow> nat \<Rightarrow> 'm \<Rightarrow> int \<times> 'm"
  bm_set :: "nat \<Rightarrow> nat \<Rightarrow> nat \<Rightarrow> 'm \<Rightarrow> 'm"

record 'm bi_world =
  tab :: mc_store
  tsc_free :: "addr \<Rightarrow> u64"
  qsc_list :: "nat \<Rightarrow> mc_ring"
  status :: "nat \<Rightarrow> mc_status"
  memst :: 'm
  bi_loading :: bool
  now :: u64

definition mc_status_init :: "u64 \<Rightarrow> mc_status" where
  "mc_status_init tgt = \<lparr>st_target = tgt, st_used = 0, st_quiesce = 0, st_get = 0, st_set = 0,
     st_alloc = 0, st_free = 0, st_confict = 0, st_evict = 0\<rparr>"

definition upd_status :: "nat \<Rightarrow> (mc_status \<Rightarrow> mc_status) \<Rightarrow> 'm bi_world \<Rightarrow> 'm bi_world" where
  "upd_status n f w = w\<lparr>status := (status w)(n := f (status w n))\<rparr>"

definition mc_hv2node :: "u32 \<Rightarrow> nat" where
  "mc_hv2node hv = (if hv AND mask HASHPOWER_DEFAULT > mask HASHPOWER_DEFAULT div 2 then 1 else 0)"

definition SLAB_FRAGMENTATION :: "'m mc_env \<Rightarrow> u64" where
  "SLAB_FRAGMENTATION E = of_nat MC_SLAB_AOC_SZ - of_nat (obj_num E * obj_mem E)"

section \<open>Quiescence ring and reclamation\<close>

definition mem_free_pages :: "'m mc_env \<Rightarrow> addr \<Rightarrow> nat \<Rightarrow> nat \<Rightarrow> 'm bi_world \<Rightarrow> 'm bi_world result" where
  "mem_free_pages E s sz coreid w =
     bindE (assertE (s mod PAGE_SIZE = 0)) (\<lambda>_.
     bindE (assertE (coreid < MC_SERVERS)) (\<lambda>_.
     let n = sz div PAGE_SIZE; off = (s - trac_base E) div PAGE_SIZE
     in bindE (assertE (off + n < MAP_BITS)) (\<lambda>_.
        Inr (upd_status coreid (\<lambda>p. p\<lparr>st_free := st_free p + 1, st_used := st_used p - SLAB_FRAGMENTATION E\<rparr>)
          (w\<lparr>memst := bm_set E coreid off n (memst w)\<rparr>)))))"

definition mem_quiesce :: "u64 \<Rightarrow> u64" where
  "mem_quiesce tsc = tsc - (MC_HASH_FLUSH_PEROID + MAX_MC_HASH_TIME)"

definition mcq_peek :: "mc_ring \<Rightarrow> addr" where
  "mcq_peek ql = qslot ql (qhead ql)"

definition mcq_dequeue :: "mc_ring \<Rightarrow> addr \<times> mc_ring" where
  "mcq_dequeue ql =
     (let ret = qslot ql (qhead ql)
      in (ret, if ret \<noteq> NULL then ql\<lparr>qslot := (qslot ql)(qhead ql := NULL), qhead := (qhead ql + 1) mod QUIS_NUM\<rparr> else ql))"

definition mcq_full :: "mc_ring \<Rightarrow> bool" where
  "mcq_full ql \<longleftrightarrow> qhead ql = (qtail ql + 1) mod QUIS_NUM"

text \<open>Giving an object back to the slab allocator, which calls \<^verbatim>\<open>mem_free_pages\<close> for a free slab.\<close>

definition slab_free :: "'m mc_env \<Rightarrow> addr \<Rightarrow> nat \<Rightarrow> 'm bi_world \<Rightarrow> 'm bi_world result" where
  "slab_free E a cur w =
     (let (r, m) = sl_free E cur a (memst w); w = w\<lparr>memst := m\<rparr>
      in case r of None \<Rightarrow> Inr w | Some s \<Rightarrow> mem_free_pages E s MC_SLAB_AOC_SZ cur w)"

fun mc_reclaim_loop :: "'m mc_env \<Rightarrow> nat \<Rightarrow> u64 \<Rightarrow> nat \<Rightarrow> nat \<Rightarrow> 'm bi_world \<Rightarrow> (nat \<times> 'm bi_world) result" where
  "mc_reclaim_loop E 0 qsc cur i w = Inl Out_of_fuel"
| "mc_reclaim_loop E (Suc f) qsc cur i w =
     (let a = mcq_peek (qsc_list w cur)
      in if a = NULL \<or> tsc_free w a > qsc then Inr (i, w)
         else bindE (assertE (obj_core E a = cur)) (\<lambda>_.
           let (a, ql) = mcq_dequeue (qsc_list w cur)
           in bindE (slab_free E a cur (w\<lparr>qsc_list := (qsc_list w)(cur := ql)\<rparr>)) (\<lambda>w.
              mc_reclaim_loop E f qsc cur (i + obj_mem E) w)))"

text \<open>The loop ends with the ring at the latest, which has fewer than \<^const>\<open>QUIS_NUM\<close> entries.\<close>

definition mem_smr_reclaim :: "'m mc_env \<Rightarrow> nat \<Rightarrow> 'm bi_world \<Rightarrow> (nat \<times> 'm bi_world) result" where
  "mem_smr_reclaim E cur w =
     (if mcq_peek (qsc_list w cur) = NULL then Inr (0, w)
      else bindE (mc_reclaim_loop E QUIS_NUM (mem_quiesce (now w)) cur 0 w) (\<lambda>(i, w).
        Inr (i, upd_status cur (\<lambda>p. p\<lparr>st_used := st_used p - of_nat i, st_quiesce := st_quiesce p - of_nat i\<rparr>) w)))"

definition mcq_put :: "addr \<Rightarrow> mc_ring \<Rightarrow> mc_ring" where
  "mcq_put m ql = ql\<lparr>qslot := (qslot ql)(qtail ql := m), qtail := (qtail ql + 1) mod QUIS_NUM\<rparr>"

definition mcq_enqueue :: "'m mc_env \<Rightarrow> nat \<Rightarrow> addr \<Rightarrow> 'm bi_world \<Rightarrow> 'm bi_world result" where
  "mcq_enqueue E node m w =
     bindE (if mcq_full (qsc_list w node)
            then bindE (mem_smr_reclaim E node w) (\<lambda>(r, w). bindE (assertE (\<not> mcq_full (qsc_list w node))) (\<lambda>_. Inr w))
            else Inr w) (\<lambda>w.
     Inr (w\<lparr>qsc_list := (qsc_list w)(node := mcq_put m (qsc_list w node))\<rparr>))"

definition parsec_mem_free :: "'m mc_env \<Rightarrow> nat \<Rightarrow> addr \<Rightarrow> 'm bi_world \<Rightarrow> 'm bi_world result" where
  "parsec_mem_free E node it w =
     bindE (mcq_enqueue E node it (w\<lparr>tsc_free := (tsc_free w)(it := now w)\<rparr>)) (\<lambda>w.
     Inr (upd_status node (\<lambda>p. p\<lparr>st_quiesce := st_quiesce p + of_nat (obj_mem E)\<rparr>) w))"

section \<open>Table and items\<close>

abbreviation upd_it :: "addr \<Rightarrow> (item \<Rightarrow> item) \<Rightarrow> 'm bi_world \<Rightarrow> 'm bi_world" where
  "upd_it a f w \<equiv> w\<lparr>tab := upd_item a f (tab w)\<rparr>"

definition bi_item_free :: "'m mc_env \<Rightarrow> nat \<Rightarrow> addr \<Rightarrow> 'm bi_world \<Rightarrow> 'm bi_world result" where
  "bi_item_free E node it w = parsec_mem_free E node it (upd_it it (\<lambda>i. i\<lparr>slabs_clsid := 0\<rparr>) w)"

definition bi_remove_free :: "'m mc_env \<Rightarrow> nat \<Rightarrow> addr \<Rightarrow> 'm bi_world \<Rightarrow> 'm bi_world result" where
  "bi_remove_free E node it w =
     bindE (assertE (it_flags (items (tab w) it) AND ITEM_SLABBED = 0)) (\<lambda>_. bi_item_free E node it w)"

definition bi_assoc_insert :: "nat \<Rightarrow> addr \<Rightarrow> u32 \<Rightarrow> mc_store \<Rightarrow> mc_store result" where
  "bi_assoc_insert node it hv st =
     bindE (assertE (mc_hv2node hv = node)) (\<lambda>_.
     let st = upd_item it (\<lambda>i. i\<lparr>h_next := htable st (bucket hv)\<rparr>) st
     in Inr (st\<lparr>htable := (htable st)(bucket hv := it)\<rparr>))"

definition bi_assoc_delete :: "nat \<Rightarrow> nat \<Rightarrow> u8 list \<Rightarrow> u32 \<Rightarrow> mc_store \<Rightarrow> mc_store result" where
  "bi_assoc_delete fuel node key hv st =
     bindE (hashitem_before fuel key hv st) (\<lambda>before.
     bindE (assertE (mc_hv2node hv = node)) (\<lambda>_.
     let a = link_get before st
     in bindE (assertE (a \<noteq> NULL)) (\<lambda>_. Inr (link_set before (h_next (items st a)) st))))"

definition assoc_replace :: "nat \<Rightarrow> addr \<Rightarrow> addr \<Rightarrow> u32 \<Rightarrow> mc_store \<Rightarrow> mc_store result" where
  "assoc_replace fuel old new hv st =
     bindE (hashitem_before fuel (item_key_bytes (items st old)) hv st) (\<lambda>before.
     let a = link_get before st
     in Inr (if a \<noteq> NULL
             then link_set before new (upd_item new (\<lambda>i. i\<lparr>h_next := h_next (items st a)\<rparr>) st)
             else st))"

definition bi_item_link :: "nat \<Rightarrow> addr \<Rightarrow> u32 \<Rightarrow> mc_store \<Rightarrow> mc_store result" where
  "bi_item_link node it hv st =
     bindE (assertE (it_flags (items st it) AND (ITEM_LINKED OR ITEM_SLABBED) = 0)) (\<lambda>_.
     bi_assoc_insert node it hv (upd_item it (\<lambda>i. i\<lparr>it_flags := it_flags i OR ITEM_LINKED\<rparr>) st))"

definition bi_item_unlink :: "'m mc_env \<Rightarrow> nat \<Rightarrow> nat \<Rightarrow> addr \<Rightarrow> u32 \<Rightarrow> 'm bi_world \<Rightarrow> 'm bi_world result" where
  "bi_item_unlink E fuel node it hv w =
     bindE (assertE (it_flags (items (tab w) it) AND ITEM_LINKED \<noteq> 0)) (\<lambda>_.
     let st = upd_item it (\<lambda>i. i\<lparr>it_flags := it_flags i AND NOT ITEM_LINKED\<rparr>) (tab w)
     in bindE (bi_assoc_delete fuel node (item_key_bytes (items st it)) hv st) (\<lambda>st.
        bi_remove_free E node it (w\<lparr>tab := st\<rparr>)))"

definition bi_item_replace :: "'m mc_env \<Rightarrow> nat \<Rightarrow> nat \<Rightarrow> addr \<Rightarrow> addr \<Rightarrow> u32 \<Rightarrow> 'm bi_world \<Rightarrow> 'm bi_world result" where
  "bi_item_replace E fuel node old new hv w =
     bindE (assertE (it_flags (items (tab w) old) AND ITEM_LINKED \<noteq> 0)) (\<lambda>_.
     bindE (assertE (it_flags (items (tab w) new) AND (ITEM_LINKED OR ITEM_SLABBED) = 0)) (\<lambda>_.
     let st = upd_item new (\<lambda>i. i\<lparr>it_flags := it_flags i OR ITEM_LINKED\<rparr>) (tab w)
     in bindE (assoc_replace fuel old new hv st) (\<lambda>st.
        let st = upd_item old (\<lambda>i. i\<lparr>it_flags := it_flags i AND NOT ITEM_LINKED\<rparr>) st
        in bi_remove_free E node old (w\<lparr>tab := st\<rparr>))))"

section \<open>Eviction and allocation\<close>

fun slab_evict_loop :: "'m mc_env \<Rightarrow> nat \<Rightarrow> nat \<Rightarrow> addr list \<Rightarrow> int \<Rightarrow> 'm bi_world \<Rightarrow> (int \<times> 'm bi_world) result" where
  "slab_evict_loop E fuel cur [] e w = Inr (e, w)"
| "slab_evict_loop E fuel cur (it # its) e w =
     (if tsc_free w it \<noteq> in_use E then slab_evict_loop E fuel cur its e w
      else bindE (assertE (mc_hv2node (it_hv (items (tab w) it)) = cur)) (\<lambda>_.
        bindE (bi_item_unlink E fuel cur it (it_hv (items (tab w) it)) w) (\<lambda>w.
        slab_evict_loop E fuel cur its (e + 1) w)))"

definition slab_evict :: "'m mc_env \<Rightarrow> nat \<Rightarrow> nat \<Rightarrow> addr \<Rightarrow> 'm bi_world \<Rightarrow> (int \<times> 'm bi_world) result" where
  "slab_evict E fuel cur s w =
     bindE (assertE (sl_core E s = cur)) (\<lambda>_.
     bindE (assertE (sl_nfree E (memst w) s = 0)) (\<lambda>_.
     bindE (slab_evict_loop E fuel cur (sl_objs E s) 0 w) (\<lambda>(e, w).
     Inr (e, upd_status cur (\<lambda>p. p\<lparr>st_evict := st_evict p + e\<rparr>) w))))"

function evict_slabs :: "'m mc_env \<Rightarrow> nat \<Rightarrow> nat \<Rightarrow> nat \<Rightarrow> nat \<Rightarrow> addr \<Rightarrow> 'm bi_world \<Rightarrow> (nat \<times> 'm bi_world) result" where
  "evict_slabs E fuel cur npages i s w =
     (if i < npages \<and> s \<noteq> NULL
      then bindE (slab_evict E fuel cur s w) (\<lambda>(_, w).
        evict_slabs E fuel cur npages (i + MC_SLAB_AOC_SZ div PAGE_SIZE) (sl_next E (memst w) s) w)
      else Inr (i, w))"
  by pat_completeness auto
termination by (relation "measure (\<lambda>(_, _, _, npages, i, _, _). npages - i)") auto

declare evict_slabs.simps [simp del]

definition mc_mem_evict :: "'m mc_env \<Rightarrow> nat \<Rightarrow> nat \<Rightarrow> nat \<Rightarrow> 'm bi_world \<Rightarrow> (nat \<times> 'm bi_world) result" where
  "mc_mem_evict E fuel cur npages w =
     bindE (evict_slabs E fuel cur npages 0 (sl_el E cur (memst w)) w) (\<lambda>(i, w).
     evict_slabs E fuel cur npages i (sl_fl E cur (memst w)) w)"

definition mem_tight :: "nat \<Rightarrow> 'm bi_world \<Rightarrow> bool" where
  "mem_tight n w \<longleftrightarrow> st_used (status w n) * 100 > st_target (status w n) * MC_MEM_EVICT_THOLD"

definition find_pages :: "'m mc_env \<Rightarrow> nat \<Rightarrow> nat \<Rightarrow> 'm bi_world \<Rightarrow> addr \<times> 'm bi_world" where
  "find_pages E coreid n w =
     (let (off, m) = bm_find E coreid n (memst w); w = w\<lparr>memst := m\<rparr>
      in if off \<ge> 0
         then (trac_base E + nat off * PAGE_SIZE,
           upd_status coreid (\<lambda>p. p\<lparr>st_alloc := st_alloc p + 1, st_used := st_used p + SLAB_FRAGMENTATION E\<rparr>) w)
         else (NULL, w))"

text \<open>\<^verbatim>\<open>MC_NO_MEM_BALANCE\<close> is defined, so that nothing is evicted during loading.\<close>

definition bi_alloc_pages :: "'m mc_env \<Rightarrow> nat \<Rightarrow> nat \<Rightarrow> nat \<Rightarrow> 'm bi_world \<Rightarrow> (addr \<times> 'm bi_world) result" where
  "bi_alloc_pages E fuel sz coreid w =
     bindE (assertE (sz mod PAGE_SIZE = 0)) (\<lambda>_.
     bindE (if mem_tight coreid w then bindE (mem_smr_reclaim E coreid w) (\<lambda>(_, w). Inr w) else Inr w) (\<lambda>w.
     if mem_tight coreid w \<and> bi_loading w then Inr (NULL, w)
     else bindE (if mem_tight coreid w then bindE (mc_mem_evict E fuel coreid 1 w) (\<lambda>(_, w). Inr w) else Inr w) (\<lambda>w.
     Inr (find_pages E coreid (sz div PAGE_SIZE) w))))"

text \<open>Taking an object from the slab allocator, which calls \<^verbatim>\<open>mc_alloc_pages\<close> when it has none.\<close>

definition slab_take :: "'m mc_env \<Rightarrow> addr \<Rightarrow> 'm \<Rightarrow> 'm bi_world \<Rightarrow> 'm bi_world" where
  "slab_take E a m w = w\<lparr>memst := m, tsc_free := (tsc_free w)(a := in_use E)\<rparr>"

definition slab_alloc :: "'m mc_env \<Rightarrow> nat \<Rightarrow> nat \<Rightarrow> 'm bi_world \<Rightarrow> (addr \<times> 'm bi_world) result" where
  "slab_alloc E fuel node w =
     (case sl_alloc E node (memst w) of
        Some (a, m) \<Rightarrow> Inr (a, slab_take E a m w)
      | None \<Rightarrow> bindE (bi_alloc_pages E fuel MC_SLAB_AOC_SZ node w) (\<lambda>(s, w).
          if s = NULL then Inr (NULL, w)
          else case sl_alloc E node (sl_init E node s (memst w)) of
                 Some (a, m) \<Rightarrow> Inr (a, slab_take E a m w)
               | None \<Rightarrow> Inl Assert_fail))"

definition parsec_mem_alloc :: "'m mc_env \<Rightarrow> nat \<Rightarrow> nat \<Rightarrow> nat \<Rightarrow> 'm bi_world \<Rightarrow> (addr \<times> 'm bi_world) result" where
  "parsec_mem_alloc E fuel node sz w =
     bindE (assertE (sz = MC_SLAB_OBJ_SZ)) (\<lambda>_.
     slab_alloc E fuel node (upd_status node (\<lambda>p. p\<lparr>st_used := st_used p + of_nat (obj_mem E)\<rparr>) w))"

definition bi_item_alloc :: "'m mc_env \<Rightarrow> nat \<Rightarrow> nat \<Rightarrow> u8 list \<Rightarrow> int \<Rightarrow> nat \<Rightarrow> 'm bi_world \<Rightarrow> (addr \<times> 'm bi_world) result" where
  "bi_item_alloc E fuel node key flags nb w =
     (let (_, _, ntotal) = item_make_header SIZEOF_ITEM ((length key + 1) mod 256) flags nb
      in bindE (parsec_mem_alloc E fuel node ntotal w) (\<lambda>(it, w).
         bindE (if it = NULL then parsec_mem_alloc E fuel node ntotal w else Inr (it, w)) (\<lambda>(it, w).
         if it = NULL then Inr (NULL, w)
         else bindE (assertE (slabs_clsid (items (tab w) it) = 0)) (\<lambda>_.
           Inr (it, upd_it it (init_item key flags nb) w)))))"

section \<open>Requests\<close>

definition mc_set_key_rcv :: "'m mc_env \<Rightarrow> nat \<Rightarrow> nat \<Rightarrow> u8 list \<Rightarrow> u8 list \<Rightarrow> u32 \<Rightarrow> 'm bi_world \<Rightarrow> (int \<times> 'm bi_world) result" where
  "mc_set_key_rcv E fuel node key data hv w =
     (let w = upd_status node (\<lambda>p. p\<lparr>st_set := st_set p + 1\<rparr>) w
      in bindE (bi_item_alloc E fuel node key 0 (length data + 2) w) (\<lambda>(it, w).
         if it = NULL then Inr (- 1, w)
         else let w = w\<lparr>tab := upd_item it (\<lambda>i. i\<lparr>it_hv := hv\<rparr>) (set_data it data (tab w))\<rparr>
              in bindE (do_item_get fuel key hv (tab w)) (\<lambda>old_it.
                 if old_it \<noteq> NULL
                 then bindE (bi_item_replace E fuel node old_it it hv w) (\<lambda>w.
                   Inr (0, upd_status node (\<lambda>p. p\<lparr>st_confict := st_confict p + 1\<rparr>) w))
                 else bindE (bi_item_link node it hv (tab w)) (\<lambda>st. Inr (0, w\<lparr>tab := st\<rparr>)))))"

section \<open>The ring is a channel of objects\<close>

definition mcq_len :: "mc_ring \<Rightarrow> nat" where
  "mcq_len q = ring_dist QUIS_NUM (qhead q) (qtail q)"

definition mcq_items :: "mc_ring \<Rightarrow> addr list" where
  "mcq_items q = map (qslot q) (ring_slots QUIS_NUM (qhead q) (mcq_len q))"

definition mcq_wf :: "mc_ring \<Rightarrow> bool" where
  "mcq_wf q \<longleftrightarrow> qhead q < QUIS_NUM \<and> qtail q < QUIS_NUM \<and> NULL \<notin> set (mcq_items q) \<and>
     (\<forall>i < QUIS_NUM. i \<notin> set (ring_slots QUIS_NUM (qhead q) (mcq_len q)) \<longrightarrow> qslot q i = NULL)"

definition mcq_deq :: "mc_ring \<Rightarrow> (addr \<times> mc_ring) option" where
  "mcq_deq q = (let (a, q') = mcq_dequeue q in if a = NULL then None else Some (a, q'))"

lemma length_mcq_items [simp]: "length (mcq_items q) = mcq_len q"
  by (simp add: mcq_items_def)

lemma mcq_len_less: "mcq_len q < QUIS_NUM"
  unfolding mcq_len_def by (rule ring_dist_less) simp

lemma mcq_full_iff: "mcq_wf q \<Longrightarrow> mcq_full q \<longleftrightarrow> mcq_len q = QUIS_NUM - 1"
  unfolding mcq_full_def mcq_len_def by (rule ring_full_iff) (simp_all add: mcq_wf_def)

lemma mcq_put_spec:
  assumes "mcq_wf q" and "m \<noteq> NULL" and "mcq_len q < QUIS_NUM - 1"
  shows "mcq_wf (mcq_put m q)" "mcq_items (mcq_put m q) = mcq_items q @ [m]"
proof -
  have h: "qhead q < QUIS_NUM" "qtail q < QUIS_NUM" using assms(1) by (auto simp: mcq_wf_def)
  have "qhead q \<noteq> (qtail q + 1) mod QUIS_NUM" using mcq_full_iff[OF assms(1)] assms(3) by (simp add: mcq_full_def)
  from ring_dist_Suc_tail[OF h this] have len: "mcq_len (mcq_put m q) = Suc (mcq_len q)"
    by (simp add: mcq_len_def mcq_put_def)
  have t: "(qhead q + mcq_len q) mod QUIS_NUM = qtail q" unfolding mcq_len_def by (rule ring_dist_end[OF h])
  have fr: "qtail q \<notin> set (ring_slots QUIS_NUM (qhead q) (mcq_len q))"
    using ring_tail_not_in_slots[OF h(1) mcq_len_less[of q]] by (simp only: t) simp
  have head: "qhead (mcq_put m q) = qhead q" by (simp add: mcq_put_def)
  have slots: "ring_slots QUIS_NUM (qhead q) (Suc (mcq_len q)) = ring_slots QUIS_NUM (qhead q) (mcq_len q) @ [qtail q]"
    by (simp only: ring_slots_snoc t)
  have "map (qslot (mcq_put m q)) (ring_slots QUIS_NUM (qhead q) (mcq_len q)) = mcq_items q"
    using fr by (auto simp: mcq_put_def mcq_items_def)
  then show it: "mcq_items (mcq_put m q) = mcq_items q @ [m]"
    unfolding mcq_items_def[of "mcq_put m q"] head len slots by (simp add: mcq_put_def)
  have "qslot (mcq_put m q) i = NULL" if "i < QUIS_NUM" "i \<notin> set (ring_slots QUIS_NUM (qhead q) (Suc (mcq_len q)))" for i
    using that assms(1) unfolding slots by (simp add: mcq_put_def mcq_wf_def)
  then show "mcq_wf (mcq_put m q)"
    using assms(1,2) h unfolding mcq_wf_def[of "mcq_put m q"] head len it by (simp add: mcq_put_def mcq_wf_def)
qed

lemma mcq_empty: "mcq_wf q \<Longrightarrow> mcq_items q = [] \<Longrightarrow> mcq_peek q = NULL"
  using length_mcq_items[of q] by (simp add: mcq_wf_def mcq_peek_def)

lemma mcq_front:
  assumes "mcq_wf q" and "mcq_items q = y # ys"
  shows "mcq_peek q = y" "y \<noteq> NULL" "\<exists>q'. mcq_dequeue q = (y, q') \<and> mcq_wf q' \<and> mcq_items q' = ys"
proof -
  have h: "qhead q < QUIS_NUM" "qtail q < QUIS_NUM" using assms(1) by (auto simp: mcq_wf_def)
  let ?h = "(qhead q + 1) mod QUIS_NUM" and ?q = "q\<lparr>qslot := (qslot q)(qhead q := NULL), qhead := (qhead q + 1) mod QUIS_NUM\<rparr>"
  have ne: "qhead q \<noteq> qtail q" using assms(2) length_mcq_items[of q] by (auto simp: mcq_len_def)
  have len: "mcq_len q = Suc (mcq_len ?q)" using ring_dist_Suc_head[OF h ne] by (simp add: mcq_len_def)
  have slots: "ring_slots QUIS_NUM (qhead q) (mcq_len q) = qhead q # ring_slots QUIS_NUM ?h (mcq_len ?q)"
    using h(1) unfolding len ring_slots_Cons by simp
  have d: "qhead q \<notin> set (ring_slots QUIS_NUM ?h (mcq_len ?q))"
    using ring_slots_distinct[of "mcq_len q" QUIS_NUM "qhead q"] mcq_len_less[of q] unfolding slots by simp
  have y: "qslot q (qhead q) = y" "map (qslot q) (ring_slots QUIS_NUM ?h (mcq_len ?q)) = ys"
    using assms(2) unfolding mcq_items_def slots by simp_all
  then show pk: "mcq_peek q = y" by (simp add: mcq_peek_def)
  show nz: "y \<noteq> NULL" using assms by (auto simp: mcq_wf_def)
  have it: "mcq_items ?q = ys" unfolding y(2)[symmetric] using d by (simp add: mcq_items_def)
  have "qslot ?q i = NULL" if "i < QUIS_NUM" "i \<notin> set (ring_slots QUIS_NUM ?h (mcq_len ?q))" for i
    using that assms(1) unfolding mcq_wf_def slots by auto
  then have "mcq_wf ?q" using assms h unfolding mcq_wf_def[of ?q] it by (simp add: mcq_wf_def)
  moreover have "mcq_dequeue q = (y, ?q)" using y(1) nz by (simp add: mcq_dequeue_def)
  ultimately show "\<exists>q'. mcq_dequeue q = (y, q') \<and> mcq_wf q' \<and> mcq_items q' = ys" using it by blast
qed

interpretation mcq: fifo_channel mcq_wf mcq_items "QUIS_NUM - 1" "\<lambda>x. x \<noteq> NULL" "\<lambda>q x. mcq_put x q" mcq_deq
proof unfold_locales
  show "mcq_wf q \<Longrightarrow> mcq_items q = [] \<Longrightarrow> mcq_deq q = None" for q
    using mcq_empty[of q] by (simp add: mcq_deq_def mcq_dequeue_def mcq_peek_def)
  show "mcq_wf q \<Longrightarrow> mcq_items q = y # ys \<Longrightarrow> \<exists>q'. mcq_deq q = Some (y, q') \<and> mcq_wf q' \<and> mcq_items q' = ys" for q y ys
    using mcq_front[of q y ys] by (auto simp: mcq_deq_def)
qed (use mcq_put_spec in simp)

section \<open>Contract of the allocator and invariant\<close>

definition slab_ok :: "'m mc_env \<Rightarrow> addr \<Rightarrow> bool" where
  "slab_ok E p \<longleftrightarrow> p mod PAGE_SIZE = 0 \<and> trac_base E \<le> p \<and> (p - trac_base E) div PAGE_SIZE + 4 < MAP_BITS"

text \<open>
  \<open>avail\<close> are the free objects in the slabs of a node, \<open>spare\<close> those in pages that are not in use. A
  call for one node leaves the others alone.
\<close>

type_synonym 'm objs = "nat \<Rightarrow> 'm \<Rightarrow> addr set"

definition mem_to :: "('m \<Rightarrow> bool) \<Rightarrow> 'm objs \<Rightarrow> 'm objs \<Rightarrow> nat \<Rightarrow> 'm \<Rightarrow> 'm \<Rightarrow> addr set \<Rightarrow> addr set \<Rightarrow> bool" where
  "mem_to good avail spare n m m' A S \<longleftrightarrow> good m' \<and> avail n m' = A \<and> spare n m' = S \<and>
     (\<forall>k. k \<noteq> n \<longrightarrow> avail k m' = avail k m \<and> spare k m' = spare k m)"

definition fresh_slab :: "'m mc_env \<Rightarrow> 'm objs \<Rightarrow> 'm objs \<Rightarrow> nat \<Rightarrow> addr \<Rightarrow> 'm \<Rightarrow> bool" where
  "fresh_slab E avail spare n p m \<longleftrightarrow> set (sl_objs E p) \<inter> (avail n m \<union> spare n m) = {} \<and>
     (\<forall>a \<in> set (sl_objs E p). a \<noteq> NULL \<and> obj_core E a = n)"

definition slab_contract :: "'m mc_env \<Rightarrow> ('m \<Rightarrow> bool) \<Rightarrow> 'm objs \<Rightarrow> 'm objs \<Rightarrow> bool" where
  "slab_contract E good avail spare \<longleftrightarrow>
     (\<forall>n m. good m \<longrightarrow> (sl_alloc E n m = None \<longleftrightarrow> avail n m = {})) \<and>
     (\<forall>n m a m'. good m \<longrightarrow> sl_alloc E n m = Some (a, m') \<longrightarrow> a \<in> avail n m \<and>
        mem_to good avail spare n m m' (avail n m - {a}) (spare n m)) \<and>
     (\<forall>m a m'. good m \<longrightarrow> a \<noteq> NULL \<longrightarrow> a \<notin> avail (obj_core E a) m \<longrightarrow> sl_free E (obj_core E a) a m = (None, m') \<longrightarrow>
        mem_to good avail spare (obj_core E a) m m' (insert a (avail (obj_core E a) m)) (spare (obj_core E a) m)) \<and>
     (\<forall>m a p m'. good m \<longrightarrow> a \<noteq> NULL \<longrightarrow> a \<notin> avail (obj_core E a) m \<longrightarrow> sl_free E (obj_core E a) a m = (Some p, m') \<longrightarrow>
        slab_ok E p \<and> set (sl_objs E p) \<subseteq> insert a (avail (obj_core E a) m) \<and>
        mem_to good avail spare (obj_core E a) m m' (insert a (avail (obj_core E a) m) - set (sl_objs E p)) (spare (obj_core E a) m)) \<and>
     (\<forall>n m p. good m \<longrightarrow> fresh_slab E avail spare n p m \<longrightarrow> sl_objs E p \<noteq> [] \<and>
        mem_to good avail spare n m (sl_init E n p m) (avail n m \<union> set (sl_objs E p)) (spare n m))"

definition bitmap_contract :: "'m mc_env \<Rightarrow> ('m \<Rightarrow> bool) \<Rightarrow> 'm objs \<Rightarrow> 'm objs \<Rightarrow> bool" where
  "bitmap_contract E good avail spare \<longleftrightarrow>
     (\<forall>n m a. good m \<longrightarrow> a \<in> avail n m \<union> spare n m \<longrightarrow> a \<noteq> NULL \<and> obj_core E a = n) \<and>
     (\<forall>n m p. good m \<longrightarrow> slab_ok E p \<longrightarrow> fresh_slab E avail spare n p m \<longrightarrow>
        mem_to good avail spare n m (bm_set E n ((p - trac_base E) div PAGE_SIZE) 4 m) (avail n m) (spare n m \<union> set (sl_objs E p))) \<and>
     (\<forall>n m i m'. good m \<longrightarrow> bm_find E n 4 m = (i, m') \<longrightarrow> i < 0 \<longrightarrow> mem_to good avail spare n m m' (avail n m) (spare n m)) \<and>
     (\<forall>n m i p m'. good m \<longrightarrow> bm_find E n 4 m = (i, m') \<longrightarrow> 0 \<le> i \<longrightarrow> p = trac_base E + nat i * PAGE_SIZE \<longrightarrow>
        p \<noteq> NULL \<and> set (sl_objs E p) \<subseteq> spare n m \<and> mem_to good avail spare n m m' (avail n m) (spare n m - set (sl_objs E p)))"

abbreviation ring_of :: "nat \<Rightarrow> 'm bi_world \<Rightarrow> addr list" where
  "ring_of n w \<equiv> mcq_items (qsc_list w n)"

text \<open>
  The objects of a node: linked ones, those in its ring, free ones in slabs and those in free pages
  are four disjoint sets.
\<close>

definition node_inv :: "'m mc_env \<Rightarrow> 'm objs \<Rightarrow> 'm objs \<Rightarrow> addr set \<Rightarrow> nat \<Rightarrow> mc_ring \<Rightarrow> 'm \<Rightarrow> bool" where
  "node_inv E avail spare L n q m \<longleftrightarrow> mcq_wf q \<and> distinct (mcq_items q) \<and> (\<forall>a \<in> set (mcq_items q). obj_core E a = n) \<and>
     set (mcq_items q) \<inter> L = {} \<and> avail n m \<inter> (L \<union> set (mcq_items q)) = {} \<and>
     spare n m \<inter> (L \<union> set (mcq_items q) \<union> avail n m) = {}"

definition items_inv :: "'m mc_env \<Rightarrow> tbl \<Rightarrow> mc_store \<Rightarrow> bool" where
  "items_inv E t st \<longleftrightarrow> store_inv t st \<and> pool st = [] \<and>
     (\<forall>a. slabs_clsid (items st a) = 0) \<and> (\<forall>a. a \<notin> linked t \<longrightarrow> it_flags (items st a) = 0) \<and>
     (\<forall>b k a. (k, a) \<in> set (t b) \<longrightarrow> bucket (it_hv (items st a)) = b \<and> obj_core E a = mc_hv2node (it_hv (items st a)))"

definition bi_inv :: "'m mc_env \<Rightarrow> ('m \<Rightarrow> bool) \<Rightarrow> 'm objs \<Rightarrow> 'm objs \<Rightarrow> tbl \<Rightarrow> 'm bi_world \<Rightarrow> bool" where
  "bi_inv E good avail spare t w \<longleftrightarrow> good (memst w) \<and> items_inv E t (tab w) \<and>
     (\<forall>n. node_inv E avail spare (linked t) n (qsc_list w n) (memst w))"

text \<open>An object that a reader may use: linked, or freed within the grace period.\<close>

definition held :: "'m mc_env \<Rightarrow> tbl \<Rightarrow> 'm bi_world \<Rightarrow> addr \<Rightarrow> bool" where
  "held E t w a \<longleftrightarrow> a \<in> linked t \<or> a \<in> set (ring_of (obj_core E a) w) \<and> mem_quiesce (now w) < tsc_free w a"

definition same_bytes :: "item \<Rightarrow> item \<Rightarrow> bool" where
  "same_bytes i j \<longleftrightarrow> item_key_bytes j = item_key_bytes i \<and> item_value j = item_value i \<and> nbytes j = nbytes i \<and> it_hv j = it_hv i"

definition keeps_held :: "'m mc_env \<Rightarrow> tbl \<Rightarrow> 'm bi_world \<Rightarrow> tbl \<Rightarrow> 'm bi_world \<Rightarrow> bool" where
  "keeps_held E t w t' w' \<longleftrightarrow> now w' = now w \<and> bi_loading w' = bi_loading w \<and>
     (\<forall>a. held E t w a \<longrightarrow> held E t' w' a \<and> same_bytes (items (tab w) a) (items (tab w') a))"

lemma keeps_held_refl: "keeps_held E t w t w"
  by (simp add: keeps_held_def same_bytes_def)

lemma keeps_held_trans: "keeps_held E t w t1 w1 \<Longrightarrow> keeps_held E t1 w1 t2 w2 \<Longrightarrow> keeps_held E t w t2 w2"
  unfolding keeps_held_def same_bytes_def by (metis (no_types, lifting))

lemma items_invD:
  assumes "items_inv E t st"
  shows "store_inv t st" "pool st = []" "slabs_clsid (items st a) = 0" "a \<notin> linked t \<Longrightarrow> it_flags (items st a) = 0"
    "(k, a) \<in> set (t b) \<Longrightarrow> bucket (it_hv (items st a)) = b \<and> obj_core E a = mc_hv2node (it_hv (items st a))"
  using assms unfolding items_inv_def by blast+

lemma node_invD:
  assumes "node_inv E avail spare L n q m"
  shows "mcq_wf q" "distinct (mcq_items q)" "a \<in> set (mcq_items q) \<Longrightarrow> obj_core E a = n" "set (mcq_items q) \<inter> L = {}"
    "avail n m \<inter> (L \<union> set (mcq_items q)) = {}" "spare n m \<inter> (L \<union> set (mcq_items q) \<union> avail n m) = {}"
  using assms unfolding node_inv_def by blast+

lemma bi_invD:
  assumes "bi_inv E good avail spare t w"
  shows "good (memst w)" "items_inv E t (tab w)" "node_inv E avail spare (linked t) n (qsc_list w n) (memst w)"
  using assms unfolding bi_inv_def by blast+

lemma bi_invI:
  assumes "good (memst w')" "items_inv E t' (tab w')" "node_inv E avail spare (linked t') n (qsc_list w' n) (memst w')"
    and "\<And>k. k \<noteq> n \<Longrightarrow> node_inv E avail spare (linked t') k (qsc_list w' k) (memst w')"
  shows "bi_inv E good avail spare t' w'"
  using assms unfolding bi_inv_def by metis

section \<open>Reclamation\<close>

lemma world_upd_status [simp]:
  "tab (upd_status n f w) = tab w" "tsc_free (upd_status n f w) = tsc_free w" "qsc_list (upd_status n f w) = qsc_list w"
  "memst (upd_status n f w) = memst w" "bi_loading (upd_status n f w) = bi_loading w" "now (upd_status n f w) = now w"
  by (simp_all add: upd_status_def)

lemma bi_inv_status [simp]: "bi_inv E good avail spare t (upd_status n f w) = bi_inv E good avail spare t w"
  by (simp add: bi_inv_def)

lemma held_status [simp]: "held E t (upd_status n f w) = held E t w"
  by (simp add: held_def fun_eq_iff)

lemma keeps_held_status [simp]:
  "keeps_held E t w t' (upd_status n f w') = keeps_held E t w t' w'"
  "keeps_held E t (upd_status n f w) t' w' = keeps_held E t w t' w'"
  by (simp_all add: keeps_held_def)

lemma slab_contractD:
  assumes "slab_contract E good avail spare" and "good m"
  shows "sl_alloc E n m = None \<longleftrightarrow> avail n m = {}"
    "sl_alloc E n m = Some (a, m') \<Longrightarrow> a \<in> avail n m \<and> mem_to good avail spare n m m' (avail n m - {a}) (spare n m)"
    "a \<noteq> NULL \<Longrightarrow> a \<notin> avail (obj_core E a) m \<Longrightarrow> sl_free E (obj_core E a) a m = (None, m') \<Longrightarrow>
        mem_to good avail spare (obj_core E a) m m' (insert a (avail (obj_core E a) m)) (spare (obj_core E a) m)"
    "a \<noteq> NULL \<Longrightarrow> a \<notin> avail (obj_core E a) m \<Longrightarrow> sl_free E (obj_core E a) a m = (Some p, m') \<Longrightarrow>
        slab_ok E p \<and> set (sl_objs E p) \<subseteq> insert a (avail (obj_core E a) m) \<and>
        mem_to good avail spare (obj_core E a) m m' (insert a (avail (obj_core E a) m) - set (sl_objs E p)) (spare (obj_core E a) m)"
    "fresh_slab E avail spare n p m \<Longrightarrow> sl_objs E p \<noteq> [] \<and>
        mem_to good avail spare n m (sl_init E n p m) (avail n m \<union> set (sl_objs E p)) (spare n m)"
  using assms unfolding slab_contract_def by (simp_all only: simp_thms)

lemma bitmap_contractD:
  assumes "bitmap_contract E good avail spare" and "good m"
  shows "a \<in> avail n m \<union> spare n m \<Longrightarrow> a \<noteq> NULL \<and> obj_core E a = n"
    "slab_ok E p \<Longrightarrow> fresh_slab E avail spare n p m \<Longrightarrow>
        mem_to good avail spare n m (bm_set E n ((p - trac_base E) div PAGE_SIZE) 4 m) (avail n m) (spare n m \<union> set (sl_objs E p))"
    "bm_find E n 4 m = (i, m') \<Longrightarrow> i < 0 \<Longrightarrow> mem_to good avail spare n m m' (avail n m) (spare n m)"
    "bm_find E n 4 m = (i, m') \<Longrightarrow> 0 \<le> i \<Longrightarrow> p = trac_base E + nat i * PAGE_SIZE \<Longrightarrow>
       p \<noteq> NULL \<and> set (sl_objs E p) \<subseteq> spare n m \<and> mem_to good avail spare n m m' (avail n m) (spare n m - set (sl_objs E p))"
  using assms unfolding bitmap_contract_def by (simp_all only: simp_thms)

lemma upd_status_id [simp]: "upd_status n (\<lambda>p. p) w = w"
  by (simp add: upd_status_def)

text \<open>The objects of a node that are not in use, in slabs or in free pages.\<close>

definition mem_gain :: "('m \<Rightarrow> bool) \<Rightarrow> 'm objs \<Rightarrow> 'm objs \<Rightarrow> nat \<Rightarrow> addr set \<Rightarrow> 'm \<Rightarrow> 'm \<Rightarrow> bool" where
  "mem_gain good avail spare n A m m' \<longleftrightarrow> good m' \<and> avail n m' \<union> spare n m' = avail n m \<union> spare n m \<union> A \<and>
     avail n m' \<inter> spare n m' = {} \<and> (\<forall>k. k \<noteq> n \<longrightarrow> avail k m' = avail k m \<and> spare k m' = spare k m)"

lemma mem_gain_trans:
  "mem_gain good avail spare n A m m1 \<Longrightarrow> mem_gain good avail spare n B m1 m2 \<Longrightarrow> mem_gain good avail spare n (A \<union> B) m m2"
  unfolding mem_gain_def by auto

lemma slab_free_spec:
  assumes con: "slab_contract E good avail spare" "bitmap_contract E good avail spare" and g: "good (memst w)"
    and a: "a \<notin> avail n (memst w)" "a \<notin> spare n (memst w)" "a \<noteq> NULL" "obj_core E a = n" and n: "n < MC_SERVERS"
    and dis: "avail n (memst w) \<inter> spare n (memst w) = {}"
  shows "\<exists>m' f. slab_free E a n w = Inr (upd_status n f (w\<lparr>memst := m'\<rparr>)) \<and> mem_gain good avail spare n {a} (memst w) m'"
proof -
  obtain r m where fr: "sl_free E n a (memst w) = (r, m)" by (cases "sl_free E n a (memst w)")
  show ?thesis
  proof (cases r)
    case None
    have "mem_to good avail spare n (memst w) m (insert a (avail n (memst w))) (spare n (memst w))"
      using slab_contractD(3)[OF con(1) g, of a m] a(1,3,4) fr None by simp
    then have "mem_gain good avail spare n {a} (memst w) m" using a(2) dis by (auto simp: mem_to_def mem_gain_def)
    moreover have "slab_free E a n w = Inr (upd_status n (\<lambda>p. p) (w\<lparr>memst := m\<rparr>))"
      by (simp add: slab_free_def fr None)
    ultimately show ?thesis by blast
  next
    case (Some p)
    let ?O = "set (sl_objs E p)"
    have s: "slab_ok E p" "?O \<subseteq> insert a (avail n (memst w))"
        "mem_to good avail spare n (memst w) m (insert a (avail n (memst w)) - ?O) (spare n (memst w))"
      using slab_contractD(4)[OF con(1) g, of a p m] a(1,3,4) fr Some by simp_all
    have own: "x \<noteq> NULL \<and> obj_core E x = n" if "x \<in> ?O" for x
      using that s(2) a(3,4) bitmap_contractD(1)[OF con(2) g, of x n] by blast
    have "fresh_slab E avail spare n p m"
      using s(2,3) own dis a(2) by (auto simp: fresh_slab_def mem_to_def)
    moreover have "good m" using s(3) by (simp add: mem_to_def)
    ultimately have b: "mem_to good avail spare n m (bm_set E n ((p - trac_base E) div PAGE_SIZE) 4 m) (avail n m) (spare n m \<union> ?O)"
      using bitmap_contractD(2)[OF con(2) _ s(1)] by blast
    have "slab_free E a n w = Inr (upd_status n (\<lambda>p. p\<lparr>st_free := st_free p + 1, st_used := st_used p - SLAB_FRAGMENTATION E\<rparr>)
        (w\<lparr>memst := bm_set E n ((p - trac_base E) div PAGE_SIZE) 4 m\<rparr>))"
      using s(1) n by (simp add: slab_free_def fr Some mem_free_pages_def slab_ok_def)
    moreover have "mem_gain good avail spare n {a} (memst w) (bm_set E n ((p - trac_base E) div PAGE_SIZE) 4 m)"
      using b s(2,3) a(2) dis unfolding mem_to_def mem_gain_def by auto
    ultimately show ?thesis by blast
  qed
qed

text \<open>Moving the oldest objects of a ring to the free ones keeps the invariant.\<close>

lemma bi_inv_reclaim:
  assumes inv: "bi_inv E good avail spare t w" and ring: "ring_of n w = pre @ mcq_items q" "mcq_wf q"
    and gain: "mem_gain good avail spare n (set pre) (memst w) m"
  shows "bi_inv E good avail spare t (w\<lparr>qsc_list := (qsc_list w)(n := q), memst := m\<rparr>)"
proof (rule bi_invI[where n = n])
  note N = bi_invD(3)[OF inv]
  have d: "set pre \<inter> set (mcq_items q) = {}" "distinct (mcq_items q)" using node_invD(2)[OF N[of n]] ring by auto
  have "avail n m \<union> spare n m = avail n (memst w) \<union> spare n (memst w) \<union> set pre" "avail n m \<inter> spare n m = {}"
    using gain by (simp_all add: mem_gain_def)
  then have "avail n m \<inter> (linked t \<union> set (mcq_items q)) = {}" "spare n m \<inter> (linked t \<union> set (mcq_items q) \<union> avail n m) = {}"
    using node_invD(4-6)[OF N[of n]] d ring(1) by auto
  then show "node_inv E avail spare (linked t) n (qsc_list (w\<lparr>qsc_list := (qsc_list w)(n := q), memst := m\<rparr>) n)
      (memst (w\<lparr>qsc_list := (qsc_list w)(n := q), memst := m\<rparr>))"
    using ring d(2) node_invD(3,4)[OF N[of n]] by (auto simp: node_inv_def)
  show "node_inv E avail spare (linked t) k (qsc_list (w\<lparr>qsc_list := (qsc_list w)(n := q), memst := m\<rparr>) k)
      (memst (w\<lparr>qsc_list := (qsc_list w)(n := q), memst := m\<rparr>))" if "k \<noteq> n" for k
    using N[of k] gain that by (simp add: node_inv_def mem_gain_def)
qed (use inv gain in \<open>simp_all add: mem_gain_def bi_inv_def\<close>)

definition quiesced :: "nat \<Rightarrow> 'm bi_world \<Rightarrow> u64 \<Rightarrow> addr list" where
  "quiesced n w qsc = takeWhile (\<lambda>a. tsc_free w a \<le> qsc) (ring_of n w)"

text \<open>\<open>w'\<close> is \<open>w\<close> after the ring of the node has lost the objects \<open>pre\<close>.\<close>

definition reclaimed :: "('m \<Rightarrow> bool) \<Rightarrow> 'm objs \<Rightarrow> 'm objs \<Rightarrow> nat \<Rightarrow> addr list \<Rightarrow> 'm bi_world \<Rightarrow> 'm bi_world \<Rightarrow> bool" where
  "reclaimed good avail spare n pre w w' \<longleftrightarrow> (\<exists>q m g. w' = upd_status n g (w\<lparr>qsc_list := (qsc_list w)(n := q), memst := m\<rparr>) \<and>
     ring_of n w = pre @ mcq_items q \<and> mcq_wf q \<and> mem_gain good avail spare n (set pre) (memst w) m)"

lemma reclaimed_inv:
  assumes "bi_inv E good avail spare t w" and "reclaimed good avail spare n pre w w'"
  shows "bi_inv E good avail spare t w'" "ring_of n w = pre @ ring_of n w'" "tab w' = tab w" "tsc_free w' = tsc_free w"
    "now w' = now w" "bi_loading w' = bi_loading w" "k \<noteq> n \<Longrightarrow> ring_of k w' = ring_of k w"
    "avail n (memst w') \<union> spare n (memst w') = avail n (memst w) \<union> spare n (memst w) \<union> set pre"
  using assms bi_inv_reclaim unfolding reclaimed_def mem_gain_def
  by (force, force, force, force, force, force, force, force)

lemma reclaimed_refl: "bi_inv E good avail spare t w \<Longrightarrow> reclaimed good avail spare n [] w w"
  unfolding reclaimed_def
  by (rule exI[of _ "qsc_list w n"], rule exI[of _ "memst w"], rule exI[of _ "\<lambda>p. p"])
    (use bi_invD(1,3)[of E good avail spare t w] in \<open>auto simp: mem_gain_def node_inv_def\<close>)

lemma reclaimed_status: "reclaimed good avail spare n pre w w' \<Longrightarrow> reclaimed good avail spare n pre w (upd_status n h w')"
proof -
  assume "reclaimed good avail spare n pre w w'"
  then obtain q m g where r: "w' = upd_status n g (w\<lparr>qsc_list := (qsc_list w)(n := q), memst := m\<rparr>)"
      "ring_of n w = pre @ mcq_items q" "mcq_wf q" "mem_gain good avail spare n (set pre) (memst w) m"
    unfolding reclaimed_def by blast
  have "upd_status n h w' = upd_status n (\<lambda>p. h (g p)) (w\<lparr>qsc_list := (qsc_list w)(n := q), memst := m\<rparr>)"
    by (simp add: r(1) upd_status_def)
  with r(2-) show ?thesis unfolding reclaimed_def by blast
qed

lemma reclaimed_trans:
  assumes "reclaimed good avail spare n pre w w1" and "reclaimed good avail spare n pre' w1 w2"
  shows "reclaimed good avail spare n (pre @ pre') w w2"
proof -
  obtain q m g where 1: "w1 = upd_status n g (w\<lparr>qsc_list := (qsc_list w)(n := q), memst := m\<rparr>)"
      "ring_of n w = pre @ mcq_items q" "mem_gain good avail spare n (set pre) (memst w) m"
    using assms(1) unfolding reclaimed_def by blast
  obtain q' m' g' where 2: "w2 = upd_status n g' (w1\<lparr>qsc_list := (qsc_list w1)(n := q'), memst := m'\<rparr>)"
      "ring_of n w1 = pre' @ mcq_items q'" "mcq_wf q'" "mem_gain good avail spare n (set pre') (memst w1) m'"
    using assms(2) unfolding reclaimed_def by blast
  have "w2 = upd_status n (\<lambda>p. g' (g p)) (w\<lparr>qsc_list := (qsc_list w)(n := q'), memst := m'\<rparr>)"
    unfolding 2(1) 1(1) by (simp add: upd_status_def)
  moreover have "ring_of n w = (pre @ pre') @ mcq_items q'" using 1(1,2) 2(2) by simp
  moreover have "mem_gain good avail spare n (set (pre @ pre')) (memst w) m'"
    using mem_gain_trans[OF 1(3), of "set pre'" m'] 2(4) 1(1) by simp
  ultimately show ?thesis using 2(3) unfolding reclaimed_def by blast
qed

lemma reclaim_one:
  assumes con: "slab_contract E good avail spare" "bitmap_contract E good avail spare" and n: "n < MC_SERVERS"
    and inv: "bi_inv E good avail spare t w" and ring: "ring_of n w = a # as"
  shows "mcq_peek (qsc_list w n) = a" "a \<noteq> NULL" "obj_core E a = n"
    "\<exists>q w1. mcq_dequeue (qsc_list w n) = (a, q) \<and> slab_free E a n (w\<lparr>qsc_list := (qsc_list w)(n := q)\<rparr>) = Inr w1 \<and>
      reclaimed good avail spare n [a] w w1"
proof -
  note N = bi_invD(3)[OF inv, of n]
  show a: "mcq_peek (qsc_list w n) = a" "a \<noteq> NULL" "obj_core E a = n"
    using mcq_front[OF node_invD(1)[OF N] ring] node_invD(3)[OF N] ring by auto
  obtain q where q: "mcq_dequeue (qsc_list w n) = (a, q)" "mcq_wf q" "mcq_items q = as"
    using mcq_front(3)[OF node_invD(1)[OF N] ring] by blast
  let ?w = "w\<lparr>qsc_list := (qsc_list w)(n := q)\<rparr>"
  have "a \<notin> avail n (memst w)" "a \<notin> spare n (memst w)" "avail n (memst w) \<inter> spare n (memst w) = {}"
    using node_invD(5,6)[OF N] ring by auto
  then obtain m g where "slab_free E a n ?w = Inr (upd_status n g (?w\<lparr>memst := m\<rparr>))" "mem_gain good avail spare n {a} (memst w) m"
    using slab_free_spec[OF con, of ?w a n] bi_invD(1)[OF inv] a n by auto
  moreover have "?w\<lparr>memst := m\<rparr> = w\<lparr>qsc_list := (qsc_list w)(n := q), memst := m\<rparr>" by simp
  ultimately show "\<exists>q w1. mcq_dequeue (qsc_list w n) = (a, q) \<and> slab_free E a n (w\<lparr>qsc_list := (qsc_list w)(n := q)\<rparr>) = Inr w1 \<and>
      reclaimed good avail spare n [a] w w1"
    using q ring unfolding reclaimed_def by (metis append_Cons append_Nil empty_set list.simps(15))
qed

lemma mc_reclaim_loop_spec:
  assumes con: "slab_contract E good avail spare" "bitmap_contract E good avail spare" and n: "n < MC_SERVERS"
  shows "bi_inv E good avail spare t w \<Longrightarrow> mcq_len (qsc_list w n) < f \<Longrightarrow>
    \<exists>w'. mc_reclaim_loop E f qsc n i w = Inr (i + length (quiesced n w qsc) * obj_mem E, w') \<and>
      reclaimed good avail spare n (quiesced n w qsc) w w'"
proof (induction f arbitrary: i w)
  case (Suc f)
  note inv = Suc.prems(1)
  show ?case
  proof (cases "ring_of n w")
    case Nil
    then have "mcq_peek (qsc_list w n) = NULL" using mcq_empty node_invD(1)[OF bi_invD(3)[OF inv]] by blast
    then show ?thesis using Nil reclaimed_refl[OF inv] by (simp add: quiesced_def Let_def)
  next
    case (Cons a as)
    note one = reclaim_one[OF con n inv Cons]
    show ?thesis
    proof (cases "tsc_free w a \<le> qsc")
      case False
      then have "quiesced n w qsc = []" "tsc_free w a > qsc" using Cons by (simp_all add: quiesced_def)
      then show ?thesis using one(1) reclaimed_refl[OF inv] by (simp add: Let_def)
    next
      case True
      obtain q w1 where q: "mcq_dequeue (qsc_list w n) = (a, q)"
          "slab_free E a n (w\<lparr>qsc_list := (qsc_list w)(n := q)\<rparr>) = Inr w1" and w1: "reclaimed good avail spare n [a] w w1"
        using one(4) by blast
      have nl: "\<not> qsc < tsc_free w a" using True by (simp add: not_less)
      note inv1 = reclaimed_inv[OF inv w1]
      have ring1: "ring_of n w1 = as" using inv1(2) Cons by simp
      then have "mcq_len (qsc_list w1 n) < f" using Suc.prems(2) Cons length_mcq_items[of "qsc_list w n"] length_mcq_items[of "qsc_list w1 n"] by simp
      from Suc.IH[OF inv1(1) this, of "i + obj_mem E"] obtain w' where
        w': "mc_reclaim_loop E f qsc n (i + obj_mem E) w1 = Inr (i + obj_mem E + length (quiesced n w1 qsc) * obj_mem E, w')"
          "reclaimed good avail spare n (quiesced n w1 qsc) w1 w'" by blast
      have pre: "quiesced n w qsc = [a] @ quiesced n w1 qsc" using True Cons ring1 inv1(4) by (simp add: quiesced_def)
      have "mc_reclaim_loop E (Suc f) qsc n i w = mc_reclaim_loop E f qsc n (i + obj_mem E) w1"
        using one(1-3) q nl by (simp add: Let_def)
      then show ?thesis using w'(1) reclaimed_trans[OF w1 w'(2)] unfolding pre by (simp add: algebra_simps)
    qed
  qed
qed simp

lemma mem_smr_reclaim_spec:
  assumes con: "slab_contract E good avail spare" "bitmap_contract E good avail spare" and n: "n < MC_SERVERS"
    and inv: "bi_inv E good avail spare t w"
  shows "\<exists>w'. mem_smr_reclaim E n w = Inr (length (quiesced n w (mem_quiesce (now w))) * obj_mem E, w') \<and>
      reclaimed good avail spare n (quiesced n w (mem_quiesce (now w))) w w'"
proof (cases "ring_of n w")
  case Nil
  then have "mcq_peek (qsc_list w n) = NULL" using mcq_empty node_invD(1)[OF bi_invD(3)[OF inv]] by blast
  then show ?thesis using Nil reclaimed_refl[OF inv] by (simp add: mem_smr_reclaim_def quiesced_def)
next
  case (Cons a as)
  then have "mcq_peek (qsc_list w n) \<noteq> NULL" using reclaim_one(1,2)[OF con n inv Cons] by simp
  then show ?thesis
    using mc_reclaim_loop_spec[OF con n inv mcq_len_less, of "mem_quiesce (now w)" 0] reclaimed_status
    by (fastforce simp: mem_smr_reclaim_def)
qed

text \<open>What is reclaimed was freed before the grace period, so that no object in use is touched.\<close>

lemma reclaimed_keeps:
  assumes inv: "bi_inv E good avail spare t w" and r: "reclaimed good avail spare n (quiesced n w (mem_quiesce (now w))) w w'"
  shows "keeps_held E t w t w'"
proof -
  note R = reclaimed_inv[OF inv r]
  have "a \<in> set (ring_of (obj_core E a) w')" if "a \<in> set (ring_of (obj_core E a) w)" "mem_quiesce (now w) < tsc_free w a" for a
  proof (cases "obj_core E a = n")
    case True
    have "a \<notin> set (quiesced n w (mem_quiesce (now w)))"
      using that(2) by (auto simp: quiesced_def not_le dest!: set_takeWhileD)
    with R(2) that(1) True show ?thesis by auto
  next
    case False
    with R(7)[OF False] that(1) show ?thesis by simp
  qed
  then show ?thesis using R(3-6) by (auto simp: keeps_held_def held_def same_bytes_def)
qed

lemma mem_smr_reclaim_keeps:
  assumes con: "slab_contract E good avail spare" "bitmap_contract E good avail spare" and n: "n < MC_SERVERS"
    and inv: "bi_inv E good avail spare t w"
  shows "\<exists>i w'. mem_smr_reclaim E n w = Inr (i, w') \<and> bi_inv E good avail spare t w' \<and> keeps_held E t w t w' \<and>
    tab w' = tab w \<and> tsc_free w' = tsc_free w \<and> set (ring_of n w') \<subseteq> set (ring_of n w) \<and> mcq_len (qsc_list w' n) \<le> mcq_len (qsc_list w n) \<and>
    (\<forall>k. k \<noteq> n \<longrightarrow> ring_of k w' = ring_of k w) \<and>
    avail n (memst w') \<union> spare n (memst w') \<subseteq> avail n (memst w) \<union> spare n (memst w) \<union> set (ring_of n w)"
proof -
  obtain w' where w': "mem_smr_reclaim E n w = Inr (length (quiesced n w (mem_quiesce (now w))) * obj_mem E, w')"
      "reclaimed good avail spare n (quiesced n w (mem_quiesce (now w))) w w'"
    using mem_smr_reclaim_spec[OF con n inv] by blast
  note R = reclaimed_inv[OF inv w'(2)]
  have "mcq_len (qsc_list w' n) \<le> mcq_len (qsc_list w n)"
    using R(2) by (metis length_append length_mcq_items le_add2)
  moreover have "set (ring_of n w') \<subseteq> set (ring_of n w)" "set (quiesced n w (mem_quiesce (now w))) \<subseteq> set (ring_of n w)"
    using R(2) by auto
  ultimately show ?thesis
    using w'(1) R(1,3,4,7,8) reclaimed_keeps[OF inv w'(2)] by (intro exI[of _ "length (quiesced n w (mem_quiesce (now w))) * obj_mem E"] exI[of _ w']) auto
qed

section \<open>Freeing an item\<close>

text \<open>An object of node \<open>n\<close> that is in none of the four sets: it has just been taken or cut out.\<close>

definition loose :: "'m mc_env \<Rightarrow> 'm objs \<Rightarrow> 'm objs \<Rightarrow> tbl \<Rightarrow> 'm bi_world \<Rightarrow> nat \<Rightarrow> addr \<Rightarrow> bool" where
  "loose E avail spare t w n a \<longleftrightarrow> a \<noteq> NULL \<and> obj_core E a = n \<and> a \<notin> linked t \<and> a \<notin> set (ring_of n w) \<and>
     a \<notin> avail n (memst w) \<and> a \<notin> spare n (memst w)"

definition after_grace :: "'m bi_world \<Rightarrow> bool" where
  "after_grace w \<longleftrightarrow> mem_quiesce (now w) < now w"

lemma put_inv:
  assumes inv: "bi_inv E good avail spare t w" and l: "loose E avail spare t w n a" and room: "mcq_len (qsc_list w n) < QUIS_NUM - 1"
  defines "w' \<equiv> w\<lparr>qsc_list := (qsc_list w)(n := mcq_put a (qsc_list w n))\<rparr>"
  shows "bi_inv E good avail spare t w'" "ring_of n w' = ring_of n w @ [a]" "k \<noteq> n \<Longrightarrow> ring_of k w' = ring_of k w"
proof -
  note N = bi_invD(3)[OF inv]
  have p: "mcq_wf (mcq_put a (qsc_list w n))" "mcq_items (mcq_put a (qsc_list w n)) = ring_of n w @ [a]"
    using mcq_put_spec[OF node_invD(1)[OF N[of n]] _ room] l by (auto simp: loose_def)
  show r: "ring_of n w' = ring_of n w @ [a]" "k \<noteq> n \<Longrightarrow> ring_of k w' = ring_of k w" using p by (simp_all add: w'_def)
  show "bi_inv E good avail spare t w'"
  proof (rule bi_invI[where n = n])
    show "node_inv E avail spare (linked t) n (qsc_list w' n) (memst w')"
      using p N[of n] l by (auto simp: w'_def node_inv_def loose_def)
    show "node_inv E avail spare (linked t) k (qsc_list w' k) (memst w')" if "k \<noteq> n" for k
      using N[of k] that by (simp add: w'_def)
  qed (use inv in \<open>simp_all add: w'_def bi_inv_def\<close>)
qed

definition freed :: "'m mc_env \<Rightarrow> ('m \<Rightarrow> bool) \<Rightarrow> 'm objs \<Rightarrow> 'm objs \<Rightarrow> tbl \<Rightarrow> addr \<Rightarrow> 'm bi_world \<Rightarrow> 'm bi_world \<Rightarrow> bool" where
  "freed E good avail spare t a w w' \<longleftrightarrow> bi_inv E good avail spare t w' \<and> keeps_held E t w t w' \<and> held E t w' a \<and>
     tab w' = tab w \<and> tsc_free w' = (tsc_free w)(a := now w)"

lemma put_freed:
  assumes inv: "bi_inv E good avail spare t w" and l: "loose E avail spare t w n a" and room: "mcq_len (qsc_list w n) < QUIS_NUM - 1"
    and g: "after_grace w" and ts: "tsc_free w a = now w"
  shows "freed E good avail spare t a w (w\<lparr>qsc_list := (qsc_list w)(n := mcq_put a (qsc_list w n))\<rparr>)"
proof -
  note P = put_inv[OF inv l room]
  let ?w = "w\<lparr>qsc_list := (qsc_list w)(n := mcq_put a (qsc_list w n))\<rparr>"
  have o: "obj_core E a = n" using l by (simp add: loose_def)
  have sub: "set (ring_of k w) \<subseteq> set (ring_of k ?w)" for k using P(2) P(3)[of k] by (cases "k = n") auto
  have "keeps_held E t w t ?w" using sub by (force simp: keeps_held_def held_def same_bytes_def)
  moreover have "held E t ?w a" using P(2) o g ts by (auto simp: held_def after_grace_def)
  ultimately show ?thesis using P(1) ts by (auto simp: freed_def)
qed

lemma stamp_keeps:
  assumes "loose E avail spare t w n a"
  shows "bi_inv E good avail spare t (w\<lparr>tsc_free := (tsc_free w)(a := x)\<rparr>) = bi_inv E good avail spare t w"
    "keeps_held E t w t (w\<lparr>tsc_free := (tsc_free w)(a := x)\<rparr>)"
  using assms by (auto simp: bi_inv_def keeps_held_def held_def same_bytes_def loose_def)

lemma mcq_enqueue_spec:
  assumes con: "slab_contract E good avail spare" "bitmap_contract E good avail spare" and n: "n < MC_SERVERS"
    and inv: "bi_inv E good avail spare t w" and l: "loose E avail spare t w n a" and g: "after_grace w" and ts: "tsc_free w a = now w"
  shows "runs (mcq_enqueue E n a w) (freed E good avail spare t a w)"
    "mcq_len (qsc_list w n) < QUIS_NUM - 1 \<Longrightarrow> \<exists>w'. mcq_enqueue E n a w = Inr w'"
proof -
  note wf = node_invD(1)[OF bi_invD(3)[OF inv, of n]]
  show "mcq_len (qsc_list w n) < QUIS_NUM - 1 \<Longrightarrow> \<exists>w'. mcq_enqueue E n a w = Inr w'"
    using mcq_full_iff[OF wf] by (simp add: mcq_enqueue_def)
  show "runs (mcq_enqueue E n a w) (freed E good avail spare t a w)"
  proof (cases "mcq_full (qsc_list w n)")
    case False
    then have "mcq_len (qsc_list w n) < QUIS_NUM - 1" using mcq_full_iff[OF wf] mcq_len_less[of "qsc_list w n"] by simp
    then show ?thesis using put_freed[OF inv l _ g ts] False by (simp add: mcq_enqueue_def)
  next
    case True
    obtain i w1 where r: "mem_smr_reclaim E n w = Inr (i, w1)" "bi_inv E good avail spare t w1" "keeps_held E t w t w1"
        "tab w1 = tab w" "tsc_free w1 = tsc_free w" "set (ring_of n w1) \<subseteq> set (ring_of n w)"
        "avail n (memst w1) \<union> spare n (memst w1) \<subseteq> avail n (memst w) \<union> spare n (memst w) \<union> set (ring_of n w)"
      using mem_smr_reclaim_keeps[OF con n inv] by blast
    have l1: "loose E avail spare t w1 n a" using l r(6,7) unfolding loose_def by blast
    have nw: "now w1 = now w" using r(3) by (simp add: keeps_held_def)
    show ?thesis
    proof (cases "mcq_full (qsc_list w1 n)")
      case False
      then have "mcq_len (qsc_list w1 n) < QUIS_NUM - 1"
        using mcq_full_iff[OF node_invD(1)[OF bi_invD(3)[OF r(2), of n]]] mcq_len_less[of "qsc_list w1 n"] by simp
      from put_freed[OF r(2) l1 this] g ts r(5) nw
      have "freed E good avail spare t a w1 (w1\<lparr>qsc_list := (qsc_list w1)(n := mcq_put a (qsc_list w1 n))\<rparr>)"
        by (simp add: after_grace_def)
      then have "freed E good avail spare t a w (w1\<lparr>qsc_list := (qsc_list w1)(n := mcq_put a (qsc_list w1 n))\<rparr>)"
        using keeps_held_trans[OF r(3)] r(4,5) nw by (auto simp: freed_def)
      then show ?thesis using True False r(1) by (simp add: mcq_enqueue_def)
    qed (use True r(1) in \<open>simp add: mcq_enqueue_def\<close>)
  qed
qed

lemma bi_remove_free_spec:
  assumes con: "slab_contract E good avail spare" "bitmap_contract E good avail spare" and n: "n < MC_SERVERS"
    and inv: "bi_inv E good avail spare t w" and l: "loose E avail spare t w n a" and g: "after_grace w"
  shows "runs (bi_remove_free E n a w) (freed E good avail spare t a w)"
    "mcq_len (qsc_list w n) < QUIS_NUM - 1 \<Longrightarrow> \<exists>w'. bi_remove_free E n a w = Inr w'"
proof -
  let ?w = "w\<lparr>tsc_free := (tsc_free w)(a := now w)\<rparr>"
  note I = items_invD[OF bi_invD(2)[OF inv]]
  have "items (tab w) a\<lparr>slabs_clsid := 0\<rparr> = items (tab w) a" using I(3)[of a] by (cases "items (tab w) a") simp
  then have cl: "upd_item a (\<lambda>i. i\<lparr>slabs_clsid := 0\<rparr>) (tab w) = tab w" by (simp add: upd_item_def)
  have run: "bi_remove_free E n a w = bindE (mcq_enqueue E n a ?w) (\<lambda>w. Inr (upd_status n (\<lambda>p. p\<lparr>st_quiesce := st_quiesce p + of_nat (obj_mem E)\<rparr>) w))"
    using I(4)[of a] l by (simp add: bi_remove_free_def bi_item_free_def parsec_mem_free_def cl loose_def)
  have l': "loose E avail spare t ?w n a" using l by (simp add: loose_def)
  have g': "after_grace ?w" using g by (simp add: after_grace_def)
  note st = stamp_keeps[OF l, where x = "now w"]
  have "bi_inv E good avail spare t ?w" using inv st(1)[of good] by simp
  note Q = mcq_enqueue_spec[OF con n this l' g']
  show "mcq_len (qsc_list w n) < QUIS_NUM - 1 \<Longrightarrow> \<exists>w'. bi_remove_free E n a w = Inr w'" using Q(2) run by auto
  show "runs (bi_remove_free E n a w) (freed E good avail spare t a w)"
    unfolding run
  proof (rule runs_bind[OF Q(1)])
    fix w' assume "freed E good avail spare t a ?w w'"
    then show "runs (Inr (upd_status n (\<lambda>p. p\<lparr>st_quiesce := st_quiesce p + of_nat (obj_mem E)\<rparr>) w')) (freed E good avail spare t a w)"
      using keeps_held_trans[OF st(2)] by (auto simp: freed_def)
  qed simp
qed

end
