(* ===== verification/Bi_Mc_Set.thy ===== *)
theory Bi_Mc_Set
  imports Bi_Mc
begin

unbundle bit_operations_syntax

text \<open>
  What a SET of the service on non-coherent memory does (\<^verbatim>\<open>mc_set_key_rcv\<close> of \<^verbatim>\<open>mc_code/bi_mc/memcache.c\<close>):
  cutting items out, eviction, allocation with its callbacks, replacement in the chain, and the effect
  on the stored map. Every step keeps the items that readers may still use.
\<close>

section \<open>Unlinking and eviction\<close>

lemma bi_assoc_delete_eq: "mc_hv2node hv = n \<Longrightarrow> bi_assoc_delete fuel n key hv st = assoc_delete fuel key hv st"
  by (simp add: bi_assoc_delete_def assoc_delete_def)

lemma same_bytes_flags:
  assumes "it_flags i AND ITEM_CAS = 0" and "f AND ITEM_CAS = 0"
  shows "same_bytes i (i\<lparr>it_flags := f, h_next := h\<rparr>)"
  using assms by (simp add: same_bytes_def item_key_bytes_def ITEM_key_def item_value_def ITEM_data_def)

lemma same_bytes_next: "same_bytes i (i\<lparr>h_next := h\<rparr>)"
  by (simp add: same_bytes_def)

text \<open>Cutting an item out of its chain makes it loose and leaves the bytes of all items alone.\<close>

definition cut :: "addr \<Rightarrow> mc_store \<Rightarrow> mc_store \<Rightarrow> bool" where
  "cut a st st' \<longleftrightarrow> (\<forall>x. same_bytes (items st x) (items st' x) \<and> slabs_clsid (items st' x) = slabs_clsid (items st x) \<and>
     (x \<noteq> a \<longrightarrow> it_flags (items st' x) = it_flags (items st x)))"

lemma linked_tbl_map:
  assumes "table_inv t st" and "(k, a) \<in> set (t b)"
  shows "tbl_map t (b, k) = Some a"
  using assms table_invD(1)[OF assms(1)] by (simp add: tbl_map_def tbl_ok_def)

lemma items_inv_cut:
  assumes inv: "items_inv E t st" and s: "store_inv t' st'" "pool st' = []" and c: "cut a st st'" and f: "it_flags (items st' a) = 0"
    and l: "linked t' = linked t - {a}" and sub: "\<And>b. set (t' b) \<subseteq> set (t b)"
  shows "items_inv E t' st'"
proof -
  have fl: "it_flags (items st' x) = 0" if "x \<notin> linked t'" for x
    using that l f c items_invD(4)[OF inv, of x] by (cases "x = a") (auto simp: cut_def)
  have cl: "slabs_clsid (items st' x) = 0" and hv: "it_hv (items st' x) = it_hv (items st x)" for x
    using c items_invD(3)[OF inv, of x] by (auto simp: cut_def same_bytes_def)
  have "bucket (it_hv (items st' x)) = b \<and> obj_core E x = mc_hv2node (it_hv (items st' x))" if "(k, x) \<in> set (t' b)" for b k x
    using items_invD(5)[OF inv, of k x b] that sub[of b] unfolding hv by blast
  with fl cl s show ?thesis unfolding items_inv_def by blast
qed

lemma cut_out:
  assumes inv: "items_inv E t st" and len: "length (t b) < fuel" and m: "(k, a) \<in> set (t b)"
  defines "hv \<equiv> it_hv (items st a)"
  defines "st0 \<equiv> upd_item a (\<lambda>i. i\<lparr>it_flags := it_flags i AND NOT ITEM_LINKED\<rparr>) st"
  shows "it_flags (items st a) = ITEM_LINKED" "\<exists>st1. bi_assoc_delete fuel (obj_core E a) (item_key_bytes (items st0 a)) hv st0 = Inr st1 \<and>
    items_inv E (tbl_rem (b, k) t) st1 \<and> cut a st st1"
proof -
  note I = items_invD[OF inv] and tab = store_invD(1)[OF items_invD(1)[OF inv]]
  have b: "bucket hv = b" "mc_hv2node hv = obj_core E a" using I(5)[OF m] by (simp_all add: hv_def)
  note f = linked_tbl_map[OF tab m]
  obtain st1 h where fl: "it_flags (items st a) = ITEM_LINKED"
    and s: "assoc_delete fuel (item_key_bytes (items st0 a)) hv st0 = Inr st1" "store_inv (tbl_rem (b, k) t) st1"
      "pool st1 = pool st" "it_flags (items st1 a) = 0" "\<forall>x. x \<noteq> a \<longrightarrow> (\<exists>n. items st1 x = items st x\<lparr>h_next := n\<rparr>)"
      "items st1 a = items st a\<lparr>it_flags := 0, h_next := h\<rparr>"
    using cut_out_spec[OF I(1), of hv fuel k a] len f unfolding b(1) st0_def by blast
  have "same_bytes (items st x) (items st1 x) \<and> slabs_clsid (items st1 x) = slabs_clsid (items st x) \<and>
     (x \<noteq> a \<longrightarrow> it_flags (items st1 x) = it_flags (items st x))" for x
  proof (cases "x = a")
    case True
    then show ?thesis using s(6) same_bytes_flags[of "items st a" 0 h] fl by simp
  next
    case False
    then obtain n where "items st1 x = items st x\<lparr>h_next := n\<rparr>" using s(5) by blast
    then show ?thesis by (simp add: same_bytes_next)
  qed
  then have c: "cut a st st1" by (simp add: cut_def)
  have "items_inv E (tbl_rem (b, k) t) st1"
    using items_inv_cut[OF inv s(2) _ c s(4) linked_rem[OF tab f]] s(3) I(2) by (auto simp: tbl_rem_def)
  with fl c s(1) show "it_flags (items st a) = ITEM_LINKED" "\<exists>st1. bi_assoc_delete fuel (obj_core E a) (item_key_bytes (items st0 a)) hv st0 = Inr st1 \<and>
    items_inv E (tbl_rem (b, k) t) st1 \<and> cut a st st1"
    using bi_assoc_delete_eq[OF b(2)] by auto
qed

lemma node_inv_mono: "node_inv E avail spare L n q m \<Longrightarrow> L' \<subseteq> L \<Longrightarrow> node_inv E avail spare L' n q m"
  unfolding node_inv_def by blast

text \<open>Replacing the store by one in which an item has been cut out.\<close>

lemma bi_inv_cut:
  assumes inv: "bi_inv E good avail spare t w" and i: "items_inv E t' st" and l: "linked t' = linked t - {a}" and a: "a \<in> linked t"
    and nz: "a \<noteq> NULL"
  shows "bi_inv E good avail spare t' (w\<lparr>tab := st\<rparr>)" "loose E avail spare t' (w\<lparr>tab := st\<rparr>) (obj_core E a) a"
proof -
  note N = bi_invD(3)[OF inv]
  have "node_inv E avail spare (linked t') n (qsc_list w n) (memst w)" for n using node_inv_mono[OF N[of n]] l by blast
  then show "bi_inv E good avail spare t' (w\<lparr>tab := st\<rparr>)" using inv i by (simp add: bi_inv_def)
  show "loose E avail spare t' (w\<lparr>tab := st\<rparr>) (obj_core E a) a"
    using node_invD(4-6)[OF N[of "obj_core E a"]] a nz l by (auto simp: loose_def)
qed

lemma keeps_held_freed:
  assumes l: "linked t - {a} \<subseteq> linked t'" and c: "\<And>x. same_bytes (items (tab w) x) (items st x)"
    and f: "freed E good avail spare t' a (w\<lparr>tab := st\<rparr>) w'"
  shows "keeps_held E t w t' w'"
proof -
  let ?w = "w\<lparr>tab := st\<rparr>"
  have k: "now w' = now w" "bi_loading w' = bi_loading w" "tab w' = st" "held E t' w' a"
    using f by (auto simp: freed_def keeps_held_def)
  have "held E t' w' x" if "held E t w x" for x
  proof (cases "x = a")
    case False
    then have "held E t' ?w x" using that l by (auto simp: held_def)
    then show ?thesis using f by (auto simp: freed_def keeps_held_def)
  qed (use k in simp)
  then show ?thesis using k c by (simp add: keeps_held_def)
qed

lemma bi_item_unlink_spec:
  assumes con: "slab_contract E good avail spare" "bitmap_contract E good avail spare" and n: "obj_core E a < MC_SERVERS"
    and inv: "bi_inv E good avail spare t w" and g: "after_grace w" and len: "length (t b) < fuel" and m: "(k, a) \<in> set (t b)"
  shows "runs (bi_item_unlink E fuel (obj_core E a) a (it_hv (items (tab w) a)) w) (\<lambda>w'.
    bi_inv E good avail spare (tbl_rem (b, k) t) w' \<and> keeps_held E t w (tbl_rem (b, k) t) w')"
proof -
  let ?t = "tbl_rem (b, k) t"
  note tab = store_invD(1)[OF items_invD(1)[OF bi_invD(2)[OF inv]]]
  note f = linked_tbl_map[OF tab m]
  note l = linked_rem[OF tab f] and a = found_linked[OF tab f]
  obtain st where fl: "it_flags (items (tab w) a) = ITEM_LINKED" and st: "items_inv E ?t st" "cut a (tab w) st"
    and run: "bi_item_unlink E fuel (obj_core E a) a (it_hv (items (tab w) a)) w = bi_remove_free E (obj_core E a) a (w\<lparr>tab := st\<rparr>)"
    using cut_out[OF bi_invD(2)[OF inv] len m] by (auto simp: bi_item_unlink_def Let_def)
  note w1 = bi_inv_cut[OF inv st(1) l a(2,3)]
  have g1: "after_grace (w\<lparr>tab := st\<rparr>)" using g by (simp add: after_grace_def)
  show ?thesis
    unfolding run
  proof (rule runs_mono[OF bi_remove_free_spec(1)[OF con n w1 g1]])
    fix w' assume f: "freed E good avail spare ?t a (w\<lparr>tab := st\<rparr>) w'"
    have "keeps_held E t w ?t w'" using st(2) l by (intro keeps_held_freed[OF _ _ f]) (auto simp: cut_def)
    with f show "bi_inv E good avail spare ?t w' \<and> keeps_held E t w ?t w'" by (simp add: freed_def)
  qed
qed

text \<open>What eviction does: items disappear from the table.\<close>

definition evicted :: "'m mc_env \<Rightarrow> ('m \<Rightarrow> bool) \<Rightarrow> 'm objs \<Rightarrow> 'm objs \<Rightarrow> tbl \<Rightarrow> 'm bi_world \<Rightarrow> 'm bi_world \<Rightarrow> bool" where
  "evicted E good avail spare t w w' \<longleftrightarrow> (\<exists>t'. bi_inv E good avail spare t' w' \<and> keeps_held E t w t' w' \<and>
     (\<forall>b. set (t' b) \<subseteq> set (t b) \<and> length (t' b) \<le> length (t b)))"

lemma evicted_refl: "bi_inv E good avail spare t w \<Longrightarrow> evicted E good avail spare t w w"
  unfolding evicted_def using keeps_held_refl by blast

lemma evicted_status [simp]: "evicted E good avail spare t w (upd_status n f w') = evicted E good avail spare t w w'"
  by (simp add: evicted_def)

lemma evicted_step:
  assumes "bi_inv E good avail spare t1 w1" and "keeps_held E t w t1 w1" and "\<And>b. set (t1 b) \<subseteq> set (t b) \<and> length (t1 b) \<le> length (t b)"
    and "evicted E good avail spare t1 w1 w2"
  shows "evicted E good avail spare t w w2"
proof -
  obtain t2 where "bi_inv E good avail spare t2 w2" "keeps_held E t1 w1 t2 w2"
      "\<And>b. set (t2 b) \<subseteq> set (t1 b) \<and> length (t2 b) \<le> length (t1 b)" using assms(4) unfolding evicted_def by blast
  then show ?thesis unfolding evicted_def using keeps_held_trans[OF assms(2)] assms(3) by (meson order_trans)
qed

lemma tbl_rem_sub: "set (tbl_rem bk t b) \<subseteq> set (t b) \<and> length (tbl_rem bk t b) \<le> length (t b)"
  by (auto simp: tbl_rem_def)

lemma slab_evict_loop_spec:
  assumes con: "slab_contract E good avail spare" "bitmap_contract E good avail spare" and n: "n < MC_SERVERS"
  shows "bi_inv E good avail spare t w \<Longrightarrow> after_grace w \<Longrightarrow> (\<And>b. length (t b) < fuel) \<Longrightarrow>
    runs (slab_evict_loop E fuel n its e w) (\<lambda>(e, w'). evicted E good avail spare t w w')"
proof (induction its arbitrary: e t w)
  case Nil
  then show ?case using evicted_refl by auto
next
  case (Cons a its)
  note inv = Cons.prems(1)
  show ?case
  proof (cases "tsc_free w a \<noteq> in_use E")
    case True
    then show ?thesis using Cons.IH[OF Cons.prems] by simp
  next
    case use: False
    show ?thesis
    proof (cases "a \<in> linked t")
      case False
      then have "it_flags (items (tab w) a) = 0" using items_invD(4)[OF bi_invD(2)[OF inv]] by blast
      then have "bi_item_unlink E fuel n a (it_hv (items (tab w) a)) w = Inl Assert_fail" by (simp add: bi_item_unlink_def)
      then show ?thesis using use by (cases "mc_hv2node (it_hv (items (tab w) a)) = n") auto
    next
      case True
      then obtain b k where m: "(k, a) \<in> set (t b)" by (auto simp: linked_alt)
      have "runs (bindE (bi_item_unlink E fuel n a (it_hv (items (tab w) a)) w) (\<lambda>w. slab_evict_loop E fuel n its (e + 1) w))
          (\<lambda>(e, w'). evicted E good avail spare t w w')" if hv: "mc_hv2node (it_hv (items (tab w) a)) = n"
      proof (rule runs_bind)
        have o: "obj_core E a = n" using items_invD(5)[OF bi_invD(2)[OF inv] m] hv by simp
        show "runs (bi_item_unlink E fuel n a (it_hv (items (tab w) a)) w) (\<lambda>w'.
            bi_inv E good avail spare (tbl_rem (b, k) t) w' \<and> keeps_held E t w (tbl_rem (b, k) t) w')"
          using bi_item_unlink_spec[OF con _ inv Cons.prems(2) Cons.prems(3) m] n unfolding o by simp
      next
        fix w1 assume w1: "bi_inv E good avail spare (tbl_rem (b, k) t) w1 \<and> keeps_held E t w (tbl_rem (b, k) t) w1"
        have g: "after_grace w1" using Cons.prems(2) w1 by (simp add: after_grace_def keeps_held_def)
        have "length (tbl_rem (b, k) t c) < fuel" for c using tbl_rem_sub[of "(b, k)" t c] Cons.prems(3)[of c] by linarith
        from runs_mono[OF Cons.IH[OF _ g this]] show "runs (slab_evict_loop E fuel n its (e + 1) w1) (\<lambda>(e, w'). evicted E good avail spare t w w')"
          using w1 evicted_step[of E good avail spare "tbl_rem (b, k) t" w1 t w] tbl_rem_sub by fastforce
      qed
      then show ?thesis using use by (cases "mc_hv2node (it_hv (items (tab w) a)) = n") auto
    qed
  qed
qed

lemma evicted_then:
  assumes e: "evicted E good avail spare t w w1" and g: "after_grace w" and len: "\<And>b. length (t b) < fuel"
    and next_ok: "\<And>t1. bi_inv E good avail spare t1 w1 \<Longrightarrow> after_grace w1 \<Longrightarrow> (\<And>b. length (t1 b) < fuel) \<Longrightarrow>
      runs r (\<lambda>(x, w2). evicted E good avail spare t1 w1 w2)"
  shows "runs r (\<lambda>(x, w2). evicted E good avail spare t w w2)"
proof -
  obtain t1 where t1: "bi_inv E good avail spare t1 w1" "keeps_held E t w t1 w1"
      "\<And>b. set (t1 b) \<subseteq> set (t b) \<and> length (t1 b) \<le> length (t b)" using e unfolding evicted_def by blast
  have "after_grace w1" using g t1(2) by (simp add: after_grace_def keeps_held_def)
  moreover have "length (t1 b) < fuel" for b using t1(3)[of b] len[of b] by linarith
  ultimately show ?thesis
    using runs_mono[OF next_ok[OF t1(1)]] evicted_step[OF t1] by fastforce
qed

lemma slab_evict_spec:
  assumes con: "slab_contract E good avail spare" "bitmap_contract E good avail spare" and n: "n < MC_SERVERS"
    and inv: "bi_inv E good avail spare t w" and g: "after_grace w" and len: "\<And>b. length (t b) < fuel"
  shows "runs (slab_evict E fuel n s w) (\<lambda>(e, w'). evicted E good avail spare t w w')"
  unfolding slab_evict_def
  by (intro runs_assert runs_bind[OF slab_evict_loop_spec[OF con n inv g len]]) auto

lemma evict_slabs_spec:
  assumes con: "slab_contract E good avail spare" "bitmap_contract E good avail spare" and n: "n < MC_SERVERS"
  shows "bi_inv E good avail spare t w \<Longrightarrow> after_grace w \<Longrightarrow> (\<And>b. length (t b) < fuel) \<Longrightarrow>
    runs (evict_slabs E fuel n np i s w) (\<lambda>(i, w'). evicted E good avail spare t w w')"
proof (induction "np - i" arbitrary: i s w t rule: less_induct)
  case less
  note inv = less.prems(1) and g = less.prems(2) and len = less.prems(3)
  show ?case
  proof (cases "i < np \<and> s \<noteq> NULL")
    case False
    then show ?thesis using evicted_refl[OF inv] by (subst evict_slabs.simps) auto
  next
    case True
    let ?i = "i + MC_SLAB_AOC_SZ div PAGE_SIZE"
    have dec: "np - ?i < np - i" using True by simp linarith
    have "runs (bindE (slab_evict E fuel n s w) (\<lambda>(_, w). evict_slabs E fuel n np ?i (sl_next E (memst w) s) w))
        (\<lambda>(i, w'). evicted E good avail spare t w w')"
    proof (rule runs_bind[OF slab_evict_spec[OF con n inv g len]])
      fix x assume "case x of (e, w1) \<Rightarrow> evicted E good avail spare t w w1"
      then obtain e1 w1 where x: "x = (e1, w1)" and ev: "evicted E good avail spare t w w1" by (cases x) auto
      show "runs (case x of (_, w) \<Rightarrow> evict_slabs E fuel n np ?i (sl_next E (memst w) s) w)
          (\<lambda>(i, w'). evicted E good avail spare t w w')"
        unfolding x prod.case by (rule evicted_then[OF ev g len less.hyps[OF dec]])
    qed
    then show ?thesis using True by (subst evict_slabs.simps) simp
  qed
qed

lemma mc_mem_evict_spec:
  assumes con: "slab_contract E good avail spare" "bitmap_contract E good avail spare" and n: "n < MC_SERVERS"
    and inv: "bi_inv E good avail spare t w" and g: "after_grace w" and len: "\<And>b. length (t b) < fuel"
  shows "runs (mc_mem_evict E fuel n np w) (\<lambda>(i, w'). evicted E good avail spare t w w')"
  unfolding mc_mem_evict_def
proof (rule runs_bind[OF evict_slabs_spec[OF con n inv g len]])
  fix x assume "case x of (e :: nat, w1) \<Rightarrow> evicted E good avail spare t w w1"
  then obtain i w1 where x: "x = (i, w1)" and ev: "evicted E good avail spare t w w1" by (cases x) auto
  show "runs (case x of (i, w) \<Rightarrow> evict_slabs E fuel n np i (sl_fl E n (memst w)) w) (\<lambda>(i, w'). evicted E good avail spare t w w')"
    unfolding x prod.case by (rule evicted_then[OF ev g len evict_slabs_spec[OF con n]])
qed

section \<open>Allocation\<close>

lemma bi_inv_memst:
  assumes inv: "bi_inv E good avail spare t w" and m: "mem_to good avail spare n (memst w) m A S"
    and d: "A \<inter> (linked t \<union> set (ring_of n w)) = {}" "S \<inter> (linked t \<union> set (ring_of n w) \<union> A) = {}"
  shows "bi_inv E good avail spare t (w\<lparr>memst := m\<rparr>)"
proof (rule bi_invI[where n = n])
  note N = bi_invD(3)[OF inv]
  show "node_inv E avail spare (linked t) n (qsc_list (w\<lparr>memst := m\<rparr>) n) (memst (w\<lparr>memst := m\<rparr>))"
    using N[of n] m d by (simp add: node_inv_def mem_to_def)
  show "node_inv E avail spare (linked t) k (qsc_list (w\<lparr>memst := m\<rparr>) k) (memst (w\<lparr>memst := m\<rparr>))" if "k \<noteq> n" for k
    using N[of k] m that by (simp add: node_inv_def mem_to_def)
qed (use inv m in \<open>simp_all add: bi_inv_def mem_to_def\<close>)

lemma keeps_held_memst: "keeps_held E t w t (w\<lparr>memst := m\<rparr>)"
  by (simp add: keeps_held_def held_def same_bytes_def)

lemma page_find_spec:
  assumes con: "bitmap_contract E good avail spare" and inv: "bi_inv E good avail spare t w" and f: "bm_find E n 4 (memst w) = (i, m)"
  shows "bi_inv E good avail spare t (w\<lparr>memst := m\<rparr>)"
    "0 \<le> i \<Longrightarrow> p = trac_base E + nat i * PAGE_SIZE \<Longrightarrow> p \<noteq> NULL \<and> (\<forall>a \<in> set (sl_objs E p). loose E avail spare t (w\<lparr>memst := m\<rparr>) n a)"
proof -
  note N = bi_invD(3)[OF inv, of n] and B = bitmap_contractD[OF con bi_invD(1)[OF inv]]
  show "bi_inv E good avail spare t (w\<lparr>memst := m\<rparr>)"
  proof (cases "i < 0")
    case True
    show ?thesis by (rule bi_inv_memst[OF inv B(3)[OF f True] node_invD(5,6)[OF N]])
  next
    case False
    then have "mem_to good avail spare n (memst w) m (avail n (memst w)) (spare n (memst w) - set (sl_objs E (trac_base E + nat i * PAGE_SIZE)))"
      using B(4)[OF f _ refl] by simp
    from bi_inv_memst[OF inv this] show ?thesis using node_invD(5,6)[OF N] by blast
  qed
  assume i: "0 \<le> i" and p: "p = trac_base E + nat i * PAGE_SIZE"
  note b = B(4)[OF f i p]
  have "loose E avail spare t (w\<lparr>memst := m\<rparr>) n a" if "a \<in> set (sl_objs E p)" for a
    using b that node_invD(5,6)[OF N] B(1)[of a n] by (auto simp: loose_def mem_to_def)
  with b show "p \<noteq> NULL \<and> (\<forall>a \<in> set (sl_objs E p). loose E avail spare t (w\<lparr>memst := m\<rparr>) n a)" by blast
qed

lemma slab_take_spec:
  assumes con: "slab_contract E good avail spare" "bitmap_contract E good avail spare"
    and inv: "bi_inv E good avail spare t w" and s: "sl_alloc E n (memst w) = Some (a, m)"
  shows "bi_inv E good avail spare t (slab_take E a m w)" "loose E avail spare t (slab_take E a m w) n a"
    "keeps_held E t w t (slab_take E a m w)"
proof -
  note N = bi_invD(3)[OF inv, of n]
  note S = slab_contractD(2)[OF con(1) bi_invD(1)[OF inv] s]
  have a: "a \<in> avail n (memst w)" and m: "mem_to good avail spare n (memst w) m (avail n (memst w) - {a}) (spare n (memst w))"
    using S by blast+
  have o: "a \<noteq> NULL" "obj_core E a = n" using bitmap_contractD(1)[OF con(2) bi_invD(1)[OF inv], of a n] a by blast+
  have inv': "bi_inv E good avail spare t (w\<lparr>memst := m\<rparr>)" using node_invD(5,6)[OF N] by (intro bi_inv_memst[OF inv m]) auto
  have l: "loose E avail spare t (w\<lparr>memst := m\<rparr>) n a"
    using a o m node_invD(5,6)[OF N] by (auto simp: loose_def mem_to_def)
  have t: "slab_take E a m w = (w\<lparr>memst := m\<rparr>)\<lparr>tsc_free := (tsc_free (w\<lparr>memst := m\<rparr>))(a := in_use E)\<rparr>"
    by (simp add: slab_take_def)
  show "bi_inv E good avail spare t (slab_take E a m w)" unfolding t stamp_keeps(1)[OF l] by (rule inv')
  show "keeps_held E t w t (slab_take E a m w)"
    unfolding t using keeps_held_trans[OF keeps_held_memst stamp_keeps(2)[OF l]] .
  show "loose E avail spare t (slab_take E a m w) n a" using l by (simp add: t loose_def)
qed

lemma new_slab_spec:
  assumes con: "slab_contract E good avail spare" "bitmap_contract E good avail spare" and inv: "bi_inv E good avail spare t w"
    and l: "\<forall>a \<in> set (sl_objs E s). loose E avail spare t w n a"
  shows "\<exists>a m. sl_alloc E n (sl_init E n s (memst w)) = Some (a, m) \<and> bi_inv E good avail spare t (slab_take E a m w) \<and>
    loose E avail spare t (slab_take E a m w) n a \<and> keeps_held E t w t (slab_take E a m w)"
proof -
  let ?w = "w\<lparr>memst := sl_init E n s (memst w)\<rparr>"
  note N = bi_invD(3)[OF inv, of n]
  have "fresh_slab E avail spare n s (memst w)" using l by (auto simp: fresh_slab_def loose_def)
  from slab_contractD(5)[OF con(1) bi_invD(1)[OF inv] this]
  have ne: "sl_objs E s \<noteq> []" and m: "mem_to good avail spare n (memst w) (sl_init E n s (memst w)) (avail n (memst w) \<union> set (sl_objs E s)) (spare n (memst w))"
    by blast+
  have inv': "bi_inv E good avail spare t ?w"
    using node_invD(5,6)[OF N] l by (intro bi_inv_memst[OF inv m]) (auto simp: loose_def)
  have "avail n (memst ?w) \<noteq> {}" using m ne by (simp add: mem_to_def)
  then have "sl_alloc E n (memst ?w) \<noteq> None" using slab_contractD(1)[OF con(1) bi_invD(1)[OF inv']] by blast
  then obtain a m' where a: "sl_alloc E n (memst ?w) = Some (a, m')" by auto
  have e: "slab_take E a m' ?w = slab_take E a m' w" by (simp add: slab_take_def)
  from slab_take_spec[OF con inv' a] keeps_held_trans[OF keeps_held_memst] a show ?thesis
    unfolding e by (intro exI[of _ a] exI[of _ m']) auto
qed

text \<open>
  The outcome of an allocation: some items may have been evicted, none if \<open>X\<close> holds, and \<open>P\<close> holds of
  the remaining table.
\<close>

definition gained :: "'m mc_env \<Rightarrow> ('m \<Rightarrow> bool) \<Rightarrow> 'm objs \<Rightarrow> 'm objs \<Rightarrow> bool \<Rightarrow> (tbl \<Rightarrow> 'm bi_world \<Rightarrow> bool) \<Rightarrow> tbl \<Rightarrow> 'm bi_world \<Rightarrow> 'm bi_world \<Rightarrow> bool" where
  "gained E good avail spare X P t w w' \<longleftrightarrow> (\<exists>t'. bi_inv E good avail spare t' w' \<and> keeps_held E t w t' w' \<and>
     (\<forall>b. set (t' b) \<subseteq> set (t b) \<and> length (t' b) \<le> length (t b)) \<and> (X \<longrightarrow> t' = t) \<and> P t' w')"

lemma gainedI:
  "bi_inv E good avail spare t w' \<Longrightarrow> keeps_held E t w t w' \<Longrightarrow> P t w' \<Longrightarrow> gained E good avail spare X P t w w'"
  unfolding gained_def by blast

lemma gained_trans:
  assumes "gained E good avail spare X P t w w1" and "\<And>t1. bi_inv E good avail spare t1 w1 \<Longrightarrow> P t1 w1 \<Longrightarrow> keeps_held E t w t1 w1 \<Longrightarrow>
      (\<And>b. length (t1 b) \<le> length (t b)) \<Longrightarrow> gained E good avail spare X Q t1 w1 w2"
  shows "gained E good avail spare X Q t w w2"
proof -
  obtain t1 where t1: "bi_inv E good avail spare t1 w1" "keeps_held E t w t1 w1" "P t1 w1" "X \<longrightarrow> t1 = t"
      "\<And>b. set (t1 b) \<subseteq> set (t b) \<and> length (t1 b) \<le> length (t b)" using assms(1) unfolding gained_def by blast
  obtain t2 where t2: "bi_inv E good avail spare t2 w2" "keeps_held E t1 w1 t2 w2" "Q t2 w2" "X \<longrightarrow> t2 = t1"
      "\<And>b. set (t2 b) \<subseteq> set (t1 b) \<and> length (t2 b) \<le> length (t1 b)"
    using assms(2)[OF t1(1,3,2)] t1(5) unfolding gained_def by blast
  have "keeps_held E t w t2 w2" by (rule keeps_held_trans[OF t1(2) t2(2)])
  moreover have "set (t2 b) \<subseteq> set (t b) \<and> length (t2 b) \<le> length (t b)" for b using t1(5)[of b] t2(5)[of b] by (meson order_trans)
  ultimately show ?thesis unfolding gained_def using t1(4) t2(1,3,4) by blast
qed

lemma evicted_gained: "evicted E good avail spare t w w' \<Longrightarrow> gained E good avail spare False (\<lambda>_ _. True) t w w'"
  unfolding evicted_def gained_def by blast

definition page_loose :: "'m mc_env \<Rightarrow> 'm objs \<Rightarrow> 'm objs \<Rightarrow> nat \<Rightarrow> addr \<Rightarrow> tbl \<Rightarrow> 'm bi_world \<Rightarrow> bool" where
  "page_loose E avail spare n s t w \<longleftrightarrow> s \<noteq> NULL \<longrightarrow> (\<forall>a \<in> set (sl_objs E s). loose E avail spare t w n a)"

lemma page_loose_status [simp]: "page_loose E avail spare n s t (upd_status k f w) = page_loose E avail spare n s t w"
  by (simp add: page_loose_def loose_def)

lemma find_pages_spec:
  assumes con: "bitmap_contract E good avail spare" and inv: "bi_inv E good avail spare t w" and f: "find_pages E n 4 w = (s, w')"
  shows "gained E good avail spare X (page_loose E avail spare n s) t w w'"
proof -
  obtain i m where b: "bm_find E n 4 (memst w) = (i, m)" by (cases "bm_find E n 4 (memst w)")
  note F = page_find_spec[OF con inv b]
  show ?thesis
  proof (rule gainedI)
    show "bi_inv E good avail spare t w'" "keeps_held E t w t w'"
      using f F(1) keeps_held_memst[of E t w m] by (auto simp: find_pages_def b Let_def split: if_splits)
    show "page_loose E avail spare n s t w'"
      using f F(2)[OF _ refl] by (auto simp: find_pages_def b Let_def page_loose_def loose_def split: if_splits)
  qed
qed

lemma bi_alloc_pages_eq:
  "bi_alloc_pages E fuel MC_SLAB_AOC_SZ n w =
     bindE (if mem_tight n w then bindE (mem_smr_reclaim E n w) (\<lambda>(_, w). Inr w) else Inr w) (\<lambda>w.
     if mem_tight n w \<and> bi_loading w then Inr (NULL, w)
     else bindE (if mem_tight n w then bindE (mc_mem_evict E fuel n 1 w) (\<lambda>(_, w). Inr w) else Inr w) (\<lambda>w. Inr (find_pages E n 4 w)))"
  by (simp add: bi_alloc_pages_def cong: if_cong)

lemma reclaim_stage:
  assumes con: "slab_contract E good avail spare" "bitmap_contract E good avail spare" and n: "n < MC_SERVERS"
    and inv: "bi_inv E good avail spare t w"
  shows "\<exists>w1. (if c then bindE (mem_smr_reclaim E n w) (\<lambda>(_, w). Inr w) else Inr w) = Inr w1 \<and>
    bi_inv E good avail spare t w1 \<and> keeps_held E t w t w1 \<and> mcq_len (qsc_list w1 n) \<le> mcq_len (qsc_list w n)"
  using mem_smr_reclaim_keeps[OF con n inv] inv keeps_held_refl[of E t w] by (cases c) auto

lemma find_pages_ring [simp]: "qsc_list (snd (find_pages E n k w)) = qsc_list w"
  by (simp add: find_pages_def Let_def case_prod_beta)

lemma bi_alloc_pages_spec:
  assumes con: "slab_contract E good avail spare" "bitmap_contract E good avail spare" and n: "n < MC_SERVERS"
    and inv: "bi_inv E good avail spare t w" and g: "after_grace w" and len: "\<And>b. length (t b) < fuel"
  shows "runs (bi_alloc_pages E fuel MC_SLAB_AOC_SZ n w) (\<lambda>(s, w'). gained E good avail spare (bi_loading w) (page_loose E avail spare n s) t w w')"
    "bi_loading w \<Longrightarrow> \<exists>s w'. bi_alloc_pages E fuel MC_SLAB_AOC_SZ n w = Inr (s, w') \<and> mcq_len (qsc_list w' n) \<le> mcq_len (qsc_list w n)"
proof -
  obtain w1 where w1: "(if mem_tight n w then bindE (mem_smr_reclaim E n w) (\<lambda>(_, w). Inr w) else Inr w) = Inr w1"
      "bi_inv E good avail spare t w1" "keeps_held E t w t w1" "mcq_len (qsc_list w1 n) \<le> mcq_len (qsc_list w n)"
    using reclaim_stage[OF con n inv] by blast
  have l1: "bi_loading w1 = bi_loading w" and g1: "after_grace w1" using w1(3) g by (simp_all add: keeps_held_def after_grace_def)
  have run: "bi_alloc_pages E fuel MC_SLAB_AOC_SZ n w = (if mem_tight n w1 \<and> bi_loading w1 then Inr (NULL, w1)
     else bindE (if mem_tight n w1 then bindE (mc_mem_evict E fuel n 1 w1) (\<lambda>(_, w). Inr w) else Inr w1) (\<lambda>w. Inr (find_pages E n 4 w)))"
    unfolding bi_alloc_pages_eq w1(1) by simp
  have gw1: "gained E good avail spare X (\<lambda>_ _. True) t w w1" for X using w1(2,3) by (rule gainedI) simp
  have fin: "gained E good avail spare X (page_loose E avail spare n s) t w w3"
    if "gained E good avail spare X (\<lambda>_ _. True) t w w2" "find_pages E n 4 w2 = (s, w3)" for X w2 w3 s
    by (rule gained_trans[OF that(1)]) (rule find_pages_spec[OF con(2) _ that(2)])
  show "bi_loading w \<Longrightarrow> \<exists>s w'. bi_alloc_pages E fuel MC_SLAB_AOC_SZ n w = Inr (s, w') \<and> mcq_len (qsc_list w' n) \<le> mcq_len (qsc_list w n)"
    using run l1 w1(4) find_pages_ring[of E n 4 w1] by (cases "mem_tight n w1"; cases "find_pages E n 4 w1") auto
  show "runs (bi_alloc_pages E fuel MC_SLAB_AOC_SZ n w) (\<lambda>(s, w'). gained E good avail spare (bi_loading w) (page_loose E avail spare n s) t w w')"
  proof (cases "mem_tight n w1")
    case False
    then show ?thesis using run fin[OF gw1] by (cases "find_pages E n 4 w1") simp
  next
    case tight: True
    show ?thesis
    proof (cases "bi_loading w")
      case True
      have "gained E good avail spare True (page_loose E avail spare n NULL) t w w1"
        using w1(2,3) by (rule gainedI) (simp add: page_loose_def)
      then show ?thesis using run tight l1 True by simp
    next
      case False
      have e: "bi_alloc_pages E fuel MC_SLAB_AOC_SZ n w = bindE (mc_mem_evict E fuel n 1 w1) (\<lambda>(_, w). Inr (find_pages E n 4 w))"
        using run tight l1 False by (cases "mc_mem_evict E fuel n 1 w1") auto
      show ?thesis
        unfolding e
      proof (rule runs_bind[OF mc_mem_evict_spec[OF con n w1(2) g1 len]])
        fix x assume "case x of (i :: nat, w2) \<Rightarrow> evicted E good avail spare t w1 w2"
        then obtain i w2 where x: "x = (i, w2)" and ev: "evicted E good avail spare t w1 w2" by (cases x) auto
        have "gained E good avail spare False (\<lambda>_ _. True) t w w2"
          using evicted_step[OF w1(2,3) _ ev] by (intro evicted_gained) simp
        from fin[OF this] show "runs (case x of (_, w) \<Rightarrow> Inr (find_pages E n 4 w))
            (\<lambda>(s, w'). gained E good avail spare (bi_loading w) (page_loose E avail spare n s) t w w')"
          using False x by (cases "find_pages E n 4 w2") simp
      qed
    qed
  qed
qed

definition obj_loose :: "'m mc_env \<Rightarrow> 'm objs \<Rightarrow> 'm objs \<Rightarrow> nat \<Rightarrow> addr \<Rightarrow> tbl \<Rightarrow> 'm bi_world \<Rightarrow> bool" where
  "obj_loose E avail spare n a t w \<longleftrightarrow> a \<noteq> NULL \<longrightarrow> loose E avail spare t w n a"

lemma take_gained:
  assumes "bi_inv E good avail spare t (slab_take E a m w)" "loose E avail spare t (slab_take E a m w) n a"
    "keeps_held E t w t (slab_take E a m w)"
  shows "gained E good avail spare X (obj_loose E avail spare n a) t w (slab_take E a m w)"
  using assms by (intro gainedI) (auto simp: obj_loose_def)

lemma take_new_gained:
  assumes con: "slab_contract E good avail spare" "bitmap_contract E good avail spare"
    and G: "gained E good avail spare X (page_loose E avail spare n s) t w w1" and s: "s \<noteq> NULL"
  shows "\<exists>a m. sl_alloc E n (sl_init E n s (memst w1)) = Some (a, m) \<and>
    gained E good avail spare X (obj_loose E avail spare n a) t w (slab_take E a m w1)"
proof -
  obtain t0 where "bi_inv E good avail spare t0 w1" "page_loose E avail spare n s t0 w1" using G unfolding gained_def by blast
  then obtain a m where a: "sl_alloc E n (sl_init E n s (memst w1)) = Some (a, m)"
    using new_slab_spec[OF con, of t0 w1 s n] s by (auto simp: page_loose_def)
  have "gained E good avail spare X (obj_loose E avail spare n a) t w (slab_take E a m w1)"
  proof (rule gained_trans[OF G])
    fix t1 assume i: "bi_inv E good avail spare t1 w1" and l: "page_loose E avail spare n s t1 w1"
    from new_slab_spec[OF con i, of s n] l s a
    show "gained E good avail spare X (obj_loose E avail spare n a) t1 w1 (slab_take E a m w1)"
      by (intro take_gained) (auto simp: page_loose_def)
  qed
  with a show ?thesis by blast
qed

lemma slab_alloc_spec:
  assumes con: "slab_contract E good avail spare" "bitmap_contract E good avail spare" and n: "n < MC_SERVERS"
    and inv: "bi_inv E good avail spare t w" and g: "after_grace w" and len: "\<And>b. length (t b) < fuel"
  defines "X \<equiv> bi_loading w \<or> avail n (memst w) \<noteq> {}"
  shows "runs (slab_alloc E fuel n w) (\<lambda>(a, w'). gained E good avail spare X (obj_loose E avail spare n a) t w w')"
    "X \<Longrightarrow> \<exists>a w'. slab_alloc E fuel n w = Inr (a, w') \<and> mcq_len (qsc_list w' n) \<le> mcq_len (qsc_list w n)"
    "avail n (memst w) \<noteq> {} \<Longrightarrow> \<exists>a w'. slab_alloc E fuel n w = Inr (a, w') \<and> a \<noteq> NULL"
proof -
  note S = slab_contractD(1)[OF con(1) bi_invD(1)[OF inv], of n] and P = bi_alloc_pages_spec[OF con n inv g len]
  show "avail n (memst w) \<noteq> {} \<Longrightarrow> \<exists>a w'. slab_alloc E fuel n w = Inr (a, w') \<and> a \<noteq> NULL"
    using S slab_take_spec(2)[OF con inv] by (auto simp: slab_alloc_def loose_def)
  show "X \<Longrightarrow> \<exists>a w'. slab_alloc E fuel n w = Inr (a, w') \<and> mcq_len (qsc_list w' n) \<le> mcq_len (qsc_list w n)"
  proof (cases "sl_alloc E n (memst w)")
    case None
    assume X
    with None S have l: "bi_loading w" by (simp add: X_def)
    obtain s w1 where w1: "bi_alloc_pages E fuel MC_SLAB_AOC_SZ n w = Inr (s, w1)" "mcq_len (qsc_list w1 n) \<le> mcq_len (qsc_list w n)"
      using P(2)[OF l] by blast
    have "gained E good avail spare True (page_loose E avail spare n s) t w w1" using P(1) l w1(1) by simp
    then show ?thesis using w1 None take_new_gained[OF con] by (cases "s = NULL") (fastforce simp: slab_alloc_def slab_take_def)+
  qed (auto simp: slab_alloc_def slab_take_def)
  show "runs (slab_alloc E fuel n w) (\<lambda>(a, w'). gained E good avail spare X (obj_loose E avail spare n a) t w w')"
  proof (cases "sl_alloc E n (memst w)")
    case (Some am)
    obtain a m where am: "am = (a, m)" by (cases am)
    show ?thesis using take_gained[OF slab_take_spec[OF con inv Some[unfolded am]]] Some am by (simp add: slab_alloc_def)
  next
    case None
    then have X: "X = bi_loading w" using S by (simp add: X_def)
    show ?thesis
      unfolding slab_alloc_def None option.case X
    proof (rule runs_bind[OF P(1)])
      fix x assume "case x of (s, w1) \<Rightarrow> gained E good avail spare (bi_loading w) (page_loose E avail spare n s) t w w1"
      then obtain s w1 where x: "x = (s, w1)" and G: "gained E good avail spare (bi_loading w) (page_loose E avail spare n s) t w w1" by (cases x) auto
      show "runs (case x of (s, w) \<Rightarrow> if s = NULL then Inr (NULL, w) else case sl_alloc E n (sl_init E n s (memst w)) of
              Some (a, m) \<Rightarrow> Inr (a, slab_take E a m w) | None \<Rightarrow> Inl Assert_fail)
          (\<lambda>(a, w'). gained E good avail spare (bi_loading w) (obj_loose E avail spare n a) t w w')"
        using take_new_gained[OF con G] G x by (cases "s = NULL") (auto simp: gained_def obj_loose_def)
    qed
  qed
qed

lemma gained_status [simp]:
  "gained E good avail spare X P t (upd_status n f w) w' = gained E good avail spare X P t w w'"
  by (simp add: gained_def)

lemma gained_weaken: "gained E good avail spare X P t w w' \<Longrightarrow> (Y \<Longrightarrow> X) \<Longrightarrow> gained E good avail spare Y P t w w'"
  unfolding gained_def by blast

lemma after_grace_status [simp]: "after_grace (upd_status n f w) = after_grace w"
  by (simp add: after_grace_def)

lemma loose_status [simp]: "loose E avail spare t (upd_status k f w) n a = loose E avail spare t w n a"
  by (simp add: loose_def)

lemma item_size:
  assumes "length key = KEY_LENGTH"
  shows "snd (snd (item_make_header SIZEOF_ITEM ((length key + 1) mod 256) 0 (V_LENGTH + 2))) = MC_SLAB_OBJ_SZ"
proof -
  have "snd (snd (item_make_header SIZEOF_ITEM 17 0 (V_LENGTH + 2))) = MC_SLAB_OBJ_SZ" by code_simp
  then show ?thesis using assms by simp
qed

lemma parsec_mem_alloc_eq:
  "parsec_mem_alloc E fuel n MC_SLAB_OBJ_SZ w = slab_alloc E fuel n (upd_status n (\<lambda>p. p\<lparr>st_used := st_used p + of_nat (obj_mem E)\<rparr>) w)"
  by (simp add: parsec_mem_alloc_def)

definition new_item :: "'m mc_env \<Rightarrow> 'm objs \<Rightarrow> 'm objs \<Rightarrow> nat \<Rightarrow> u8 list \<Rightarrow> addr \<Rightarrow> tbl \<Rightarrow> 'm bi_world \<Rightarrow> bool" where
  "new_item E avail spare n key a t w \<longleftrightarrow> (a \<noteq> NULL \<longrightarrow> loose E avail spare t w n a \<and>
     item_key_bytes (items (tab w) a) = key \<and> nbytes (items (tab w) a) = V_LENGTH + 2)"

lemma items_inv_upd_unlinked:
  assumes inv: "items_inv E t st" and a: "a \<notin> linked t" and f: "slabs_clsid (f (items st a)) = 0" "it_flags (f (items st a)) = 0"
  shows "items_inv E t (upd_item a f st)"
proof -
  note I = items_invD[OF inv]
  have "store_inv t (upd_item a f st)"
    using table_inv_upd_unlinked[OF store_invD(1)[OF I(1)] a] store_invD(2)[OF I(1)] a I(2) unfolding store_inv_def by auto
  moreover have "x \<noteq> a" if "(k, x) \<in> set (t b)" for k x b using that a by (auto dest: linkedI)
  ultimately show ?thesis using I(2-5) f by (auto simp: items_inv_def)
qed

lemma loose_upd:
  assumes inv: "bi_inv E good avail spare t w" and l: "loose E avail spare t w n a"
    and f: "slabs_clsid (f (items (tab w) a)) = 0" "it_flags (f (items (tab w) a)) = 0"
  shows "bi_inv E good avail spare t (upd_it a f w)" "keeps_held E t w t (upd_it a f w)" "loose E avail spare t (upd_it a f w) n a"
proof -
  have a: "a \<notin> linked t" "\<not> held E t w a" using l by (auto simp: loose_def held_def)
  show "bi_inv E good avail spare t (upd_it a f w)"
    using inv items_inv_upd_unlinked[OF bi_invD(2)[OF inv] a(1), of f] f by (simp add: bi_inv_def)
  have "x \<noteq> a" if "held E t w x" for x using that a(2) by blast
  then show "keeps_held E t w t (upd_it a f w)" by (auto simp: keeps_held_def held_def same_bytes_def)
  show "loose E avail spare t (upd_it a f w) n a" using l by (simp add: loose_def)
qed

lemma init_item_gained:
  assumes G: "gained E good avail spare X (obj_loose E avail spare n a) t w w1" and a: "a \<noteq> NULL" and k: "length key = KEY_LENGTH"
  shows "slabs_clsid (items (tab w1) a) = 0"
    "gained E good avail spare X (new_item E avail spare n key a) t w (upd_it a (init_item key 0 (V_LENGTH + 2)) w1)"
proof -
  obtain t0 where "bi_inv E good avail spare t0 w1" using G unfolding gained_def by blast
  then show "slabs_clsid (items (tab w1) a) = 0" using items_invD(3) bi_invD(2) by blast
  show "gained E good avail spare X (new_item E avail spare n key a) t w (upd_it a (init_item key 0 (V_LENGTH + 2)) w1)"
  proof (rule gained_trans[OF G])
    fix t1 assume i: "bi_inv E good avail spare t1 w1" and l: "obj_loose E avail spare n a t1 w1"
    have l': "loose E avail spare t1 w1 n a" using l a by (simp add: obj_loose_def)
    note f = init_item_fields[of key 0 "V_LENGTH + 2" "items (tab w1) a"]
    note U = loose_upd[OF i l', of "init_item key 0 (V_LENGTH + 2)"]
    show "gained E good avail spare X (new_item E avail spare n key a) t1 w1 (upd_it a (init_item key 0 (V_LENGTH + 2)) w1)"
      using U f k by (intro gainedI) (simp_all add: new_item_def)
  qed
qed

text \<open>Both attempts at an object.\<close>

definition two_allocs :: "'m mc_env \<Rightarrow> nat \<Rightarrow> nat \<Rightarrow> 'm bi_world \<Rightarrow> (addr \<times> 'm bi_world) result" where
  "two_allocs E fuel n w = bindE (parsec_mem_alloc E fuel n MC_SLAB_OBJ_SZ w) (\<lambda>(it, w).
     if it = NULL then parsec_mem_alloc E fuel n MC_SLAB_OBJ_SZ w else Inr (it, w))"

lemma bi_item_alloc_eq:
  assumes "length key = KEY_LENGTH"
  shows "bi_item_alloc E fuel n key 0 (V_LENGTH + 2) w = bindE (two_allocs E fuel n w) (\<lambda>(it, w).
     if it = NULL then Inr (NULL, w)
     else bindE (assertE (slabs_clsid (items (tab w) it) = 0)) (\<lambda>_. Inr (it, upd_it it (init_item key 0 (V_LENGTH + 2)) w)))"
proof -
  obtain x y where h: "item_make_header SIZEOF_ITEM ((length key + 1) mod 256) 0 (V_LENGTH + 2) = (x, y, MC_SLAB_OBJ_SZ)"
    using item_size[OF assms] by (metis prod.collapse)
  show ?thesis
    unfolding bi_item_alloc_def h by (cases "parsec_mem_alloc E fuel n MC_SLAB_OBJ_SZ w") (auto simp: two_allocs_def)
qed

lemma two_allocs_spec:
  assumes con: "slab_contract E good avail spare" "bitmap_contract E good avail spare" and n: "n < MC_SERVERS"
    and inv: "bi_inv E good avail spare t w" and g: "after_grace w" and len: "\<And>b. length (t b) < fuel"
  defines "X \<equiv> bi_loading w \<or> avail n (memst w) \<noteq> {}"
  shows "runs (two_allocs E fuel n w) (\<lambda>(a, w'). gained E good avail spare X (obj_loose E avail spare n a) t w w')"
    "X \<Longrightarrow> \<exists>a w'. two_allocs E fuel n w = Inr (a, w') \<and> mcq_len (qsc_list w' n) \<le> mcq_len (qsc_list w n)"
    "avail n (memst w) \<noteq> {} \<Longrightarrow> \<exists>a w'. two_allocs E fuel n w = Inr (a, w') \<and> a \<noteq> NULL"
proof -
  let ?u = "upd_status n (\<lambda>p. p\<lparr>st_used := st_used p + of_nat (obj_mem E)\<rparr>)"
  have S: "bi_inv E good avail spare t' v \<Longrightarrow> bi_inv E good avail spare t' (?u v)" for t' v by simp
  note A = slab_alloc_spec[OF con n S, of _ _ fuel, unfolded after_grace_status gained_status world_upd_status]
  have snd_ok: "runs (slab_alloc E fuel n (?u w1)) (\<lambda>(a, w'). gained E good avail spare X (obj_loose E avail spare n a) t w w')"
      "X \<Longrightarrow> \<exists>a w'. slab_alloc E fuel n (?u w1) = Inr (a, w') \<and> mcq_len (qsc_list w' n) \<le> mcq_len (qsc_list w1 n)"
    if w1: "slab_alloc E fuel n (?u w) = Inr (NULL, w1)" for w1
  proof -
    have G: "gained E good avail spare X (obj_loose E avail spare n NULL) t w w1" using A(1)[OF inv g len] w1 by (simp add: X_def)
    have e: "avail n (memst w) = {}" using A(3)[OF inv g len] w1 by fastforce
    obtain t1 where t1: "bi_inv E good avail spare t1 w1" "keeps_held E t w t1 w1" "\<And>b. length (t1 b) \<le> length (t b)"
      using G unfolding gained_def by blast
    have g1: "after_grace w1" and l1: "bi_loading w1 = bi_loading w" using t1(2) g by (simp_all add: keeps_held_def after_grace_def)
    have ln1: "length (t1 b) < fuel" for b using t1(3)[of b] len[of b] by linarith
    show "X \<Longrightarrow> \<exists>a w'. slab_alloc E fuel n (?u w1) = Inr (a, w') \<and> mcq_len (qsc_list w' n) \<le> mcq_len (qsc_list w1 n)"
      using A(2)[OF t1(1) g1 ln1] l1 e by (simp add: X_def)
    show "runs (slab_alloc E fuel n (?u w1)) (\<lambda>(a, w'). gained E good avail spare X (obj_loose E avail spare n a) t w w')"
    proof (cases "slab_alloc E fuel n (?u w1)")
      case (Inl err)
      then show ?thesis using A(1)[OF t1(1) g1 ln1] by simp
    next
      case (Inr aw)
      obtain a w2 where aw: "aw = (a, w2)" by (cases aw)
      have "gained E good avail spare X (obj_loose E avail spare n a) t w w2"
      proof (rule gained_trans[OF G])
        fix t2 assume t2: "bi_inv E good avail spare t2 w1" "\<And>b. length (t2 b) \<le> length (t b)"
        have "length (t2 b) < fuel" for b using t2(2)[of b] len[of b] by linarith
        from A(1)[OF t2(1) g1 this] Inr aw
        have "gained E good avail spare (bi_loading w1 \<or> avail n (memst w1) \<noteq> {}) (obj_loose E avail spare n a) t2 w1 w2" by simp
        then show "gained E good avail spare X (obj_loose E avail spare n a) t2 w1 w2"
          by (rule gained_weaken) (use l1 e in \<open>simp add: X_def\<close>)
      qed
      then show ?thesis using Inr aw by simp
    qed
  qed
  show "avail n (memst w) \<noteq> {} \<Longrightarrow> \<exists>a w'. two_allocs E fuel n w = Inr (a, w') \<and> a \<noteq> NULL"
    using A(3)[OF inv g len] by (auto simp: two_allocs_def parsec_mem_alloc_eq)
  show "X \<Longrightarrow> \<exists>a w'. two_allocs E fuel n w = Inr (a, w') \<and> mcq_len (qsc_list w' n) \<le> mcq_len (qsc_list w n)"
    using A(2)[OF inv g len] snd_ok(2) by (fastforce simp: two_allocs_def parsec_mem_alloc_eq X_def)
  show "runs (two_allocs E fuel n w) (\<lambda>(a, w'). gained E good avail spare X (obj_loose E avail spare n a) t w w')"
    using A(1)[OF inv g len] snd_ok(1)
    by (cases "slab_alloc E fuel n (?u w)") (auto simp: two_allocs_def parsec_mem_alloc_eq X_def)
qed

lemma bi_item_alloc_spec:
  assumes con: "slab_contract E good avail spare" "bitmap_contract E good avail spare" and n: "n < MC_SERVERS"
    and inv: "bi_inv E good avail spare t w" and g: "after_grace w" and len: "\<And>b. length (t b) < fuel" and k: "length key = KEY_LENGTH"
  defines "X \<equiv> bi_loading w \<or> avail n (memst w) \<noteq> {}"
  shows "runs (bi_item_alloc E fuel n key 0 (V_LENGTH + 2) w) (\<lambda>(a, w'). gained E good avail spare X (new_item E avail spare n key a) t w w')"
    "X \<Longrightarrow> \<exists>a w'. bi_item_alloc E fuel n key 0 (V_LENGTH + 2) w = Inr (a, w') \<and> mcq_len (qsc_list w' n) \<le> mcq_len (qsc_list w n)"
    "avail n (memst w) \<noteq> {} \<Longrightarrow> \<exists>a w'. bi_item_alloc E fuel n key 0 (V_LENGTH + 2) w = Inr (a, w') \<and> a \<noteq> NULL"
proof -
  note T = two_allocs_spec[OF con n inv g len, folded X_def]
  have fin: "bi_item_alloc E fuel n key 0 (V_LENGTH + 2) w = Inr (a, if a = NULL then w1 else upd_it a (init_item key 0 (V_LENGTH + 2)) w1) \<and>
      gained E good avail spare X (new_item E avail spare n key a) t w (if a = NULL then w1 else upd_it a (init_item key 0 (V_LENGTH + 2)) w1)"
    if "two_allocs E fuel n w = Inr (a, w1)" for a w1
  proof -
    have G: "gained E good avail spare X (obj_loose E avail spare n a) t w w1" using T(1) that by simp
    show ?thesis
    proof (cases "a = NULL")
      case True
      then show ?thesis using G that bi_item_alloc_eq[OF k, of E fuel n w] by (auto simp: gained_def new_item_def)
    next
      case False
      then show ?thesis using init_item_gained[OF G False k] that bi_item_alloc_eq[OF k, of E fuel n w] by simp
    qed
  qed
  show "runs (bi_item_alloc E fuel n key 0 (V_LENGTH + 2) w) (\<lambda>(a, w'). gained E good avail spare X (new_item E avail spare n key a) t w w')"
  proof (cases "two_allocs E fuel n w")
    case (Inl e)
    then show ?thesis using T(1) bi_item_alloc_eq[OF k, of E fuel n w] by simp
  next
    case (Inr aw)
    then show ?thesis using fin[of "fst aw" "snd aw"] by simp
  qed
  show "X \<Longrightarrow> \<exists>a w'. bi_item_alloc E fuel n key 0 (V_LENGTH + 2) w = Inr (a, w') \<and> mcq_len (qsc_list w' n) \<le> mcq_len (qsc_list w n)"
    using T(2) fin by fastforce
  show "avail n (memst w) \<noteq> {} \<Longrightarrow> \<exists>a w'. bi_item_alloc E fuel n key 0 (V_LENGTH + 2) w = Inr (a, w') \<and> a \<noteq> NULL"
    using T(3) fin by fastforce
qed

section \<open>Replacing an item in its chain\<close>

definition swap_in :: "u8 list \<Rightarrow> addr \<Rightarrow> (u8 list \<times> addr) list \<Rightarrow> (u8 list \<times> addr) list" where
  "swap_in k a = map (\<lambda>(k', x). (k', if k' = k then a else x))"

definition tbl_swap :: "nat \<times> u8 list \<Rightarrow> addr \<Rightarrow> tbl \<Rightarrow> tbl" where
  "tbl_swap bk a t = t(fst bk := swap_in (snd bk) a (t (fst bk)))"

lemma fst_swap_in [simp]: "map fst (swap_in k a xs) = map fst xs" "length (swap_in k a xs) = length xs"
  by (auto simp: swap_in_def)

lemma swap_in_other: "k \<notin> fst ` set xs \<Longrightarrow> swap_in k a xs = xs"
  by (induction xs) (auto simp: swap_in_def)

lemma map_of_swap: "map_of (swap_in k a xs) k' = (if k' = k then map_option (\<lambda>_. a) (map_of xs k) else map_of xs k')"
  by (induction xs) (auto simp: swap_in_def)

lemma tbl_map_swap:
  assumes "tbl_map t bk \<noteq> None"
  shows "tbl_map (tbl_swap bk a t) = (tbl_map t)(bk \<mapsto> a)"
  using assms by (cases bk) (auto simp: tbl_map_def tbl_swap_def map_of_swap fun_eq_iff)

lemma swap_split:
  assumes "t b = xs @ (k, x) # ys" and "distinct (map fst (t b))"
  shows "tbl_swap (b, k) a t b = xs @ (k, a) # ys"
proof -
  have "k \<notin> fst ` set xs" "k \<notin> fst ` set ys" using assms by auto
  then show ?thesis using swap_in_other[of k xs a] swap_in_other[of k ys a] by (simp add: tbl_swap_def assms(1) swap_in_def)
qed

lemma set_tbl_swap:
  assumes inv: "table_inv t st" and f: "tbl_map t (b0, k0) = Some x"
  shows "(k, y) \<in> set (tbl_swap (b0, k0) a t b) \<longleftrightarrow> ((k, y) \<in> set (t b) \<and> y \<noteq> x) \<or> (b = b0 \<and> k = k0 \<and> y = a)"
proof -
  have x: "(k0, x) \<in> set (t b0)" by (rule found_linked(1)[OF inv f])
  have only: "b' = b0 \<and> k' = k0" if "(k', x) \<in> set (t b')" for b' k'
    using tbl_map_inj[OF inv f, of "(b', k')"] linked_tbl_map[OF inv that] by simp
  have uniq: "y' = x" if "(k0, y') \<in> set (t b0)" for y' using linked_tbl_map[OF inv that] f by simp
  have sw: "(k, y) \<in> set (swap_in k0 a zs) \<longleftrightarrow> (k \<noteq> k0 \<and> (k, y) \<in> set zs) \<or> (k = k0 \<and> y = a \<and> k0 \<in> fst ` set zs)" for zs
    by (induction zs) (auto simp: swap_in_def)
  show ?thesis
  proof (cases "b = b0")
    case True
    have "k0 \<in> fst ` set (t b0)" using x by force
    moreover have "(k, y) \<in> set (t b0) \<Longrightarrow> k \<noteq> k0 \<longleftrightarrow> y \<noteq> x" using only[of k b0] uniq[of y] by blast
    ultimately show ?thesis using True by (auto simp: tbl_swap_def sw)
  next
    case False
    then have "(k, y) \<in> set (t b) \<Longrightarrow> y \<noteq> x" using only by blast
    then show ?thesis using False by (auto simp: tbl_swap_def)
  qed
qed

lemma linked_swap:
  assumes inv: "table_inv t st" and f: "tbl_map t (b0, k0) = Some x"
  shows "linked (tbl_swap (b0, k0) a t) = insert a (linked t - {x})"
  unfolding linked_alt set_tbl_swap[OF inv f] by auto

lemma chain_swap:
  assumes "chain st a (xs @ x # ys)" and "distinct (xs @ x # ys)" and "y \<notin> set (xs @ ys)" "y \<noteq> NULL"
    and "h_next (items st y) = h_next (items st x)" and "xs \<noteq> []"
  shows "chain (upd_item (last xs) (\<lambda>i. i\<lparr>h_next := y\<rparr>) st) a (xs @ y # ys)"
  using assms
proof (induction xs arbitrary: a)
  case (Cons z zs)
  let ?st = "upd_item (last (z # zs)) (\<lambda>i. i\<lparr>h_next := y\<rparr>) st"
  show ?case
  proof (cases "zs = []")
    case True
    with Cons.prems have c: "chain st (h_next (items st x)) ys" "z \<notin> set ys" "y \<noteq> z" by auto
    have "chain ?st (h_next (items st x)) ys = chain st (h_next (items st x)) ys"
      using c(2) True by (intro chain_cong) auto
    with c True Cons.prems show ?thesis by simp
  next
    case False
    then have "chain ?st (h_next (items st z)) (zs @ y # ys)" "last zs \<noteq> z"
      using Cons.IH[of "h_next (items st z)"] Cons.prems by (auto dest: last_in_set)
    with False Cons.prems show ?thesis by simp
  qed
qed simp

lemma table_inv_swap:
  assumes inv: "table_inv t st" and found: "tbl_map t (b, key) = Some old" and new: "new \<notin> linked t" "item_key_bytes (items st new) = key"
    and ch: "\<And>c. chain st' (htable st' c) (map snd (tbl_swap (b, key) new t c))"
    and it: "\<And>x. \<exists>n. items st' x = items st x\<lparr>h_next := n\<rparr>"
  shows "table_inv (tbl_swap (b, key) new t) st'"
proof -
  have k: "item_key_bytes (items st' x) = item_key_bytes (items st x)" for x using it[of x] by auto
  note S = set_tbl_swap[OF inv found, of _ _ new]
  have ok: "tbl_ok (tbl_swap (b, key) new t)" using table_invD(1)[OF inv] by (auto simp: tbl_ok_def tbl_swap_def)
  have keys: "item_key_bytes (items st' a) = k'" if "(k', a) \<in> set (tbl_swap (b, key) new t c)" for c k' a
    using that table_invD(3)[OF inv, of k' a c] new(2) unfolding S k by blast
  have "snd ` set (tbl_swap (b, key) new t c) \<inter> snd ` set (tbl_swap (b, key) new t d) = {}" if cd: "c \<noteq> d" for c d
  proof (rule equals0I)
    fix y assume "y \<in> snd ` set (tbl_swap (b, key) new t c) \<inter> snd ` set (tbl_swap (b, key) new t d)"
    then obtain k1 k2 where y: "(k1, y) \<in> set (tbl_swap (b, key) new t c)" "(k2, y) \<in> set (tbl_swap (b, key) new t d)" by auto
    have "y \<noteq> new" if "(k', y) \<in> set (t e)" for k' e using that new(1) linkedI by blast
    with y cd have "(k1, y) \<in> set (t c)" "(k2, y) \<in> set (t d)" unfolding S by blast+
    then show False using table_invD(4)[OF inv, of y c d] cd by (metis image_eqI snd_conv)
  qed
  with ok ch keys show ?thesis unfolding table_inv_def by blast
qed

text \<open>The chains after the link in front of \<open>old\<close> has been swung to \<open>new\<close>.\<close>

definition link_before :: "nat \<Rightarrow> (u8 list \<times> addr) list \<Rightarrow> link" where
  "link_before b xs = (if xs = [] then Head b else Chain (snd (last xs)))"

definition swing :: "nat \<Rightarrow> (u8 list \<times> addr) list \<Rightarrow> addr \<Rightarrow> addr \<Rightarrow> mc_store \<Rightarrow> mc_store" where
  "swing b xs old new st = link_set (link_before b xs) new (upd_item new (\<lambda>i. i\<lparr>h_next := h_next (items st old)\<rparr>) st)"

lemma find_link:
  assumes inv: "table_inv t st" and len: "length (t (bucket hv)) < fuel" and split: "t (bucket hv) = xs @ (key, old) # ys"
  shows "hashitem_before fuel key hv st = Inr (link_before (bucket hv) xs)" "link_get (link_before (bucket hv) xs) st = old" "old \<noteq> NULL"
proof -
  let ?b = "bucket hv"
  have dk: "distinct (map fst (t ?b))" using table_invD(1)[OF inv] by (simp add: tbl_ok_def)
  show "hashitem_before fuel key hv st = Inr (link_before (bucket hv) xs)"
    unfolding hashitem_before_def link_before_def
    using table_invD(2)[OF inv, of ?b] dk
    by (intro before_loop_spec[OF _ len table_invD(3)[OF inv, where b = ?b] split]) (auto simp: split)
  have c: "chain st (htable st ?b) (map snd xs @ old # map snd ys)" using table_invD(2)[OF inv, of ?b] by (simp add: split)
  show "link_get (link_before (bucket hv) xs) st = old" "old \<noteq> NULL"
    using chain_last[OF c] chain_mid_not_null[OF c] c by (auto simp: link_before_def last_map)
qed

lemma swing_items: "\<exists>n. items (swing b xs old new st) x = items st x\<lparr>h_next := n\<rparr>"
  by (cases "xs = []") (auto simp: swing_def link_before_def intro: exI[of _ "h_next (items st x)"])

lemma swing_chains:
  assumes inv: "table_inv t st" and split: "t b = xs @ (key, old) # ys" and new: "new \<notin> linked t" "new \<noteq> NULL"
  shows "chain (swing b xs old new st) (htable (swing b xs old new st) e) (map snd (tbl_swap (b, key) new t e))"
proof -
  let ?st1 = "upd_item new (\<lambda>i. i\<lparr>h_next := h_next (items st old)\<rparr>) st" and ?st = "swing b xs old new st"
  have dk: "distinct (map fst (t b))" using table_invD(1)[OF inv] by (simp add: tbl_ok_def)
  note swap = swap_split[of t b xs key old ys new, OF split dk]
  have no: "new \<notin> set (map snd (t e))" for e using new(1) by (auto simp: linked_def)
  have c1: "chain ?st1 x (map snd (t e)) = chain st x (map snd (t e))" for x e using no[of e] by (intro chain_cong) auto
  show ?thesis
  proof (cases "e = b")
    case True
    have c': "chain ?st1 (htable st b) (map snd xs @ old # map snd ys)"
      using c1[of "htable st b" b] table_invD(2)[OF inv, of b] by (simp add: split)
    have d: "distinct (map snd xs @ old # map snd ys)" using distinct_addrs[OF inv, of b] by (simp add: split)
    have n: "new \<notin> set (map snd xs @ map snd ys)" "h_next (items ?st1 new) = h_next (items ?st1 old)"
      using no[of b] by (auto simp: split)
    show ?thesis
      using chain_swap[OF c' d n(1) new(2) n(2)] c' new(2) n(2) True swap
      by (cases "xs = []") (simp_all add: swing_def link_before_def last_map)
  next
    case False
    have "snd (last xs) \<notin> set (map snd (t e))" if "xs \<noteq> []"
      using that table_invD(4)[OF inv, of "snd (last xs)" e b] False by (auto simp: split)
    then have "h_next (items ?st a) = h_next (items ?st1 a)" if "a \<in> set (map snd (t e))" for a
      using that by (cases "xs = []"; cases "a = snd (last xs)") (auto simp: swing_def link_before_def)
    then have "chain ?st (htable st e) (map snd (t e))" using chain_cong[of "map snd (t e)" ?st ?st1] c1 table_invD(2)[OF inv] by blast
    moreover have "htable ?st e = htable st e" "tbl_swap (b, key) new t e = t e"
      using False by (simp_all add: tbl_swap_def swing_def link_before_def)
    ultimately show ?thesis by (simp only:)
  qed
qed

lemma assoc_replace_spec:
  assumes inv: "table_inv t st" and len: "length (t (bucket hv)) < fuel" and found: "tbl_map t (bucket hv, key) = Some old"
    and new: "new \<notin> linked t" "new \<noteq> NULL" "item_key_bytes (items st new) = key"
  shows "\<exists>st'. assoc_replace fuel old new hv st = Inr st' \<and> table_inv (tbl_swap (bucket hv, key) new t) st' \<and> pool st' = pool st \<and>
    (\<forall>x. \<exists>n. items st' x = items st x\<lparr>h_next := n\<rparr>)"
proof -
  obtain xs ys where split: "t (bucket hv) = xs @ (key, old) # ys" using found_linked(1)[OF inv found] by (meson split_list)
  have key: "item_key_bytes (items st old) = key" using table_invD(3)[OF inv found_linked(1)[OF inv found]] .
  let ?st = "swing (bucket hv) xs old new st"
  have "assoc_replace fuel old new hv st = Inr ?st"
    using find_link[OF inv len split] by (simp add: assoc_replace_def key swing_def)
  moreover have "table_inv (tbl_swap (bucket hv, key) new t) ?st"
    by (rule table_inv_swap[OF inv found new(1,3) swing_chains[OF inv split new(1,2)] swing_items])
  moreover have "pool ?st = pool st" by (simp add: swing_def link_before_def)
  ultimately show ?thesis using swing_items by blast
qed

section \<open>Setting a key\<close>

lemma hv2node_bucket: "bucket hv = bucket hv' \<Longrightarrow> mc_hv2node hv = mc_hv2node hv'"
  unfolding bucket_def word_unat_eq_iff[symmetric] by (simp only: mc_hv2node_def)

text \<open>Linking a loose object keeps the four sets of every node disjoint.\<close>

lemma bi_inv_link:
  assumes con: "bitmap_contract E good avail spare" and inv: "bi_inv E good avail spare t w" and l: "loose E avail spare t w n a"
    and i: "items_inv E t' st" and sub: "linked t' \<subseteq> insert a (linked t)"
  shows "bi_inv E good avail spare t' (w\<lparr>tab := st\<rparr>)"
proof -
  have "node_inv E avail spare (linked t') k (qsc_list w k) (memst w)" for k
  proof -
    note N = bi_invD(3)[OF inv, of k]
    have "a \<notin> set (ring_of k w)" "a \<notin> avail k (memst w)" "a \<notin> spare k (memst w)"
      using l node_invD(3)[OF N] bitmap_contractD(1)[OF con bi_invD(1)[OF inv], of a k] by (cases "k = n"; auto simp: loose_def)+
    then show ?thesis using N sub unfolding node_inv_def by blast
  qed
  then show ?thesis using inv i by (simp add: bi_inv_def)
qed

lemma bi_item_link_eq: "mc_hv2node hv = n \<Longrightarrow> bi_item_link n a hv st = do_item_link a hv st"
  by (simp add: bi_item_link_def bi_assoc_insert_def do_item_link_def assoc_insert_def Let_def)

lemma bi_item_link_spec:
  assumes con: "bitmap_contract E good avail spare" and inv: "bi_inv E good avail spare t w" and l: "loose E avail spare t w n a"
    and hv: "mc_hv2node hv = n" "it_hv (items (tab w) a) = hv" and k: "item_key_bytes (items (tab w) a) = key"
    and none: "tbl_map t (bucket hv, key) = None"
  shows "\<exists>st. bi_item_link n a hv (tab w) = Inr st \<and> bi_inv E good avail spare (tbl_put (bucket hv, key) a t) (w\<lparr>tab := st\<rparr>) \<and>
    keeps_held E t w (tbl_put (bucket hv, key) a t) (w\<lparr>tab := st\<rparr>) \<and> same_bytes (items (tab w) a) (items st a)"
proof -
  let ?t = "tbl_put (bucket hv, key) a t"
  note I = items_invD[OF bi_invD(2)[OF inv]]
  have a: "a \<notin> linked t" "a \<noteq> NULL" "obj_core E a = n" using l by (auto simp: loose_def)
  have fl: "it_flags (items (tab w) a) = 0" using I(4)[OF a(1)] .
  obtain st h where st: "do_item_link a hv (tab w) = Inr st" "store_inv ?t st" "pool st = []"
      "items st = (items (tab w))(a := items (tab w) a\<lparr>it_flags := ITEM_LINKED, h_next := h\<rparr>)"
    using do_item_link_spec[OF I(1) a(1) _ a(2) fl, of hv] none I(2) by (auto simp: k)
  have "items_inv E ?t st"
    using st(2-4) I(3-5) hv a by (auto simp: items_inv_def linked_put set_tbl_put fun_upd_apply dest: linkedI)
  then have inv': "bi_inv E good avail spare ?t (w\<lparr>tab := st\<rparr>)"
    using bi_inv_link[OF con inv l] by (simp add: linked_put)
  have sb: "same_bytes (items (tab w) a) (items st a)" using same_bytes_flags[of "items (tab w) a" ITEM_LINKED h] fl st(4) by simp
  have "same_bytes (items (tab w) x) (items st x)" for x using sb st(4) by (cases "x = a") (auto simp: same_bytes_def)
  then have "keeps_held E t w ?t (w\<lparr>tab := st\<rparr>)" by (auto simp: keeps_held_def held_def linked_put)
  with inv' sb st(1) bi_item_link_eq[OF hv(1)] show ?thesis by auto
qed

text \<open>The store in which \<open>new\<close> has taken the place of \<open>old\<close>, whose flag is cleared.\<close>

lemma items_inv_swap:
  assumes inv: "items_inv E t st" and f: "tbl_map t (b, key) = Some old" and new: "new \<notin> linked t"
    and tab: "table_inv (tbl_swap (b, key) new t) st'" and p: "pool st' = []"
    and it: "\<And>x. x \<noteq> old \<Longrightarrow> x \<noteq> new \<Longrightarrow> \<exists>n. items st' x = items st x\<lparr>h_next := n\<rparr>"
    and o: "\<exists>n. items st' old = items st old\<lparr>it_flags := 0, h_next := n\<rparr>"
    and n: "\<exists>n. items st' new = items st new\<lparr>it_flags := ITEM_LINKED, h_next := n\<rparr>"
    and hv: "bucket (it_hv (items st new)) = b" "obj_core E new = mc_hv2node (it_hv (items st new))"
  shows "items_inv E (tbl_swap (b, key) new t) st'"
proof -
  note I = items_invD[OF inv] and t0 = store_invD(1)[OF items_invD(1)[OF inv]]
  note S = set_tbl_swap[OF t0 f, of _ _ new] and L = linked_swap[OF t0 f, of new]
  have same: "it_flags (items st' x) = it_flags (items st x)" "slabs_clsid (items st' x) = slabs_clsid (items st x)"
      "it_hv (items st' x) = it_hv (items st x)" if "x \<noteq> old" "x \<noteq> new" for x
    using it[OF that] by auto
  have old: "it_flags (items st' old) = 0" "slabs_clsid (items st' old) = 0" using o I(3) by auto
  have nw: "it_flags (items st' new) = ITEM_LINKED" "slabs_clsid (items st' new) = 0" "it_hv (items st' new) = it_hv (items st new)"
    using n I(3) by auto
  have "it_flags (items st' x) = ITEM_LINKED" if "x \<in> linked (tbl_swap (b, key) new t)" for x
    using that nw(1) same(1)[of x] store_invD(2)[OF I(1), of x] unfolding L by (cases "x = new") auto
  then have "store_inv (tbl_swap (b, key) new t) st'" using tab p unfolding store_inv_def by simp
  moreover have "slabs_clsid (items st' x) = 0" for x using same(2)[of x] old nw I(3)[of x] by (cases "x = old"; cases "x = new") auto
  moreover have "it_flags (items st' x) = 0" if "x \<notin> linked (tbl_swap (b, key) new t)" for x
    using that same(1)[of x] old(1) I(4)[of x] unfolding L by (cases "x = old") auto
  moreover have "bucket (it_hv (items st' x)) = c \<and> obj_core E x = mc_hv2node (it_hv (items st' x))"
    if "(k, x) \<in> set (tbl_swap (b, key) new t c)" for c k x
  proof (cases "x = new")
    case True
    then have "c = b" using that new linkedI unfolding S by blast
    then show ?thesis using True nw(3) hv by simp
  next
    case False
    then have "(k, x) \<in> set (t c)" "x \<noteq> old" using that unfolding S by blast+
    then show ?thesis using I(5)[of k x c] same(3)[of x] False by simp
  qed
  ultimately show ?thesis using p unfolding items_inv_def by blast
qed

lemma replace_store:
  assumes inv: "items_inv E t st" and f: "tbl_map t (bucket hv, key) = Some old" and len: "length (t (bucket hv)) < fuel"
    and new: "new \<notin> linked t" "new \<noteq> NULL" "obj_core E new = mc_hv2node hv" "it_hv (items st new) = hv" "item_key_bytes (items st new) = key"
  defines "st1 \<equiv> upd_item new (\<lambda>i. i\<lparr>it_flags := it_flags i OR ITEM_LINKED\<rparr>) st"
  shows "it_flags (items st old) = ITEM_LINKED" "it_flags (items st new) = 0"
    "\<exists>st2. assoc_replace fuel old new hv st1 = Inr st2 \<and>
      items_inv E (tbl_swap (bucket hv, key) new t) (upd_item old (\<lambda>i. i\<lparr>it_flags := it_flags i AND NOT ITEM_LINKED\<rparr>) st2) \<and>
      (\<forall>x. same_bytes (items st x) (items (upd_item old (\<lambda>i. i\<lparr>it_flags := it_flags i AND NOT ITEM_LINKED\<rparr>) st2) x))"
proof -
  note I = items_invD[OF inv] and t0 = store_invD(1)[OF items_invD(1)[OF inv]]
  note o = found_linked[OF t0 f]
  show fo: "it_flags (items st old) = ITEM_LINKED" using store_invD(2)[OF I(1) o(2)] .
  show fn: "it_flags (items st new) = 0" using I(4)[OF new(1)] .
  have ne: "old \<noteq> new" using o(2) new(1) by blast
  have k1: "item_key_bytes (items st1 new) = key" using new(5) fn by (simp add: st1_def item_key_bytes_flags)
  have t1: "table_inv t st1" unfolding st1_def by (rule table_inv_upd_unlinked[OF t0 new(1)])
  obtain st2 where s2: "assoc_replace fuel old new hv st1 = Inr st2" "table_inv (tbl_swap (bucket hv, key) new t) st2" "pool st2 = pool st"
      "\<And>x. \<exists>n. items st2 x = items st1 x\<lparr>h_next := n\<rparr>"
    using assoc_replace_spec[OF t1 len f new(1,2) k1] by (auto simp: st1_def)
  let ?st = "upd_item old (\<lambda>i. i\<lparr>it_flags := it_flags i AND NOT ITEM_LINKED\<rparr>) st2"
  have f2: "it_flags (items st2 old) = ITEM_LINKED" using s2(4)[of old] ne fo by (auto simp: st1_def)
  have tab: "table_inv (tbl_swap (bucket hv, key) new t) ?st"
    using f2 by (intro table_inv_upd[OF s2(2)]) (simp_all add: item_key_bytes_flags)
  have it: "\<exists>n. items ?st x = items st x\<lparr>h_next := n\<rparr>" if "x \<noteq> old" "x \<noteq> new" for x
    using s2(4)[of x] that by (simp add: st1_def)
  have itn: "\<exists>n. items ?st new = items st new\<lparr>it_flags := ITEM_LINKED, h_next := n\<rparr>"
    using s2(4)[of new] ne fn by (auto simp: st1_def)
  have ito: "\<exists>n. items ?st old = items st old\<lparr>it_flags := 0, h_next := n\<rparr>"
  proof -
    obtain h where "items st2 old = items st old\<lparr>h_next := h\<rparr>" using s2(4)[of old] ne by (auto simp: st1_def)
    then have "items ?st old = items st old\<lparr>it_flags := 0, h_next := h\<rparr>" using fo by simp
    then show ?thesis by blast
  qed
  have "items_inv E (tbl_swap (bucket hv, key) new t) ?st"
    using items_inv_swap[OF inv f new(1) tab _ it ito itn] s2(3) I(2) new(3,4) by simp
  moreover have "same_bytes (items st x) (items ?st x)" for x
    using it[of x] ito itn same_bytes_flags[of "items st old" 0] same_bytes_flags[of "items st new" ITEM_LINKED] fo fn same_bytes_next
    by (cases "x = old"; cases "x = new") auto
  ultimately show "\<exists>st2. assoc_replace fuel old new hv st1 = Inr st2 \<and>
      items_inv E (tbl_swap (bucket hv, key) new t) (upd_item old (\<lambda>i. i\<lparr>it_flags := it_flags i AND NOT ITEM_LINKED\<rparr>) st2) \<and>
      (\<forall>x. same_bytes (items st x) (items (upd_item old (\<lambda>i. i\<lparr>it_flags := it_flags i AND NOT ITEM_LINKED\<rparr>) st2) x))"
    using s2(1) by blast
qed

lemma bi_item_replace_spec:
  assumes con: "slab_contract E good avail spare" "bitmap_contract E good avail spare" and n: "n < MC_SERVERS"
    and inv: "bi_inv E good avail spare t w" and g: "after_grace w" and len: "length (t (bucket hv)) < fuel" and l: "loose E avail spare t w n new"
    and hv: "mc_hv2node hv = n" "it_hv (items (tab w) new) = hv" and k: "item_key_bytes (items (tab w) new) = key"
    and f: "tbl_map t (bucket hv, key) = Some old"
  defines "t' \<equiv> tbl_swap (bucket hv, key) new t"
  shows "runs (bi_item_replace E fuel n old new hv w) (\<lambda>w'. bi_inv E good avail spare t' w' \<and> keeps_held E t w t' w' \<and>
      same_bytes (items (tab w) new) (items (tab w') new))"
    "mcq_len (qsc_list w n) < QUIS_NUM - 1 \<Longrightarrow> \<exists>w'. bi_item_replace E fuel n old new hv w = Inr w'"
proof -
  note ii = bi_invD(2)[OF inv] and N = bi_invD(3)[OF inv, of n]
  note t0 = store_invD(1)[OF items_invD(1)[OF ii]]
  note o = found_linked[OF t0 f] and L = linked_swap[OF t0 f, of new]
  have new: "new \<notin> linked t" "new \<noteq> NULL" "obj_core E new = mc_hv2node hv" using l hv(1) by (auto simp: loose_def)
  note rs = replace_store[OF ii f len new hv(2) k, folded t'_def]
  obtain st2 where st2: "assoc_replace fuel old new hv (upd_item new (\<lambda>i. i\<lparr>it_flags := it_flags i OR ITEM_LINKED\<rparr>) (tab w)) = Inr st2"
      "items_inv E t' (upd_item old (\<lambda>i. i\<lparr>it_flags := it_flags i AND NOT ITEM_LINKED\<rparr>) st2)"
      "\<forall>x. same_bytes (items (tab w) x) (items (upd_item old (\<lambda>i. i\<lparr>it_flags := it_flags i AND NOT ITEM_LINKED\<rparr>) st2) x)"
    using rs(3) by (elim exE conjE)
  define st where "st = upd_item old (\<lambda>i. i\<lparr>it_flags := it_flags i AND NOT ITEM_LINKED\<rparr>) st2"
  have st: "items_inv E t' st" "\<And>x. same_bytes (items (tab w) x) (items st x)" using st2(2,3) unfolding st_def by (simp_all only: simp_thms)
  have run: "bi_item_replace E fuel n old new hv w = bi_remove_free E n old (w\<lparr>tab := st\<rparr>)"
    using rs(1,2) st2(1) by (simp add: bi_item_replace_def Let_def st_def)
  have "bucket (it_hv (items (tab w) old)) = bucket hv" "obj_core E old = mc_hv2node (it_hv (items (tab w) old))"
    using items_invD(5)[OF ii o(1)] by blast+
  then have oc: "obj_core E old = n" using hv2node_bucket[of hv "it_hv (items (tab w) old)"] hv(1) by simp
  have L': "linked t' = insert new (linked t - {old})" using L by (simp only: t'_def)
  have inv1: "bi_inv E good avail spare t' (w\<lparr>tab := st\<rparr>)" by (rule bi_inv_link[OF con(2) inv l st(1)]) (use L' in blast)
  have l1: "loose E avail spare t' (w\<lparr>tab := st\<rparr>) n old"
    using node_invD(4-6)[OF N] o(2,3) oc new(1) unfolding loose_def L' by auto
  have g1: "after_grace (w\<lparr>tab := st\<rparr>)" using g by (simp add: after_grace_def)
  note R = bi_remove_free_spec[OF con n inv1 l1 g1]
  show "mcq_len (qsc_list w n) < QUIS_NUM - 1 \<Longrightarrow> \<exists>w'. bi_item_replace E fuel n old new hv w = Inr w'" using R(2) run by simp
  show "runs (bi_item_replace E fuel n old new hv w) (\<lambda>w'. bi_inv E good avail spare t' w' \<and> keeps_held E t w t' w' \<and>
      same_bytes (items (tab w) new) (items (tab w') new))"
    unfolding run
  proof (rule runs_mono[OF R(1)])
    fix w' assume F: "freed E good avail spare t' old (w\<lparr>tab := st\<rparr>) w'"
    have "keeps_held E t w t' w'" by (rule keeps_held_freed[OF _ st(2) F]) (use L' in blast)
    moreover have "tab w' = st" using F by (simp add: freed_def)
    ultimately show "bi_inv E good avail spare t' w' \<and> keeps_held E t w t' w' \<and> same_bytes (items (tab w) new) (items (tab w') new)"
      using F st(2) by (simp add: freed_def)
  qed
qed

lemma store_map_kept:
  assumes inv: "bi_inv E good avail spare t w" and k: "keeps_held E t w t1 w1" and m: "tbl_map t1 bk = Some x" "tbl_map t bk = Some x"
  shows "store_map t1 (tab w1) bk = store_map t (tab w) bk"
proof -
  obtain b key where bk: "bk = (b, key)" by (cases bk)
  have "x \<in> linked t" using found_linked(2)[OF store_invD(1)[OF items_invD(1)[OF bi_invD(2)[OF inv]]]] m(2) bk by blast
  then have "same_bytes (items (tab w) x) (items (tab w1) x)" using k by (simp add: keeps_held_def held_def)
  then show ?thesis using m by (simp add: store_map_def same_bytes_def)
qed

lemma gained_store_map:
  assumes inv: "bi_inv E good avail spare t w" "bi_inv E good avail spare t1 w1" and k: "keeps_held E t w t1 w1"
    and sub: "\<And>b. set (t1 b) \<subseteq> set (t b)"
  shows "store_map t1 (tab w1) \<subseteq>\<^sub>m store_map t (tab w)" "t1 = t \<Longrightarrow> store_map t1 (tab w1) = store_map t (tab w)"
proof -
  note tabs = inv(1)[THEN bi_invD(2), THEN items_invD(1), THEN store_invD(1)] inv(2)[THEN bi_invD(2), THEN items_invD(1), THEN store_invD(1)]
  have eq: "store_map t1 (tab w1) (b, key) = store_map t (tab w) (b, key)" if "tbl_map t1 (b, key) = Some x" for b key x
  proof -
    have "(key, x) \<in> set (t b)" using found_linked(1)[OF tabs(2) that] sub[of b] by blast
    then show ?thesis using store_map_kept[OF inv(1) k that] linked_tbl_map[OF tabs(1)] by blast
  qed
  show "store_map t1 (tab w1) \<subseteq>\<^sub>m store_map t (tab w)"
  proof (unfold map_le_def, rule ballI)
    fix bk assume "bk \<in> dom (store_map t1 (tab w1))"
    then obtain x where "tbl_map t1 bk = Some x" by (auto simp: store_map_def)
    then show "store_map t1 (tab w1) bk = store_map t (tab w) bk" using eq[of "fst bk" "snd bk" x] by simp
  qed
  show "store_map t1 (tab w1) = store_map t (tab w)" if "t1 = t"
  proof
    fix bk show "store_map t1 (tab w1) bk = store_map t (tab w) bk"
      using eq[of "fst bk" "snd bk"] that by (cases "tbl_map t1 bk") (auto simp: store_map_def)
  qed
qed

lemma store_map_put:
  assumes inv: "bi_inv E good avail spare t w" and k: "keeps_held E t w t1 w1" and m: "tbl_map t1 = (tbl_map t)(bk \<mapsto> a)"
    and v: "same_bytes (items (tab w) a) (items (tab w1) a)" "item_value (items (tab w) a) = data"
  shows "store_map t1 (tab w1) = (store_map t (tab w))(bk \<mapsto> data)"
proof
  fix bk'
  show "store_map t1 (tab w1) bk' = ((store_map t (tab w))(bk \<mapsto> data)) bk'"
  proof (cases "bk' = bk")
    case True
    then show ?thesis using m v by (simp add: store_map_def same_bytes_def)
  next
    case False
    then show ?thesis using store_map_kept[OF inv k, of bk'] m by (cases "tbl_map t bk'") (auto simp: store_map_def)
  qed
qed

definition store_new :: "'m mc_env \<Rightarrow> nat \<Rightarrow> nat \<Rightarrow> u8 list \<Rightarrow> u32 \<Rightarrow> addr \<Rightarrow> 'm bi_world \<Rightarrow> (int \<times> 'm bi_world) result" where
  "store_new E fuel n key hv a w = bindE (do_item_get fuel key hv (tab w)) (\<lambda>old_it.
     if old_it \<noteq> NULL
     then bindE (bi_item_replace E fuel n old_it a hv w) (\<lambda>w. Inr (0, upd_status n (\<lambda>p. p\<lparr>st_confict := st_confict p + 1\<rparr>) w))
     else bindE (bi_item_link n a hv (tab w)) (\<lambda>st. Inr (0, w\<lparr>tab := st\<rparr>)))"

lemma store_new_spec:
  assumes con: "slab_contract E good avail spare" "bitmap_contract E good avail spare" and n: "n < MC_SERVERS"
    and inv: "bi_inv E good avail spare t w" and g: "after_grace w" and len: "length (t (bucket hv)) < fuel" and l: "loose E avail spare t w n a"
    and hv: "mc_hv2node hv = n" "it_hv (items (tab w) a) = hv" and k: "item_key_bytes (items (tab w) a) = key" "item_value (items (tab w) a) = data"
  shows "runs (store_new E fuel n key hv a w) (\<lambda>(r, w'). r = 0 \<and> (\<exists>t'. bi_inv E good avail spare t' w' \<and> keeps_held E t w t' w' \<and>
      store_map t' (tab w') = (store_map t (tab w))((bucket hv, key) \<mapsto> data)))"
    "mcq_len (qsc_list w n) < QUIS_NUM - 1 \<Longrightarrow> \<exists>x. store_new E fuel n key hv a w = Inr x"
proof -
  let ?bk = "(bucket hv, key)"
  note tab = store_invD(1)[OF items_invD(1)[OF bi_invD(2)[OF inv]]]
  note get = assoc_find_spec[OF tab len, of key]
  have both: "runs (store_new E fuel n key hv a w) (\<lambda>(r, w'). r = 0 \<and> (\<exists>t'. bi_inv E good avail spare t' w' \<and> keeps_held E t w t' w' \<and>
      store_map t' (tab w') = (store_map t (tab w))(?bk \<mapsto> data))) \<and>
      (mcq_len (qsc_list w n) < QUIS_NUM - 1 \<longrightarrow> (\<exists>x. store_new E fuel n key hv a w = Inr x))"
  proof (cases "tbl_map t ?bk")
    case None
    obtain st where st: "bi_item_link n a hv (tab w) = Inr st" "bi_inv E good avail spare (tbl_put ?bk a t) (w\<lparr>tab := st\<rparr>)"
        "keeps_held E t w (tbl_put ?bk a t) (w\<lparr>tab := st\<rparr>)" "same_bytes (items (tab w) a) (items st a)"
      using bi_item_link_spec[OF con(2) inv l hv k(1) None] by blast
    have "store_map (tbl_put ?bk a t) st = (store_map t (tab w))(?bk \<mapsto> data)"
      using store_map_put[OF inv st(3) ht.put_abs[OF table_invD(1)[OF tab] None] _ k(2)] st(4) by simp
    then show ?thesis using get None st by (auto simp: store_new_def do_item_get_def)
  next
    case (Some old)
    note R = bi_item_replace_spec[OF con n inv g len l hv k(1) Some]
    have run: "store_new E fuel n key hv a w = bindE (bi_item_replace E fuel n old a hv w) (\<lambda>w. Inr (0, upd_status n (\<lambda>p. p\<lparr>st_confict := st_confict p + 1\<rparr>) w))"
      using get Some found_linked(3)[OF tab Some] by (simp add: store_new_def do_item_get_def)
    have "runs (store_new E fuel n key hv a w) (\<lambda>(r, w'). r = 0 \<and> (\<exists>t'. bi_inv E good avail spare t' w' \<and> keeps_held E t w t' w' \<and>
        store_map t' (tab w') = (store_map t (tab w))(?bk \<mapsto> data)))"
      unfolding run
    proof (rule runs_bind[OF R(1)])
      fix w' assume w': "bi_inv E good avail spare (tbl_swap ?bk a t) w' \<and> keeps_held E t w (tbl_swap ?bk a t) w' \<and> same_bytes (items (tab w) a) (items (tab w') a)"
      have "store_map (tbl_swap ?bk a t) (tab w') = (store_map t (tab w))(?bk \<mapsto> data)"
        using w' Some k(2) by (intro store_map_put[OF inv _ tbl_map_swap]) auto
      then show "runs (Inr (0, upd_status n (\<lambda>p. p\<lparr>st_confict := st_confict p + 1\<rparr>) w')) (\<lambda>(r, w'). r = 0 \<and>
          (\<exists>t'. bi_inv E good avail spare t' w' \<and> keeps_held E t w t' w' \<and> store_map t' (tab w') = (store_map t (tab w))(?bk \<mapsto> data)))"
        using w' by auto
    qed
    then show ?thesis using run R(2) by auto
  qed
  show "runs (store_new E fuel n key hv a w) (\<lambda>(r, w'). r = 0 \<and> (\<exists>t'. bi_inv E good avail spare t' w' \<and> keeps_held E t w t' w' \<and>
      store_map t' (tab w') = (store_map t (tab w))(?bk \<mapsto> data)))"
    "mcq_len (qsc_list w n) < QUIS_NUM - 1 \<Longrightarrow> \<exists>x. store_new E fuel n key hv a w = Inr x"
    using both by blast+
qed

definition fill_item :: "u8 list \<Rightarrow> u32 \<Rightarrow> item \<Rightarrow> item" where
  "fill_item data hv i = i\<lparr>body := write_bytes (body i) (ITEM_data i) data, it_hv := hv\<rparr>"

lemma fill_item_upd: "upd_item a (\<lambda>i. i\<lparr>it_hv := hv\<rparr>) (set_data a data st) = upd_item a (fill_item data hv) st"
  by (simp add: upd_item_def set_data_def fill_item_def)

lemma fill_item_fields:
  assumes "length data = nbytes i - 2"
  shows "item_key_bytes (fill_item data hv i) = item_key_bytes i" "item_value (fill_item data hv i) = data" "it_hv (fill_item data hv i) = hv"
    "slabs_clsid (fill_item data hv i) = slabs_clsid i" "it_flags (fill_item data hv i) = it_flags i"
proof -
  have hv: "item_key_bytes (j\<lparr>it_hv := hv\<rparr>) = item_key_bytes j" "item_value (j\<lparr>it_hv := hv\<rparr>) = item_value j" for j
    by (simp_all add: item_key_bytes_def ITEM_key_def item_value_def ITEM_data_def)
  show "item_key_bytes (fill_item data hv i) = item_key_bytes i" "item_value (fill_item data hv i) = data"
    using key_before_data[of i data] value_of_written[OF assms] unfolding fill_item_def hv by simp_all
qed (simp_all add: fill_item_def)

lemma mc_set_key_rcv_eq:
  "mc_set_key_rcv E fuel n key data hv w =
     bindE (bi_item_alloc E fuel n key 0 (length data + 2) (upd_status n (\<lambda>p. p\<lparr>st_set := st_set p + 1\<rparr>) w)) (\<lambda>(it, w).
       if it = NULL then Inr (- 1, w) else store_new E fuel n key hv it (upd_it it (fill_item data hv) w))"
  by (simp add: mc_set_key_rcv_def store_new_def fill_item_upd Let_def cong: if_cong)

lemma filled_loose:
  fixes hv :: u32
  assumes inv: "bi_inv E good avail spare t w" and a: "new_item E avail spare n key a t w" "a \<noteq> NULL" and d: "length data = V_LENGTH"
  defines "w' \<equiv> upd_it a (fill_item data hv) w"
  shows "bi_inv E good avail spare t w'" "keeps_held E t w t w'" "loose E avail spare t w' n a" "it_hv (items (tab w') a) = hv"
    "item_key_bytes (items (tab w') a) = key" "item_value (items (tab w') a) = data"
proof -
  note I = items_invD[OF bi_invD(2)[OF inv]]
  have l: "loose E avail spare t w n a" "item_key_bytes (items (tab w) a) = key" "length data = nbytes (items (tab w) a) - 2"
    using a d by (simp_all add: new_item_def)
  have fl: "it_flags (items (tab w) a) = 0" using I(4) l(1) by (auto simp: loose_def)
  note F = fill_item_fields[OF l(3), of hv] and U = loose_upd[OF inv l(1), of "fill_item data hv"]
  show "bi_inv E good avail spare t w'" "keeps_held E t w t w'" "loose E avail spare t w' n a"
    using U F fl I(3)[of a] unfolding w'_def by simp_all
  show "it_hv (items (tab w') a) = hv" "item_key_bytes (items (tab w') a) = key" "item_value (items (tab w') a) = data"
    using F l(2) by (simp_all add: w'_def)
qed

text \<open>The outcome of a SET: the new value is stored, or there was no memory; items may have been evicted unless \<open>X\<close>.\<close>

definition set_done :: "'m mc_env \<Rightarrow> ('m \<Rightarrow> bool) \<Rightarrow> 'm objs \<Rightarrow> 'm objs \<Rightarrow> bool \<Rightarrow> nat \<times> u8 list \<Rightarrow> u8 list \<Rightarrow> tbl \<Rightarrow> 'm bi_world \<Rightarrow> int \<Rightarrow> 'm bi_world \<Rightarrow> bool" where
  "set_done E good avail spare X bk data t w r w' \<longleftrightarrow> (\<exists>t' m. bi_inv E good avail spare t' w' \<and> keeps_held E t w t' w' \<and>
     m \<subseteq>\<^sub>m store_map t (tab w) \<and> (X \<longrightarrow> m = store_map t (tab w)) \<and>
     (r = 0 \<and> store_map t' (tab w') = m(bk \<mapsto> data) \<or> r = - 1 \<and> store_map t' (tab w') = m))"

lemma set_step:
  assumes con: "slab_contract E good avail spare" "bitmap_contract E good avail spare" and n: "n < MC_SERVERS"
    and inv: "bi_inv E good avail spare t w" and g: "after_grace w" and len: "\<And>b. length (t b) < fuel"
    and hv: "mc_hv2node hv = n" and d: "length data = V_LENGTH"
    and G: "gained E good avail spare X (new_item E avail spare n key a) t w w1" and a: "a \<noteq> NULL"
  shows "runs (store_new E fuel n key hv a (upd_it a (fill_item data hv) w1)) (\<lambda>(r, w'). r = 0 \<and> set_done E good avail spare X (bucket hv, key) data t w r w')"
    "mcq_len (qsc_list w1 n) < QUIS_NUM - 1 \<Longrightarrow> \<exists>x. store_new E fuel n key hv a (upd_it a (fill_item data hv) w1) = Inr x"
proof -
  obtain t1 where t1: "bi_inv E good avail spare t1 w1" "keeps_held E t w t1 w1" "new_item E avail spare n key a t1 w1" "X \<longrightarrow> t1 = t"
      "\<And>b. set (t1 b) \<subseteq> set (t b)" "\<And>b. length (t1 b) \<le> length (t b)" using G unfolding gained_def by blast
  let ?w = "upd_it a (fill_item data hv) w1"
  note F = filled_loose[OF t1(1,3) a d, of hv]
  have g': "after_grace ?w" using g t1(2) by (simp add: after_grace_def keeps_held_def)
  have len': "length (t1 (bucket hv)) < fuel" using t1(6)[of "bucket hv"] len[of "bucket hv"] by linarith
  note N = store_new_spec[OF con n F(1) g' len' F(3) hv F(4-6)]
  note k = keeps_held_trans[OF t1(2) F(2)]
  note M = gained_store_map[OF inv F(1) k t1(5)]
  show "mcq_len (qsc_list w1 n) < QUIS_NUM - 1 \<Longrightarrow> \<exists>x. store_new E fuel n key hv a ?w = Inr x" using N(2) by simp
  show "runs (store_new E fuel n key hv a ?w) (\<lambda>(r, w'). r = 0 \<and> set_done E good avail spare X (bucket hv, key) data t w r w')"
  proof (rule runs_mono[OF N(1)])
    fix x assume "case x of (r, w') \<Rightarrow> r = (0 :: int) \<and> (\<exists>t'. bi_inv E good avail spare t' w' \<and> keeps_held E t1 ?w t' w' \<and>
      store_map t' (tab w') = (store_map t1 (tab ?w))((bucket hv, key) \<mapsto> data))"
    then obtain w' t' where x: "x = (0, w')" and t': "bi_inv E good avail spare t' w'" "keeps_held E t1 ?w t' w'"
      "store_map t' (tab w') = (store_map t1 (tab ?w))((bucket hv, key) \<mapsto> data)" by (cases x) auto
    have "keeps_held E t w t' w'" by (rule keeps_held_trans[OF k t'(2)])
    then show "case x of (r, w') \<Rightarrow> r = 0 \<and> set_done E good avail spare X (bucket hv, key) data t w r w'"
      unfolding x set_done_def using t'(1,3) M t1(4) by auto
  qed
qed

lemma mc_set_key_rcv_spec:
  assumes con: "slab_contract E good avail spare" "bitmap_contract E good avail spare" and n: "n < MC_SERVERS"
    and inv: "bi_inv E good avail spare t w" and g: "after_grace w" and len: "\<And>b. length (t b) < fuel"
    and hv: "mc_hv2node hv = n" and k: "length key = KEY_LENGTH" and d: "length data = V_LENGTH"
  defines "X \<equiv> bi_loading w \<or> avail n (memst w) \<noteq> {}"
  shows "runs (mc_set_key_rcv E fuel n key data hv w) (\<lambda>(r, w'). set_done E good avail spare X (bucket hv, key) data t w r w')"
    "X \<Longrightarrow> mcq_len (qsc_list w n) < QUIS_NUM - 1 \<Longrightarrow> \<exists>x. mc_set_key_rcv E fuel n key data hv w = Inr x"
    "avail n (memst w) \<noteq> {} \<Longrightarrow> mcq_len (qsc_list w n) < QUIS_NUM - 1 \<Longrightarrow> \<exists>w'. mc_set_key_rcv E fuel n key data hv w = Inr (0, w')"
proof -
  let ?w = "upd_status n (\<lambda>p. p\<lparr>st_set := st_set p + 1\<rparr>) w"
  have inv': "bi_inv E good avail spare t ?w" "after_grace ?w" using inv g by simp_all
  note A = bi_item_alloc_spec[OF con n inv' len k, unfolded gained_status world_upd_status, folded X_def]
  have eq: "mc_set_key_rcv E fuel n key data hv w = bindE (bi_item_alloc E fuel n key 0 (V_LENGTH + 2) ?w) (\<lambda>(it, w).
       if it = NULL then Inr (- 1, w) else store_new E fuel n key hv it (upd_it it (fill_item data hv) w))"
    unfolding mc_set_key_rcv_eq d ..
  note S = set_step[OF con n inv g len hv d]
  have none: "set_done E good avail spare X (bucket hv, key) data t w (- 1) w1"
    if G: "gained E good avail spare X (new_item E avail spare n key NULL) t w w1" for w1
  proof -
    obtain t1 where t1: "bi_inv E good avail spare t1 w1" "keeps_held E t w t1 w1" "X \<longrightarrow> t1 = t" "\<And>b. set (t1 b) \<subseteq> set (t b)"
      using G unfolding gained_def by blast
    note M = gained_store_map[OF inv t1(1,2,4)]
    show ?thesis unfolding set_done_def
      by (rule exI[of _ t1], rule exI[of _ "store_map t1 (tab w1)"]) (use t1 M in auto)
  qed
  show "runs (mc_set_key_rcv E fuel n key data hv w) (\<lambda>(r, w'). set_done E good avail spare X (bucket hv, key) data t w r w')"
    unfolding eq
  proof (rule runs_bind[OF A(1)])
    fix x assume "case x of (a, w1) \<Rightarrow> gained E good avail spare X (new_item E avail spare n key a) t w w1"
    then obtain a w1 where x: "x = (a, w1)" and G: "gained E good avail spare X (new_item E avail spare n key a) t w w1" by (cases x) auto
    show "runs (case x of (it, w) \<Rightarrow> if it = NULL then Inr (- 1, w) else store_new E fuel n key hv it (upd_it it (fill_item data hv) w))
        (\<lambda>(r, w'). set_done E good avail spare X (bucket hv, key) data t w r w')"
      unfolding x using none G runs_mono[OF S(1)[OF G]] by (cases "a = NULL") auto
  qed
  have fin: "\<exists>r w'. mc_set_key_rcv E fuel n key data hv w = Inr (r, w') \<and> (a \<noteq> NULL \<longrightarrow> r = 0)"
    if H: "mcq_len (qsc_list w n) < QUIS_NUM - 1" "bi_item_alloc E fuel n key 0 (V_LENGTH + 2) ?w = Inr (a, w1)" "mcq_len (qsc_list w1 n) \<le> mcq_len (qsc_list w n)" for a w1
  proof (cases "a = NULL")
    case False
    have G: "gained E good avail spare X (new_item E avail spare n key a) t w w1" using A(1) H(2) by simp
    obtain x where "store_new E fuel n key hv a (upd_it a (fill_item data hv) w1) = Inr x" using S(2)[OF G False] H(1,3) by force
    then show ?thesis using S(1)[OF G False] False H(2) unfolding eq by (cases x) auto
  qed (use H(2) in \<open>simp add: eq\<close>)
  show "X \<Longrightarrow> mcq_len (qsc_list w n) < QUIS_NUM - 1 \<Longrightarrow> \<exists>x. mc_set_key_rcv E fuel n key data hv w = Inr x"
    using A(2) fin by blast
  show "avail n (memst w) \<noteq> {} \<Longrightarrow> mcq_len (qsc_list w n) < QUIS_NUM - 1 \<Longrightarrow> \<exists>w'. mc_set_key_rcv E fuel n key data hv w = Inr (0, w')"
    using A(2,3) fin X_def by fastforce
qed

section \<open>The properties\<close>

text \<open>An allocator over lists, to show that the contract can be met: one object per slab.\<close>

definition list_env :: "(addr list \<times> nat list) mc_env" where
  "list_env = \<lparr>obj_mem = 128, obj_num = 1, in_use = 0, trac_base = PAGE_SIZE, obj_core = (\<lambda>_. 0),
     sl_alloc = (\<lambda>n (fl, pg). if n = 0 then (case fl of [] \<Rightarrow> None | a # as \<Rightarrow> Some (a, (as, pg))) else None),
     sl_init = (\<lambda>n p (fl, pg). (Suc p # fl, pg)), sl_free = (\<lambda>n a (fl, pg). (None, (a # fl, pg))),
     sl_el = (\<lambda>_ _. NULL), sl_fl = (\<lambda>_ _. NULL), sl_next = (\<lambda>_ _. NULL), sl_core = (\<lambda>_. 0), sl_nfree = (\<lambda>_ _. 0), sl_objs = (\<lambda>p. [Suc p]),
     bm_find = (\<lambda>n k (fl, pg). if n = 0 then (case pg of [] \<Rightarrow> (- 1, (fl, pg)) | i # is \<Rightarrow> (int i, (fl, is))) else (- 1, (fl, pg))),
     bm_set = (\<lambda>n i k (fl, pg). (fl, i # pg))\<rparr>"

definition list_good :: "addr list \<times> nat list \<Rightarrow> bool" where
  "list_good m \<longleftrightarrow> distinct (fst m) \<and> NULL \<notin> set (fst m) \<and> distinct (snd m)"

definition list_avail :: "nat \<Rightarrow> addr list \<times> nat list \<Rightarrow> addr set" where
  "list_avail n m = (if n = 0 then set (fst m) else {})"

definition list_spare :: "nat \<Rightarrow> addr list \<times> nat list \<Rightarrow> addr set" where
  "list_spare n m = (if n = 0 then (\<lambda>i. Suc (PAGE_SIZE + i * PAGE_SIZE)) ` set (snd m) else {})"

lemma list_slab_contract: "slab_contract list_env list_good list_avail list_spare"
  unfolding slab_contract_def
proof (intro conjI allI impI)
  fix n :: nat and m :: "addr list \<times> nat list"
  show "sl_alloc list_env n m = None \<longleftrightarrow> list_avail n m = {}"
    by (cases m) (auto simp: list_env_def list_avail_def split: list.splits)
next
  fix n a and m m' :: "addr list \<times> nat list"
  assume g: "list_good m" and s: "sl_alloc list_env n m = Some (a, m')"
  then obtain fl pg where "n = 0" "m = (a # fl, pg)" "m' = (fl, pg)"
    by (cases m) (auto simp: list_env_def split: if_splits list.splits)
  with g show "a \<in> list_avail n m" "mem_to list_good list_avail list_spare n m m' (list_avail n m - {a}) (list_spare n m)"
    by (auto simp: mem_to_def list_good_def list_avail_def list_spare_def)
qed (auto simp: list_env_def mem_to_def list_good_def list_avail_def list_spare_def fresh_slab_def split: prod.splits)

lemma list_bitmap_contract: "bitmap_contract list_env list_good list_avail list_spare"
  unfolding bitmap_contract_def
proof (intro conjI allI impI)
  fix n p and m :: "addr list \<times> nat list"
  assume m: "list_good m" "slab_ok list_env p" "fresh_slab list_env list_avail list_spare n p m"
  obtain fl pg where fp: "m = (fl, pg)" by (cases m)
  have n: "n = 0" using m(3) by (simp add: fresh_slab_def list_env_def)
  let ?i = "(p - PAGE_SIZE) div PAGE_SIZE"
  have p: "p = PAGE_SIZE + ?i * PAGE_SIZE" using m(2) by (auto simp: slab_ok_def list_env_def)
  then have "?i \<notin> set pg" using m(3) n fp by (auto simp: fresh_slab_def list_env_def list_spare_def)
  then show "mem_to list_good list_avail list_spare n m (bm_set list_env n ((p - trac_base list_env) div PAGE_SIZE) 4 m) (list_avail n m)
      (list_spare n m \<union> set (sl_objs list_env p))"
    using m(1) n fp p by (auto simp: mem_to_def list_env_def list_good_def list_avail_def list_spare_def)
next
  fix n and m m' :: "addr list \<times> nat list" and i :: int
  assume "list_good m" "bm_find list_env n 4 m = (i, m')" "i < 0"
  then show "mem_to list_good list_avail list_spare n m m' (list_avail n m) (list_spare n m)"
    by (cases m) (auto simp: list_env_def mem_to_def split: if_splits list.splits)
next
  fix n p and m m' :: "addr list \<times> nat list" and i :: int
  assume m: "list_good m" "bm_find list_env n 4 m = (i, m')" "0 \<le> i" and p: "p = trac_base list_env + nat i * PAGE_SIZE"
  then obtain fl pg where "n = 0" "m = (fl, nat i # pg)" "m' = (fl, pg)"
    by (cases m) (auto simp: list_env_def split: if_splits list.splits)
  then show "p \<noteq> NULL" "set (sl_objs list_env p) \<subseteq> list_spare n m"
      "mem_to list_good list_avail list_spare n m m' (list_avail n m) (list_spare n m - set (sl_objs list_env p))"
    using m(1) p by (auto simp: list_env_def mem_to_def list_good_def list_avail_def list_spare_def)
next
  fix n a and m :: "addr list \<times> nat list"
  assume "list_good m" "a \<in> list_avail n m \<union> list_spare n m"
  then show "a \<noteq> NULL" "obj_core list_env a = n"
    by (cases "a = NULL"; auto simp: list_good_def list_avail_def list_spare_def list_env_def split: if_splits)+
qed

definition empty_world :: "addr list \<Rightarrow> u64 \<Rightarrow> (addr list \<times> nat list) bi_world" where
  "empty_world objs tm =
     \<lparr>tab = \<lparr>htable = (\<lambda>_. NULL),
        items = (\<lambda>_. \<lparr>it_next = 0, it_prev = 0, h_next = 0, recency = 0, it_hv = 0, exptime = 0, nbytes = 0, refcount = 0,
                       nsuffix = 0, it_flags = 0, slabs_clsid = 0, nkey = 0, body = (\<lambda>_. 0)\<rparr>), pool = []\<rparr>,
      tsc_free = (\<lambda>_. 0), qsc_list = (\<lambda>_. \<lparr>qhead = 0, qtail = 0, qslot = (\<lambda>_. NULL)\<rparr>),
      status = (\<lambda>_. mc_status_init 304087040), memst = (objs, []), bi_loading = False, now = tm\<rparr>"

lemma empty_world_inv:
  assumes "distinct objs" and "NULL \<notin> set objs"
  shows "bi_inv list_env list_good list_avail list_spare (\<lambda>_. []) (empty_world objs tm)"
proof -
  have l: "linked (\<lambda>_. [] :: (u8 list \<times> addr) list) = {}" by (simp add: linked_def)
  have "items_inv list_env (\<lambda>_. []) (tab (empty_world objs tm))"
    by (simp add: items_inv_def store_inv_def table_inv_def tbl_ok_def l empty_world_def)
  moreover have "node_inv list_env list_avail list_spare {} n \<lparr>qhead = 0, qtail = 0, qslot = (\<lambda>_. NULL)\<rparr> (objs, [])" for n
    by (simp add: node_inv_def mcq_wf_def mcq_items_def mcq_len_def list_spare_def)
  ultimately show ?thesis using assms by (simp add: bi_inv_def l list_good_def empty_world_def)
qed



text \<open>C13: when the node has a free object and room in its ring, a SET returns 0 and stores exactly the
  new value: nothing is evicted, all other keys keep their values, and readers lose nothing.\<close>

theorem bi_set_exact:
  assumes "slab_contract E good avail spare" and "bitmap_contract E good avail spare"
    and "bi_inv E good avail spare t w" and "mem_quiesce (now w) < now w" and "\<And>b. length (t b) < fuel"
    and "length key = KEY_LENGTH" and "length data = V_LENGTH"
    and "avail (mc_hv2node hv) (memst w) \<noteq> {}" and "mcq_len (qsc_list w (mc_hv2node hv)) < QUIS_NUM - 1"
  shows "\<exists>w' t'. mc_set_key_rcv E fuel (mc_hv2node hv) key data hv w = Inr (0, w') \<and> bi_inv E good avail spare t' w' \<and>
    store_map t' (tab w') = (store_map t (tab w))((bucket hv, key) \<mapsto> data) \<and>
    (\<forall>a. held E t w a \<longrightarrow> held E t' w' a \<and> same_bytes (items (tab w) a) (items (tab w') a))"
proof -
  have n: "mc_hv2node hv < MC_SERVERS" by (simp add: mc_hv2node_def)
  have g: "after_grace w" using assms(4) by (simp add: after_grace_def)
  note S = mc_set_key_rcv_spec[OF assms(1,2) n assms(3) g assms(5) refl assms(6,7)]
  obtain w' where w': "mc_set_key_rcv E fuel (mc_hv2node hv) key data hv w = Inr (0, w')" using S(3) assms(8,9) by blast
  then show ?thesis using S(1) assms(8) by (auto simp: set_done_def keeps_held_def)
qed

theorem bi_set_exact_witness:
  "\<exists>w' t'. mc_set_key_rcv list_env 1 0 (replicate 16 7) (replicate 32 36) 0 (empty_world [5000] 200000000) = Inr (0, w') \<and>
     store_map t' (tab w') (0, replicate 16 7) = Some (replicate 32 36)"
proof -
  have h: "mc_hv2node 0 = 0" "bucket 0 = 0" by (simp_all add: mc_hv2node_def bucket_def)
  have q: "mem_quiesce (now (empty_world [5000] 200000000)) < now (empty_world [5000] 200000000)"
    by (simp add: mem_quiesce_def empty_world_def)
  have a: "list_avail 0 (memst (empty_world [5000] 200000000)) \<noteq> {}" "mcq_len (qsc_list (empty_world [5000] 200000000) 0) < QUIS_NUM - 1"
    by (simp_all add: list_avail_def empty_world_def mcq_len_def)
  define K D :: "u8 list" where "K = replicate 16 7" and "D = replicate 32 36"
  have kd: "length K = KEY_LENGTH" "length D = V_LENGTH" by (simp_all add: K_def D_def)
  have i: "bi_inv list_env list_good list_avail list_spare (\<lambda>_. []) (empty_world [5000] 200000000)" by (rule empty_world_inv) simp_all
  obtain w' t' where "mc_set_key_rcv list_env 1 0 K D 0 (empty_world [5000] 200000000) = Inr (0, w')"
    "store_map t' (tab w') = (store_map (\<lambda>_. []) (tab (empty_world [5000] 200000000)))((0, K) \<mapsto> D)"
    using bi_set_exact[OF list_slab_contract list_bitmap_contract i q _ kd, of 1 0, unfolded h] a by auto
  then have "mc_set_key_rcv list_env 1 0 K D 0 (empty_world [5000] 200000000) = Inr (0, w') \<and> store_map t' (tab w') (0, K) = Some D" by simp
  then show ?thesis unfolding K_def D_def by blast
qed

text \<open>C3: reclamation gives back exactly the objects at the head of the ring that were freed before the grace
  period, in order: they become free objects of the node, the rest of the ring stays as it is, the
  table is not touched, and the result is the number of bytes gained.\<close>

theorem mc_reclaim_exact:
  assumes "slab_contract E good avail spare" and "bitmap_contract E good avail spare" and "n < MC_SERVERS"
    and "bi_inv E good avail spare t w" and "q = takeWhile (\<lambda>a. tsc_free w a \<le> mem_quiesce (now w)) (ring_of n w)"
  shows "\<exists>w'. mem_smr_reclaim E n w = Inr (length q * obj_mem E, w') \<and> bi_inv E good avail spare t w' \<and>
    ring_of n w = q @ ring_of n w' \<and> tab w' = tab w \<and>
    avail n (memst w') \<union> spare n (memst w') = avail n (memst w) \<union> spare n (memst w) \<union> set q"
proof -
  have q: "q = quiesced n w (mem_quiesce (now w))" using assms(5) by (simp add: quiesced_def)
  obtain w' where w': "mem_smr_reclaim E n w = Inr (length q * obj_mem E, w')" "reclaimed good avail spare n q w w'"
    using mem_smr_reclaim_spec[OF assms(1-4)] unfolding q by blast
  with reclaimed_inv[OF assms(4) w'(2)] show ?thesis by blast
qed

lemma one_freed_inv:
  fixes w :: "(addr list \<times> nat list) bi_world"
  assumes "a \<noteq> NULL" and "a \<noteq> 5000"
  defines "w \<equiv> empty_world [5000] 200000000"
  shows "bi_inv list_env list_good list_avail list_spare (\<lambda>_. []) (w\<lparr>qsc_list := (qsc_list w)(0 := mcq_put a (qsc_list w 0))\<rparr>)"
    "ring_of 0 (w\<lparr>qsc_list := (qsc_list w)(0 := mcq_put a (qsc_list w 0))\<rparr>) = [a]"
proof -
  have i: "bi_inv list_env list_good list_avail list_spare (\<lambda>_. []) w" unfolding w_def by (rule empty_world_inv) simp_all
  have e: "ring_of 0 w = []" by (simp add: w_def empty_world_def mcq_items_def mcq_len_def)
  have l: "loose list_env list_avail list_spare (\<lambda>_. []) w 0 a"
    using assms(1,2) e by (simp add: loose_def linked_def w_def empty_world_def list_env_def list_avail_def list_spare_def)
  have "mcq_len (qsc_list w 0) < QUIS_NUM - 1" by (simp add: w_def empty_world_def mcq_len_def)
  from put_inv[OF i l this] e
  show "bi_inv list_env list_good list_avail list_spare (\<lambda>_. []) (w\<lparr>qsc_list := (qsc_list w)(0 := mcq_put a (qsc_list w 0))\<rparr>)"
    "ring_of 0 (w\<lparr>qsc_list := (qsc_list w)(0 := mcq_put a (qsc_list w 0))\<rparr>) = [a]" by simp_all
qed

theorem mc_reclaim_exact_witness:
  "\<exists>w'. mem_smr_reclaim list_env 0 ((empty_world [5000] 200000000)\<lparr>qsc_list := (qsc_list (empty_world [5000] 200000000))
      (0 := mcq_put 7000 (qsc_list (empty_world [5000] 200000000) 0))\<rparr>) = Inr (128, w') \<and> ring_of 0 w' = []"
proof -
  let ?w = "(empty_world [5000] 200000000)\<lparr>qsc_list := (qsc_list (empty_world [5000] 200000000))(0 := mcq_put 7000 (qsc_list (empty_world [5000] 200000000) 0))\<rparr>"
  have w: "bi_inv list_env list_good list_avail list_spare (\<lambda>_. []) ?w" "ring_of 0 ?w = [7000]" by (rule one_freed_inv; simp)+
  have "[7000] = takeWhile (\<lambda>a. tsc_free ?w a \<le> mem_quiesce (now ?w)) (ring_of 0 ?w)"
    unfolding w(2) by (simp add: empty_world_def)
  from mc_reclaim_exact[OF list_slab_contract list_bitmap_contract _ w(1) this] w(2)
  show ?thesis by (auto simp: list_env_def)
qed

end
