(* ===== verification/Bi_Mc_View.thy ===== *)
theory Bi_Mc_View
  imports Bi_Mc_Set
begin

unbundle bit_operations_syntax

text \<open>
  What a node sees of the hash table of \<^verbatim>\<open>mc_code/bi_mc\<close> through its cache. A node may hold outdated
  copies of bucket heads and of items; a read that misses the cache takes the current value and keeps
  it. \<^verbatim>\<open>assoc_flush\<close>, \<^verbatim>\<open>assoc_flush_opt\<close> and the flush of the quiescence rings drop copies again.

  Bucket heads are pointers of four bytes, sixteen to a cache line, in a table that starts at a page.
  An object of the slab allocator starts at a cache line and takes two of them with its header, so the
  64 bytes from \<^verbatim>\<open>h_next\<close> on reach its last line: an item is cached and flushed as a whole. Fetches and
  evictions by the hardware in between change copies only in the way reads and flushes do.
\<close>

section \<open>Reading through the cache\<close>

record mc_view =
  vhead :: "nat \<Rightarrow> addr option"
  vitem :: "addr \<Rightarrow> item option"
  vends :: "nat \<Rightarrow> (nat \<times> nat) option"

definition see_head :: "mc_view \<Rightarrow> mc_store \<Rightarrow> nat \<Rightarrow> addr" where
  "see_head v st b = (case vhead v b of None \<Rightarrow> htable st b | Some a \<Rightarrow> a)"

definition see_item :: "mc_view \<Rightarrow> mc_store \<Rightarrow> addr \<Rightarrow> item" where
  "see_item v st a = (case vitem v a of None \<Rightarrow> items st a | Some i \<Rightarrow> i)"

text \<open>Head and tail of the quiescence ring of a node.\<close>

definition see_ends :: "mc_view \<Rightarrow> 'm bi_world \<Rightarrow> nat \<Rightarrow> nat \<times> nat" where
  "see_ends v w i = (case vends v i of None \<Rightarrow> (qhead (qsc_list w i), qtail (qsc_list w i)) | Some e \<Rightarrow> e)"

definition load_head :: "nat \<Rightarrow> mc_store \<Rightarrow> mc_view \<Rightarrow> addr \<times> mc_view" where
  "load_head b st v = (see_head v st b, v\<lparr>vhead := (vhead v)(b \<mapsto> see_head v st b)\<rparr>)"

definition load_item :: "addr \<Rightarrow> mc_store \<Rightarrow> mc_view \<Rightarrow> item \<times> mc_view" where
  "load_item a st v = (see_item v st a, v\<lparr>vitem := (vitem v)(a \<mapsto> see_item v st a)\<rparr>)"

definition load_ends :: "nat \<Rightarrow> 'm bi_world \<Rightarrow> mc_view \<Rightarrow> (nat \<times> nat) \<times> mc_view" where
  "load_ends i w v = (see_ends v w i, v\<lparr>vends := (vends v)(i \<mapsto> see_ends v w i)\<rparr>)"

text \<open>\<^verbatim>\<open>clflush_range\<close> of the 64 bytes from a bucket head on, and of the bytes of an item.\<close>

definition flush_head :: "nat \<Rightarrow> mc_view \<Rightarrow> mc_view" where
  "flush_head b v = v\<lparr>vhead := (\<lambda>b'. if b * 4 div 64 \<le> b' * 4 div 64 \<and> b' * 4 div 64 * 64 < b * 4 + 64 then None else vhead v b')\<rparr>"

definition flush_item :: "addr \<Rightarrow> mc_view \<Rightarrow> mc_view" where
  "flush_item a v = v\<lparr>vitem := (vitem v)(a := None)\<rparr>"

section \<open>Operations of a reader\<close>

fun view_find_loop :: "nat \<Rightarrow> addr \<Rightarrow> u8 list \<Rightarrow> mc_store \<Rightarrow> mc_view \<Rightarrow> (addr \<times> mc_view) result" where
  "view_find_loop 0 it key st v = Inl Out_of_fuel"
| "view_find_loop (Suc f) it key st v =
     (if it = NULL then Inr (NULL, v)
      else let (i, v) = load_item it st v
           in if key_eq key i then Inr (it, v) else view_find_loop f (h_next i) key st v)"

definition bi_assoc_find :: "nat \<Rightarrow> u8 list \<Rightarrow> u32 \<Rightarrow> mc_store \<Rightarrow> mc_view \<Rightarrow> (addr \<times> mc_view) result" where
  "bi_assoc_find fuel key hv st v =
     (let (a, v) = load_head (bucket hv) st v in view_find_loop fuel a key st v)"

fun flush_chain :: "nat \<Rightarrow> addr \<Rightarrow> mc_store \<Rightarrow> mc_view \<Rightarrow> mc_view result" where
  "flush_chain 0 a st v = Inl Out_of_fuel"
| "flush_chain (Suc f) a st v =
     (if a = NULL then Inr v
      else let (i, v) = load_item a st (flush_item a v) in flush_chain f (h_next i) st v)"

definition assoc_flush :: "nat \<Rightarrow> u32 \<Rightarrow> mc_store \<Rightarrow> mc_view \<Rightarrow> mc_view result" where
  "assoc_flush fuel hv st v =
     (let (a, v) = load_head (bucket hv) st (flush_head (bucket hv) v) in flush_chain fuel a st v)"

fun flush_opt_loop :: "nat \<Rightarrow> nat \<Rightarrow> addr \<Rightarrow> u32 \<Rightarrow> addr \<Rightarrow> mc_store \<Rightarrow> mc_view \<Rightarrow> mc_view result" where
  "flush_opt_loop fuel 0 a hv it st v = Inl Out_of_fuel"
| "flush_opt_loop fuel (Suc f) a hv it st v =
     (if a = NULL then Inr v
      else if a = it then assoc_flush fuel hv st v
      else let (i, v) = load_item a st v in flush_opt_loop fuel f (h_next i) hv it st v)"

definition assoc_flush_opt :: "nat \<Rightarrow> u32 \<Rightarrow> addr \<Rightarrow> mc_store \<Rightarrow> mc_view \<Rightarrow> mc_view result" where
  "assoc_flush_opt fuel hv it st v =
     (let (a, v) = load_head (bucket hv) st v in flush_opt_loop fuel fuel a hv it st v)"

text \<open>One entry of a quiescence ring, and the ring from its head to its tail.\<close>

definition flush_entry :: "nat \<Rightarrow> addr \<Rightarrow> mc_store \<Rightarrow> mc_view \<Rightarrow> mc_view result" where
  "flush_entry fuel s st v =
     (if s = NULL then Inr v
      else let (i, v) = load_item s st v in assoc_flush_opt fuel (it_hv i) s st (flush_item s v))"

fun ring_flush_loop :: "nat \<Rightarrow> nat \<Rightarrow> (nat \<Rightarrow> addr) \<Rightarrow> nat \<Rightarrow> nat \<Rightarrow> mc_store \<Rightarrow> mc_view \<Rightarrow> mc_view result" where
  "ring_flush_loop fuel 0 rng te i st v = Inl Out_of_fuel"
| "ring_flush_loop fuel (Suc n) rng te i st v =
     (if i = te then Inr v
      else bindE (flush_entry fuel (rng i) st v) (\<lambda>v. ring_flush_loop fuel n rng te ((i + 1) mod QUIS_NUM) st v))"

definition mcq_flush :: "nat \<Rightarrow> nat \<Rightarrow> 'm bi_world \<Rightarrow> mc_view \<Rightarrow> mc_view result" where
  "mcq_flush fuel i w v =
     (let ((h, te), v) = load_ends i w v
      in ring_flush_loop fuel QUIS_NUM (qslot (qsc_list w i)) te h (tab w) v)"

text \<open>
  The slots of the rings of other nodes are read after their lines have been flushed; their heads and
  tails are not flushed. The result counts the entries.
\<close>

definition ring_count :: "nat \<times> nat \<Rightarrow> nat" where
  "ring_count e = (QUIS_NUM + snd e - fst e) mod QUIS_NUM"

definition mc_hashtbl_flush :: "nat \<Rightarrow> 'm bi_world \<Rightarrow> mc_view \<Rightarrow> (nat \<times> mc_view) result" where
  "mc_hashtbl_flush fuel w v =
     (let (e0, v) = load_ends 0 w v; (e1, v) = load_ends 1 w v; r = ring_count e0 + ring_count e1
      in bindE (mcq_flush fuel 0 w v) (\<lambda>v.
         bindE (mcq_flush fuel 1 w v) (\<lambda>v. Inr (r, v))))"

definition bi_get_key_ext :: "(u8 list \<Rightarrow> u32) \<Rightarrow> nat \<Rightarrow> u8 list \<Rightarrow> 'm bi_world \<Rightarrow> mc_view \<Rightarrow> (u8 list option \<times> 'm bi_world \<times> mc_view) result" where
  "bi_get_key_ext hash fuel key w v =
     (let hv = hash key; w = upd_status (mc_hv2node hv) (\<lambda>p. p\<lparr>st_get := st_get p + 1\<rparr>) w
      in bindE (bi_assoc_find fuel key hv (tab w) v) (\<lambda>(it, v).
         bindE (if it \<noteq> NULL then Inr (it, v)
                else bindE (assoc_flush fuel hv (tab w) v) (\<lambda>v. bi_assoc_find fuel key hv (tab w) v)) (\<lambda>(it, v).
         if it \<noteq> NULL
         then let (i, v) = load_item it (tab w) v in Inr (Some (read_bytes (body i) (ITEM_data i) (nbytes i - 2)), w, v)
         else Inr (None, w, v))))"

section \<open>Views that become fresher\<close>

text \<open>Every value that a node sees is the one it saw before or the current one.\<close>

definition fresher :: "mc_store \<Rightarrow> mc_view \<Rightarrow> mc_view \<Rightarrow> bool" where
  "fresher st v v' \<longleftrightarrow> (\<forall>b. see_head v' st b = see_head v st b \<or> see_head v' st b = htable st b) \<and>
     (\<forall>a. see_item v' st a = see_item v st a \<or> see_item v' st a = items st a)"

definition same_view :: "mc_store \<Rightarrow> mc_view \<Rightarrow> mc_view \<Rightarrow> bool" where
  "same_view st v v' \<longleftrightarrow> see_head v' st = see_head v st \<and> see_item v' st = see_item v st"

lemma fresher_refl: "fresher st v v"
  by (simp add: fresher_def)

lemma fresher_trans: "fresher st v v1 \<Longrightarrow> fresher st v1 v2 \<Longrightarrow> fresher st v v2"
  unfolding fresher_def by metis

lemma same_view_fresher: "same_view st v v' \<Longrightarrow> fresher st v v'"
  by (simp add: same_view_def fresher_def)

lemma same_view_trans: "same_view st v v1 \<Longrightarrow> same_view st v1 v2 \<Longrightarrow> same_view st v v2"
  by (simp add: same_view_def)

lemma load_same:
  "same_view st v (snd (load_head b st v))" "same_view st v (snd (load_item a st v))"
  by (auto simp: same_view_def load_head_def load_item_def see_head_def see_item_def fun_eq_iff split: option.splits)

lemma flush_item_see: "see_item (flush_item a v) st = (see_item v st)(a := items st a)" "see_head (flush_item a v) st = see_head v st"
  by (auto simp: flush_item_def see_item_def see_head_def fun_eq_iff)

lemma flush_head_see: "see_head (flush_head b v) st b = htable st b" "see_item (flush_head b v) st = see_item v st"
    "see_head (flush_head b v) st b' = see_head v st b' \<or> see_head (flush_head b v) st b' = htable st b'"
  by (auto simp: flush_head_def see_head_def see_item_def fun_eq_iff)

lemma flush_fresher: "fresher st v (flush_item a v)" "fresher st v (flush_head b v)"
  by (auto simp: fresher_def flush_item_see flush_head_see(2) flush_head_see(3))

text \<open>A bucket is current in a view if the node sees its head and its items as they are.\<close>

definition current :: "tbl \<Rightarrow> mc_store \<Rightarrow> mc_view \<Rightarrow> nat \<Rightarrow> bool" where
  "current t st v b \<longleftrightarrow> see_head v st b = htable st b \<and> (\<forall>x \<in> snd ` set (t b). see_item v st x = items st x)"

lemma current_fresher: "current t st v b \<Longrightarrow> fresher st v v' \<Longrightarrow> current t st v' b"
  unfolding current_def fresher_def by metis

lemma flush_chain_spec:
  assumes "chain st a xs" and "length xs < f"
  shows "\<exists>v'. flush_chain f a st v = Inr v' \<and> fresher st v v' \<and> see_head v' st = see_head v st \<and> (\<forall>x \<in> set xs. see_item v' st x = items st x)"
  using assms
proof (induction xs arbitrary: a f v)
  case Nil
  then show ?case by (cases f) (auto simp: fresher_refl)
next
  case (Cons x xs)
  obtain g where f: "f = Suc g" using Cons.prems(2) by (cases f) auto
  obtain i v1 where l: "load_item a st (flush_item a v) = (i, v1)" by (cases "load_item a st (flush_item a v)")
  have i: "i = items st a" using l by (simp add: load_item_def flush_item_see)
  have s1: "same_view st (flush_item a v) v1" using load_same(2)[of st "flush_item a v" a] l by simp
  obtain v' where v': "flush_chain g (h_next i) st v1 = Inr v'" "fresher st v1 v'" "see_head v' st = see_head v1 st" "\<forall>y \<in> set xs. see_item v' st y = items st y"
    using Cons.IH[of "h_next i" g v1] Cons.prems i f by auto
  have "fresher st v v'" using fresher_trans[OF fresher_trans[OF flush_fresher(1) same_view_fresher[OF s1]] v'(2)] .
  moreover have "see_item v1 st x = items st x" using s1 Cons.prems(1) by (simp add: same_view_def flush_item_see)
  then have "see_item v' st x = items st x" using v'(2) unfolding fresher_def by metis
  moreover have "see_head v' st = see_head v st" using v'(3) s1 by (simp add: same_view_def flush_item_see)
  ultimately show ?case using v'(1,4) Cons.prems(1) f l by auto
qed

lemma assoc_flush_spec:
  assumes inv: "table_inv t st" and len: "length (t (bucket hv)) < fuel"
  shows "\<exists>v'. assoc_flush fuel hv st v = Inr v' \<and> fresher st v v' \<and> current t st v' (bucket hv)"
proof -
  let ?b = "bucket hv" and ?v = "flush_head (bucket hv) v"
  obtain a v1 where l: "load_head ?b st ?v = (a, v1)" by (cases "load_head ?b st ?v")
  have s1: "same_view st ?v v1" using load_same(1)[of st ?v ?b] l by simp
  have a: "a = htable st ?b" using l by (simp add: load_head_def flush_head_see)
  obtain v' where v': "flush_chain fuel a st v1 = Inr v'" "fresher st v1 v'" "see_head v' st = see_head v1 st"
      "\<forall>x \<in> set (map snd (t ?b)). see_item v' st x = items st x"
    using flush_chain_spec[OF table_invD(2)[OF inv, of ?b], of fuel v1] len a by auto
  have "fresher st v v'" using fresher_trans[OF fresher_trans[OF flush_fresher(2) same_view_fresher[OF s1]] v'(2)] .
  moreover have "current t st v' ?b" using v'(3,4) s1 flush_head_see(1)[of ?b v st] by (simp add: current_def same_view_def)
  ultimately show ?thesis using v'(1) l by (simp add: assoc_flush_def)
qed

section \<open>Looking up a key\<close>

text \<open>
  Links lead to older places of a chain, in memory and in every copy: new items enter at the head, and a
  replacement takes the place of the item that it replaces. \<open>rank\<close> counts the places.
\<close>

definition ordered :: "(addr \<Rightarrow> nat) \<Rightarrow> mc_store \<Rightarrow> mc_view \<Rightarrow> bool" where
  "ordered rank st v \<longleftrightarrow> (\<forall>a. (h_next (items st a) \<noteq> NULL \<longrightarrow> rank (h_next (items st a)) < rank a) \<and>
     (h_next (see_item v st a) \<noteq> NULL \<longrightarrow> rank (h_next (see_item v st a)) < rank a))"

lemma ordered_fresher: "ordered rank st v \<Longrightarrow> fresher st v v' \<Longrightarrow> ordered rank st v'"
  unfolding ordered_def fresher_def by metis

lemma ordered_see: "ordered rank st v \<Longrightarrow> h_next (see_item v st a) \<noteq> NULL \<Longrightarrow> rank (h_next (see_item v st a)) < rank a"
  by (simp add: ordered_def)

lemma view_find_loop_ends:
  assumes "ordered rank st v" and "a \<noteq> NULL \<longrightarrow> rank a + 1 < f" and "0 < f"
  shows "\<exists>it v'. view_find_loop f a key st v = Inr (it, v') \<and> same_view st v v' \<and> (it \<noteq> NULL \<longrightarrow> key_eq key (see_item v st it))"
  using assms
proof (induction f arbitrary: a v)
  case (Suc f)
  show ?case
  proof (cases "a = NULL")
    case True
    then show ?thesis by (auto simp: same_view_def)
  next
    case False
    obtain i v1 where l: "load_item a st v = (i, v1)" by (cases "load_item a st v")
    have i: "i = see_item v st a" using l by (simp add: load_item_def)
    have s1: "same_view st v v1" using load_same(2)[of st v a] l by simp
    show ?thesis
    proof (cases "key_eq key i")
      case True
      then show ?thesis using False l i s1 by auto
    next
      case nk: False
      have "ordered rank st v1" using ordered_fresher[OF Suc.prems(1) same_view_fresher[OF s1]] .
      moreover have "h_next i \<noteq> NULL \<longrightarrow> rank (h_next i) + 1 < f" using ordered_see[OF Suc.prems(1), of a] Suc.prems(2) False i by fastforce
      moreover have "0 < f" using Suc.prems(2) False by simp
      ultimately obtain it v' where "view_find_loop f (h_next i) key st v1 = Inr (it, v')" "same_view st v1 v'"
          "it \<noteq> NULL \<longrightarrow> key_eq key (see_item v1 st it)" using Suc.IH[of v1 "h_next i"] by blast
      then show ?thesis using False l nk same_view_trans[OF s1] s1 by (auto simp: same_view_def)
    qed
  qed
qed simp

lemma view_find_current:
  assumes "chain st a (map snd kas)" and "length kas < f" and "\<And>k a. (k, a) \<in> set kas \<Longrightarrow> item_key_bytes (items st a) = k"
    and "\<And>x. x \<in> snd ` set kas \<Longrightarrow> see_item v st x = items st x"
  shows "\<exists>v'. view_find_loop f a key st v = Inr (case map_of kas key of None \<Rightarrow> NULL | Some a \<Rightarrow> a, v') \<and> same_view st v v'"
  using assms
proof (induction kas arbitrary: a f v)
  case Nil
  then show ?case by (cases f) (auto simp: same_view_def)
next
  case (Cons ka kas)
  obtain k x where ka: "ka = (k, x)" by (cases ka)
  obtain g where f: "f = Suc g" using Cons.prems(2) by (cases f) auto
  obtain i v1 where l: "load_item x st v = (i, v1)" by (cases "load_item x st v")
  have i: "i = items st x" using l Cons.prems(4)[of x] ka by (simp add: load_item_def)
  have s1: "same_view st v v1" using load_same(2)[of st v x] l by simp
  have k: "item_key_bytes (items st x) = k" using Cons.prems(3) ka by simp
  show ?case
  proof (cases "k = key")
    case True
    then show ?thesis using Cons.prems(1) ka f l i k s1 by (auto simp: key_eq_iff)
  next
    case False
    obtain v' where "view_find_loop g (h_next i) key st v1 = Inr (case map_of kas key of None \<Rightarrow> NULL | Some a \<Rightarrow> a, v')" "same_view st v1 v'"
      using Cons.IH[of "h_next i" g v1] Cons.prems ka f i s1 by (auto simp: same_view_def)
    then show ?thesis using Cons.prems(1) ka f l i k False same_view_trans[OF s1] by (auto simp: key_eq_iff)
  qed
qed

lemma bi_assoc_find_ends:
  assumes o: "ordered rank st v" and r: "\<And>a. rank a + 1 < fuel"
  shows "\<exists>it v'. bi_assoc_find fuel key hv st v = Inr (it, v') \<and> same_view st v v' \<and> (it \<noteq> NULL \<longrightarrow> key_eq key (see_item v st it))"
proof -
  obtain a v1 where l: "load_head (bucket hv) st v = (a, v1)" by (cases "load_head (bucket hv) st v")
  have s1: "same_view st v v1" using load_same(1)[of st v "bucket hv"] l by simp
  have "0 < fuel" using r[of 0] by simp
  then obtain it v' where "view_find_loop fuel a key st v1 = Inr (it, v')" "same_view st v1 v'" "it \<noteq> NULL \<longrightarrow> key_eq key (see_item v1 st it)"
    using view_find_loop_ends[OF ordered_fresher[OF o same_view_fresher[OF s1]], of a fuel key] r by blast
  then show ?thesis using same_view_trans[OF s1] s1 l by (auto simp: bi_assoc_find_def same_view_def)
qed

lemma bi_assoc_find_current:
  assumes inv: "table_inv t st" and len: "length (t (bucket hv)) < fuel" and c: "current t st v (bucket hv)"
  shows "\<exists>v'. bi_assoc_find fuel key hv st v = Inr (case tbl_map t (bucket hv, key) of None \<Rightarrow> NULL | Some a \<Rightarrow> a, v') \<and> same_view st v v'"
proof -
  obtain a v1 where l: "load_head (bucket hv) st v = (a, v1)" by (cases "load_head (bucket hv) st v")
  have s1: "same_view st v v1" using load_same(1)[of st v "bucket hv"] l by simp
  have a: "a = htable st (bucket hv)" using l c by (simp add: load_head_def current_def)
  have "see_item v1 st x = items st x" if "x \<in> snd ` set (t (bucket hv))" for x using c s1 that by (auto simp: current_def same_view_def)
  from view_find_current[OF table_invD(2)[OF inv] len table_invD(3)[OF inv, where b = "bucket hv"] this]
  obtain v' where "view_find_loop fuel a key st v1 = Inr (case map_of (t (bucket hv)) key of None \<Rightarrow> NULL | Some a \<Rightarrow> a, v')" "same_view st v1 v'"
    unfolding a by blast
  then show ?thesis using same_view_trans[OF s1] l by (auto simp: bi_assoc_find_def tbl_map_def)
qed

lemma chain_rank:
  assumes "ordered rank st v" and "chain st a xs"
  shows "length xs \<le> (if a = NULL then 0 else rank a + 1)"
  using assms(2)
proof (induction xs arbitrary: a)
  case (Cons x xs)
  have "length xs \<le> (if h_next (items st x) = NULL then 0 else rank (h_next (items st x)) + 1)"
    using Cons.IH[of "h_next (items st x)"] Cons.prems by simp
  moreover have "h_next (items st x) \<noteq> NULL \<longrightarrow> rank (h_next (items st x)) < rank x" using assms(1) by (simp add: ordered_def)
  ultimately show ?case using Cons.prems by (auto split: if_splits)
qed simp

lemma bucket_short:
  assumes "table_inv t st" and "ordered rank st v" and "\<And>a. rank a + 1 < fuel"
  shows "length (t b) < fuel"
  using chain_rank[OF assms(2) table_invD(2)[OF assms(1), of b]] assms(3)[of "htable st b"] by (simp split: if_splits)


section \<open>Freed items\<close>

text \<open>The items that a reader passes from an address on, as it sees their links.\<close>

fun vchain :: "mc_store \<Rightarrow> mc_view \<Rightarrow> addr \<Rightarrow> addr list \<Rightarrow> bool" where
  "vchain st v a [] \<longleftrightarrow> a = NULL"
| "vchain st v a (x # xs) \<longleftrightarrow> a = x \<and> a \<noteq> NULL \<and> vchain st v (h_next (see_item v st x)) xs"

definition hidden :: "mc_store \<Rightarrow> mc_view \<Rightarrow> nat \<Rightarrow> addr \<Rightarrow> bool" where
  "hidden st v b s \<longleftrightarrow> (\<forall>xs. vchain st v (see_head v st b) xs \<longrightarrow> s \<notin> set xs)"

lemma vchain_same: "see_item v' st = see_item v st \<Longrightarrow> vchain st v' a xs = vchain st v a xs"
  by (induction xs arbitrary: a) auto

lemma vchain_current:
  assumes "chain st a xs" and "\<And>x. x \<in> set xs \<Longrightarrow> see_item v st x = items st x" and "vchain st v a ys"
  shows "ys = xs"
  using assms
proof (induction xs arbitrary: a ys)
  case Nil
  then show ?case by (cases ys) auto
next
  case (Cons x xs)
  then show ?case by (cases ys) auto
qed

lemma current_hidden:
  assumes inv: "table_inv t st" and c: "current t st v b" and s: "s \<notin> linked t"
  shows "hidden st v b s"
proof -
  have "s \<notin> set ys" if y: "vchain st v (see_head v st b) ys" for ys
  proof -
    have "chain st (see_head v st b) (map snd (t b))" using table_invD(2)[OF inv, of b] c by (simp add: current_def)
    then have "ys = map snd (t b)" by (rule vchain_current) (use c y in \<open>auto simp: current_def\<close>)
    then show ?thesis using s by (auto simp: linked_def)
  qed
  then show ?thesis by (simp add: hidden_def)
qed

lemma same_hidden: "same_view st v v' \<Longrightarrow> hidden st v' b s = hidden st v b s"
  using vchain_same[of v' st v] by (simp add: same_view_def hidden_def)

lemma flush_opt_loop_spec:
  assumes inv: "table_inv t st" and len: "length (t (bucket hv)) < fuel"
    and "ordered rank st v" and "a \<noteq> NULL \<longrightarrow> rank a + 1 < f" and "0 < f"
  shows "\<exists>v'. flush_opt_loop fuel f a hv it st v = Inr v' \<and> fresher st v v' \<and>
     (current t st v' (bucket hv) \<or> same_view st v v' \<and> (\<forall>xs. vchain st v a xs \<longrightarrow> it \<notin> set xs))"
  using assms(3-)
proof (induction f arbitrary: a v)
  case (Suc f)
  show ?case
  proof (cases "a = NULL")
    case True
    then have "\<forall>xs. vchain st v a xs \<longrightarrow> it \<notin> set xs" by (metis empty_iff list.set(1) vchain.elims(2))
    then show ?thesis using True fresher_refl[of st v] by (simp add: same_view_def)
  next
    case nn: False
    show ?thesis
    proof (cases "a = it")
      case True
      then show ?thesis using nn assoc_flush_spec[OF inv len, of v] by auto
    next
      case False
      obtain i v1 where l: "load_item a st v = (i, v1)" by (cases "load_item a st v")
      have i: "i = see_item v st a" using l by (simp add: load_item_def)
      have s1: "same_view st v v1" using load_same(2)[of st v a] l by simp
      have "ordered rank st v1" using ordered_fresher[OF Suc.prems(1) same_view_fresher[OF s1]] .
      moreover have "h_next i \<noteq> NULL \<longrightarrow> rank (h_next i) + 1 < f" using ordered_see[OF Suc.prems(1), of a] Suc.prems(2) nn i by fastforce
      moreover have "0 < f" using Suc.prems(2) nn by simp
      ultimately obtain v' where v': "flush_opt_loop fuel f (h_next i) hv it st v1 = Inr v'" "fresher st v1 v'"
          "current t st v' (bucket hv) \<or> same_view st v1 v' \<and> (\<forall>xs. vchain st v1 (h_next i) xs \<longrightarrow> it \<notin> set xs)"
        using Suc.IH[of v1 "h_next i"] by blast
      have "it \<notin> set xs" if "\<forall>xs. vchain st v1 (h_next i) xs \<longrightarrow> it \<notin> set xs" "vchain st v a xs" for xs
        using that False i vchain_same[of v1 st v] s1 by (cases xs) (auto simp: same_view_def)
      then have "current t st v' (bucket hv) \<or> same_view st v v' \<and> (\<forall>xs. vchain st v a xs \<longrightarrow> it \<notin> set xs)"
        using v'(3) same_view_trans[OF s1, of v'] by blast
      then show ?thesis using fresher_trans[OF same_view_fresher[OF s1] v'(2)] v'(1) nn False l by auto
    qed
  qed
qed simp

lemma assoc_flush_opt_spec:
  assumes inv: "table_inv t st" and o: "ordered rank st v" and r: "\<And>a. rank a + 1 < fuel"
  shows "\<exists>v'. assoc_flush_opt fuel hv it st v = Inr v' \<and> fresher st v v' \<and>
     (current t st v' (bucket hv) \<or> same_view st v v' \<and> hidden st v (bucket hv) it)"
proof -
  obtain a v1 where l: "load_head (bucket hv) st v = (a, v1)" by (cases "load_head (bucket hv) st v")
  have a: "a = see_head v st (bucket hv)" using l by (simp add: load_head_def)
  have s1: "same_view st v v1" using load_same(1)[of st v "bucket hv"] l by simp
  have "0 < fuel" using r[of 0] by simp
  then obtain v' where v': "flush_opt_loop fuel fuel a hv it st v1 = Inr v'" "fresher st v1 v'"
      "current t st v' (bucket hv) \<or> same_view st v1 v' \<and> (\<forall>xs. vchain st v1 a xs \<longrightarrow> it \<notin> set xs)"
    using flush_opt_loop_spec[OF inv bucket_short[OF inv o r] ordered_fresher[OF o same_view_fresher[OF s1]], of a fuel hv it] r by blast
  have "hidden st v (bucket hv) it" if "\<forall>xs. vchain st v1 a xs \<longrightarrow> it \<notin> set xs"
    using that vchain_same[of v1 st v] s1 a by (simp add: hidden_def same_view_def)
  then show ?thesis
    using v' l fresher_trans[OF same_view_fresher[OF s1] v'(2)] same_view_trans[OF s1, of v'] by (auto simp: assoc_flush_opt_def)
qed

lemma flush_entry_spec:
  assumes inv: "table_inv t st" and o: "ordered rank st v" and r: "\<And>a. rank a + 1 < fuel"
  shows "\<exists>v'. flush_entry fuel s st v = Inr v' \<and> fresher st v v' \<and>
     (s \<noteq> NULL \<longrightarrow> see_item v' st s = items st s \<and> (s \<notin> linked t \<longrightarrow> hidden st v' (bucket (it_hv (see_item v st s))) s))"
proof (cases "s = NULL")
  case True
  then show ?thesis using fresher_refl[of st v] by (simp add: flush_entry_def)
next
  case False
  obtain i v1 where l: "load_item s st v = (i, v1)" by (cases "load_item s st v")
  have i: "i = see_item v st s" using l by (simp add: load_item_def)
  have s1: "same_view st v v1" using load_same(2)[of st v s] l by simp
  have f2: "fresher st v (flush_item s v1)" using fresher_trans[OF same_view_fresher[OF s1] flush_fresher(1)] .
  obtain v' where v': "assoc_flush_opt fuel (it_hv i) s st (flush_item s v1) = Inr v'" "fresher st (flush_item s v1) v'"
      "current t st v' (bucket (it_hv i)) \<or> same_view st (flush_item s v1) v' \<and> hidden st (flush_item s v1) (bucket (it_hv i)) s"
    using assoc_flush_opt_spec[OF inv ordered_fresher[OF o f2] r] by blast
  have "see_item v' st s = items st s" using v'(2) unfolding fresher_def by (metis flush_item_see(1) fun_upd_same)
  moreover have "hidden st v' (bucket (it_hv i)) s" if "s \<notin> linked t"
    using v'(3) current_hidden[OF inv _ that] same_hidden by blast
  ultimately show ?thesis using fresher_trans[OF f2 v'(2)] v'(1) l i False by (auto simp: flush_entry_def)
qed

lemma vchain_ex:
  assumes "ordered rank st v"
  shows "\<exists>xs. vchain st v a xs"
proof (induction "if a = NULL then 0 else rank a + 1" arbitrary: a rule: less_induct)
  case less
  show ?case
  proof (cases "a = NULL")
    case True
    then have "vchain st v a []" by simp
    then show ?thesis ..
  next
    case False
    let ?n = "h_next (see_item v st a)"
    have "(if ?n = NULL then 0 else rank ?n + 1) < (if a = NULL then 0 else rank a + 1)"
      using ordered_see[OF assms, of a] False by auto
    then obtain xs where "vchain st v ?n xs" using less by blast
    then have "vchain st v a (a # xs)" using False by simp
    then show ?thesis ..
  qed
qed

lemma view_find_on:
  assumes "view_find_loop f a key st v = Inr (it, v')" and "it \<noteq> NULL" and "vchain st v a xs"
  shows "it \<in> set xs"
  using assms
proof (induction f arbitrary: a v xs)
  case (Suc f)
  obtain i v1 where l: "load_item a st v = (i, v1)" by (cases "load_item a st v")
  have i: "i = see_item v st a" using l by (simp add: load_item_def)
  have s1: "see_item v1 st = see_item v st" using load_same(2)[of st v a] l by (simp add: same_view_def)
  show ?case
  proof (cases xs)
    case (Cons x ys)
    then have "vchain st v1 (h_next i) ys" using Suc.prems(3) i vchain_same[OF s1] by simp
    then show ?thesis using Suc.IH[of "h_next i" v1 ys] Suc.prems Cons l by (auto split: if_splits)
  qed (use Suc.prems in auto)
qed simp

lemma hidden_not_found:
  assumes o: "ordered rank st v" and r: "\<And>a. rank a + 1 < fuel" and h: "hidden st v (bucket hv) s" and s: "s \<noteq> NULL"
  shows "\<exists>it v'. bi_assoc_find fuel key hv st v = Inr (it, v') \<and> it \<noteq> s"
proof -
  obtain a v1 where l: "load_head (bucket hv) st v = (a, v1)" by (cases "load_head (bucket hv) st v")
  have a: "a = see_head v st (bucket hv)" using l by (simp add: load_head_def)
  have s1: "see_item v1 st = see_item v st" using load_same(1)[of st v "bucket hv"] l by (simp add: same_view_def)
  obtain it v' where f: "bi_assoc_find fuel key hv st v = Inr (it, v')" using bi_assoc_find_ends[OF o r] by blast
  then have "view_find_loop fuel a key st v1 = Inr (it, v')" using l by (simp add: bi_assoc_find_def)
  moreover obtain xs where "vchain st v a xs" using vchain_ex[OF o] by blast
  moreover from this have "vchain st v1 a xs" using vchain_same[OF s1] by simp
  ultimately have "it = NULL \<or> it \<in> set xs \<and> s \<notin> set xs" using view_find_on h a unfolding hidden_def by metis
  then show ?thesis using f s by auto
qed

section \<open>Flushing the rings\<close>

definition seen_ring :: "mc_view \<Rightarrow> 'm bi_world \<Rightarrow> nat \<Rightarrow> mc_ring" where
  "seen_ring v w i = (qsc_list w i)\<lparr>qhead := fst (see_ends v w i), qtail := snd (see_ends v w i)\<rparr>"

lemma flush_chain_vends: "flush_chain f a st v = Inr v' \<Longrightarrow> vends v' = vends v"
  by (induction f arbitrary: a v) (fastforce simp: load_item_def flush_item_def split: if_splits)+

lemma assoc_flush_vends: "assoc_flush fuel hv st v = Inr v' \<Longrightarrow> vends v' = vends v"
  by (auto simp: assoc_flush_def load_head_def flush_head_def dest!: flush_chain_vends)

lemma flush_opt_loop_vends: "flush_opt_loop fuel f a hv it st v = Inr v' \<Longrightarrow> vends v' = vends v"
  by (induction f arbitrary: a v) (fastforce simp: load_item_def dest: assoc_flush_vends split: if_splits)+

lemma flush_entry_vends: "flush_entry fuel s st v = Inr v' \<Longrightarrow> vends v' = vends v"
  by (auto simp: flush_entry_def assoc_flush_opt_def load_item_def load_head_def flush_item_def dest!: flush_opt_loop_vends split: if_splits)

lemma ring_flush_loop_spec:
  assumes inv: "table_inv t st" and r: "\<And>a. rank a + 1 < fuel"
    and "ordered rank st v" and "i < QUIS_NUM" and "te < QUIS_NUM" and "ring_dist QUIS_NUM i te < n"
  shows "\<exists>v'. ring_flush_loop fuel n rng te i st v = Inr v' \<and> fresher st v v' \<and> vends v' = vends v \<and>
     (\<forall>s \<in> rng ` set (ring_slots QUIS_NUM i (ring_dist QUIS_NUM i te)). s \<noteq> NULL \<longrightarrow> see_item v' st s = items st s)"
  using assms(3-)
proof (induction n arbitrary: i v)
  case (Suc n)
  show ?case
  proof (cases "i = te")
    case True
    then show ?thesis using fresher_refl[of st v] by simp
  next
    case False
    let ?j = "(i + 1) mod QUIS_NUM"
    obtain v1 where v1: "flush_entry fuel (rng i) st v = Inr v1" "fresher st v v1" "rng i \<noteq> NULL \<longrightarrow> see_item v1 st (rng i) = items st (rng i)"
      using flush_entry_spec[OF inv Suc.prems(1) r] by blast
    have d: "ring_dist QUIS_NUM i te = Suc (ring_dist QUIS_NUM ?j te)" using ring_dist_Suc_head[of i QUIS_NUM te] Suc.prems False by simp
    obtain v' where v': "ring_flush_loop fuel n rng te ?j st v1 = Inr v'" "fresher st v1 v'" "vends v' = vends v1"
        "\<forall>s \<in> rng ` set (ring_slots QUIS_NUM ?j (ring_dist QUIS_NUM ?j te)). s \<noteq> NULL \<longrightarrow> see_item v' st s = items st s"
      using Suc.IH[of v1 ?j] ordered_fresher[OF Suc.prems(1) v1(2)] Suc.prems d by auto
    have "rng i \<noteq> NULL \<longrightarrow> see_item v' st (rng i) = items st (rng i)" using v1(3) v'(2) unfolding fresher_def by metis
    then show ?thesis
      using v1(1) v'(1,3,4) fresher_trans[OF v1(2) v'(2)] flush_entry_vends[OF v1(1)] False Suc.prems(2) by (simp add: d ring_slots_Cons)
  qed
qed simp

lemma load_ends_see: "see_head (snd (load_ends i w v)) st = see_head v st" "see_item (snd (load_ends i w v)) st = see_item v st"
    "see_ends (snd (load_ends i w v)) w = see_ends v w" "fst (load_ends i w v) = see_ends v w i"
  by (auto simp: load_ends_def see_head_def see_item_def see_ends_def fun_eq_iff)

lemma load_ends_same: "same_view st v (snd (load_ends i w v))"
  by (simp add: same_view_def load_ends_see)

lemma vends_see: "vends v' = vends v \<Longrightarrow> see_ends v' w = see_ends v w"
  by (auto simp: see_ends_def)

lemma mcq_flush_spec:
  assumes inv: "table_inv t (tab w)" and o: "ordered rank (tab w) v" and r: "\<And>a. rank a + 1 < fuel"
    and e: "fst (see_ends v w i) < QUIS_NUM" "snd (see_ends v w i) < QUIS_NUM"
  shows "\<exists>v'. mcq_flush fuel i w v = Inr v' \<and> fresher (tab w) v v' \<and> see_ends v' w = see_ends v w \<and>
     (\<forall>s \<in> set (mcq_items (seen_ring v w i)). s \<noteq> NULL \<longrightarrow> see_item v' (tab w) s = items (tab w) s)"
proof -
  obtain h te v1 where l: "load_ends i w v = ((h, te), v1)" by (metis prod.collapse)
  have s1: "same_view (tab w) v v1" "see_ends v1 w = see_ends v w" "see_ends v w i = (h, te)"
    using load_ends_same[of "tab w" v i w] load_ends_see(3,4)[of i w v] l by auto
  have lt: "h < QUIS_NUM" "te < QUIS_NUM" using e s1(3) by simp_all
  obtain v' where v': "ring_flush_loop fuel QUIS_NUM (qslot (qsc_list w i)) te h (tab w) v1 = Inr v'" "fresher (tab w) v1 v'" "vends v' = vends v1"
      "\<forall>s \<in> qslot (qsc_list w i) ` set (ring_slots QUIS_NUM h (ring_dist QUIS_NUM h te)). s \<noteq> NULL \<longrightarrow> see_item v' (tab w) s = items (tab w) s"
    using ring_flush_loop_spec[OF inv r ordered_fresher[OF o same_view_fresher[OF s1(1)]] lt ring_dist_less, of "qslot (qsc_list w i)"] by auto
  then show ?thesis
    using fresher_trans[OF same_view_fresher[OF s1(1)] v'(2)] vends_see[OF v'(3), of w] s1 l
    by (simp add: mcq_flush_def mcq_items_def mcq_len_def seen_ring_def)
qed

lemma hashtbl_flush_spec:
  assumes "table_inv t (tab w)" and "ordered rank (tab w) v" and "\<And>a. rank a + 1 < fuel"
    and "\<And>i. fst (see_ends v w i) < QUIS_NUM" and "\<And>i. snd (see_ends v w i) < QUIS_NUM"
  shows "\<exists>v'. mc_hashtbl_flush fuel w v =
       Inr (length (mcq_items (seen_ring v w 0)) + length (mcq_items (seen_ring v w 1)), v') \<and>
     fresher (tab w) v v' \<and> see_ends v' w = see_ends v w \<and>
     (\<forall>i < MC_SERVERS. \<forall>s \<in> set (mcq_items (seen_ring v w i)). s \<noteq> NULL \<longrightarrow> see_item v' (tab w) s = items (tab w) s)"
proof -
  let ?st = "tab w" and ?v2 = "snd (load_ends 1 w (snd (load_ends 0 w v)))"
  have s2: "same_view ?st v ?v2" "see_ends ?v2 w = see_ends v w"
    using same_view_trans[OF load_ends_same load_ends_same] by (auto simp: load_ends_see)
  have sr: "seen_ring v' w = seen_ring v w" if "see_ends v' w = see_ends v w" for v' using that by (simp add: seen_ring_def fun_eq_iff)
  have f2: "fresher ?st v ?v2" using same_view_fresher[OF s2(1)] .
  obtain v3 where v3: "mcq_flush fuel 0 w ?v2 = Inr v3" "fresher ?st ?v2 v3" "see_ends v3 w = see_ends v w"
      "\<forall>s \<in> set (mcq_items (seen_ring v w 0)). s \<noteq> NULL \<longrightarrow> see_item v3 ?st s = items ?st s"
    using mcq_flush_spec[OF assms(1) ordered_fresher[OF assms(2) f2] assms(3), of 0] assms(4,5) s2(2) sr[OF s2(2)] by auto
  note f3 = fresher_trans[OF f2 v3(2)]
  obtain v4 where v4: "mcq_flush fuel 1 w v3 = Inr v4" "fresher ?st v3 v4" "see_ends v4 w = see_ends v w"
      "\<forall>s \<in> set (mcq_items (seen_ring v w 1)). s \<noteq> NULL \<longrightarrow> see_item v4 ?st s = items ?st s"
    using mcq_flush_spec[OF assms(1) ordered_fresher[OF assms(2) f3] assms(3), of 1] assms(4,5) v3(3) sr[OF v3(3)] by auto
  have "\<forall>s \<in> set (mcq_items (seen_ring v w 0)). s \<noteq> NULL \<longrightarrow> see_item v4 ?st s = items ?st s"
    using v3(4) v4(2) unfolding fresher_def by metis
  moreover have "ring_count (see_ends v w i) = length (mcq_items (seen_ring v w i))" for i
    by (simp add: ring_count_def mcq_items_def mcq_len_def seen_ring_def ring_dist_def add.commute)
  ultimately show ?thesis
    using fresher_trans[OF f3 v4(2)] v3(1) v4 by (auto simp: mc_hashtbl_flush_def load_ends_see split_beta less_2_cases_iff)
qed

section \<open>Properties\<close>



section \<open>An outdated view\<close>

text \<open>
  The table holds one item at address 5000. The item at 6000 has been unlinked and is in the ring of node 0;
  a node still sees it as the only item of the bucket.
\<close>

definition sample_item :: "u8 \<Rightarrow> item" where
  "sample_item k = \<lparr>it_next = 0, it_prev = 0, h_next = 0, recency = 0, it_hv = 0, exptime = 0, nbytes = 3, refcount = 0,
     nsuffix = 0, it_flags = 0, slabs_clsid = 0, nkey = 1, body = (\<lambda>i. if i = 0 then k else 36)\<rparr>"

definition sample_tbl :: tbl where
  "sample_tbl = (\<lambda>b. if b = 0 then [([7], 5000)] else [])"

definition sample_store :: mc_store where
  "sample_store = \<lparr>htable = (\<lambda>b. if b = 0 then 5000 else NULL), items = (\<lambda>a. if a = 5000 then sample_item 7 else sample_item 9), pool = []\<rparr>"

definition sample_world :: "(addr list \<times> nat list) bi_world" where
  "sample_world = (empty_world [] 0)\<lparr>tab := sample_store,
     qsc_list := (\<lambda>n. \<lparr>qhead = 0, qtail = if n = 0 then 1 else 0, qslot = (\<lambda>i. if n = 0 \<and> i = 0 then 6000 else NULL)\<rparr>)\<rparr>"

definition sample_view :: mc_view where
  "sample_view = \<lparr>vhead = [0 \<mapsto> 6000], vitem = [6000 \<mapsto> sample_item 9], vends = (\<lambda>_. None)\<rparr>"

lemma sample_inv: "table_inv sample_tbl sample_store"
  by (auto simp: table_inv_def tbl_ok_def sample_tbl_def sample_store_def sample_item_def item_key_bytes_def read_bytes_def ITEM_key_def)

lemma sample_ordered: "ordered (\<lambda>_. 0) sample_store sample_view"
  by (auto simp: ordered_def sample_store_def sample_view_def sample_item_def see_item_def split: option.splits)

lemma sample_tab: "tab sample_world = sample_store"
  by (simp add: sample_world_def)




end
