(* ===== verification/Bi_Mc_Server.thy ===== *)
theory Bi_Mc_Server
  imports Bi_Mc_View
begin

unbundle bit_operations_syntax

text \<open>
  Start-up, server loop and clients of the service on non-coherent memory: \<^verbatim>\<open>mc_init\<close>,
  \<^verbatim>\<open>mc_server_start\<close>, \<^verbatim>\<open>mc_set_key_ext\<close>, \<^verbatim>\<open>mc_disconnect\<close> and the client calls of \<^verbatim>\<open>test.c\<close>.

  A message carries the address of key and value, which the client has written back and the server
  flushes before it reads them; here it carries the bytes. \<^verbatim>\<open>rpc_send\<close> and \<^verbatim>\<open>rpc_recv\<close> are not in the
  repository: they are the functions of \<open>mc_net\<close> over a state of any type, and \<open>net_contract\<close>
  states what the service relies on. The clock stands still during one turn of the server loop, and
  \<^verbatim>\<open>kernel_flush\<close> does not touch the data modelled here.
\<close>

section \<open>Messages\<close>

datatype bi_mtype = MC_MSG_GET | MC_MSG_SET | MC_MSG_GET_OK | MC_MSG_GET_FAIL | MC_MSG_SET_OK | MC_MSG_SET_FAIL |
  MC_MEM_REQ | MC_MEM_REPLY | MC_BEGIN | MC_EXIT

record bi_msg =
  b_type :: bi_mtype
  b_id :: nat
  b_hv :: u32
  b_key :: "u8 list"
  b_data :: "u8 list"

record 'n mc_net =
  net_send :: "nat \<Rightarrow> nat \<Rightarrow> bi_msg \<Rightarrow> 'n \<Rightarrow> int \<times> 'n"
  net_recv :: "nat \<Rightarrow> bool \<Rightarrow> 'n \<Rightarrow> bi_msg option \<times> 'n"

record 'm bi_server =
  sv_w :: "'m bi_world"
  sv_view :: mc_view
  prev0 :: u64
  prev1 :: u64
  sv_no :: nat

section \<open>Start-up\<close>

abbreviation INIT_MEM_SZ :: nat where "INIT_MEM_SZ \<equiv> 304087040"

text \<open>
  \<open>a0\<close> and \<open>a1\<close> are the areas that \<^verbatim>\<open>alloc_pages\<close> returns for the two nodes, \<open>its\<close> is what the memory holds and
  \<open>m\<close> the state of the slab allocator and of the cleared bitmaps.
\<close>

definition init_node :: "'m mc_env \<Rightarrow> nat \<Rightarrow> addr \<Rightarrow> 'm bi_world \<Rightarrow> 'm bi_world result" where
  "init_node E i a w =
     bindE (mem_free_pages E a INIT_MEM_SZ i w) (\<lambda>w. Inr (upd_status i (\<lambda>_. mc_status_init (of_nat INIT_MEM_SZ)) w))"

definition mc_init :: "'m mc_env \<Rightarrow> addr \<Rightarrow> addr \<Rightarrow> (addr \<Rightarrow> item) \<Rightarrow> (addr \<Rightarrow> u64) \<Rightarrow> 'm \<Rightarrow> u64 \<Rightarrow> 'm bi_world result" where
  "mc_init E a0 a1 its tsc m tm =
     (let w = \<lparr>tab = \<lparr>htable = (\<lambda>_. NULL), items = its, pool = []\<rparr>, tsc_free = tsc,
                qsc_list = (\<lambda>_. \<lparr>qhead = 0, qtail = 0, qslot = (\<lambda>_. NULL)\<rparr>),
                status = (\<lambda>_. mc_status_init 0), memst = m, bi_loading = False, now = tm\<rparr>
      in bindE (init_node E 0 a0 w) (\<lambda>w.
         bindE (init_node E 1 a1 w) (\<lambda>w. Inr (w\<lparr>bi_loading := True\<rparr>))))"

section \<open>Server loop\<close>

text \<open>What only a node itself writes it has current copies of: its buckets, its objects and its ring.\<close>

definition own_view :: "'m mc_env \<Rightarrow> nat \<Rightarrow> mc_view \<Rightarrow> mc_view" where
  "own_view E cur v = \<lparr>vhead = (\<lambda>b. if mc_hv2node (of_nat b) = cur then None else vhead v b),
     vitem = (\<lambda>a. if obj_core E a = cur then None else vitem v a), vends = (vends v)(cur := None)\<rparr>"

text \<open>The balancing of memory is compiled out: \<^verbatim>\<open>MC_NO_MEM_BALANCE\<close> is defined.\<close>

definition mc_mem_balance :: "nat \<Rightarrow> 'm bi_world \<Rightarrow> 'm bi_world" where
  "mc_mem_balance cur w = w"

definition mc_mem_sent :: "nat \<Rightarrow> bi_msg \<Rightarrow> 'm bi_server \<Rightarrow> 'm bi_server result" where
  "mc_mem_sent cur msg s = Inl Assert_fail"

definition mc_mem_recv :: "nat \<Rightarrow> bi_msg \<Rightarrow> 'm bi_server \<Rightarrow> 'm bi_server result" where
  "mc_mem_recv cur msg s = Inl Assert_fail"

definition flush_timer :: "'m mc_env \<Rightarrow> nat \<Rightarrow> nat \<Rightarrow> 'm bi_server \<Rightarrow> 'm bi_server result" where
  "flush_timer E fuel cur s =
     (let t = now (sv_w s); s = (if prev0 s = 0 then s\<lparr>prev0 := t\<rparr> else s)
      in if t - prev0 s > MC_HASH_FLUSH_PEROID
         then bindE (mem_smr_reclaim E cur (sv_w s)) (\<lambda>(_, w).
              bindE (mc_hashtbl_flush fuel w (own_view E cur (sv_view s))) (\<lambda>(r, v).
              Inr (s\<lparr>sv_w := w, sv_view := v, sv_no := sv_no s + r, prev0 := t\<rparr>)))
         else Inr s)"

definition balance_timer :: "'m mc_env \<Rightarrow> nat \<Rightarrow> 'm bi_server \<Rightarrow> 'm bi_server result" where
  "balance_timer E cur s =
     (let t = now (sv_w s); s = (if prev1 s = 0 then s\<lparr>prev1 := t\<rparr> else s)
      in if t - prev1 s > MC_MEM_BALANCE_PEROID
         then bindE (mem_smr_reclaim E cur (sv_w s)) (\<lambda>(_, w).
              Inr (s\<lparr>sv_w := mc_mem_balance cur w, sv_view := own_view E cur (sv_view s), prev1 := t\<rparr>))
         else Inr s)"

definition on_set_msg :: "'m mc_env \<Rightarrow> 'n mc_net \<Rightarrow> nat \<Rightarrow> nat \<Rightarrow> bi_msg \<Rightarrow> 'm bi_server \<Rightarrow> 'n \<Rightarrow> ('m bi_server \<times> 'n) result" where
  "on_set_msg E N fuel cur rcv s net =
     bindE (assertE (b_id rcv \<ge> MC_SERVERS)) (\<lambda>_.
     bindE (mc_set_key_rcv E fuel cur (b_key rcv) (b_data rcv) (b_hv rcv) (sv_w s)) (\<lambda>(r, w).
     bindE (assertE (r = 0)) (\<lambda>_.
     let ret = \<lparr>b_type = (if r = 0 then MC_MSG_SET_OK else MC_MSG_SET_FAIL), b_id = cur, b_hv = 0, b_key = [], b_data = []\<rparr>;
         (r, net) = net_send N cur (b_id rcv) ret net
     in bindE (assertE (r = 0)) (\<lambda>_. Inr (s\<lparr>sv_w := w, sv_view := own_view E cur (sv_view s)\<rparr>, net)))))"

text \<open>The first component of a result says whether the loop goes on.\<close>

definition bi_handle :: "'m mc_env \<Rightarrow> 'n mc_net \<Rightarrow> nat \<Rightarrow> nat \<Rightarrow> bi_msg \<Rightarrow> 'm bi_server \<Rightarrow> 'n \<Rightarrow> (bool \<times> 'm bi_server \<times> 'n) result" where
  "bi_handle E N fuel cur rcv s net = (case b_type rcv of
     MC_MSG_SET \<Rightarrow> bindE (on_set_msg E N fuel cur rcv s net) (\<lambda>(s, net). Inr (True, s, net))
   | MC_MEM_REQ \<Rightarrow> bindE (assertE (int (b_id rcv) = 1 - int cur)) (\<lambda>_. bindE (mc_mem_sent cur rcv s) (\<lambda>s. Inr (True, s, net)))
   | MC_MEM_REPLY \<Rightarrow> bindE (assertE (int (b_id rcv) = 1 - int cur)) (\<lambda>_. bindE (mc_mem_recv cur rcv s) (\<lambda>s. Inr (True, s, net)))
   | MC_EXIT \<Rightarrow> bindE (assertE (b_id rcv \<ge> MC_SERVERS)) (\<lambda>_. Inr (False, s, net))
   | MC_MSG_GET \<Rightarrow> Inl Assert_fail
   | _ \<Rightarrow> Inr (True, s, net))"

definition bi_event_step :: "'m mc_env \<Rightarrow> 'n mc_net \<Rightarrow> nat \<Rightarrow> nat \<Rightarrow> 'm bi_server \<Rightarrow> 'n \<Rightarrow> (bool \<times> 'm bi_server \<times> 'n) result" where
  "bi_event_step E N fuel cur s net =
     bindE (flush_timer E fuel cur s) (\<lambda>s.
     bindE (balance_timer E cur s) (\<lambda>s.
     let (rcv, net) = net_recv N cur False net
     in case rcv of None \<Rightarrow> Inr (True, s, net) | Some m \<Rightarrow> bi_handle E N fuel cur m s net))"

section \<open>Clients\<close>

definition bi_set_send :: "'n mc_net \<Rightarrow> nat \<Rightarrow> nat \<Rightarrow> u8 list \<Rightarrow> u8 list \<Rightarrow> u32 \<Rightarrow> 'n \<Rightarrow> 'n result" where
  "bi_set_send N caller node key data hv net =
     (let (r, net) = net_send N caller node \<lparr>b_type = MC_MSG_SET, b_id = caller, b_hv = hv, b_key = key, b_data = data\<rparr> net
      in bindE (assertE (r = 0)) (\<lambda>_. Inr net))"

definition bi_set_reply :: "'n mc_net \<Rightarrow> nat \<Rightarrow> nat \<Rightarrow> 'n \<Rightarrow> (int \<times> 'n) result" where
  "bi_set_reply N caller node net =
     (case net_recv N caller True net of
        (None, net) \<Rightarrow> Inl Assert_fail
      | (Some ret, net) \<Rightarrow> bindE (assertE (b_id ret = node)) (\<lambda>_. bindE (assertE (b_type ret = MC_MSG_SET_OK)) (\<lambda>_. Inr (0, net))))"

text \<open>\<^verbatim>\<open>client_set_key\<close> up to the point where it waits, and after it.\<close>

definition bi_client_set :: "(u8 list \<Rightarrow> u32) \<Rightarrow> 'n mc_net \<Rightarrow> nat \<Rightarrow> u8 list \<Rightarrow> u8 list \<Rightarrow> 'n \<Rightarrow> 'n result" where
  "bi_client_set hash N cur key data net = bi_set_send N cur (mc_hv2node (hash key)) key data (hash key) net"

definition bi_client_set_done :: "(u8 list \<Rightarrow> u32) \<Rightarrow> 'n mc_net \<Rightarrow> nat \<Rightarrow> u8 list \<Rightarrow> 'n \<Rightarrow> (int \<times> 'n) result" where
  "bi_client_set_done hash N cur key net =
     bindE (bi_set_reply N cur (mc_hv2node (hash key)) net) (\<lambda>(rcv, net). bindE (assertE (rcv = 0)) (\<lambda>_. Inr (rcv, net)))"

abbreviation MC_LOADING :: nat where "MC_LOADING \<equiv> 99"

definition bi_disconnect :: "'n mc_net \<Rightarrow> nat \<Rightarrow> nat \<Rightarrow> 'm bi_world \<Rightarrow> 'n \<Rightarrow> 'm bi_world \<times> 'n" where
  "bi_disconnect N caller server w net =
     (if server = MC_LOADING then (w\<lparr>bi_loading := False\<rparr>, net)
      else (w, snd (net_send N caller server \<lparr>b_type = MC_EXIT, b_id = caller, b_hv = 0, b_key = [], b_data = []\<rparr> net)))"

section \<open>Contract of the transport\<close>

text \<open>\<open>box\<close> holds the messages that a node has not received yet.\<close>

definition net_contract :: "'n mc_net \<Rightarrow> (nat \<Rightarrow> 'n \<Rightarrow> bi_msg list) \<Rightarrow> bool" where
  "net_contract N box \<longleftrightarrow>
     (\<forall>c d m s. box d s = [] \<longrightarrow> (\<exists>s'. net_send N c d m s = (0, s') \<and> box d s' = [m] \<and> (\<forall>k. k \<noteq> d \<longrightarrow> box k s' = box k s))) \<and>
     (\<forall>c sp s m ms. box c s = m # ms \<longrightarrow> (\<exists>s'. net_recv N c sp s = (Some m, s') \<and> box c s' = ms \<and> (\<forall>k. k \<noteq> c \<longrightarrow> box k s' = box k s)))"

lemma net_sendE:
  assumes "net_contract N box" and "box d s = []"
  obtains s' where "net_send N c d m s = (0, s')" "box d s' = [m]" "\<And>k. k \<noteq> d \<Longrightarrow> box k s' = box k s"
  using assms unfolding net_contract_def by meson

lemma net_recvE:
  assumes "net_contract N box" and "box c s = m # ms"
  obtains s' where "net_recv N c sp s = (Some m, s')" "box c s' = ms" "\<And>k. k \<noteq> c \<Longrightarrow> box k s' = box k s"
  using assms unfolding net_contract_def by meson

section \<open>Timers\<close>

definition ends_ok :: "mc_view \<Rightarrow> bool" where
  "ends_ok v \<longleftrightarrow> (\<forall>i e. vends v i = Some e \<longrightarrow> fst e < QUIS_NUM \<and> snd e < QUIS_NUM)"

lemma own_view_fresher: "fresher st v (own_view E cur v)"
  by (auto simp: fresher_def own_view_def see_head_def see_item_def)

lemma own_view_ends: "ends_ok v \<Longrightarrow> ends_ok (own_view E cur v)"
  by (auto simp: ends_ok_def own_view_def split: if_splits)

lemma ends_ok_see:
  assumes "ends_ok v" and "bi_inv E good avail spare t w"
  shows "fst (see_ends v w i) < QUIS_NUM" "snd (see_ends v w i) < QUIS_NUM"
  using assms(1) node_invD(1)[OF bi_invD(3)[OF assms(2), of i]]
  by (auto simp: ends_ok_def see_ends_def mcq_wf_def split: option.splits)

text \<open>What the timers may change: the ring of the node loses quiesced objects.\<close>

definition tidied :: "'m mc_env \<Rightarrow> ('m \<Rightarrow> bool) \<Rightarrow> 'm objs \<Rightarrow> 'm objs \<Rightarrow> tbl \<Rightarrow> 'm bi_server \<Rightarrow> 'm bi_server \<Rightarrow> bool" where
  "tidied E good avail spare t s s' \<longleftrightarrow> bi_inv E good avail spare t (sv_w s') \<and> keeps_held E t (sv_w s) t (sv_w s') \<and> tab (sv_w s') = tab (sv_w s)"

lemma flush_timer_spec:
  assumes con: "slab_contract E good avail spare" "bitmap_contract E good avail spare" and n: "n < MC_SERVERS"
    and inv: "bi_inv E good avail spare t (sv_w s)" and o: "ordered rank (tab (sv_w s)) (sv_view s)" and r: "\<And>a. rank a + 1 < fuel"
    and e: "ends_ok (sv_view s)"
  shows "\<exists>s'. flush_timer E fuel n s = Inr s' \<and> tidied E good avail spare t s s'"
proof -
  obtain i w where w: "mem_smr_reclaim E n (sv_w s) = Inr (i, w)" "bi_inv E good avail spare t w" "keeps_held E t (sv_w s) t w" "tab w = tab (sv_w s)"
    using mem_smr_reclaim_keeps[OF con n inv] by blast
  let ?v = "own_view E n (sv_view s)"
  have tin: "table_inv t (tab w)" using w(2) store_invD(1) by (auto simp: bi_inv_def items_inv_def)
  have ord: "ordered rank (tab w) ?v" using ordered_fresher[OF o own_view_fresher] w(4) by simp
  obtain r v where "mc_hashtbl_flush fuel w ?v = Inr (r, v)"
    using hashtbl_flush_spec[OF tin ord r ends_ok_see[OF own_view_ends[OF e] w(2)]] by blast
  then show ?thesis
    using w inv keeps_held_refl[of E t "sv_w s"] by (auto simp: flush_timer_def tidied_def Let_def)
qed

lemma balance_timer_spec:
  assumes con: "slab_contract E good avail spare" "bitmap_contract E good avail spare" and n: "n < MC_SERVERS"
    and inv: "bi_inv E good avail spare t (sv_w s)"
  shows "\<exists>s'. balance_timer E n s = Inr s' \<and> tidied E good avail spare t s s'"
proof -
  obtain i w where w: "mem_smr_reclaim E n (sv_w s) = Inr (i, w)" "bi_inv E good avail spare t w" "keeps_held E t (sv_w s) t w" "tab w = tab (sv_w s)"
    using mem_smr_reclaim_keeps[OF con n inv] by blast
  then show ?thesis
    using inv keeps_held_refl[of E t "sv_w s"] by (auto simp: balance_timer_def mc_mem_balance_def tidied_def Let_def)
qed

lemma tidied_trans: "tidied E good avail spare t s s1 \<Longrightarrow> tidied E good avail spare t s1 s2 \<Longrightarrow> tidied E good avail spare t s s2"
  using keeps_held_trans unfolding tidied_def by fastforce

lemma timers_idle:
  assumes "prev0 s = 0 \<or> now (sv_w s) - prev0 s \<le> MC_HASH_FLUSH_PEROID" and "prev1 s = 0 \<or> now (sv_w s) - prev1 s \<le> MC_MEM_BALANCE_PEROID"
  shows "\<exists>s1 s2. flush_timer E fuel n s = Inr s1 \<and> balance_timer E n s1 = Inr s2 \<and> sv_w s2 = sv_w s"
proof -
  let ?s1 = "if prev0 s = 0 then s\<lparr>prev0 := now (sv_w s)\<rparr> else s"
  let ?s2 = "if prev1 ?s1 = 0 then ?s1\<lparr>prev1 := now (sv_w s)\<rparr> else ?s1"
  have "flush_timer E fuel n s = Inr ?s1" using assms(1) by (cases "prev0 s = 0") (auto simp: flush_timer_def Let_def simp flip: not_less)
  moreover have "balance_timer E n ?s1 = Inr ?s2"
    using assms(2) by (cases "prev0 s = 0"; cases "prev1 s = 0") (auto simp: balance_timer_def Let_def simp flip: not_less)
  moreover have "sv_w ?s2 = sv_w s" by simp
  ultimately show ?thesis by blast
qed

section \<open>Requests\<close>

lemma on_set_msg_spec:
  assumes con: "slab_contract E good avail spare" "bitmap_contract E good avail spare"
    and inv: "bi_inv E good avail spare t (sv_w s)" and g: "after_grace (sv_w s)" and len: "\<And>b. length (t b) < fuel"
    and m: "mc_hv2node (b_hv m) = n" "length (b_key m) = KEY_LENGTH" "length (b_data m) = V_LENGTH"
  shows "runs (on_set_msg E N fuel n m s net) (\<lambda>(s', net'). \<exists>t'. bi_inv E good avail spare t' (sv_w s') \<and> keeps_held E t (sv_w s) t' (sv_w s'))"
proof -
  have n: "n < MC_SERVERS" using m(1) by (auto simp: mc_hv2node_def)
  note S = mc_set_key_rcv_spec(1)[OF con n inv g len m]
  have "runs (case x of (r, w) \<Rightarrow> bindE (assertE (r = 0)) (\<lambda>_.
       let ret = \<lparr>b_type = (if r = 0 then MC_MSG_SET_OK else MC_MSG_SET_FAIL), b_id = n, b_hv = 0, b_key = [], b_data = []\<rparr>;
           (r, net) = net_send N n (b_id m) ret net
       in bindE (assertE (r = 0)) (\<lambda>_. Inr (s\<lparr>sv_w := w, sv_view := own_view E n (sv_view s)\<rparr>, net))))
      (\<lambda>(s', net'). \<exists>t'. bi_inv E good avail spare t' (sv_w s') \<and> keeps_held E t (sv_w s) t' (sv_w s'))"
    if "\<exists>t'. bi_inv E good avail spare t' (snd x) \<and> keeps_held E t (sv_w s) t' (snd x)" for x
    unfolding Let_def split_beta by (intro runs_assert) (use that in simp)
  moreover have "runs (mc_set_key_rcv E fuel n (b_key m) (b_data m) (b_hv m) (sv_w s))
      (\<lambda>x. \<exists>t'. bi_inv E good avail spare t' (snd x) \<and> keeps_held E t (sv_w s) t' (snd x))"
    using S by (rule runs_mono) (auto simp: set_done_def)
  ultimately show ?thesis unfolding on_set_msg_def by (intro runs_assert) (rule runs_bind)
qed

text \<open>Under the conditions of an exact SET the server stores the value and answers.\<close>

lemma on_set_msg_exact:
  assumes con: "slab_contract E good avail spare" "bitmap_contract E good avail spare"
    and inv: "bi_inv E good avail spare t (sv_w s)" and g: "after_grace (sv_w s)" and len: "\<And>b. length (t b) < fuel"
    and m: "mc_hv2node (b_hv m) = n" "length (b_key m) = KEY_LENGTH" "length (b_data m) = V_LENGTH" "MC_SERVERS \<le> b_id m"
    and room: "avail n (memst (sv_w s)) \<noteq> {}" "mcq_len (qsc_list (sv_w s) n) < QUIS_NUM - 1"
    and net: "net_contract N box" "box (b_id m) net = []"
  shows "\<exists>s' net' t'. on_set_msg E N fuel n m s net = Inr (s', net') \<and> bi_inv E good avail spare t' (sv_w s') \<and>
    store_map t' (tab (sv_w s')) = (store_map t (tab (sv_w s)))((bucket (b_hv m), b_key m) \<mapsto> b_data m) \<and> keeps_held E t (sv_w s) t' (sv_w s') \<and>
    box (b_id m) net' = [\<lparr>b_type = MC_MSG_SET_OK, b_id = n, b_hv = 0, b_key = [], b_data = []\<rparr>] \<and> (\<forall>k. k \<noteq> b_id m \<longrightarrow> box k net' = box k net)"
proof -
  have n: "n < MC_SERVERS" using m(1) by (auto simp: mc_hv2node_def)
  note S = mc_set_key_rcv_spec[OF con n inv g len m(1-3)]
  obtain w' where w': "mc_set_key_rcv E fuel n (b_key m) (b_data m) (b_hv m) (sv_w s) = Inr (0, w')" using S(3) room by blast
  obtain t' where t': "bi_inv E good avail spare t' w'" "keeps_held E t (sv_w s) t' w'"
      "store_map t' (tab w') = (store_map t (tab (sv_w s)))((bucket (b_hv m), b_key m) \<mapsto> b_data m)"
    using S(1) room(1) w' by (auto simp: set_done_def)
  obtain net' where "net_send N n (b_id m) \<lparr>b_type = MC_MSG_SET_OK, b_id = n, b_hv = 0, b_key = [], b_data = []\<rparr> net = (0, net')"
      "box (b_id m) net' = [\<lparr>b_type = MC_MSG_SET_OK, b_id = n, b_hv = 0, b_key = [], b_data = []\<rparr>]" "\<And>k. k \<noteq> b_id m \<Longrightarrow> box k net' = box k net"
    using net_sendE[OF net] by blast
  then show ?thesis using w' t' m(4) by (auto simp: on_set_msg_def assertE_def)
qed

section \<open>Properties\<close>


text \<open>C14: a SET of a client runs to its end: the client sends, one turn of the loop of the server of the key stores
  the value and answers, and the client returns 0. Nothing but the key changes, readers lose nothing,
  and no message is left over.\<close>

theorem bi_set_round:
  assumes "slab_contract E good avail spare" and "bitmap_contract E good avail spare" and "n = mc_hv2node (hash key)"
    and "bi_inv E good avail spare t (sv_w s)" and "mem_quiesce (now (sv_w s)) < now (sv_w s)" and "\<And>b. length (t b) < fuel"
    and "length key = KEY_LENGTH" and "length data = V_LENGTH" and "MC_SERVERS \<le> c"
    and "avail n (memst (sv_w s)) \<noteq> {}" and "mcq_len (qsc_list (sv_w s) n) < QUIS_NUM - 1"
    and "prev0 s = 0 \<or> now (sv_w s) - prev0 s \<le> MC_HASH_FLUSH_PEROID" and "prev1 s = 0 \<or> now (sv_w s) - prev1 s \<le> MC_MEM_BALANCE_PEROID"
    and "net_contract N box" and "box c net = []" and "box n net = []"
  shows "\<exists>net1 s' net2 net3 t'. bi_client_set hash N c key data net = Inr net1 \<and> bi_event_step E N fuel n s net1 = Inr (True, s', net2) \<and>
    bi_client_set_done hash N c key net2 = Inr (0, net3) \<and> box c net3 = [] \<and> box n net3 = [] \<and> bi_inv E good avail spare t' (sv_w s') \<and>
    store_map t' (tab (sv_w s')) = (store_map t (tab (sv_w s)))((bucket (hash key), key) \<mapsto> data) \<and>
    (\<forall>a. held E t (sv_w s) a \<longrightarrow> held E t' (sv_w s') a \<and> same_bytes (items (tab (sv_w s)) a) (items (tab (sv_w s')) a))"
proof -
  have n: "n < MC_SERVERS" using assms(3) by (simp add: mc_hv2node_def)
  let ?m = "\<lparr>b_type = MC_MSG_SET, b_id = c, b_hv = hash key, b_key = key, b_data = data\<rparr>"
  obtain net1 where 1: "net_send N c n ?m net = (0, net1)" "box n net1 = [?m]" "\<And>k. k \<noteq> n \<Longrightarrow> box k net1 = box k net" using net_sendE[OF assms(14,16)] by blast
  obtain net2 where 2: "net_recv N n False net1 = (Some ?m, net2)" "box n net2 = []" "\<And>k. k \<noteq> n \<Longrightarrow> box k net2 = box k net1" using net_recvE[OF assms(14) 1(2)] by blast
  have bc: "box c net2 = []" using 1(3) 2(3) assms(9,15) n by simp
  obtain s1 s2 where s: "flush_timer E fuel n s = Inr s1" "balance_timer E n s1 = Inr s2" "sv_w s2 = sv_w s" using timers_idle[OF assms(12,13)] by blast
  obtain s' net3 t' where 3: "on_set_msg E N fuel n ?m s2 net2 = Inr (s', net3)" "bi_inv E good avail spare t' (sv_w s')"
      "store_map t' (tab (sv_w s')) = (store_map t (tab (sv_w s)))((bucket (hash key), key) \<mapsto> data)" "keeps_held E t (sv_w s) t' (sv_w s')"
      "box c net3 = [\<lparr>b_type = MC_MSG_SET_OK, b_id = n, b_hv = 0, b_key = [], b_data = []\<rparr>]" "\<And>k. k \<noteq> c \<Longrightarrow> box k net3 = box k net2"
    using on_set_msg_exact[OF assms(1,2), of t s2 fuel ?m n N box net2] assms s(3) bc by (auto simp: after_grace_def)
  obtain net4 where 4: "net_recv N c True net3 = (Some \<lparr>b_type = MC_MSG_SET_OK, b_id = n, b_hv = 0, b_key = [], b_data = []\<rparr>, net4)" "box c net4 = []"
      "\<And>k. k \<noteq> c \<Longrightarrow> box k net4 = box k net3" using net_recvE[OF assms(14) 3(5)] by blast
  have "bi_client_set hash N c key data net = Inr net1" using 1(1) assms(3) by (simp add: bi_client_set_def bi_set_send_def assertE_def)
  moreover have "bi_event_step E N fuel n s net1 = Inr (True, s', net3)" using s 2(1) 3(1) by (simp add: bi_event_step_def bi_handle_def)
  moreover have "bi_client_set_done hash N c key net3 = Inr (0, net4)" using 4(1) assms(3) by (simp add: bi_client_set_done_def bi_set_reply_def assertE_def)
  moreover have "box n net4 = []" using 2(2) 3(6) 4(3) n assms(9) by simp
  ultimately show ?thesis using 3(2-4) 4(2) unfolding keeps_held_def by blast
qed

text \<open>Start-up succeeds on two adjacent areas of zeroed memory and establishes the invariant with an
  empty table; every node has its share of the memory as its target and the loading phase begins.\<close>

theorem mc_init_inv:
  assumes "a0 mod PAGE_SIZE = 0" and "trac_base E = a0" and "a1 = a0 + INIT_MEM_SZ"
    and "m' = bm_set E 1 (INIT_MEM_SZ div PAGE_SIZE) (INIT_MEM_SZ div PAGE_SIZE) (bm_set E 0 0 (INIT_MEM_SZ div PAGE_SIZE) m)"
    and "good m'" and "\<And>n. avail n m' \<inter> spare n m' = {}" and "\<And>a. slabs_clsid (its a) = 0 \<and> it_flags (its a) = 0"
  shows "\<exists>w. mc_init E a0 a1 its tsc m tm = Inr w \<and> bi_inv E good avail spare (\<lambda>_. []) w \<and> memst w = m' \<and> bi_loading w \<and>
    (\<forall>n < MC_SERVERS. status w n = mc_status_init (of_nat INIT_MEM_SZ))"
proof -
  define w where "w = \<lparr>tab = \<lparr>htable = (\<lambda>_. NULL), items = its, pool = []\<rparr>, tsc_free = tsc,
     qsc_list = (\<lambda>_. \<lparr>qhead = 0, qtail = 0, qslot = (\<lambda>_. NULL)\<rparr>),
     status = (\<lambda>_. mc_status_init 0)(0 := mc_status_init (of_nat INIT_MEM_SZ), 1 := mc_status_init (of_nat INIT_MEM_SZ)),
     memst = m', bi_loading = True, now = tm\<rparr>"
  have "a1 mod PAGE_SIZE = 0" using assms(1,3) by (simp add: mod_add_eq[symmetric] del: mod_add_eq)
  moreover have "(a1 - a0) div PAGE_SIZE = INIT_MEM_SZ div PAGE_SIZE" using assms(3) by simp
  ultimately have "mc_init E a0 a1 its tsc m tm = Inr w"
    using assms(1,2,4) by (simp add: mc_init_def init_node_def mem_free_pages_def assertE_def upd_status_def w_def fun_eq_iff)
  moreover have "bi_inv E good avail spare (\<lambda>_. []) w"
    using assms(5-7)
    by (auto simp: bi_inv_def w_def items_inv_def store_inv_def table_inv_def tbl_ok_def linked_def node_inv_def mcq_wf_def mcq_items_def mcq_len_def)
  ultimately show ?thesis by (auto simp: w_def less_2_cases_iff)
qed

section \<open>Witnesses\<close>

definition list_net :: "(nat \<Rightarrow> bi_msg list) mc_net" where
  "list_net = \<lparr>net_send = (\<lambda>c d m s. (0, s(d := s d @ [m]))),
     net_recv = (\<lambda>c sp s. case s c of [] \<Rightarrow> (None, s) | m # ms \<Rightarrow> (Some m, s(c := ms)))\<rparr>"

lemma list_net_contract: "net_contract list_net (\<lambda>n s. s n)"
  by (auto simp: net_contract_def list_net_def)

definition idle_server :: "(addr list \<times> nat list) bi_server" where
  "idle_server = \<lparr>sv_w = empty_world [5000] 200000000, sv_view = \<lparr>vhead = (\<lambda>_. None), vitem = (\<lambda>_. None), vends = (\<lambda>_. None)\<rparr>,
     prev0 = 1, prev1 = 199999999, sv_no = 0\<rparr>"

lemma idle_server_facts:
  "bi_inv list_env list_good list_avail list_spare (\<lambda>_. []) (sv_w idle_server)"
  "mem_quiesce (now (sv_w idle_server)) < now (sv_w idle_server)"
  "list_avail 0 (memst (sv_w idle_server)) \<noteq> {}" "mcq_len (qsc_list (sv_w idle_server) 0) < QUIS_NUM - 1"
  "ordered (\<lambda>_. 0) (tab (sv_w idle_server)) (sv_view idle_server)" "ends_ok (sv_view idle_server)"
  using empty_world_inv[of "[5000]" 200000000]
  by (simp_all add: idle_server_def mem_quiesce_def list_avail_def empty_world_def mcq_len_def ordered_def see_item_def ends_ok_def)


theorem bi_set_round_witness:
  "\<exists>net1 s' net2 net3. bi_client_set (\<lambda>_. 0) list_net 2 (replicate 16 7) (replicate 32 36) (\<lambda>_. []) = Inr net1 \<and>
     bi_event_step list_env list_net 1 0 (idle_server\<lparr>prev0 := 0\<rparr>) net1 = Inr (True, s', net2) \<and>
     bi_client_set_done (\<lambda>_. 0) list_net 2 (replicate 16 7) net2 = Inr (0, net3)"
proof -
  define K D :: "u8 list" where "K = replicate 16 7" and "D = replicate 32 36"
  have kd: "length K = KEY_LENGTH" "length D = V_LENGTH" by (simp_all add: K_def D_def)
  let ?s = "idle_server\<lparr>prev0 := 0\<rparr>"
  have h: "0 = mc_hv2node ((\<lambda>_. 0) K)" by (simp add: mc_hv2node_def)
  have f: "bi_inv list_env list_good list_avail list_spare (\<lambda>_. []) (sv_w ?s)" "mem_quiesce (now (sv_w ?s)) < now (sv_w ?s)"
      "list_avail 0 (memst (sv_w ?s)) \<noteq> {}" "mcq_len (qsc_list (sv_w ?s) 0) < QUIS_NUM - 1" using idle_server_facts by simp_all
  have p: "prev0 ?s = 0 \<or> now (sv_w ?s) - prev0 ?s \<le> MC_HASH_FLUSH_PEROID" "prev1 ?s = 0 \<or> now (sv_w ?s) - prev1 ?s \<le> MC_MEM_BALANCE_PEROID"
    by (simp_all add: idle_server_def empty_world_def)
  have "\<exists>net1 s' net2 net3. bi_client_set (\<lambda>_. 0) list_net 2 K D (\<lambda>_. []) = Inr net1 \<and>
     bi_event_step list_env list_net 1 0 ?s net1 = Inr (True, s', net2) \<and> bi_client_set_done (\<lambda>_. 0) list_net 2 K net2 = Inr (0, net3)"
    using bi_set_round[OF list_slab_contract list_bitmap_contract h f(1,2) _ kd _ f(3,4) p list_net_contract, of 1 2 "\<lambda>_. []"] by auto
  then show ?thesis unfolding K_def D_def .
qed

theorem mc_init_inv_witness:
  "\<exists>w. mc_init list_env PAGE_SIZE (PAGE_SIZE + INIT_MEM_SZ) (\<lambda>_. sample_item 0) (\<lambda>_. 0) ([], []) 0 = Inr w \<and>
     bi_inv list_env list_good list_avail list_spare (\<lambda>_. []) w"
proof -
  let ?m = "bm_set list_env 1 (INIT_MEM_SZ div PAGE_SIZE) (INIT_MEM_SZ div PAGE_SIZE) (bm_set list_env 0 0 (INIT_MEM_SZ div PAGE_SIZE) ([], []))"
  have "list_good ?m" "\<And>n. list_avail n ?m \<inter> list_spare n ?m = {}" "trac_base list_env = PAGE_SIZE"
    by (simp_all add: list_env_def list_good_def list_avail_def)
  from mc_init_inv[where good = list_good and avail = list_avail and spare = list_spare and its = "\<lambda>_. sample_item 0" and tsc = "\<lambda>_. 0" and tm = 0, OF _ this(3) refl refl this(1,2)]
  show ?thesis by (auto simp: sample_item_def)
qed

end
