(* ===== verification/Spec2Isabelle.thy ===== *)
theory Spec2Isabelle
  imports Bi_Malloc Smr_Protocol Bi_Server Noncc_Cache Rpc Hw_Util Mem_Mgr Ps_Slab Tree_Service Atomic_Obj Jenkins Mc_2pc Mp_Mc Bi_Mc_Server
begin

text \<open>
  Verification of the BI library (bounded incoherence) and of the programs built on it.

  \<^bold>\<open>The program.\<close> Several nodes share one memory, but their caches are not coherent. The library makes
  shared data structures usable there: a writer publishes with write-backs, readers may see stale
  data for a bounded time, and memory is reused only after that time. From the bottom up:

  \<^item> \<^verbatim>\<open>include/noncc-cache_util.h\<close>, \<^verbatim>\<open>include/bi_pointer.h\<close>: line flushes, write-backs and the three
    kinds of pointer dereference. Theory \<^verbatim>\<open>Noncc_Cache\<close>: a memory, one cache per node, the
    instructions as functions, evictions and prefetches by the hardware as a step relation.
  \<^item> \<^verbatim>\<open>include/hw_util.h\<close>, \<^verbatim>\<open>libs/util/hw_util.c\<close>: rounding, identities, global time, core map, trace
    decoding. Theory \<^verbatim>\<open>Hw_Util\<close>.
  \<^item> \<^verbatim>\<open>include/mem_mgr.h\<close>, \<^verbatim>\<open>libs/mem/mem_mgr.c\<close>: the layout of the shared memory and the page allocator.
    Theory \<^verbatim>\<open>Mem_Mgr\<close>.
  \<^item> \<^verbatim>\<open>include/ps_list.h\<close>: intrusive rings. Theory \<^verbatim>\<open>Ps_List\<close>.
  \<^item> \<^verbatim>\<open>include/bi_slab.h\<close>, \<^verbatim>\<open>libs/bi/bi_slab.c\<close>: slabs carved out of pages, two rings of slabs per class.
    Theory \<^verbatim>\<open>Slab\<close>, on the rings of \<^verbatim>\<open>Ps_List\<close> and the page list of \<^verbatim>\<open>Mem_Mgr\<close>.
  \<^item> \<^verbatim>\<open>libs/mem/bi_malloc.c\<close>: a block allocator with size classes. Theory \<^verbatim>\<open>Bi_Malloc\<close>.
  \<^item> \<^verbatim>\<open>include/bi_smr.h\<close>, \<^verbatim>\<open>libs/bi/bi_smr.c\<close>: reclamation. Freed objects wait in a local cache and a
    quiescence ring (theory \<^verbatim>\<open>Qsc_Ring\<close>) until no reader of any node can still use them (theories
    \<^verbatim>\<open>Smr\<close>, the operations, and \<^verbatim>\<open>Smr_Protocol\<close>, all nodes together).
  \<^item> \<^verbatim>\<open>include/rpc.h\<close>, \<^verbatim>\<open>libs/rpc/rpc.c\<close>: message rings between the nodes. Theory \<^verbatim>\<open>Rpc\<close>.
  \<^item> \<^verbatim>\<open>rb_tree/cbtree.c\<close>, \<^verbatim>\<open>rb_tree/imple_bi.c\<close>: a weight-balanced tree that copies what it rotates and
    hands the replaced nodes to reclamation. Theories \<^verbatim>\<open>Cbtree\<close> (the code and a functional
    reference) and \<^verbatim>\<open>Cbtree_Map\<close> (what it means).
  \<^item> \<^verbatim>\<open>mc_code\<close>: three key-value services. Theory \<^verbatim>\<open>Jenkins\<close> is their hash function, \<^verbatim>\<open>Mc_Rpc\<close> the
    transport of the two that pass messages (\<^verbatim>\<open>share/rpc.h\<close>), \<^verbatim>\<open>Mc_Store\<close> their hash table and items
    (\<^verbatim>\<open>servers/assoc.c\<close>, \<^verbatim>\<open>servers/items.c\<close>), \<^verbatim>\<open>Mc_2pc\<close> the service with a copy on every server
    (\<^verbatim>\<open>2pc_mc\<close>), \<^verbatim>\<open>Mp_Mc\<close> the service that splits the keys (\<^verbatim>\<open>mp_mc\<close>). Theory \<^verbatim>\<open>Bi_Mc\<close> is
    the service on non-coherent memory (\<^verbatim>\<open>bi_mc\<close>).

  \<^bold>\<open>How the model is written.\<close> Structures are records and typed memory is one map from addresses per
  structure. An operation takes the state and returns the new one; a failed \<^verbatim>\<open>assert\<close>, a \<^verbatim>\<open>NULL\<close>
  access, a loop that never ends and exhausted fuel are the values of \<^typ>\<open>c_error\<close> on the left of a
  sum. Time stamps, hash values and sizes whose wrap-around matters are words, or naturals with the
  remainder written out. Third-party code and code of the platform is an argument of the
  definitions that call it. Theory \<^verbatim>\<open>BI_Prelude\<close> holds the shared types, the result monad and the
  rule collections.

  \<^bold>\<open>Interfaces.\<close> Theory \<^verbatim>\<open>Fifo\<close> has the contract of a bounded queue (\<open>bounded_fifo\<close>) and of a channel
  with admissible messages (\<open>fifo_channel\<close>, which every bounded queue is); what a client may conclude,
  for instance that any interleaving of sends and receives keeps the order, is proved there once. The
  quiescence ring (\<open>qring\<close>), the queues of the servers (\<open>spsc\<close>) and the message rings (\<open>rpc_chan\<close>) are
  instances. Theory \<^verbatim>\<open>Kv_Map\<close> has the contract of a finite map behind a search structure; the tree
  (\<open>bb\<close>) and the chained hash table (\<open>ht\<close>) are instances. \<^verbatim>\<open>Smr_Protocol\<close> states as \<open>grace_budget\<close> the
  timing that reclamation relies on and proves safety from it; \<open>bi\<close> is the instance with the
  constants of \<^verbatim>\<open>bi_smr.h\<close>.

  \<^bold>\<open>What is shown.\<close>

  \<^item> Reclamation: no step of the protocol takes back an object that a reader of any node holds
    (\<open>reclaim_safe\<close>); \<^verbatim>\<open>bi_smr_reclaim\<close> frees exactly the quiesced prefix of the ring in order;
    \<^verbatim>\<open>bi_quiesce\<close> is the minimum over the readers less the bound; the flush operations publish times
    and cover all logged objects; a put into the local cache loses nothing.
  \<^item> Allocators: under an invariant on free lists, rings and counters that every operation keeps,
    an allocation returns memory disjoint from all live objects, freeing returns it, and freed
    memory is handed out again; the areas of the memory layout are disjoint, initialised as documented,
    and a page is never given to two owners.
  \<^item> Messages: a ring is a queue while at most \<open>MSG_NUM\<close> messages are under way, polling receives
    the oldest message, a receive that spins returns once a message is there; in the servers an
    outdated copy of the other side's index does no harm.
  \<^item> Caches: after a publish on one node an aggressive dereference on another reads the published
    bytes; a lazy dereference may read stale ones; a range operation touches exactly the lines of
    the range.
  \<^item> Tree: insertion, deletion and search implement a finite map; a deletion hands every node that it
    unlinks to reclamation once and no node that is still linked.
  \<^item> Key-value services: the hash depends on the content of the key only and its mixing step can be
    undone; in the two-phase service a SET brings the stores of both servers to the same map and a GET
    returns what was stored; in the message-passing service a SET never fails after loading, because
    eviction makes room, and its round trip ends.
  \<^item> Error behaviour, as theorems on concrete or general states: time 0 as an announcement, the
    wrap-around of the quiescence bound near time 0, an overrun message ring, slabs with a single object,
    the imbalance of the tree after insertions, concurrent SETs of one key in the two-phase service.

  \<^bold>\<open>Fuel.\<close> Loops with an evident measure are structural or carry a termination proof. Recursion over the
  tree takes fuel, and any amount above the height of the tree is enough; a search in a hash chain
  takes fuel above the length of the chain; the loops over slab lists take fuel above the
  number of slabs. The theorems state these bounds and conclude that the operation returns a result.
  A spinning receive takes the number of polls, and the theorem says after which it returns.

  \<^bold>\<open>Not modelled.\<close> Process start-up, file mapping, thread affinity and barriers
  (\<^verbatim>\<open>libs/bi/bi_init.c\<close>, parts of \<^verbatim>\<open>hw_util.c\<close> and \<^verbatim>\<open>mem_mgr.c\<close>) are calls into the operating system;
  the MCS locks come from a third-party library, so that the page and block allocators are verified
  for one call at a time; \<^verbatim>\<open>libs/rcu\<close> wraps a modified third-party library; \<^verbatim>\<open>cc-cache_util.h\<close> has
  empty bodies; benchmark loops, tests, latency counters and printing
  have no state of their own. The parts of the two-phase server under \<^verbatim>\<open>KEY_SKEW\<close> are not compiled.
  The slab allocator of the key-value servers is an earlier version of \<^verbatim>\<open>bi_slab.c\<close>; the item
  store uses its contract, a list of free objects. Fences have no counterpart, because the
  model performs the instructions of a node in program order.
\<close>

end
